(* ===== verification/Prelude.thy ===== *)
theory Prelude
  imports Main "HOL-Library.Word" "HOL-Library.Multiset" "HOL-Library.Product_Lexorder"
begin

text \<open>
  What every component of the kernel model shares: the C integer types of
  src/src/common.h, the ways a kernel routine can fail to return a value, the
  sequencing of fallible routines, and the facts on words, lists and byte
  arrays that the component theories use.
\<close>

unbundle bit_operations_syntax

text \<open>Pairs are compared as a whole: the proofs use order laws, not components.\<close>

declare less_prod_simp [simp del] less_eq_prod_simp [simp del]

section \<open>Machine types of common.h\<close>

type_synonym u8 = "8 word"
type_synonym u16 = "16 word"
type_synonym u32 = "32 word"

text \<open>A signed integer is the same 32 bits; where its sign matters it is read by \<open>sint\<close>.\<close>

type_synonym s32 = "32 word"

section \<open>Failure of a kernel routine\<close>

text \<open>
  \<open>assert\<close> and \<open>panic\<close> of src/src/util/util.c print a message and then spin for
  ever: the caller never gets control back.  A fault is an access the C code
  does not guard: a null pointer or an index outside an array, or an address without a page
  (the processor's page fault).  \<open>Spins\<close> is a walk over a list that never comes to
  its end.
\<close>

datatype error =
    Assert_failed string
  | Panic string
  | Null_deref
  | Out_of_bounds
  | Page_fault
  | Spins

type_synonym 'a res = "error + 'a"

definition rbind :: "'a res \<Rightarrow> ('a \<Rightarrow> 'b res) \<Rightarrow> 'b res" where
  "rbind m f = (case m of Inl e \<Rightarrow> Inl e | Inr x \<Rightarrow> f x)"

lemma rbind_Inl [simp]: "rbind (Inl e) f = Inl e"
  by (simp add: rbind_def)

lemma rbind_Inr [simp]: "rbind (Inr x) f = f x"
  by (simp add: rbind_def)

lemma rbind_eq_Inr [simp]: "rbind m f = Inr y \<longleftrightarrow> (\<exists>x. m = Inr x \<and> f x = Inr y)"
  by (cases m) auto

lemma rbind_cong [fundef_cong]:
  "m = m' \<Longrightarrow> (\<And>x. m' = Inr x \<Longrightarrow> f x = f' x) \<Longrightarrow> rbind m f = rbind m' f'"
  by (cases m') auto

text \<open>\<open>assert(condition, message)\<close>: continue when the condition holds.\<close>

definition kassert :: "bool \<Rightarrow> string \<Rightarrow> unit res" where
  "kassert c msg = (if c then Inr () else Inl (Assert_failed msg))"

lemma kassert_True [simp]: "kassert True msg = Inr ()"
  by (simp add: kassert_def)

lemma kassert_False [simp]: "kassert False msg = Inl (Assert_failed msg)"
  by (simp add: kassert_def)

lemma kassert_eq_Inr [simp]: "kassert c msg = Inr x \<longleftrightarrow> c"
  by (simp add: kassert_def)

definition rok :: "'a res \<Rightarrow> bool" where
  "rok m \<longleftrightarrow> (\<exists>x. m = Inr x)"

text \<open>Sequencing of calls that may fault or never return.\<close>

definition obind :: "'a res option \<Rightarrow> ('a \<Rightarrow> 'b res option) \<Rightarrow> 'b res option" where
  "obind m f = (case m of None \<Rightarrow> None | Some (Inl e) \<Rightarrow> Some (Inl e) | Some (Inr x) \<Rightarrow> f x)"

lemma obind_simps [simp]:
  "obind None f = None"
  "obind (Some (Inl e)) f = Some (Inl e)"
  "obind (Some (Inr x)) f = f x"
  by (simp_all add: obind_def)

section \<open>Collections of facts\<close>

named_theorems word_nat \<open>reading word arithmetic as natural numbers\<close>

lemma unat_lt32 [simp]: "unat (w :: u32) < 4294967296"
  using unsigned_less [of w] by simp

lemma unat_lt8 [simp]: "unat (w :: u8) < 256"
  using unsigned_less [of w] by simp

lemma unat_of_nat32 [word_nat]: "n < 4294967296 \<Longrightarrow> unat (of_nat n :: u32) = n"
  by (simp add: unat_of_nat take_bit_nat_eq_self)

lemma unat_add32 [word_nat]:
  "unat (a :: u32) + unat b < 4294967296 \<Longrightarrow> unat (a + b) = unat a + unat b"
  by (simp add: unat_word_ariths)

lemma unat_mult32 [word_nat]:
  "unat (a :: u32) * unat b < 4294967296 \<Longrightarrow> unat (a * b) = unat a * unat b"
  by (simp add: unat_word_ariths)

lemma unat_sub32 [word_nat]: "b \<le> a \<Longrightarrow> unat ((a :: u32) - b) = unat a - unat b"
  by (simp add: unat_sub word_le_nat_alt)

lemma unat_div32 [word_nat]: "unat ((a :: u32) div b) = unat a div unat b"
  by (simp add: unat_div)

lemma unat_mod32 [word_nat]: "unat ((a :: u32) mod b) = unat a mod unat b"
  by (simp add: unat_mod)

lemmas word_less_nat32 [word_nat] = word_less_nat_alt word_le_nat_alt

lemma sint_small32:
  assumes "unat (w :: u32) < 2147483648"
  shows "sint w = int (unat w)"
proof -
  have u: "int (unat w) = uint w" by simp
  have "int (unat w) < 2147483648" using assms by linarith
  then have "uint w < 2147483648" by (simp only: u)
  moreover have "0 \<le> uint w" by simp
  then have "- 2147483648 \<le> uint w" by linarith
  ultimately have "signed_take_bit 31 (uint w) = uint w" by (intro signed_take_bit_int_eq_self) simp_all
  then show ?thesis unfolding u by (simp add: sint_uint)
qed

lemma word_eq_unatI: "unat (a :: 'a :: len word) = unat b \<Longrightarrow> a = b"
  by (simp add: word_unat_eq_iff)

end
