(* ===== verification/Bitmap.thy ===== *)
theory Bitmap
  imports Prelude
begin

text \<open>
  src/src/util/bitmap.c: a bitmap over a byte array.  The memory behind the
  \<open>data\<close> pointer is a list: the array, and whatever bytes lie behind it; an access
  beyond the list is \<open>Out_of_bounds\<close>, which the C code does not check.
\<close>

section \<open>Model\<close>

record Bitmap =
  data :: "u8 list"
  bm_size :: u32

definition bitmap_init :: "u8 list \<Rightarrow> u32 \<Rightarrow> Bitmap" where
  "bitmap_init d n = \<lparr>data = d, bm_size = n\<rparr>"

text \<open>The C expression \<open>1 << bit\<close>, truncated to the \<open>u8\<close> it is combined with.\<close>

definition bit_mask :: "nat \<Rightarrow> u8" where
  "bit_mask j = push_bit j 1"

definition bitmap_set :: "Bitmap \<Rightarrow> u32 \<Rightarrow> Bitmap res" where
  "bitmap_set bm index =
     (let bitmap_index = index div 8; bitmap_bit = index mod 8 in
      rbind (kassert (bitmap_index < bm_size bm * 8) ''bitmap_set: bitmap_index < bitmap->size * 8'') (\<lambda>_.
      if unat bitmap_index < length (data bm)
      then Inr (bm\<lparr>data := (data bm)[unat bitmap_index :=
                  data bm ! unat bitmap_index OR bit_mask (unat bitmap_bit)]\<rparr>)
      else Inl Out_of_bounds))"

definition bitmap_clear :: "Bitmap \<Rightarrow> u32 \<Rightarrow> Bitmap res" where
  "bitmap_clear bm index =
     (let bitmap_index = index div 8; bitmap_bit = index mod 8 in
      rbind (kassert (bitmap_index < bm_size bm * 8) ''bitmap_clear: bitmap_index < bitmap->size * 8'') (\<lambda>_.
      if unat bitmap_index < length (data bm)
      then Inr (bm\<lparr>data := (data bm)[unat bitmap_index :=
                  data bm ! unat bitmap_index AND NOT (bit_mask (unat bitmap_bit))]\<rparr>)
      else Inl Out_of_bounds))"

definition bitmap_get :: "Bitmap \<Rightarrow> u32 \<Rightarrow> u32 res" where
  "bitmap_get bm index =
     (let bitmap_index = index div 8; bitmap_bit = index mod 8 in
      rbind (kassert (bitmap_index < bm_size bm * 8) ''bitmap_get: bitmap_index < bitmap->size * 8'') (\<lambda>_.
      if unat bitmap_index < length (data bm)
      then Inr (if data bm ! unat bitmap_index AND bit_mask (unat bitmap_bit) \<noteq> 0 then 1 else 0)
      else Inl Out_of_bounds))"

text \<open>The inner loop of \<open>bitmap_get_first_clear\<close>: \<open>j\<close> counts up to 8.\<close>

function first_clear_in_byte :: "u8 \<Rightarrow> nat \<Rightarrow> nat option" where
  "first_clear_in_byte b j =
     (if j < 8
      then if b AND bit_mask j = 0 then Some j else first_clear_in_byte b (Suc j)
      else None)"
  by pat_completeness auto
termination
  by (relation "measure (\<lambda>(b, j). 8 - j)") auto

declare first_clear_in_byte.simps [simp del]

text \<open>The outer loop: \<open>i\<close> counts up to \<open>bitmap->size\<close>.\<close>

function first_clear_from :: "Bitmap \<Rightarrow> nat \<Rightarrow> u32 res" where
  "first_clear_from bm i =
     (if i < unat (bm_size bm)
      then if i < length (data bm)
           then (case first_clear_in_byte (data bm ! i) 0 of
                   Some j \<Rightarrow> Inr (of_nat i * 8 + of_nat j)
                 | None \<Rightarrow> first_clear_from bm (Suc i))
           else Inl Out_of_bounds
      else Inl (Panic ''Bitmap full!''))"
  by pat_completeness auto
termination
  by (relation "measure (\<lambda>(bm, i). unat (bm_size bm) - i)") auto

declare first_clear_from.simps [simp del]

definition bitmap_get_first_clear :: "Bitmap \<Rightarrow> u32 res" where
  "bitmap_get_first_clear bm = first_clear_from bm 0"

text \<open>\<open>bitmap_print\<close>: what it hands to \<open>printf\<close>, character by character.\<close>

definition bit_char :: "u8 \<Rightarrow> u8 \<Rightarrow> char" where
  "bit_char b m = (if b AND m \<noteq> 0 then CHR ''1'' else CHR ''0'')"

definition print_byte :: "u8 \<Rightarrow> string" where
  "print_byte b = [bit_char b 1, bit_char b 2, bit_char b 4, bit_char b 8,
                   bit_char b 16, bit_char b 32, bit_char b 64, bit_char b 128]"

definition bitmap_print :: "Bitmap \<Rightarrow> string res" where
  "bitmap_print bm =
     (if unat (bm_size bm) \<le> length (data bm)
      then Inr (''Bitmap: '' @ concat (map print_byte (take (unat (bm_size bm)) (data bm))) @ [CHR 0x0A])
      else Inl Out_of_bounds)"

section \<open>Abstraction: a set of indices\<close>

definition bm_bit :: "Bitmap \<Rightarrow> nat \<Rightarrow> bool" where
  "bm_bit bm n \<longleftrightarrow> bit (data bm ! (n div 8)) (n mod 8)"

definition bm_wf :: "Bitmap \<Rightarrow> bool" where
  "bm_wf bm \<longleftrightarrow> unat (bm_size bm) \<le> length (data bm) \<and> unat (bm_size bm) < 2 ^ 28"

definition bm_count :: "Bitmap \<Rightarrow> nat" where
  "bm_count bm = 8 * unat (bm_size bm)"

lemma bit_bit_mask: "bit (bit_mask j) n \<longleftrightarrow> j = n \<and> n < 8"
  by (auto simp: bit_mask_def bit_simps bit_1_iff)

lemma and_bit_mask_eq_0:
  assumes "j < 8"
  shows "b AND bit_mask j = 0 \<longleftrightarrow> \<not> bit b j"
proof
  assume z: "b AND bit_mask j = 0"
  have "bit (b AND bit_mask j) j = bit b j"
    using assms by (simp only: bit_and_iff bit_bit_mask simp_thms)
  then show "\<not> bit b j" unfolding z by simp
next
  assume "\<not> bit b j"
  then show "b AND bit_mask j = 0"
    by (auto simp: bit_and_iff bit_bit_mask intro!: bit_eqI)
qed

lemma bm_index_in_range:
  assumes "bm_wf bm" and "unat i < bm_count bm"
  shows "i div 8 < bm_size bm * 8" and "unat (i div 8) < length (data bm)"
proof -
  have i: "unat i div 8 < unat (bm_size bm)"
    using assms(2) by (simp add: bm_count_def less_mult_imp_div_less mult.commute)
  then show "unat (i div 8) < length (data bm)" using assms(1) by (simp add: bm_wf_def word_nat)
  have "unat (bm_size bm * 8) = unat (bm_size bm) * 8"
    using assms by (simp add: word_nat bm_wf_def)
  then show "i div 8 < bm_size bm * 8" using i by (simp add: word_nat)
qed

lemma bm_bit_update:
  assumes "k < length (data bm)"
  shows "bm_bit (bm\<lparr>data := (data bm)[k := b]\<rparr>) n \<longleftrightarrow>
         (if n div 8 = k then bit b (n mod 8) else bm_bit bm n)"
  using assms by (auto simp: bm_bit_def)

lemma index_split: "n = i \<longleftrightarrow> n div 8 = i div 8 \<and> n mod 8 = (i :: nat) mod 8"
  by (metis div_mult_mod_eq)

lemma bit_index_unat: "unat ((i :: u32) div 8) = unat i div 8" "unat (i mod 8) = unat i mod 8"
  by (simp_all add: word_nat)

lemma bm_wf_update [simp]: "bm_wf (bm\<lparr>data := (data bm)[k := b]\<rparr>) = bm_wf bm"
  by (simp add: bm_wf_def)

lemma bm_count_update [simp]: "bm_count (bm\<lparr>data := (data bm)[k := b]\<rparr>) = bm_count bm"
  by (simp add: bm_count_def)

lemma bitmap_set_ok:
  assumes "bm_wf bm" and "unat i < bm_count bm"
  obtains bm' where "bitmap_set bm i = Inr bm'" "bm_wf bm'" "bm_count bm' = bm_count bm"
    "bm_size bm' = bm_size bm" "\<And>n. bm_bit bm' n \<longleftrightarrow> n = unat i \<or> bm_bit bm n"
proof -
  note r = bm_index_in_range [OF assms]
  let ?b = "bm\<lparr>data := (data bm)[unat (i div 8) :=
              data bm ! unat (i div 8) OR bit_mask (unat (i mod 8))]\<rparr>"
  have "bm_bit ?b n \<longleftrightarrow> n = unat i \<or> bm_bit bm n" for n
    by (subst bm_bit_update [OF r(2)], unfold index_split [of n "unat i"] bit_index_unat)
       (auto simp: bm_bit_def bit_or_iff bit_bit_mask)
  moreover have "bitmap_set bm i = Inr ?b"
    using r by (simp add: bitmap_set_def Let_def)
  ultimately show ?thesis
    using assms(1) by (intro that [of ?b]) simp_all
qed

lemma bitmap_clear_ok:
  assumes "bm_wf bm" and "unat i < bm_count bm"
  obtains bm' where "bitmap_clear bm i = Inr bm'" "bm_wf bm'" "bm_count bm' = bm_count bm"
    "bm_size bm' = bm_size bm" "\<And>n. bm_bit bm' n \<longleftrightarrow> n \<noteq> unat i \<and> bm_bit bm n"
proof -
  note r = bm_index_in_range [OF assms]
  let ?b = "bm\<lparr>data := (data bm)[unat (i div 8) :=
              data bm ! unat (i div 8) AND NOT (bit_mask (unat (i mod 8)))]\<rparr>"
  have "bm_bit ?b n \<longleftrightarrow> n \<noteq> unat i \<and> bm_bit bm n" for n
    by (subst bm_bit_update [OF r(2)], unfold index_split [of n "unat i"] bit_index_unat)
       (auto simp: bm_bit_def bit_and_iff bit_not_iff bit_bit_mask)
  moreover have "bitmap_clear bm i = Inr ?b"
    using r by (simp add: bitmap_clear_def Let_def)
  ultimately show ?thesis
    using assms(1) by (intro that [of ?b]) simp_all
qed

lemma bitmap_get_ok:
  assumes "bm_wf bm" and "unat i < bm_count bm"
  shows "bitmap_get bm i = Inr (if bm_bit bm (unat i) then 1 else 0)"
  using bm_index_in_range [OF assms]
  by (simp add: bitmap_get_def bm_bit_def bit_index_unat and_bit_mask_eq_0)

lemma first_clear_in_byte_spec:
  "j \<le> 8 \<Longrightarrow> (case first_clear_in_byte b j of
     Some r \<Rightarrow> j \<le> r \<and> r < 8 \<and> \<not> bit b r \<and> (\<forall>m. j \<le> m \<and> m < r \<longrightarrow> bit b m)
   | None \<Rightarrow> \<forall>m. j \<le> m \<and> m < 8 \<longrightarrow> bit b m)"
proof (induction b j rule: first_clear_in_byte.induct)
  case (1 b j)
  show ?case
  proof (cases "j < 8 \<and> bit b j")
    case True
    then have IH: "case first_clear_in_byte b (Suc j) of
        Some r \<Rightarrow> Suc j \<le> r \<and> r < 8 \<and> \<not> bit b r \<and> (\<forall>m. Suc j \<le> m \<and> m < r \<longrightarrow> bit b m)
      | None \<Rightarrow> \<forall>m. Suc j \<le> m \<and> m < 8 \<longrightarrow> bit b m"
      using 1 by (simp add: and_bit_mask_eq_0)
    have split: "j \<le> m \<longleftrightarrow> m = j \<or> Suc j \<le> m" for m by auto
    have step: "first_clear_in_byte b j = first_clear_in_byte b (Suc j)"
      using True by (subst first_clear_in_byte.simps) (simp add: and_bit_mask_eq_0)
    show ?thesis
    proof (cases "first_clear_in_byte b (Suc j)")
      case None
      with IH True show ?thesis unfolding step by (auto simp: split)
    next
      case (Some r)
      with IH True show ?thesis unfolding step by (auto simp: split)
    qed
  next
    case False
    then show ?thesis
      by (subst first_clear_in_byte.simps) (use 1 in \<open>auto simp: and_bit_mask_eq_0\<close>)
  qed
qed

lemma bm_bit_byte: "r < 8 \<Longrightarrow> bm_bit bm (8 * i + r) \<longleftrightarrow> bit (data bm ! i) r"
  by (simp add: bm_bit_def)

text \<open>
  The result of the search: the least clear index at or after byte \<open>i\<close>, and the
  panic exactly when there is none.
\<close>

definition first_clear_result :: "Bitmap \<Rightarrow> u32 res \<Rightarrow> bool" where
  "first_clear_result bm r \<longleftrightarrow>
     (case r of
        Inr k \<Rightarrow> unat k < bm_count bm \<and> \<not> bm_bit bm (unat k) \<and> (\<forall>n < unat k. bm_bit bm n)
      | Inl e \<Rightarrow> e = Panic ''Bitmap full!'' \<and> (\<forall>n < bm_count bm. bm_bit bm n))"

lemma byte_prefix:
  assumes "\<And>n. n < 8 * i \<Longrightarrow> bm_bit bm n" and "\<And>m. m < r \<Longrightarrow> bit (data bm ! i) m" and "r \<le> 8"
    and "n < 8 * i + r"
  shows "bm_bit bm n"
proof (cases "n < 8 * i")
  case False
  then have "n = 8 * i + (n - 8 * i)" "n - 8 * i < r" using assms(4) by auto
  then show ?thesis using assms(2,3) bm_bit_byte [of "n - 8 * i" bm i] by simp
qed (use assms in auto)

lemma unat_bit_position:
  assumes "i < 2 ^ 28" and "r < 8"
  shows "unat (of_nat i * 8 + of_nat r :: u32) = 8 * i + r"
proof -
  have "unat (of_nat (8 * i + r) :: u32) = 8 * i + r"
    using assms by (intro unat_of_nat32) simp
  then show ?thesis by (simp add: mult.commute)
qed

lemma first_clear_from_spec:
  assumes "bm_wf bm" and "i \<le> unat (bm_size bm)" and "\<And>n. n < 8 * i \<Longrightarrow> bm_bit bm n"
  shows "first_clear_result bm (first_clear_from bm i)"
  using assms
proof (induction bm i rule: first_clear_from.induct)
  case (1 bm i)
  have len: "unat (bm_size bm) \<le> length (data bm)" and small: "unat (bm_size bm) < 2 ^ 28"
    using 1 by (simp_all add: bm_wf_def)
  show ?case
  proof (cases "i < unat (bm_size bm)")
    case False
    then have "first_clear_from bm i = Inl (Panic ''Bitmap full!'')"
      by (subst first_clear_from.simps) simp
    with False 1 len show ?thesis by (simp add: first_clear_result_def bm_count_def)
  next
    case True
    have spec: "case first_clear_in_byte (data bm ! i) 0 of
        Some r \<Rightarrow> r < 8 \<and> \<not> bit (data bm ! i) r \<and> (\<forall>m < r. bit (data bm ! i) m)
      | None \<Rightarrow> \<forall>m < 8. bit (data bm ! i) m"
      using first_clear_in_byte_spec [of 0 "data bm ! i"] by (simp split: option.splits)
    show ?thesis
    proof (cases "first_clear_in_byte (data bm ! i) 0")
      case None
      have "first_clear_from bm i = first_clear_from bm (Suc i)"
        using first_clear_from.simps [of bm i] True None len by simp
      moreover have "bm_bit bm n" if "n < 8 * Suc i" for n
      proof (rule byte_prefix [where i = i and r = 8])
        show "bit (data bm ! i) m" if "m < 8" for m
          using spec None that by simp
      qed (use that "1.prems" in simp_all)
      ultimately show ?thesis
        using "1.IH" [OF True _ None "1.prems"(1)] True len by (simp add: Suc_le_eq)
    next
      case (Some r)
      with spec have r: "r < 8" "\<not> bit (data bm ! i) r" "\<And>m. m < r \<Longrightarrow> bit (data bm ! i) m"
        by auto
      have "first_clear_from bm i = Inr (of_nat i * 8 + of_nat r)"
        using first_clear_from.simps [of bm i] True Some len by simp
      moreover have "unat (of_nat i * 8 + of_nat r :: u32) = 8 * i + r"
        by (rule unat_bit_position [OF order.strict_trans [OF True small] r(1)])
      moreover have "bm_bit bm n" if "n < 8 * i + r" for n
        using "1.prems"(3) r(3) less_imp_le [OF r(1)] that by (rule byte_prefix)
      ultimately show ?thesis
        using True len r(1,2) by (simp add: first_clear_result_def bm_count_def bm_bit_byte)
    qed
  qed
qed

lemma bitmap_get_first_clear_spec:
  "bm_wf bm \<Longrightarrow> first_clear_result bm (bitmap_get_first_clear bm)"
  unfolding bitmap_get_first_clear_def by (intro first_clear_from_spec) auto

section \<open>Properties of the bitmap\<close>

text \<open>
  C11: on a well-formed bitmap, \<open>bitmap_set\<close> and \<open>bitmap_clear\<close> of an index below the
  number of bits succeed, and afterwards \<open>bitmap_get\<close> reads the new value at that
  index and the old value at every other one.
\<close>

theorem bitmap_set_clear_get:
  assumes "bm_wf bm" "unat i < bm_count bm"
  shows "\<exists>s c. bitmap_set bm i = Inr s \<and> bitmap_clear bm i = Inr c \<and> bm_wf s \<and> bm_wf c \<and>
           bm_count s = bm_count bm \<and> bm_count c = bm_count bm \<and>
           (\<forall>j. unat j < bm_count bm \<longrightarrow>
              bitmap_get s j = (if j = i then Inr 1 else bitmap_get bm j) \<and>
              bitmap_get c j = (if j = i then Inr 0 else bitmap_get bm j))"
proof -
  obtain s where s: "bitmap_set bm i = Inr s" "bm_wf s" "bm_count s = bm_count bm"
    "\<And>n. bm_bit s n \<longleftrightarrow> n = unat i \<or> bm_bit bm n"
    using bitmap_set_ok [OF assms] by blast
  obtain c where c: "bitmap_clear bm i = Inr c" "bm_wf c" "bm_count c = bm_count bm"
    "\<And>n. bm_bit c n \<longleftrightarrow> n \<noteq> unat i \<and> bm_bit bm n"
    using bitmap_clear_ok [OF assms] by blast
  have "bitmap_get s j = (if j = i then Inr 1 else bitmap_get bm j) \<and>
        bitmap_get c j = (if j = i then Inr 0 else bitmap_get bm j)"
    if "unat j < bm_count bm" for j
    using s(2-4) c(2-4) that assms(1) by (simp add: bitmap_get_ok word_unat_eq_iff)
  with s c show ?thesis by blast
qed

definition sample_bitmap :: Bitmap where
  "sample_bitmap = bitmap_init [255, 7] 2"

lemma sample_bitmap_wf: "bm_wf sample_bitmap" "bm_count sample_bitmap = 16"
  by (simp_all add: sample_bitmap_def bitmap_init_def bm_wf_def bm_count_def)

theorem bitmap_set_clear_get_witness:
  "\<exists>s c. bitmap_set sample_bitmap 11 = Inr s \<and> bitmap_clear sample_bitmap 11 = Inr c \<and>
     bitmap_get s 11 = Inr 1 \<and> bitmap_get c 11 = Inr 0 \<and>
     bitmap_get s 3 = bitmap_get sample_bitmap 3 \<and> bitmap_get c 15 = bitmap_get sample_bitmap 15"
proof -
  from bitmap_set_clear_get [OF sample_bitmap_wf(1), of 11] obtain s c where
    "bitmap_set sample_bitmap 11 = Inr s" "bitmap_clear sample_bitmap 11 = Inr c"
    and g: "\<And>j. unat j < 16 \<Longrightarrow> bitmap_get s j = (if j = 11 then Inr 1 else bitmap_get sample_bitmap j) \<and>
              bitmap_get c j = (if j = 11 then Inr 0 else bitmap_get sample_bitmap j)"
    unfolding sample_bitmap_wf(2) by auto
  then show ?thesis using g [of 11] g [of 3] g [of 15] by simp
qed

text \<open>
  C12: \<open>bitmap_get_first_clear\<close> returns the least clear index, and panics exactly when
  every index is set.
\<close>

theorem bitmap_first_clear_least:
  assumes "bm_wf bm"
  shows "case bitmap_get_first_clear bm of
           Inr k \<Rightarrow> unat k < bm_count bm \<and> bitmap_get bm k = Inr 0 \<and>
                    (\<forall>j < k. bitmap_get bm j = Inr 1)
         | Inl e \<Rightarrow> e = Panic ''Bitmap full!'' \<and>
                    (\<forall>j. unat j < bm_count bm \<longrightarrow> bitmap_get bm j = Inr 1)"
  using bitmap_get_first_clear_spec [OF assms] assms
  by (auto simp: first_clear_result_def bitmap_get_ok word_less_nat_alt split: sum.splits)

theorem bitmap_first_clear_least_witness:
  "\<exists>k. bitmap_get_first_clear sample_bitmap = Inr k \<and> bitmap_get sample_bitmap k = Inr 0"
proof -
  have "bitmap_get sample_bitmap 11 = Inr 0"
    by (simp add: sample_bitmap_def bitmap_init_def bitmap_get_def bit_mask_def)
  then show ?thesis
    using bitmap_first_clear_least [OF sample_bitmap_wf(1)]
    by (auto simp: sample_bitmap_wf split: sum.splits dest: spec [of _ 11])
qed

text \<open>
  The assertion of \<open>bitmap_set\<close>, \<open>bitmap_clear\<close> and \<open>bitmap_get\<close> compares the byte
  index with the number of bits, so it lets through an index up to eight times the
  capacity: for every nonempty bitmap the first index past the end passes the
  assertion and the access is outside the array.
\<close>

theorem bitmap_assert_too_weak:
  assumes "bm_wf bm" "length (data bm) = unat (bm_size bm)" "bm_size bm \<noteq> 0"
  shows "bitmap_set bm (bm_size bm * 8) = Inl Out_of_bounds \<and>
         bitmap_clear bm (bm_size bm * 8) = Inl Out_of_bounds \<and>
         bitmap_get bm (bm_size bm * 8) = Inl Out_of_bounds"
proof -
  let ?n = "unat (bm_size bm)"
  have pos: "0 < ?n" using assms(3) by (simp add: unat_gt_0)
  have "unat (bm_size bm * 8) = ?n * 8"
    using assms(1) by (simp add: word_nat bm_wf_def)
  then have q: "unat (bm_size bm * 8 div 8) = ?n" by (simp add: unat_div32)
  then have "bm_size bm * 8 div 8 < bm_size bm * 8"
    using \<open>unat (bm_size bm * 8) = ?n * 8\<close> pos by (simp add: word_less_nat_alt)
  moreover have "\<not> unat (bm_size bm * 8 div 8) < length (data bm)"
    using assms(2) q by simp
  ultimately show ?thesis
    by (simp add: bitmap_set_def bitmap_clear_def bitmap_get_def Let_def)
qed

theorem bitmap_assert_too_weak_witness:
  "bitmap_set sample_bitmap 16 = Inl Out_of_bounds"
  using bitmap_assert_too_weak [of sample_bitmap]
  by (simp add: sample_bitmap_def bitmap_init_def bm_wf_def)

end
