(* ===== verification/Kalloc_Avl.thy ===== *)
theory Kalloc_Avl
  imports Prelude
begin

text \<open>
  src/src/alloc/kalloc_avl.c: the AVL tree that indexes the holes of the kernel
  heap by size and address.

  A node of the C code is a cell of the arena given to \<open>kalloc_avl_init\<close>.  The
  model keeps the cell's address in the node, so that a tree is the shape of the
  pointers reachable from \<open>avl->root\<close>, and the free list is the list of the
  addresses reachable from \<open>avl->free\<close> by \<open>right\<close>; the null pointer is the
  empty tree and the empty list.  The free list of the C code is doubly linked
  and asserts that the links agree, which holds of a list by construction.
  The field \<open>height\<close> (\<open>s32\<close>) is an \<open>int\<close>: it never exceeds the number of nodes.
\<close>

section \<open>Model\<close>

datatype Kalloc_AVL_Node =
    Null
  | Node (ptr: u32) (left: Kalloc_AVL_Node) (right: Kalloc_AVL_Node)
         (height: int) (hole_size: u32) (hole_addr: u32)

record Kalloc_AVL =
  free :: "u32 list"
  root :: Kalloc_AVL_Node

definition sizeof_Kalloc_AVL_Node :: u32 where
  "sizeof_Kalloc_AVL_Node = 20"

definition compare_hole_size :: "u32 \<Rightarrow> u32 \<Rightarrow> int" where
  "compare_hole_size s1 s2 = (if s1 > s2 then 1 else if s1 < s2 then -1 else 0)"

definition compare_hole :: "u32 \<Rightarrow> u32 \<Rightarrow> u32 \<Rightarrow> u32 \<Rightarrow> int" where
  "compare_hole h1_size h1_addr h2_size h2_addr =
     (if h1_size > h2_size then 1
      else if h1_size < h2_size then -1
      else if h1_addr > h2_addr then 1
      else if h1_addr < h2_addr then -1
      else 0)"

definition kalloc_avl_init :: "u32 \<Rightarrow> u32 \<Rightarrow> Kalloc_AVL res" where
  "kalloc_avl_init d data_size =
     rbind (kassert (data_size \<ge> sizeof_Kalloc_AVL_Node) ''kalloc_avl: can't initiate'') (\<lambda>_.
     let num_nodes = data_size div sizeof_Kalloc_AVL_Node in
     Inr \<lparr>free = map (\<lambda>i. d + of_nat i * sizeof_Kalloc_AVL_Node) [0..<unat num_nodes],
          root = Null\<rparr>)"

fun get_free_node :: "u32 list \<Rightarrow> (u32 \<times> u32 list) res" where
  "get_free_node [] = Inl (Assert_failed ''kalloc_avl: no free node available'')"
| "get_free_node (target # rest) = Inr (target, rest)"

definition put_free_node :: "u32 list \<Rightarrow> u32 \<Rightarrow> u32 list" where
  "put_free_node fr node = node # fr"

definition aligned_hole_addr :: "u32 \<Rightarrow> u32 \<Rightarrow> u32" where
  "aligned_hole_addr addr alignment =
     (if alignment \<noteq> 0 \<and> addr AND (alignment - 1) \<noteq> 0
      then (addr AND NOT (alignment - 1)) + alignment
      else addr)"

definition hole_has_alignment_space :: "u32 \<Rightarrow> u32 \<Rightarrow> u32 \<Rightarrow> u32 \<Rightarrow> bool" where
  "hole_has_alignment_space h_size h_addr wanted_size alignment \<longleftrightarrow>
     h_size \<ge> wanted_size + (aligned_hole_addr h_addr alignment - h_addr)"

text \<open>\<open>avl_find_hole_internal\<close>: the result is the hole's address, 0 (null) for none.\<close>

fun avl_find_hole_internal :: "Kalloc_AVL_Node \<Rightarrow> u32 \<Rightarrow> u32 \<Rightarrow> u32" where
  "avl_find_hole_internal Null hs alignment = 0"
| "avl_find_hole_internal (Node p l r h ns na) hs alignment =
     (if compare_hole_size hs ns > 0 \<or> \<not> hole_has_alignment_space ns na hs alignment
      then avl_find_hole_internal r hs alignment
      else let addr = avl_find_hole_internal l hs alignment in
           if addr \<noteq> 0 then addr else na)"

definition kalloc_avl_find_hole :: "Kalloc_AVL \<Rightarrow> u32 \<Rightarrow> u32 \<Rightarrow> u32" where
  "kalloc_avl_find_hole avl hs alignment = avl_find_hole_internal (root avl) hs alignment"

fun height_or_0 :: "Kalloc_AVL_Node \<Rightarrow> int" where
  "height_or_0 Null = 0"
| "height_or_0 (Node p l r h s a) = h"

fun update_node_height :: "Kalloc_AVL_Node \<Rightarrow> Kalloc_AVL_Node res" where
  "update_node_height Null = Inl Null_deref"
| "update_node_height (Node p l r h s a) =
     Inr (Node p l r (max (height_or_0 r) (height_or_0 l) + 1) s a)"

fun rotate_right :: "Kalloc_AVL_Node \<Rightarrow> Kalloc_AVL_Node res" where
  "rotate_right (Node p (Node q ll lr lh ls la) r h s a) =
     rbind (update_node_height (Node p lr r h s a)) (\<lambda>rt.
     update_node_height (Node q ll rt lh ls la))"
| "rotate_right _ = Inl Null_deref"

fun rotate_left :: "Kalloc_AVL_Node \<Rightarrow> Kalloc_AVL_Node res" where
  "rotate_left (Node p l (Node q rl rr rh rs ra) h s a) =
     rbind (update_node_height (Node p l rl h s a)) (\<lambda>rt.
     update_node_height (Node q rt rr rh rs ra))"
| "rotate_left _ = Inl Null_deref"

fun double_rotate_right :: "Kalloc_AVL_Node \<Rightarrow> Kalloc_AVL_Node res" where
  "double_rotate_right (Node p (Node q ml (Node b bl br bh bs ba) mh ms ma) r h s a) =
     rbind (update_node_height (Node p br r h s a)) (\<lambda>top.
     rbind (update_node_height (Node q ml bl mh ms ma)) (\<lambda>middle.
     update_node_height (Node b middle top bh bs ba)))"
| "double_rotate_right _ = Inl Null_deref"

fun double_rotate_left :: "Kalloc_AVL_Node \<Rightarrow> Kalloc_AVL_Node res" where
  "double_rotate_left (Node p l (Node q (Node b bl br bh bs ba) mr mh ms ma) h s a) =
     rbind (update_node_height (Node p l bl h s a)) (\<lambda>top.
     rbind (update_node_height (Node q br mr mh ms ma)) (\<lambda>middle.
     update_node_height (Node b top middle bh bs ba)))"
| "double_rotate_left _ = Inl Null_deref"

fun get_balance_factor :: "Kalloc_AVL_Node \<Rightarrow> int res" where
  "get_balance_factor Null = Inl Null_deref"
| "get_balance_factor (Node p l r h s a) = Inr (height_or_0 r - height_or_0 l)"

fun incr_height :: "Kalloc_AVL_Node \<Rightarrow> int \<Rightarrow> Kalloc_AVL_Node" where
  "incr_height Null d = Null"
| "incr_height (Node p l r h s a) d = Node p l r (h + d) s a"

text \<open>
  \<open>insert_internal\<close> after the recursive call on the right (left) child: the second
  component of the result is \<open>*subtree_height_changed\<close>.
\<close>

definition insert_fix_right :: "Kalloc_AVL_Node \<Rightarrow> bool \<Rightarrow> (Kalloc_AVL_Node \<times> bool) res" where
  "insert_fix_right node changed =
     (if changed then
        rbind (get_balance_factor node) (\<lambda>bf.
        rbind (kassert (bf \<ge> 0 \<and> bf \<le> 2) ''heap_avl: balance_factor must be between 0 and 2'') (\<lambda>_.
        if bf = 0 then Inr (node, False)
        else if bf = 1 then Inr (incr_height node 1, True)
        else rbind (get_balance_factor (right node)) (\<lambda>rbf.
             rbind (if rbf = -1 then double_rotate_left node else rotate_left node) (\<lambda>new_root.
             Inr (new_root, False)))))
      else Inr (node, changed))"

definition insert_fix_left :: "Kalloc_AVL_Node \<Rightarrow> bool \<Rightarrow> (Kalloc_AVL_Node \<times> bool) res" where
  "insert_fix_left node changed =
     (if changed then
        rbind (get_balance_factor node) (\<lambda>bf.
        rbind (kassert (bf \<ge> -2 \<and> bf \<le> 0) ''heap_avl: balance_factor must be between -2 and 0'') (\<lambda>_.
        if bf = 0 then Inr (node, False)
        else if bf = -1 then Inr (incr_height node 1, True)
        else rbind (get_balance_factor (left node)) (\<lambda>lbf.
             rbind (if lbf = 1 then double_rotate_right node else rotate_right node) (\<lambda>new_root.
             Inr (new_root, False)))))
      else Inr (node, changed))"

text \<open>
  \<open>insert_internal(avl, avl_node, hole_size, hole_addr, subtree_height_changed, error)\<close>:
  the arguments are \<open>avl->free\<close>, the node, the hole and the two out-parameters as
  they are on entry; the result is the new subtree, \<open>avl->free\<close> and the two
  out-parameters on return.
\<close>

fun insert_internal ::
  "u32 list \<Rightarrow> Kalloc_AVL_Node \<Rightarrow> u32 \<Rightarrow> u32 \<Rightarrow> bool \<Rightarrow> int
   \<Rightarrow> (Kalloc_AVL_Node \<times> u32 list \<times> bool \<times> int) res" where
  "insert_internal fr Null hs ha changed err =
     rbind (get_free_node fr) (\<lambda>(target, fr').
     if target = 0 then Inr (Null, fr', changed, 1)
     else Inr (Node target Null Null 1 hs ha, fr', True, err))"
| "insert_internal fr (Node p l r h ns na) hs ha changed err =
     (let comparison = compare_hole hs ha ns na in
      rbind (kassert (comparison \<noteq> 0) ''heap_avl: Trying to insert same element to AVL.'') (\<lambda>_.
      if comparison > 0 then
        rbind (insert_internal fr r hs ha changed err) (\<lambda>(r', fr', changed', err').
        rbind (insert_fix_right (Node p l r' h ns na) changed') (\<lambda>(t, ch).
        Inr (t, fr', ch, err')))
      else
        rbind (insert_internal fr l hs ha changed err) (\<lambda>(l', fr', changed', err').
        rbind (insert_fix_left (Node p l' r h ns na) changed') (\<lambda>(t, ch).
        Inr (t, fr', ch, err')))))"

text \<open>
  \<open>kalloc_avl_insert\<close> declares \<open>s32 subtree_height_changed, error = 0;\<close>, which
  initialises \<open>error\<close> only: the other starts with whatever the stack holds, the
  argument \<open>garbage\<close>.  The result is the tree and the returned \<open>error\<close>.
\<close>

definition kalloc_avl_insert ::
  "bool \<Rightarrow> Kalloc_AVL \<Rightarrow> u32 \<Rightarrow> u32 \<Rightarrow> (Kalloc_AVL \<times> int) res" where
  "kalloc_avl_insert garbage avl hs ha =
     rbind (insert_internal (free avl) (root avl) hs ha garbage 0) (\<lambda>(t, fr, ch, err).
     Inr (\<lparr>free = fr, root = t\<rparr>, err))"

fun rightmost :: "Kalloc_AVL_Node \<Rightarrow> (u32 \<times> u32) res" where
  "rightmost Null = Inl Null_deref"
| "rightmost (Node p l r h s a) = (case r of Null \<Rightarrow> Inr (s, a) | Node _ _ _ _ _ _ \<Rightarrow> rightmost r)"

text \<open>The size and the address of \<open>find_predecessor\<close>'s node.\<close>

fun find_predecessor :: "Kalloc_AVL_Node \<Rightarrow> (u32 \<times> u32) res" where
  "find_predecessor Null = Inl Null_deref"
| "find_predecessor (Node p l r h s a) = rightmost l"

text \<open>\<open>remove_internal\<close> after the recursive call on the right (left) child.\<close>

definition remove_fix_right :: "Kalloc_AVL_Node \<Rightarrow> bool \<Rightarrow> (Kalloc_AVL_Node \<times> bool) res" where
  "remove_fix_right node changed =
     (if changed then
        rbind (get_balance_factor node) (\<lambda>bf.
        rbind (kassert (bf \<ge> -2 \<and> bf \<le> 0) ''heap_avl: balance_factor must be between -2 and 0'') (\<lambda>_.
        if bf = 0 then Inr (incr_height node (-1), True)
        else if bf = -1 then Inr (node, False)
        else rbind (get_balance_factor (left node)) (\<lambda>lbf.
             rbind (if lbf = 1 then double_rotate_right node else rotate_right node) (\<lambda>new_root.
             rbind (get_balance_factor new_root) (\<lambda>nbf.
             Inr (new_root, nbf \<noteq> 1))))))
      else Inr (node, changed))"

definition remove_fix_left :: "Kalloc_AVL_Node \<Rightarrow> bool \<Rightarrow> (Kalloc_AVL_Node \<times> bool) res" where
  "remove_fix_left node changed =
     (if changed then
        rbind (get_balance_factor node) (\<lambda>bf.
        rbind (kassert (bf \<ge> 0 \<and> bf \<le> 2) ''heap_avl: balance_factor must be between 0 and 2'') (\<lambda>_.
        if bf = 0 then Inr (incr_height node (-1), True)
        else if bf = 1 then Inr (node, False)
        else rbind (get_balance_factor (right node)) (\<lambda>rbf.
             rbind (if rbf = -1 then double_rotate_left node else rotate_left node) (\<lambda>new_root.
             rbind (get_balance_factor new_root) (\<lambda>nbf.
             Inr (new_root, nbf \<noteq> -1))))))
      else Inr (node, changed))"

text \<open>
  \<open>remove_internal\<close>.  When the node to remove has two children its hole becomes
  that of its predecessor and the predecessor is removed from the left subtree:
  \<open>comparison\<close> is then the comparison of the predecessor with the node's old hole.
\<close>

fun remove_internal ::
  "u32 list \<Rightarrow> Kalloc_AVL_Node \<Rightarrow> u32 \<Rightarrow> u32 \<Rightarrow> bool \<Rightarrow> int
   \<Rightarrow> (Kalloc_AVL_Node \<times> u32 list \<times> bool \<times> int) res" where
  "remove_internal fr Null hs ha changed nf = Inr (Null, fr, changed, 1)"
| "remove_internal fr (Node p l r h ns na) hs ha changed nf =
     (let comparison = compare_hole hs ha ns na in
      if comparison = 0 \<and> l = Null \<and> r = Null then
        Inr (Null, put_free_node fr p, True, nf)
      else if comparison = 0 \<and> l = Null then
        Inr (Node p Null Null (h - 1) (hole_size r) (hole_addr r), put_free_node fr (ptr r), True, nf)
      else if comparison = 0 \<and> r = Null then
        Inr (Node p Null Null (h - 1) (hole_size l) (hole_addr l), put_free_node fr (ptr l), True, nf)
      else
        rbind (if comparison = 0
               then rbind (find_predecessor (Node p l r h ns na)) (\<lambda>(ps, pa).
                    Inr (compare_hole ps pa ns na, ps, pa, ps, pa))
               else Inr (comparison, hs, ha, ns, na)) (\<lambda>(comparison', hs', ha', ns', na').
        if comparison' > 0 then
          rbind (remove_internal fr r hs' ha' changed nf) (\<lambda>(r', fr', changed', nf').
          rbind (remove_fix_right (Node p l r' h ns' na') changed') (\<lambda>(t, ch).
          Inr (t, fr', ch, nf')))
        else
          rbind (remove_internal fr l hs' ha' changed nf) (\<lambda>(l', fr', changed', nf').
          rbind (remove_fix_left (Node p l' r h ns' na') changed') (\<lambda>(t, ch).
          Inr (t, fr', ch, nf')))))"

definition kalloc_avl_remove ::
  "bool \<Rightarrow> Kalloc_AVL \<Rightarrow> u32 \<Rightarrow> u32 \<Rightarrow> (Kalloc_AVL \<times> int) res" where
  "kalloc_avl_remove garbage avl hs ha =
     rbind (remove_internal (free avl) (root avl) hs ha garbage 0) (\<lambda>(t, fr, ch, nf).
     Inr (\<lparr>free = fr, root = t\<rparr>, nf))"

end
