(* ===== verification/Kalloc_Avl_Correct.thy ===== *)
theory Kalloc_Avl_Correct
  imports Kalloc_Avl
begin

text \<open>
  Correctness of the hole tree of \<open>Kalloc_Avl\<close>: the AVL and search-tree invariant,
  its preservation by insertion and removal with no assertion failing, the set of
  holes each leaves, the conservation of the arena's cells between the tree and the
  free list, the best-fit search, and the bound on the recursion depth.
\<close>

section \<open>Invariant and abstraction\<close>

fun ht :: "Kalloc_AVL_Node \<Rightarrow> nat" where
  "ht Null = 0"
| "ht (Node p l r h s a) = Suc (max (ht l) (ht r))"

fun balanced :: "Kalloc_AVL_Node \<Rightarrow> bool" where
  "balanced Null = True"
| "balanced (Node p l r h s a) \<longleftrightarrow>
     h = int (Suc (max (ht l) (ht r))) \<and> ht l \<le> ht r + 1 \<and> ht r \<le> ht l + 1 \<and>
     balanced l \<and> balanced r"

fun inorder :: "Kalloc_AVL_Node \<Rightarrow> (u32 \<times> u32) list" where
  "inorder Null = []"
| "inorder (Node p l r h s a) = inorder l @ (s, a) # inorder r"

fun ptrs :: "Kalloc_AVL_Node \<Rightarrow> u32 multiset" where
  "ptrs Null = {#}"
| "ptrs (Node p l r h s a) = add_mset p (ptrs l + ptrs r)"

definition holes :: "Kalloc_AVL_Node \<Rightarrow> (u32 \<times> u32) set" where
  "holes t = set (inorder t)"

definition ordered :: "Kalloc_AVL_Node \<Rightarrow> bool" where
  "ordered t \<longleftrightarrow> sorted_wrt (<) (inorder t)"

lemma holes_simps [simp]:
  "holes Null = {}" "holes (Node p l r h s a) = insert (s, a) (holes l \<union> holes r)"
  by (auto simp: holes_def)

lemma ordered_simps [simp]:
  "ordered Null"
  "ordered (Node p l r h s a) \<longleftrightarrow>
     ordered l \<and> ordered r \<and> (\<forall>k \<in> holes l. k < (s, a)) \<and> (\<forall>k \<in> holes r. (s, a) < k)"
proof -
  have "x < y" if "\<forall>k \<in> holes l. k < (s, a)" "\<forall>k \<in> holes r. (s, a) < k" "x \<in> holes l" "y \<in> holes r" for x y
    using that by (meson order.strict_trans)
  then show "ordered (Node p l r h s a) \<longleftrightarrow>
     ordered l \<and> ordered r \<and> (\<forall>k \<in> holes l. k < (s, a)) \<and> (\<forall>k \<in> holes r. (s, a) < k)"
    unfolding ordered_def holes_def by (simp add: sorted_wrt_append) blast
qed (simp add: ordered_def)

lemma ht_eq_0 [simp]: "ht t = 0 \<longleftrightarrow> t = Null"
  by (cases t) auto

lemma height_or_0_ht [simp]: "balanced t \<Longrightarrow> height_or_0 t = int (ht t)"
  by (cases t) auto

lemma compare_hole_pos [simp]: "compare_hole s a s' a' > 0 \<longleftrightarrow> (s', a') < (s, a)"
  by (auto simp: compare_hole_def less_prod_def')

lemma compare_hole_eq_0 [simp]: "compare_hole s a s' a' = 0 \<longleftrightarrow> (s, a) = (s', a')"
  by (auto simp: compare_hole_def)

section \<open>Rebalancing\<close>

text \<open>
  How a subtree may change under an operation: by at most one in height, as the
  flag says.  A subtree that grew is a new leaf or leans to one side, which is why
  a single rotation restores the old height in \<open>insert_internal\<close>.
\<close>

fun leaning :: "Kalloc_AVL_Node \<Rightarrow> bool" where
  "leaning Null = False"
| "leaning (Node p l r h s a) \<longleftrightarrow> ht l \<noteq> ht r"

definition grown :: "Kalloc_AVL_Node \<Rightarrow> Kalloc_AVL_Node \<Rightarrow> bool \<Rightarrow> bool" where
  "grown t t' ch \<longleftrightarrow> balanced t' \<and> ht t' = ht t + of_bool ch \<and> (ch \<longrightarrow> ht t' = 1 \<or> leaning t')"

definition shrunk :: "Kalloc_AVL_Node \<Rightarrow> Kalloc_AVL_Node \<Rightarrow> bool \<Rightarrow> bool" where
  "shrunk t t' ch \<longleftrightarrow> balanced t' \<and> ht t = ht t' + of_bool ch"

lemmas fix_defs = insert_fix_right_def insert_fix_left_def remove_fix_right_def
  remove_fix_left_def grown_def shrunk_def

text \<open>The four rotations on subtrees whose stored heights are right.\<close>

definition mk :: "u32 \<Rightarrow> Kalloc_AVL_Node \<Rightarrow> Kalloc_AVL_Node \<Rightarrow> u32 \<Rightarrow> u32 \<Rightarrow> Kalloc_AVL_Node" where
  "mk p l r s a = Node p l r (int (Suc (max (ht l) (ht r)))) s a"

lemma mk_simps [simp]:
  "ht (mk p l r s a) = Suc (max (ht l) (ht r))"
  "balanced (mk p l r s a) \<longleftrightarrow> ht l \<le> ht r + 1 \<and> ht r \<le> ht l + 1 \<and> balanced l \<and> balanced r"
  "inorder (mk p l r s a) = inorder l @ (s, a) # inorder r"
  "ptrs (mk p l r s a) = add_mset p (ptrs l + ptrs r)"
  "leaning (mk p l r s a) \<longleftrightarrow> ht l \<noteq> ht r"
  "height_or_0 (mk p l r s a) = int (Suc (max (ht l) (ht r)))"
  "get_balance_factor (mk p l r s a) = Inr (height_or_0 r - height_or_0 l)"
  "mk p l r s a \<noteq> Null"
  by (simp_all add: mk_def)

lemma update_node_height_mk:
  "balanced l \<Longrightarrow> balanced r \<Longrightarrow> update_node_height (Node p l r h s a) = Inr (mk p l r s a)"
  by (simp add: mk_def max.commute)

lemma rotations [simp]:
  assumes "balanced A" "balanced B" "balanced C"
  shows "rotate_right (Node p (mk q A B sq aq) C h s a) = Inr (mk q A (mk p B C s a) sq aq)"
    and "rotate_left (Node p A (mk q B C sq aq) h s a) = Inr (mk q (mk p A B s a) C sq aq)"
  using assms
  by (simp_all add: mk_def max.commute of_nat_max)

lemma double_rotations [simp]:
  assumes "balanced A" "balanced B" "balanced C" "balanced D"
  shows "double_rotate_right (Node p (mk q A (mk b B C sb ab) sq aq) D h s a) =
           Inr (mk b (mk q A B sq aq) (mk p C D s a) sb ab)"
    and "double_rotate_left (Node p A (mk q (mk b B C sb ab) D sq aq) h s a) =
           Inr (mk b (mk p A B s a) (mk q C D sq aq) sb ab)"
  using assms
  by (simp_all add: mk_def max.commute of_nat_max)

lemma balanced_cases [consumes 1, case_names Null mk]:
  assumes "balanced t"
  obtains "t = Null" | p l r s a where "t = mk p l r s a" "balanced l" "balanced r"
    "ht l \<le> ht r + 1" "ht r \<le> ht l + 1"
proof (cases t)
  case (Node p l r h s a)
  with assms have "t = mk p l r s a" by (simp add: mk_def)
  moreover have "balanced l" "balanced r" "ht l \<le> ht r + 1" "ht r \<le> ht l + 1"
    using assms Node by simp_all
  ultimately show ?thesis by (rule that(2))
qed (use that in simp)

lemma insert_fix_right_ok:
  assumes b: "balanced (Node p l r h s a)" and g: "grown r r' ch'"
  shows "\<exists>t ch. insert_fix_right (Node p l r' h s a) ch' = Inr (t, ch) \<and>
           grown (Node p l r h s a) t ch \<and>
           inorder t = inorder (Node p l r' h s a) \<and> ptrs t = ptrs (Node p l r' h s a)"
proof (cases "ch' \<and> ht r' = ht l + 2")
  case False
  then consider "\<not> ch'" | "ch'" "ht r' = ht l" | "ch'" "ht r' = Suc (ht l)"
    using b g by (cases ch') (simp_all add: grown_def, linarith)
  then show ?thesis
    using b g by cases (auto simp: fix_defs)
next
  case True
  then have n: "balanced r'" "r' \<noteq> Null" and l: "balanced l"
    using b g by (auto simp: grown_def)
  from n obtain q xl xr sq aq where x: "r' = mk q xl xr sq aq" and
    br: "balanced xl" "balanced xr" "ht xl \<le> ht xr + 1" "ht xr \<le> ht xl + 1"
    by (cases rule: balanced_cases) auto
  have old: "ht r = Suc (ht l)" and "leaning r'"
    using True g by (auto simp: grown_def)
  then consider "ht xl = Suc (ht l)" "ht xr = ht l" | "ht xl = ht l" "ht xr = Suc (ht l)"
    using True x br by (auto simp: max_def split: if_splits)
  then show ?thesis
  proof cases
    case 1
    obtain b' B C sb ab where "xl = mk b' B C sb ab" "balanced B" "balanced C"
      "ht B \<le> ht C + 1" "ht C \<le> ht B + 1"
      using br(1) 1 by (cases rule: balanced_cases) auto
    note BC = this
    have "max (ht B) (ht C) = ht l" using 1(1) BC(1) by simp
    then have "ht B \<le> ht l" "ht C \<le> ht l" "ht l \<le> Suc (ht B)" "ht l \<le> Suc (ht C)"
      using BC by (auto simp: max_def split: if_splits)
    with 1 True l old x br BC show ?thesis
      by (auto simp: insert_fix_right_def grown_def)
  qed (use True l old x br in \<open>auto simp: insert_fix_right_def grown_def\<close>)
qed


lemma insert_fix_left_ok:
  assumes b: "balanced (Node p l r h s a)" and g: "grown l l' ch'"
  shows "\<exists>t ch. insert_fix_left (Node p l' r h s a) ch' = Inr (t, ch) \<and>
           grown (Node p l r h s a) t ch \<and>
           inorder t = inorder (Node p l' r h s a) \<and> ptrs t = ptrs (Node p l' r h s a)"
proof (cases "ch' \<and> ht l' = ht r + 2")
  case False
  then consider "\<not> ch'" | "ch'" "ht l' = ht r" | "ch'" "ht l' = Suc (ht r)"
    using b g by (cases ch') (simp_all add: grown_def, linarith)
  then show ?thesis
    using b g by cases (auto simp: fix_defs)
next
  case True
  then have n: "balanced l'" "l' \<noteq> Null" and l: "balanced r"
    using b g by (auto simp: grown_def)
  from n obtain q xl xr sq aq where x: "l' = mk q xl xr sq aq" and
    br: "balanced xl" "balanced xr" "ht xl \<le> ht xr + 1" "ht xr \<le> ht xl + 1"
    by (cases rule: balanced_cases) auto
  have old: "ht l = Suc (ht r)" and "leaning l'"
    using True g by (auto simp: grown_def)
  then consider "ht xr = Suc (ht r)" "ht xl = ht r" | "ht xr = ht r" "ht xl = Suc (ht r)"
    using True x br by (auto simp: max_def split: if_splits)
  then show ?thesis
  proof cases
    case 1
    obtain b' B C sb ab where "xr = mk b' B C sb ab" "balanced B" "balanced C"
      "ht B \<le> ht C + 1" "ht C \<le> ht B + 1"
      using br(2) 1 by (cases rule: balanced_cases) auto
    note BC = this
    have "max (ht B) (ht C) = ht r" using 1(1) BC(1) by simp
    then have "ht B \<le> ht r" "ht C \<le> ht r" "ht r \<le> Suc (ht B)" "ht r \<le> Suc (ht C)"
      using BC by (auto simp: max_def split: if_splits)
    with 1 True l old x br BC show ?thesis
      by (auto simp: insert_fix_left_def grown_def)
  qed (use True l old x br in \<open>auto simp: insert_fix_left_def grown_def\<close>)
qed


lemma remove_fix_right_ok:
  assumes b: "balanced (Node p l r h s a)" and g: "shrunk r r' ch'"
  shows "\<exists>t ch. remove_fix_right (Node p l r' h s a) ch' = Inr (t, ch) \<and>
           shrunk (Node p l r h s a) t ch \<and>
           inorder t = inorder (Node p l r' h s a) \<and> ptrs t = ptrs (Node p l r' h s a)"
proof (cases "ch' \<and> ht l = ht r' + 2")
  case False
  then consider "\<not> ch'" | "ch'" "ht l = ht r'" | "ch'" "ht l = Suc (ht r')"
    using b g by (cases ch') (simp_all add: shrunk_def, linarith)
  then show ?thesis
    using b g by cases (auto simp: fix_defs)
next
  case True
  then have n: "balanced l" "l \<noteq> Null" and l: "balanced r'"
    using b g by (auto simp: shrunk_def)
  from n obtain q xl xr sq aq where x: "l = mk q xl xr sq aq" and
    br: "balanced xl" "balanced xr" "ht xl \<le> ht xr + 1" "ht xr \<le> ht xl + 1"
    by (cases rule: balanced_cases) auto
  have old: "ht r = Suc (ht r')" "h = int (ht r') + 3" using True b g by (auto simp: shrunk_def)
  consider "ht xr = Suc (ht r')" "ht xl = ht r'" | "ht xr = ht r'" "ht xl = Suc (ht r')"
    | "ht xr = Suc (ht r')" "ht xl = Suc (ht r')"
    using True x br by (cases "ht xl" "ht xr" rule: linorder_cases) auto
  then show ?thesis
  proof cases
    case 1
    obtain b' B C sb ab where "xr = mk b' B C sb ab" "balanced B" "balanced C"
      "ht B \<le> ht C + 1" "ht C \<le> ht B + 1"
      using br(2) 1 by (cases rule: balanced_cases) auto
    note BC = this
    have "max (ht B) (ht C) = ht r'" using 1(1) BC(1) by simp
    then have "ht B \<le> ht r'" "ht C \<le> ht r'" "ht r' \<le> Suc (ht B)" "ht r' \<le> Suc (ht C)"
      using BC by (auto simp: max_def split: if_splits)
    with 1 True l old x br BC show ?thesis
      by (auto simp: remove_fix_right_def shrunk_def)
  qed (use True l old x br in \<open>auto simp: remove_fix_right_def shrunk_def\<close>)
qed


lemma remove_fix_left_ok:
  assumes b: "balanced (Node p l r h s a)" and g: "shrunk l l' ch'"
  shows "\<exists>t ch. remove_fix_left (Node p l' r h s a) ch' = Inr (t, ch) \<and>
           shrunk (Node p l r h s a) t ch \<and>
           inorder t = inorder (Node p l' r h s a) \<and> ptrs t = ptrs (Node p l' r h s a)"
proof (cases "ch' \<and> ht r = ht l' + 2")
  case False
  then consider "\<not> ch'" | "ch'" "ht r = ht l'" | "ch'" "ht r = Suc (ht l')"
    using b g by (cases ch') (simp_all add: shrunk_def, linarith)
  then show ?thesis
    using b g by cases (auto simp: fix_defs)
next
  case True
  then have n: "balanced r" "r \<noteq> Null" and l: "balanced l'"
    using b g by (auto simp: shrunk_def)
  from n obtain q xl xr sq aq where x: "r = mk q xl xr sq aq" and
    br: "balanced xl" "balanced xr" "ht xl \<le> ht xr + 1" "ht xr \<le> ht xl + 1"
    by (cases rule: balanced_cases) auto
  have old: "ht l = Suc (ht l')" "h = int (ht l') + 3" using True b g by (auto simp: shrunk_def)
  consider "ht xl = Suc (ht l')" "ht xr = ht l'" | "ht xl = ht l'" "ht xr = Suc (ht l')"
    | "ht xl = Suc (ht l')" "ht xr = Suc (ht l')"
    using True x br by (cases "ht xl" "ht xr" rule: linorder_cases) auto
  then show ?thesis
  proof cases
    case 1
    obtain b' B C sb ab where "xl = mk b' B C sb ab" "balanced B" "balanced C"
      "ht B \<le> ht C + 1" "ht C \<le> ht B + 1"
      using br(1) 1 by (cases rule: balanced_cases) auto
    note BC = this
    have "max (ht B) (ht C) = ht l'" using 1(1) BC(1) by simp
    then have "ht B \<le> ht l'" "ht C \<le> ht l'" "ht l' \<le> Suc (ht B)" "ht l' \<le> Suc (ht C)"
      using BC by (auto simp: max_def split: if_splits)
    with 1 True l old x br BC show ?thesis
      by (auto simp: remove_fix_left_def shrunk_def)
  qed (use True l old x br in \<open>auto simp: remove_fix_left_def shrunk_def\<close>)
qed

section \<open>Insertion and removal\<close>

lemma inorder_eq_holes: "inorder t = inorder u \<Longrightarrow> holes t = holes u"
  by (simp add: holes_def)

lemma inorder_eq_ordered: "inorder t = inorder u \<Longrightarrow> ordered t = ordered u"
  by (simp add: ordered_def)

lemma insert_internal_ok:
  assumes "balanced t" "ordered t" "(hs, ha) \<notin> holes t" "f \<noteq> 0"
  shows "\<exists>t' ch. insert_internal (f # fr) t hs ha g err = Inr (t', fr, ch, err) \<and>
           grown t t' ch \<and> ordered t' \<and> holes t' = insert (hs, ha) (holes t) \<and>
           ptrs t' = add_mset f (ptrs t)"
  using assms
proof (induction t arbitrary: g)
  case Null
  then show ?case by (auto simp: grown_def)
next
  case (Node p l r h s a)
  show ?case
  proof (cases "(s, a) < (hs, ha)")
    case True
    from Node.IH(2) [of g] Node.prems obtain r' ch where r': "insert_internal (f # fr) r hs ha g err = Inr (r', fr, ch, err)"
      "grown r r' ch" "ordered r'" "holes r' = insert (hs, ha) (holes r)" "ptrs r' = add_mset f (ptrs r)"
      by auto
    obtain t c where t: "insert_fix_right (Node p l r' h s a) ch = Inr (t, c)"
      "grown (Node p l r h s a) t c" "inorder t = inorder (Node p l r' h s a)"
      "ptrs t = ptrs (Node p l r' h s a)"
      using insert_fix_right_ok [OF Node.prems(1) r'(2)] by blast
    with r' True Node.prems(2,3) show ?thesis
      by (auto simp: inorder_eq_holes [OF t(3)] inorder_eq_ordered [OF t(3)])
  next
    case False
    with Node.prems have lt: "(hs, ha) < (s, a)" by (metis holes_simps(2) insertI1 linorder_less_linear)
    from Node.IH(1) [of g] Node.prems obtain l' ch where l': "insert_internal (f # fr) l hs ha g err = Inr (l', fr, ch, err)"
      "grown l l' ch" "ordered l'" "holes l' = insert (hs, ha) (holes l)" "ptrs l' = add_mset f (ptrs l)"
      by auto
    obtain t c where t: "insert_fix_left (Node p l' r h s a) ch = Inr (t, c)"
      "grown (Node p l r h s a) t c" "inorder t = inorder (Node p l' r h s a)"
      "ptrs t = ptrs (Node p l' r h s a)"
      using insert_fix_left_ok [OF Node.prems(1) l'(2)] by blast
    with l' lt False Node.prems(2,3) show ?thesis
      by (auto simp: inorder_eq_holes [OF t(3)] inorder_eq_ordered [OF t(3)])
  qed
qed

lemma rightmost_ok:
  assumes "t \<noteq> Null" "ordered t"
  shows "\<exists>k. rightmost t = Inr k \<and> k \<in> holes t \<and> (\<forall>k' \<in> holes t. k' \<le> k)"
  using assms
proof (induction t)
  case (Node p l r h s a)
  show ?case
  proof (cases r)
    case Null
    with Node show ?thesis by (auto intro: less_imp_le)
  next
    case (Node q rl rr rh rs ra)
    with Node.IH(2) Node.prems obtain k where
      k: "rightmost r = Inr k" "k \<in> holes r" "\<forall>k' \<in> holes r. k' \<le> k" by auto
    have "(s, a) < k" using k(2) Node.prems by simp
    moreover have "k' < (s, a)" if "k' \<in> holes l" for k' using that Node.prems by simp
    ultimately show ?thesis
      using k Node by (auto intro: less_imp_le order.strict_trans)
  qed
qed simp

text \<open>
  A balanced node with one child has a leaf for that child, so copying the child's
  hole into the node and dropping the child loses nothing.
\<close>

lemma lone_child:
  "balanced (Node p Null r h s a) \<Longrightarrow> r \<noteq> Null \<Longrightarrow> \<exists>q s' a'. r = Node q Null Null 1 s' a'"
  "balanced (Node p l Null h s a) \<Longrightarrow> l \<noteq> Null \<Longrightarrow> \<exists>q s' a'. l = Node q Null Null 1 s' a'"
  by (cases r, simp_all) (cases l, simp_all)

text \<open>The three ways \<open>remove_internal\<close> descends.\<close>

definition descend_right :: "u32 list \<Rightarrow> u32 \<Rightarrow> Kalloc_AVL_Node \<Rightarrow> Kalloc_AVL_Node \<Rightarrow> int \<Rightarrow> u32 \<Rightarrow> u32
    \<Rightarrow> u32 \<Rightarrow> u32 \<Rightarrow> bool \<Rightarrow> int \<Rightarrow> (Kalloc_AVL_Node \<times> u32 list \<times> bool \<times> int) res" where
  "descend_right fr p l r h s a hs ha g nf =
     rbind (remove_internal fr r hs ha g nf) (\<lambda>(r', fr', changed', nf').
     rbind (remove_fix_right (Node p l r' h s a) changed') (\<lambda>(t, ch). Inr (t, fr', ch, nf')))"

definition descend_left :: "u32 list \<Rightarrow> u32 \<Rightarrow> Kalloc_AVL_Node \<Rightarrow> Kalloc_AVL_Node \<Rightarrow> int \<Rightarrow> u32 \<Rightarrow> u32
    \<Rightarrow> u32 \<Rightarrow> u32 \<Rightarrow> bool \<Rightarrow> int \<Rightarrow> (Kalloc_AVL_Node \<times> u32 list \<times> bool \<times> int) res" where
  "descend_left fr p l r h s a hs ha g nf =
     rbind (remove_internal fr l hs ha g nf) (\<lambda>(l', fr', changed', nf').
     rbind (remove_fix_left (Node p l' r h s a) changed') (\<lambda>(t, ch). Inr (t, fr', ch, nf')))"

lemma remove_internal_greater:
  assumes "(s, a) < (hs, ha)"
  shows "remove_internal fr (Node p l r h s a) hs ha g nf = descend_right fr p l r h s a hs ha g nf"
proof -
  have "compare_hole hs ha s a > 0" "compare_hole hs ha s a \<noteq> 0"
    using assms by (metis compare_hole_pos) (metis assms compare_hole_eq_0 order.irrefl)
  then show ?thesis by (simp add: Let_def descend_right_def del: compare_hole_pos compare_hole_eq_0)
qed

lemma remove_internal_less:
  assumes "(hs, ha) < (s, a)"
  shows "remove_internal fr (Node p l r h s a) hs ha g nf = descend_left fr p l r h s a hs ha g nf"
proof -
  have "\<not> compare_hole hs ha s a > 0" "compare_hole hs ha s a \<noteq> 0"
    using assms by (metis compare_hole_pos order.asym) (metis assms compare_hole_eq_0 order.irrefl)
  then show ?thesis by (simp add: Let_def descend_left_def del: compare_hole_pos compare_hole_eq_0)
qed

lemma remove_internal_both:
  assumes "l \<noteq> Null" "r \<noteq> Null" "rightmost l = Inr (ps, pa)" "(ps, pa) < (s, a)"
  shows "remove_internal fr (Node p l r h s a) s a g nf = descend_left fr p l r h ps pa ps pa g nf"
proof -
  have "\<not> compare_hole ps pa s a > 0" "compare_hole s a s a = 0"
    using assms(4) by (metis compare_hole_pos order.asym) simp
  with assms show ?thesis
    by (simp add: Let_def descend_left_def del: compare_hole_pos compare_hole_eq_0)
qed

lemma remove_internal_ok:
  assumes "balanced t" "ordered t" "(hs, ha) \<in> holes t"
  shows "\<exists>t' ch f. remove_internal fr t hs ha g nf = Inr (t', f # fr, ch, nf) \<and>
           shrunk t t' ch \<and> ordered t' \<and> holes t' = holes t - {(hs, ha)} \<and>
           ptrs t = add_mset f (ptrs t')"
  using assms
proof (induction t arbitrary: hs ha g)
  case (Node p l r h s a)
  have right: "\<exists>t' ch f. descend_right fr p l r h s a hs ha g nf = Inr (t', f # fr, ch, nf) \<and>
      shrunk (Node p l r h s a) t' ch \<and> ordered t' \<and>
      holes t' = insert (s, a) (holes l \<union> (holes r - {(hs, ha)})) \<and>
      ptrs (Node p l r h s a) = add_mset f (ptrs t')"
    if "(hs, ha) \<in> holes r"
  proof -
    from Node.IH(2) [of hs ha g] that Node.prems obtain r' ch f where
      r': "remove_internal fr r hs ha g nf = Inr (r', f # fr, ch, nf)"
      "shrunk r r' ch" "ordered r'" "holes r' = holes r - {(hs, ha)}" "ptrs r = add_mset f (ptrs r')"
      by auto
    obtain t c where t: "remove_fix_right (Node p l r' h s a) ch = Inr (t, c)"
      "shrunk (Node p l r h s a) t c" "inorder t = inorder (Node p l r' h s a)"
      "ptrs t = ptrs (Node p l r' h s a)"
      using remove_fix_right_ok [OF Node.prems(1) r'(2)] by blast
    with r' that Node.prems(2) show ?thesis
      by (auto simp: descend_right_def inorder_eq_holes [OF t(3)] inorder_eq_ordered [OF t(3)])
  qed
  have left: "\<exists>t' ch f. descend_left fr p l r h s' a' hs' ha' g nf = Inr (t', f # fr, ch, nf) \<and>
      shrunk (Node p l r h s a) t' ch \<and> ordered t' \<and>
      holes t' = insert (s', a') ((holes l - {(hs', ha')}) \<union> holes r) \<and>
      ptrs (Node p l r h s a) = add_mset f (ptrs t')"
    if "(hs', ha') \<in> holes l" "\<forall>k \<in> holes l - {(hs', ha')}. k < (s', a')" "\<forall>k \<in> holes r. (s', a') < k"
    for hs' ha' s' a'
  proof -
    from Node.IH(1) [of hs' ha' g] that Node.prems obtain l' ch f where
      l': "remove_internal fr l hs' ha' g nf = Inr (l', f # fr, ch, nf)"
      "shrunk l l' ch" "ordered l'" "holes l' = holes l - {(hs', ha')}" "ptrs l = add_mset f (ptrs l')"
      by auto
    have b: "balanced (Node p l r h s' a')" using Node.prems(1) by simp
    obtain t c where t: "remove_fix_left (Node p l' r h s' a') ch = Inr (t, c)"
      "shrunk (Node p l r h s' a') t c" "inorder t = inorder (Node p l' r h s' a')"
      "ptrs t = ptrs (Node p l' r h s' a')"
      using remove_fix_left_ok [OF b l'(2)] by blast
    with l' that Node.prems(2) show ?thesis
      by (auto simp: descend_left_def inorder_eq_holes [OF t(3)] inorder_eq_ordered [OF t(3)] shrunk_def)
  qed
  consider "(s, a) < (hs, ha)" | "(hs, ha) < (s, a)" | "(hs, ha) = (s, a)"
    by (rule linorder_cases)
  then show ?case
  proof cases
    case 1
    have eq: "insert (s, a) (holes l \<union> (holes r - {(hs, ha)})) = holes (Node p l r h s a) - {(hs, ha)}"
      using 1 Node.prems(2) by auto
    have "(hs, ha) \<in> holes r" using 1 Node.prems by (auto dest: order.strict_trans)
    from right [OF this] show ?thesis
      unfolding remove_internal_greater [OF 1] eq .
  next
    case 2
    have eq: "insert (s, a) ((holes l - {(hs, ha)}) \<union> holes r) = holes (Node p l r h s a) - {(hs, ha)}"
      using 2 Node.prems(2) by auto
    have "(hs, ha) \<in> holes l" using 2 Node.prems by (auto dest: order.strict_trans)
    from left [of hs ha s a, OF this] show ?thesis
      unfolding remove_internal_less [OF 2] eq using Node.prems(2) by simp
  next
    case 3
    then have k: "hs = s" "ha = a" by simp_all
    have sub: "holes (Node p l r h s a) - {(s, a)} = holes l \<union> holes r"
      using Node.prems(2) by auto
    consider "l = Null" "r = Null" | "l = Null" "r \<noteq> Null" | "l \<noteq> Null" "r = Null" | "l \<noteq> Null" "r \<noteq> Null"
      by blast
    then show ?thesis unfolding k sub
    proof cases
      case 4
      obtain ps pa where pm: "rightmost l = Inr (ps, pa)" "(ps, pa) \<in> holes l"
        "\<forall>k' \<in> holes l. k' \<le> (ps, pa)"
        using rightmost_ok [of l] 4 Node.prems(2) by auto
      have "(ps, pa) < (s, a)" using pm(2) Node.prems(2) by simp
      moreover have "\<forall>k \<in> holes r. (ps, pa) < k"
        using calculation Node.prems(2) by (auto dest: order.strict_trans)
      moreover have "\<forall>k \<in> holes l - {(ps, pa)}. k < (ps, pa)"
        using pm(3) by (auto simp: order.strict_iff_order)
      moreover have "insert (ps, pa) (holes l - {(ps, pa)} \<union> holes r) = holes l \<union> holes r"
        using pm(2) by auto
      ultimately show "\<exists>t' ch f. remove_internal fr (Node p l r h s a) s a g nf = Inr (t', f # fr, ch, nf) \<and>
          shrunk (Node p l r h s a) t' ch \<and> ordered t' \<and> holes t' = holes l \<union> holes r \<and>
          ptrs (Node p l r h s a) = add_mset f (ptrs t')"
        using left [OF pm(2), of ps pa] remove_internal_both [OF 4 pm(1)] by simp
    next
      case 2
      with lone_child(1) [of p r h s a] Node.prems obtain q s' a' where "r = Node q Null Null 1 s' a'" by auto
      with 2 Node.prems show "\<exists>t' ch f. remove_internal fr (Node p l r h s a) s a g nf = Inr (t', f # fr, ch, nf) \<and>
          shrunk (Node p l r h s a) t' ch \<and> ordered t' \<and> holes t' = holes l \<union> holes r \<and>
          ptrs (Node p l r h s a) = add_mset f (ptrs t')"
        by (simp add: put_free_node_def shrunk_def) blast
    next
      case 3
      with lone_child(2) [of p l h s a] Node.prems obtain q s' a' where "l = Node q Null Null 1 s' a'" by auto
      with 3 Node.prems show "\<exists>t' ch f. remove_internal fr (Node p l r h s a) s a g nf = Inr (t', f # fr, ch, nf) \<and>
          shrunk (Node p l r h s a) t' ch \<and> ordered t' \<and> holes t' = holes l \<union> holes r \<and>
          ptrs (Node p l r h s a) = add_mset f (ptrs t')"
        by (simp add: put_free_node_def shrunk_def) blast
    qed (use Node.prems in \<open>auto simp: put_free_node_def shrunk_def\<close>)
  qed
qed simp

section \<open>Search\<close>

definition fits :: "u32 \<Rightarrow> u32 \<Rightarrow> u32 \<times> u32 \<Rightarrow> bool" where
  "fits hs alignment k \<longleftrightarrow> hs \<le> fst k \<and> hole_has_alignment_space (fst k) (snd k) hs alignment"

lemma find_step:
  "avl_find_hole_internal (Node p l r h s a) hs al =
     (if fits hs al (s, a)
      then let addr = avl_find_hole_internal l hs al in if addr \<noteq> 0 then addr else a
      else avl_find_hole_internal r hs al)"
  by (auto simp: fits_def compare_hole_size_def)

lemma fits_0 [simp]: "fits hs 0 k \<longleftrightarrow> hs \<le> fst k"
  by (simp add: fits_def hole_has_alignment_space_def aligned_hole_addr_def)

lemma find_sound:
  "avl_find_hole_internal t hs al = addr \<Longrightarrow> addr \<noteq> 0 \<Longrightarrow>
   \<exists>s. (s, addr) \<in> holes t \<and> fits hs al (s, addr)"
proof (induction t)
  case (Node p l r h s a)
  then show ?case
    unfolding find_step by (force simp: Let_def split: if_splits)
qed simp

lemma find_complete:
  assumes "ordered t" "k \<in> holes t" "\<forall>k' \<in> holes t. k' \<le> k" "fits hs al k" "0 \<notin> snd ` holes t"
  shows "avl_find_hole_internal t hs al \<noteq> 0"
  using assms
proof (induction t)
  case (Node p l r h s a)
  show ?case
  proof (cases "fits hs al (s, a)")
    case True
    with Node.prems show ?thesis unfolding find_step by (auto simp: Let_def)
  next
    case False
    then have "k \<noteq> (s, a)" using Node.prems by auto
    moreover have "k \<notin> holes l"
      using Node.prems(1,3) by (metis holes_simps(2) insertI1 not_le ordered_simps(2))
    ultimately have "k \<in> holes r" using Node.prems(2) by auto
    with Node.IH(2) Node.prems False show ?thesis unfolding find_step by auto
  qed
qed simp

text \<open>\<open>addr\<close> is the address of the least hole of at least \<open>hs\<close> bytes, 0 if there is none.\<close>

definition least_hole :: "(u32 \<times> u32) set \<Rightarrow> u32 \<Rightarrow> u32 \<Rightarrow> bool" where
  "least_hole H hs addr \<longleftrightarrow>
     (if addr = 0 then \<forall>k \<in> H. fst k < hs
      else \<exists>s. (s, addr) \<in> H \<and> hs \<le> s \<and> (\<forall>k \<in> H. hs \<le> fst k \<longrightarrow> (s, addr) \<le> k))"

lemma less_fst_le: "x < y \<Longrightarrow> fst x \<le> fst (y :: u32 \<times> u32)"
  by (auto simp: less_prod_def)

lemma least_hole_skip:
  assumes "least_hole B hs addr" and "\<forall>k \<in> A. fst k < hs"
  shows "least_hole (A \<union> B) hs addr"
proof (cases "addr = 0")
  case True
  with assms show ?thesis by (auto simp: least_hole_def)
next
  case False
  with assms obtain s where "(s, addr) \<in> B" "hs \<le> s" "\<forall>k \<in> B. hs \<le> fst k \<longrightarrow> (s, addr) \<le> k"
    by (auto simp: least_hole_def)
  moreover have "\<not> hs \<le> fst k" if "k \<in> A" for k using assms(2) that by auto
  ultimately show ?thesis using False by (auto simp: least_hole_def)
qed

lemma least_hole_first:
  assumes "least_hole A hs addr" and "addr \<noteq> 0" and "\<forall>x \<in> A. \<forall>y \<in> B. x < y"
  shows "least_hole (A \<union> B) hs addr"
proof -
  from assms(1,2) obtain s where s: "(s, addr) \<in> A" "hs \<le> s" "\<forall>k \<in> A. hs \<le> fst k \<longrightarrow> (s, addr) \<le> k"
    by (auto simp: least_hole_def)
  have "(s, addr) \<le> k" if "k \<in> B" for k
    using assms(3) s(1) that by (blast intro: less_imp_le)
  with s assms(2) show ?thesis by (auto simp: least_hole_def)
qed

lemma find_least:
  assumes "ordered t" "0 \<notin> snd ` holes t"
  shows "least_hole (holes t) hs (avl_find_hole_internal t hs 0)"
  using assms
proof (induction t)
  case (Node p l r h s a)
  have IH: "least_hole (holes l) hs (avl_find_hole_internal l hs 0)"
           "least_hole (holes r) hs (avl_find_hole_internal r hs 0)"
    using Node by auto
  have split: "holes (Node p l r h s a) = insert (s, a) (holes l) \<union> holes r"
    "holes (Node p l r h s a) = holes l \<union> insert (s, a) (holes r)" by auto
  show ?case
  proof (cases "hs \<le> s")
    case False
    have "\<forall>k \<in> insert (s, a) (holes l). fst k < hs"
      using False less_fst_le [of _ "(s, a)"] Node.prems(1) by fastforce
    from least_hole_skip [OF IH(2) this] False show ?thesis
      unfolding find_step split(1) by simp
  next
    case True
    have gt: "\<forall>x \<in> holes l. \<forall>y \<in> insert (s, a) (holes r). x < y"
      using Node.prems(1) by (auto dest: order.strict_trans)
    show ?thesis
    proof (cases "avl_find_hole_internal l hs 0 = 0")
      case False
      from least_hole_first [OF IH(1) False gt] True False show ?thesis
        unfolding find_step split(2) by (simp add: Let_def)
    next
      case zero: True
      have "least_hole (insert (s, a) (holes r)) hs a"
        using True Node.prems unfolding least_hole_def
        by (auto intro!: exI [of _ s] intro: less_imp_le)
      moreover have "\<forall>k \<in> holes l. fst k < hs"
        using IH(1) zero by (simp add: least_hole_def)
      ultimately show ?thesis
        using True zero least_hole_skip unfolding find_step split(2) by (simp add: Let_def del: Un_insert_right)
    qed
  qed
qed (simp add: least_hole_def)

section \<open>Height\<close>

lemma pow2_ht_le: "balanced t \<Longrightarrow> 2 ^ (ht t div 2) \<le> size (ptrs t) + 1"
proof (induction t)
  case (Node p l r h s a)
  define m where "m = max (ht l) (ht r)"
  have le: "m - 1 \<le> ht l" "m - 1 \<le> ht r" using Node.prems by (auto simp: m_def)
  have pw: "(2::nat) ^ ((m - 1) div 2) \<le> 2 ^ (x div 2)" if "m - 1 \<le> x" for x
    using that by (intro power_increasing div_le_mono) auto
  have "(2::nat) ^ (Suc m div 2) \<le> 2 * 2 ^ ((m - 1) div 2)"
    by (cases m) (auto simp flip: power_Suc)
  also have "\<dots> \<le> 2 ^ (ht l div 2) + 2 ^ (ht r div 2)"
    using pw [OF le(1)] pw [OF le(2)] by linarith
  also have "\<dots> \<le> size (ptrs (Node p l r h s a)) + 1"
    using Node by simp
  finally show ?case by (simp add: m_def)
qed simp

section \<open>The hole index as an interface\<close>

text \<open>
  What \<open>kalloc_heap.c\<close> relies on: a finite set of holes \<open>(size, address)\<close> behind
  the three operations, and a number of spare cells that bounds the insertions.
  The first argument of \<open>ins\<close> and \<open>del\<close> is the garbage in the uninitialised local
  of the C code: the laws hold for both of its values.
\<close>

locale hole_index =
  fixes ins del :: "bool \<Rightarrow> 'i \<Rightarrow> u32 \<Rightarrow> u32 \<Rightarrow> ('i \<times> int) res"
    and find :: "'i \<Rightarrow> u32 \<Rightarrow> u32 \<Rightarrow> u32"
    and holes_of :: "'i \<Rightarrow> (u32 \<times> u32) set"
    and spare :: "'i \<Rightarrow> nat"
    and invar :: "'i \<Rightarrow> bool"
  assumes ins_ok: "invar i \<Longrightarrow> (s, a) \<notin> holes_of i \<Longrightarrow> spare i \<noteq> 0 \<Longrightarrow>
      \<exists>i'. ins g i s a = Inr (i', 0) \<and> invar i' \<and> holes_of i' = insert (s, a) (holes_of i) \<and>
           spare i = Suc (spare i')"
    and del_ok: "invar i \<Longrightarrow> (s, a) \<in> holes_of i \<Longrightarrow>
      \<exists>i'. del g i s a = Inr (i', 0) \<and> invar i' \<and> holes_of i' = holes_of i - {(s, a)} \<and>
           spare i' = Suc (spare i)"
    and finite_holes: "finite (holes_of i)"
    and find_hit: "find i s al = a \<Longrightarrow> a \<noteq> 0 \<Longrightarrow> \<exists>hs. (hs, a) \<in> holes_of i \<and> fits s al (hs, a)"
    and find_greatest: "invar i \<Longrightarrow> 0 \<notin> snd ` holes_of i \<Longrightarrow> k \<in> holes_of i \<Longrightarrow>
      (\<And>k'. k' \<in> holes_of i \<Longrightarrow> k' \<le> k) \<Longrightarrow> fits s al k \<Longrightarrow> find i s al \<noteq> 0"
begin

text \<open>A hole that changes its size or address: taken out and put back.\<close>

lemma replace_ok:
  assumes "invar i" "(s, a) \<in> holes_of i" "(s', a') \<notin> holes_of i - {(s, a)}"
  shows "\<exists>i' i''. del g i s a = Inr (i', 0) \<and> ins g' i' s' a' = Inr (i'', 0) \<and> invar i'' \<and>
           holes_of i'' = insert (s', a') (holes_of i - {(s, a)}) \<and> spare i'' = spare i"
proof -
  obtain i' where d: "del g i s a = Inr (i', 0)" "invar i'" "holes_of i' = holes_of i - {(s, a)}"
    "spare i' = Suc (spare i)"
    using del_ok [OF assms(1,2)] by blast
  moreover obtain i'' where "ins g' i' s' a' = Inr (i'', 0)" "invar i''"
    "holes_of i'' = insert (s', a') (holes_of i')" "spare i' = Suc (spare i'')"
    using ins_ok [OF d(2)] d(3,4) assms(3) by (metis Zero_not_Suc)
  ultimately show ?thesis by auto
qed

text \<open>When nothing is found, the greatest hole does not fit.\<close>

lemma find_none:
  assumes "invar i" "0 \<notin> snd ` holes_of i" "holes_of i \<noteq> {}" "find i s al = 0"
  shows "\<exists>k \<in> holes_of i. (\<forall>k' \<in> holes_of i. k' \<le> k) \<and> \<not> fits s al k"
proof -
  have "Max (holes_of i) \<in> holes_of i" "\<forall>k' \<in> holes_of i. k' \<le> Max (holes_of i)"
    using finite_holes [of i] assms(3) by simp_all
  with find_greatest [OF assms(1,2)] assms(4) show ?thesis by metis
qed

end

section \<open>The tree implements the index\<close>

definition cells :: "Kalloc_AVL \<Rightarrow> u32 multiset" where
  "cells avl = ptrs (root avl) + mset (free avl)"

definition arena_ok :: "u32 multiset \<Rightarrow> bool" where
  "arena_ok M \<longleftrightarrow> 0 \<notin># M \<and> (\<forall>x. count M x \<le> 1)"

definition avl_ok :: "Kalloc_AVL \<Rightarrow> bool" where
  "avl_ok avl \<longleftrightarrow> balanced (root avl) \<and> ordered (root avl) \<and> arena_ok (cells avl)"

definition avl_holes :: "Kalloc_AVL \<Rightarrow> (u32 \<times> u32) set" where
  "avl_holes avl = holes (root avl)"

definition avl_spare :: "Kalloc_AVL \<Rightarrow> nat" where
  "avl_spare avl = length (free avl)"

lemmas avl_defs = avl_ok_def avl_holes_def avl_spare_def

lemma kalloc_avl_insert_step:
  assumes "avl_ok avl" "(s, a) \<notin> avl_holes avl" "free avl \<noteq> []"
  shows "\<exists>avl'. kalloc_avl_insert g avl s a = Inr (avl', 0) \<and> avl_ok avl' \<and>
           avl_holes avl' = insert (s, a) (avl_holes avl) \<and> cells avl' = cells avl \<and>
           avl_spare avl = Suc (avl_spare avl')"
proof -
  obtain f fr where fr: "free avl = f # fr" using assms(3) by (cases "free avl") auto
  have "f \<noteq> 0" using assms(1) fr by (auto simp: avl_defs arena_ok_def cells_def)
  then obtain t' ch where t': "insert_internal (f # fr) (root avl) s a g 0 = Inr (t', fr, ch, 0)"
    "grown (root avl) t' ch" "ordered t'" "holes t' = insert (s, a) (holes (root avl))"
    "ptrs t' = add_mset f (ptrs (root avl))"
    using insert_internal_ok [of "root avl" s a f fr g 0] assms by (auto simp: avl_defs)
  moreover have "cells \<lparr>free = fr, root = t'\<rparr> = cells avl"
    using t'(5) fr by (simp add: cells_def)
  ultimately show ?thesis
    using assms(1) fr by (simp add: kalloc_avl_insert_def avl_defs grown_def)
qed

lemma kalloc_avl_remove_step:
  assumes "avl_ok avl" "(s, a) \<in> avl_holes avl"
  shows "\<exists>avl'. kalloc_avl_remove g avl s a = Inr (avl', 0) \<and> avl_ok avl' \<and>
           avl_holes avl' = avl_holes avl - {(s, a)} \<and> cells avl' = cells avl \<and>
           avl_spare avl' = Suc (avl_spare avl)"
proof -
  obtain t' ch f where t': "remove_internal (free avl) (root avl) s a g 0 = Inr (t', f # free avl, ch, 0)"
    "shrunk (root avl) t' ch" "ordered t'" "holes t' = holes (root avl) - {(s, a)}"
    "ptrs (root avl) = add_mset f (ptrs t')"
    using remove_internal_ok [of "root avl" s a "free avl" g 0] assms by (auto simp: avl_defs)
  moreover have "cells \<lparr>free = f # free avl, root = t'\<rparr> = cells avl"
    using t'(5) by (simp add: cells_def)
  ultimately show ?thesis
    using assms(1) by (simp add: kalloc_avl_remove_def avl_defs shrunk_def)
qed

interpretation avl: hole_index kalloc_avl_insert kalloc_avl_remove kalloc_avl_find_hole
  avl_holes avl_spare avl_ok
proof
  show "\<exists>i'. kalloc_avl_insert g i s a = Inr (i', 0) \<and> avl_ok i' \<and>
      avl_holes i' = insert (s, a) (avl_holes i) \<and> avl_spare i = Suc (avl_spare i')"
    if "avl_ok i" "(s, a) \<notin> avl_holes i" "avl_spare i \<noteq> 0" for i s a g
    using kalloc_avl_insert_step [of i s a g] that by (auto simp: avl_spare_def)
  show "\<exists>i'. kalloc_avl_remove g i s a = Inr (i', 0) \<and> avl_ok i' \<and>
      avl_holes i' = avl_holes i - {(s, a)} \<and> avl_spare i' = Suc (avl_spare i)"
    if "avl_ok i" "(s, a) \<in> avl_holes i" for i s a g
    using kalloc_avl_remove_step [OF that] by blast
  show "finite (avl_holes i)" for i
    by (simp add: avl_holes_def holes_def)
  show "\<exists>hs. (hs, a) \<in> avl_holes i \<and> fits s al (hs, a)"
    if "kalloc_avl_find_hole i s al = a" "a \<noteq> 0" for i s al a
    using find_sound that unfolding kalloc_avl_find_hole_def avl_holes_def by blast
  show "kalloc_avl_find_hole i s al \<noteq> 0"
    if "avl_ok i" "0 \<notin> snd ` avl_holes i" "k \<in> avl_holes i"
       "\<And>k'. k' \<in> avl_holes i \<Longrightarrow> k' \<le> k" "fits s al k" for i k s al
    using that find_complete unfolding kalloc_avl_find_hole_def avl_holes_def avl_ok_def by blast
qed

section \<open>Initial tree\<close>

lemma unat_add_scaled:
  assumes "unat (d :: u32) + n * k \<le> 4294967295" "i \<le> n"
  shows "unat (d + of_nat i * of_nat k) = unat d + i * k"
proof -
  have "i * k \<le> n * k" by (rule mult_le_mono1 [OF assms(2)])
  then have lt: "unat d + i * k < 4294967296" using assms(1) by linarith
  then have u: "unat (of_nat (i * k) :: u32) = i * k" by (intro unat_of_nat32) linarith
  have "unat d + unat (of_nat (i * k) :: u32) < 4294967296"
    using lt by (simp only: u)
  then have "unat (d + of_nat (i * k)) = unat d + unat (of_nat (i * k) :: u32)"
    by (rule unat_add32)
  then have "unat (d + of_nat (i * k)) = unat d + i * k" by (simp only: u)
  then show ?thesis by (simp only: of_nat_mult)
qed

lemma init_cells_distinct:
  assumes "unat (d :: u32) + n * 20 \<le> 4294967295" "d \<noteq> 0"
  shows "distinct (map (\<lambda>i. d + of_nat i * 20) [0..<n])"
    and "0 \<notin> set (map (\<lambda>i. d + of_nat i * 20) [0..<n])"
proof -
  have u: "unat (d + of_nat i * 20) = unat d + i * 20" if "i < n" for i
    using unat_add_scaled [OF assms(1) less_imp_le [OF that]] by (simp only: of_nat_numeral)
  have inj: "i = j" if "i < n" "j < n" "d + of_nat i * 20 = d + of_nat j * 20" for i j
  proof -
    have "unat d + i * 20 = unat d + j * 20"
      unfolding u [OF that(1), symmetric] u [OF that(2), symmetric] that(3) ..
    then show ?thesis by linarith
  qed
  show "distinct (map (\<lambda>i. d + of_nat i * 20) [0..<n])"
    unfolding distinct_map by (auto intro!: inj_onI inj simp del: add_left_cancel)
  show "0 \<notin> set (map (\<lambda>i. d + of_nat i * 20) [0..<n])"
  proof
    assume "0 \<in> set (map (\<lambda>i. d + of_nat i * 20) [0..<n])"
    then obtain i where i: "i < n" and z: "0 = d + of_nat i * 20" by (auto simp del: eq_commute)
    have "unat d + i * 20 = 0" unfolding u [OF i, symmetric] z [symmetric] by simp
    then have "unat d = 0" by linarith
    with assms(2) show False by (simp add: unat_eq_zero)
  qed
qed

lemma arena_ok_mset: "distinct xs \<Longrightarrow> 0 \<notin> set xs \<Longrightarrow> arena_ok (mset xs)"
  by (simp add: arena_ok_def distinct_count_atmost_1)

lemma kalloc_avl_init_cells:
  assumes "sizeof_Kalloc_AVL_Node \<le> n" "d \<noteq> 0" "unat d + unat n \<le> 4294967295"
  shows "\<exists>avl. kalloc_avl_init d n = Inr avl \<and> avl_ok avl \<and> avl_holes avl = {} \<and>
           avl_spare avl = unat n div 20 \<and> size (cells avl) = unat n div 20"
proof -
  have m: "unat (n div 20) = unat n div 20" by (simp add: word_nat)
  have b: "unat d + unat n div 20 * 20 \<le> 4294967295"
    using assms(3) div_times_less_eq_dividend [of "unat n" 20] by linarith
  note dist = init_cells_distinct [OF b assms(2)]
  let ?avl = "\<lparr>free = map (\<lambda>i. d + of_nat i * 20) [0..<unat n div 20], root = Null\<rparr>"
  have "kalloc_avl_init d n = Inr ?avl"
    using assms(1) unfolding kalloc_avl_init_def Let_def sizeof_Kalloc_AVL_Node_def m by simp
  moreover have "arena_ok (cells ?avl)"
    using arena_ok_mset [OF dist] by (simp add: cells_def del: mset_map)
  ultimately show ?thesis
    by (simp add: avl_defs cells_def)
qed

section \<open>Removing an absent hole\<close>

lemma remove_internal_absent:
  "ordered t \<Longrightarrow> (hs, ha) \<notin> holes t \<Longrightarrow>
   remove_internal fr t hs ha False nf = Inr (t, fr, False, 1)"
proof (induction t)
  case (Node p l r h s a)
  then consider "(s, a) < (hs, ha)" | "(hs, ha) < (s, a)"
    by (metis holes_simps(2) insertI1 linorder_less_linear)
  then show ?case
  proof cases
    case 1
    with Node show ?thesis
      unfolding remove_internal_greater [OF 1] by (simp add: descend_right_def remove_fix_right_def)
  next
    case 2
    with Node show ?thesis
      unfolding remove_internal_less [OF 2] by (simp add: descend_left_def remove_fix_left_def)
  qed
qed simp

section \<open>Properties of the hole tree\<close>


definition sample_avl :: Kalloc_AVL where
  "sample_avl = \<lparr>free = [60, 80], root = Node 20 (Node 40 Null Null 1 8 2000) Null 2 16 1000\<rparr>"

lemma sample_avl_ok: "avl_ok sample_avl"
  by (auto simp: sample_avl_def avl_ok_def arena_ok_def cells_def less_prod_def)


text \<open>
  C8: removing a hole that is in the tree succeeds: no assertion fails, exactly that
  hole disappears, the tree stays ordered and balanced, and one cell goes back to the
  free list.
\<close>

theorem avl_remove_correct:
  assumes "avl_ok avl" "(s, a) \<in> avl_holes avl"
  shows "\<exists>avl'. kalloc_avl_remove garbage avl s a = Inr (avl', 0) \<and> avl_ok avl' \<and>
           avl_holes avl' = avl_holes avl - {(s, a)} \<and> cells avl' = cells avl \<and>
           length (free avl') = Suc (length (free avl))"
  using kalloc_avl_remove_step [OF assms, of garbage] by (simp add: avl_spare_def)

theorem avl_remove_correct_witness:
  "\<exists>avl'. kalloc_avl_remove True sample_avl 16 1000 = Inr (avl', 0) \<and> avl_ok avl' \<and>
     avl_holes avl' = avl_holes sample_avl - {(16, 1000)} \<and> cells avl' = cells sample_avl \<and>
     length (free avl') = Suc (length (free sample_avl))"
  by (rule avl_remove_correct [OF sample_avl_ok]) (simp add: sample_avl_def avl_holes_def)

text \<open>
  C9: the search without alignment is best fit: it returns the least hole, in the
  order of size and then address, among those of at least the wanted size, and null
  exactly when every hole is smaller.
\<close>

theorem avl_find_best_fit:
  assumes "avl_ok avl" "0 \<notin> snd ` avl_holes avl"
  shows "least_hole (avl_holes avl) hs (kalloc_avl_find_hole avl hs 0)"
  using assms unfolding avl_ok_def avl_holes_def kalloc_avl_find_hole_def by (intro find_least) auto

theorem avl_find_best_fit_witness:
  "least_hole (avl_holes sample_avl) 9 (kalloc_avl_find_hole sample_avl 9 0)"
  by (rule avl_find_best_fit [OF sample_avl_ok]) (simp add: sample_avl_def avl_holes_def)

text \<open>
  C10: an aligned search returns only a hole of the tree with room for the wanted
  size after its address is rounded up to the alignment, and it finds one whenever
  the greatest hole has that room.
\<close>

theorem avl_find_aligned:
  assumes "avl_ok avl" "0 \<notin> snd ` avl_holes avl"
  shows "(kalloc_avl_find_hole avl hs al \<noteq> 0 \<longrightarrow>
            (\<exists>s. (s, kalloc_avl_find_hole avl hs al) \<in> avl_holes avl \<and> hs \<le> s \<and>
                 s \<ge> hs + (aligned_hole_addr (kalloc_avl_find_hole avl hs al) al
                           - kalloc_avl_find_hole avl hs al))) \<and>
         (\<forall>k \<in> avl_holes avl. (\<forall>k' \<in> avl_holes avl. k' \<le> k) \<and> fits hs al k \<longrightarrow>
            kalloc_avl_find_hole avl hs al \<noteq> 0)"
  using avl.find_hit [of avl hs al] avl.find_greatest [OF assms, of _ hs al]
  by (auto simp: fits_def hole_has_alignment_space_def)

theorem avl_find_aligned_witness:
  "\<exists>s. (s, 1000) \<in> avl_holes sample_avl \<and> s \<ge> 2 + (aligned_hole_addr 1000 8 - 1000)"
proof -
  have "kalloc_avl_find_hole sample_avl 9 8 = 1000"
    by (simp add: sample_avl_def kalloc_avl_find_hole_def compare_hole_size_def
        hole_has_alignment_space_def aligned_hole_addr_def)
  then show ?thesis
    using avl_find_aligned [OF sample_avl_ok, of 9 8]
    by (auto simp: sample_avl_def avl_holes_def aligned_hole_addr_def)
qed

text \<open>
  \<open>kalloc_avl_init\<close> on an arena builds the empty tree with every whole cell of the
  arena free, distinct and not null.
\<close>

theorem avl_init_correct:
  assumes "20 \<le> n" "d \<noteq> 0" "unat d + unat n \<le> 4294967295"
  shows "\<exists>avl. kalloc_avl_init d n = Inr avl \<and> avl_ok avl \<and> avl_holes avl = {} \<and>
           length (free avl) = unat n div 20"
  using kalloc_avl_init_cells [of n d] assms
  by (auto simp: sizeof_Kalloc_AVL_Node_def avl_spare_def)

theorem avl_init_correct_witness:
  "\<exists>avl. kalloc_avl_init 0x500000 65536 = Inr avl \<and> avl_ok avl \<and> avl_holes avl = {} \<and>
     length (free avl) = unat (65536 :: u32) div 20"
  by (rule avl_init_correct) simp_all

text \<open>
  the recursion of the tree's operations is shallow: in the arena of 16 pages that
  the heap reserves, at 20 bytes a cell, no tree is higher than 23.
\<close>

theorem avl_height_bound:
  assumes "avl_ok avl" "size (cells avl) \<le> 65536 div 20"
  shows "ht (root avl) \<le> 23"
proof (rule ccontr)
  assume "\<not> ht (root avl) \<le> 23"
  then have "(2::nat) ^ 12 \<le> 2 ^ (ht (root avl) div 2)"
    by (intro power_increasing) auto
  also have "\<dots> \<le> size (ptrs (root avl)) + 1"
    using assms(1) by (intro pow2_ht_le) (simp add: avl_ok_def)
  also have "\<dots> \<le> size (cells avl) + 1"
    by (simp add: cells_def)
  finally show False using assms(2) by simp
qed

theorem avl_height_bound_witness: "ht (root sample_avl) \<le> 23"
  by (rule avl_height_bound [OF sample_avl_ok]) (simp add: cells_def sample_avl_def)

text \<open>
  Removing a hole that the tree does not hold, with the uninitialised local
  \<open>subtree_height_changed\<close> of \<open>kalloc_avl_remove\<close> happening to be 0, leaves the
  index exactly as it was and reports not_found.
\<close>

theorem avl_remove_absent:
  assumes "avl_ok avl" and "(s, a) \<notin> avl_holes avl"
  shows "kalloc_avl_remove False avl s a = Inr (avl, 1)"
  using assms by (simp add: kalloc_avl_remove_def avl_defs remove_internal_absent)

lemma avl_remove_absent_witness:
  "kalloc_avl_remove False \<lparr>free = [], root = Node 20 Null Null 1 16 1000\<rparr> 32 2000 =
     Inr (\<lparr>free = [], root = Node 20 Null Null 1 16 1000\<rparr>, 1)"
  by (rule avl_remove_absent) (simp_all add: avl_defs arena_ok_def cells_def)

text \<open>
  The same removal with the uninitialised local happening to be nonzero
  corrupts the index: it reports not_found, yet it has lowered the height of a
  node of a tree that did not change, and the balance invariant is lost.
\<close>

theorem avl_remove_absent_garbage:
  "\<exists>avl s a avl'. avl_ok avl \<and> (s, a) \<notin> avl_holes avl \<and>
      kalloc_avl_remove True avl s a = Inr (avl', 1) \<and> \<not> avl_ok avl'"
proof -
  let ?avl = "\<lparr>free = [], root = Node 20 Null Null 1 16 1000\<rparr>"
  have "avl_ok ?avl" "(32, 2000) \<notin> avl_holes ?avl"
    by (simp_all add: avl_defs arena_ok_def cells_def)
  moreover have "kalloc_avl_remove True ?avl 32 2000 =
      Inr (\<lparr>free = [], root = Node 20 Null Null 0 16 1000\<rparr>, 1)"
    by (simp add: kalloc_avl_remove_def compare_hole_def remove_fix_right_def)
  moreover have "\<not> avl_ok \<lparr>free = [], root = Node 20 Null Null 0 16 1000\<rparr>"
    by (simp add: avl_ok_def)
  ultimately show ?thesis by blast
qed

end
