(* ===== verification/Hash_Map.thy ===== *)
theory Hash_Map
  imports Prelude
begin

text \<open>
  The open-addressing hash table of src/src/hash_map.h, which the kernel uses for
  the file descriptors of a process and for the system call stubs.

  The data array is a list of slots: \<open>None\<close> is an element whose \<open>valid\<close> word is 0,
  \<open>Some (key, value)\<close> an element whose \<open>valid\<close> word is 1.  The compare and hash
  functions are the fields of the record, as in C; comparing keys is a truth value.
  The probing loops of put, get and delete and the loop of \<open>adjust_gap\<close> have no
  exit other than the ones of the code, so they are partial functions and \<open>None\<close>
  is a call that never returns; \<open>Some (Inl e)\<close> is a fault and \<open>Some (Inr x)\<close> a
  return.  \<open>hash_map_put\<close> and \<open>hash_map_grow\<close> call each other: the first argument
  of \<open>hash_map_put\<close> bounds the depth of that recursion, and 2 is proved enough.
  What \<open>kalloc_alloc\<close> answers to a request of that many bytes is the argument
  \<open>ka\<close>; a block shorter than the table faults where it is accessed past its end.
\<close>

section \<open>The table\<close>

record ('k, 'v) Hash_Map =
  capacity :: u32
  num_elements :: u32
  key_size :: u32
  value_size :: u32
  key_compare_func :: "'k \<Rightarrow> 'k \<Rightarrow> bool"
  key_hash_func :: "'k \<Rightarrow> u32"
  data :: "('k \<times> 'v) option list"

text \<open>\<open>sizeof(Hash_Map_Element_Information)\<close> is 4.\<close>

definition element_size :: "u32 \<Rightarrow> u32 \<Rightarrow> u32" where
  "element_size ks vs = 4 + ks + vs"

definition in_block :: "('k, 'v) Hash_Map \<Rightarrow> u32 \<Rightarrow> bool" where
  "in_block hm i \<longleftrightarrow> unat i < length (data hm)"

definition get_element :: "('k, 'v) Hash_Map \<Rightarrow> u32 \<Rightarrow> ('k \<times> 'v) option" where
  "get_element hm i = data hm ! unat i"

definition put_element :: "('k, 'v) Hash_Map \<Rightarrow> u32 \<Rightarrow> 'k \<Rightarrow> 'v \<Rightarrow> ('k, 'v) Hash_Map" where
  "put_element hm i key val = hm\<lparr>data := (data hm)[unat i := Some (key, val)]\<rparr>"

definition invalidate_element :: "('k, 'v) Hash_Map \<Rightarrow> u32 \<Rightarrow> ('k, 'v) Hash_Map" where
  "invalidate_element hm i = hm\<lparr>data := (data hm)[unat i := None]\<rparr>"

text \<open>
  The block is cleared before its address is checked, so a null block faults in
  \<open>memset\<close> and the \<open>return -1\<close> of the code is behind that access.  The byte count
  is a 32-bit product and may wrap.
\<close>

definition hash_map_create ::
  "(u32 \<Rightarrow> u32) \<Rightarrow> u32 \<Rightarrow> u32 \<Rightarrow> u32 \<Rightarrow> ('k \<Rightarrow> 'k \<Rightarrow> bool) \<Rightarrow> ('k \<Rightarrow> u32) \<Rightarrow>
     (('k, 'v) Hash_Map \<times> s32) res" where
  "hash_map_create ka initial_capacity ks vs cmp hash =
    (let cap = (if 0 < initial_capacity then initial_capacity else 1);
         bytes = cap * element_size ks vs;
         block = ka bytes;
         slots = unat bytes div unat (element_size ks vs) in
     if block = 0 then Inl Null_deref
     else Inr (\<lparr>capacity = cap, num_elements = 0, key_size = ks, value_size = vs,
                key_compare_func = cmp, key_hash_func = hash,
                data = replicate slots None\<rparr>, 0))"

section \<open>Probing loops\<close>

definition next_pos :: "('k, 'v) Hash_Map \<Rightarrow> u32 \<Rightarrow> u32" where
  "next_pos hm pos = (pos + 1) mod capacity hm"

partial_function (option) put_loop ::
  "('k, 'v) Hash_Map \<Rightarrow> 'k \<Rightarrow> 'v \<Rightarrow> u32 \<Rightarrow> ('k, 'v) Hash_Map res option" where
  "put_loop hm key val pos =
    (if \<not> in_block hm pos then Some (Inl Out_of_bounds)
     else case get_element hm pos of
       None \<Rightarrow> Some (Inr ((put_element hm pos key val)\<lparr>num_elements := num_elements hm + 1\<rparr>))
     | Some (k, v) \<Rightarrow>
         if key_compare_func hm k key then Some (Inr (put_element hm pos key val))
         else put_loop hm key val (next_pos hm pos))"

partial_function (option) get_loop ::
  "('k, 'v) Hash_Map \<Rightarrow> 'k \<Rightarrow> 'v \<Rightarrow> u32 \<Rightarrow> ('v \<times> s32) res option" where
  "get_loop hm key val pos =
    (if \<not> in_block hm pos then Some (Inl Out_of_bounds)
     else case get_element hm pos of
       Some (k, v) \<Rightarrow>
         if key_compare_func hm k key then Some (Inr (v, 0))
         else get_loop hm key val (next_pos hm pos)
     | None \<Rightarrow> Some (Inr (val, -1)))"

partial_function (option) adjust_gap_loop ::
  "('k, 'v) Hash_Map \<Rightarrow> u32 \<Rightarrow> u32 \<Rightarrow> ('k, 'v) Hash_Map res option" where
  "adjust_gap_loop hm gap_index pos =
    (if \<not> in_block hm pos \<or> \<not> in_block hm gap_index then Some (Inl Out_of_bounds)
     else case get_element hm pos of
       None \<Rightarrow> Some (Inr hm)
     | Some (current_key, current_value) \<Rightarrow>
         let hash_position = key_hash_func hm current_key mod capacity hm;
             normalized_gap_index =
               (if gap_index < hash_position then gap_index + capacity hm else gap_index);
             normalized_pos = (if pos < hash_position then pos + capacity hm else pos) in
         if hash_position \<le> normalized_gap_index \<and> normalized_gap_index \<le> normalized_pos
         then adjust_gap_loop
                (put_element (invalidate_element hm pos) gap_index current_key current_value)
                pos (next_pos hm pos)
         else adjust_gap_loop hm gap_index (next_pos hm pos))"

definition adjust_gap :: "('k, 'v) Hash_Map \<Rightarrow> u32 \<Rightarrow> ('k, 'v) Hash_Map res option" where
  "adjust_gap hm gap_index = adjust_gap_loop hm gap_index (next_pos hm gap_index)"

partial_function (option) delete_loop ::
  "('k, 'v) Hash_Map \<Rightarrow> 'k \<Rightarrow> u32 \<Rightarrow> (('k, 'v) Hash_Map \<times> s32) res option" where
  "delete_loop hm key pos =
    (if \<not> in_block hm pos then Some (Inl Out_of_bounds)
     else case get_element hm pos of
       Some (k, v) \<Rightarrow>
         if key_compare_func hm k key
         then obind (adjust_gap (invalidate_element hm pos) pos)
                (\<lambda>hm'. Some (Inr (hm'\<lparr>num_elements := num_elements hm' - 1\<rparr>, 0)))
         else delete_loop hm key (next_pos hm pos)
     | None \<Rightarrow> Some (Inr (hm, -1)))"

section \<open>The operations\<close>

text \<open>
  \<open>hash_map_grow\<close> is given the \<open>hash_map_put\<close> it calls.  Its loop walks the slots of
  the old table from position \<open>pos\<close> on.
\<close>

type_synonym ('k, 'v) put_fun =
  "('k, 'v) Hash_Map \<Rightarrow> 'k \<Rightarrow> 'v \<Rightarrow> (('k, 'v) Hash_Map \<times> s32) res option"

fun grow_loop :: "('k, 'v) put_fun \<Rightarrow> ('k \<times> 'v) option list \<Rightarrow> ('k, 'v) Hash_Map \<Rightarrow>
    (('k, 'v) Hash_Map \<times> s32) res option" where
  "grow_loop put [] hm = Some (Inr (hm, 0))"
| "grow_loop put (None # slots) hm = grow_loop put slots hm"
| "grow_loop put (Some (key, val) # slots) hm =
    obind (put hm key val)
      (\<lambda>(hm', r). if r \<noteq> 0 then Some (Inr (hm', -1)) else grow_loop put slots hm')"

definition hash_map_grow ::
  "(u32 \<Rightarrow> u32) \<Rightarrow> ('k, 'v) put_fun \<Rightarrow> ('k, 'v) Hash_Map \<Rightarrow>
     (('k, 'v) Hash_Map \<times> s32) res option" where
  "hash_map_grow ka put old_hm =
    obind (Some (hash_map_create ka (push_bit 1 (capacity old_hm)) (key_size old_hm)
             (value_size old_hm) (key_compare_func old_hm) (key_hash_func old_hm)))
      (\<lambda>(hm, r). if r \<noteq> 0 then Some (Inr (hm, -1))
        else if length (data old_hm) < unat (capacity old_hm) then Some (Inl Out_of_bounds)
        else grow_loop put (take (unat (capacity old_hm)) (data old_hm)) hm)"

fun hash_map_put ::
  "(u32 \<Rightarrow> u32) \<Rightarrow> nat \<Rightarrow> ('k, 'v) Hash_Map \<Rightarrow> 'k \<Rightarrow> 'v \<Rightarrow>
     (('k, 'v) Hash_Map \<times> s32) res option" where
  "hash_map_put ka 0 hm key val = None"
| "hash_map_put ka (Suc depth) hm key val =
    obind (put_loop hm key val (key_hash_func hm key mod capacity hm))
      (\<lambda>hm'. if push_bit 1 (num_elements hm') > capacity hm'
             then obind (hash_map_grow ka (hash_map_put ka depth) hm')
                    (\<lambda>(hm'', r). if r \<noteq> 0 then Some (Inr (hm'', -1)) else Some (Inr (hm'', 0)))
             else Some (Inr (hm', 0)))"

definition hash_map_get ::
  "('k, 'v) Hash_Map \<Rightarrow> 'k \<Rightarrow> 'v \<Rightarrow> ('v \<times> s32) res option" where
  "hash_map_get hm key val = get_loop hm key val (key_hash_func hm key mod capacity hm)"

definition hash_map_delete ::
  "('k, 'v) Hash_Map \<Rightarrow> 'k \<Rightarrow> (('k, 'v) Hash_Map \<times> s32) res option" where
  "hash_map_delete hm key = delete_loop hm key (key_hash_func hm key mod capacity hm)"

fun for_each_loop :: "('k \<Rightarrow> 'v \<Rightarrow> 'd \<Rightarrow> 'd) \<Rightarrow> ('k \<times> 'v) option list \<Rightarrow> 'd \<Rightarrow> 'd" where
  "for_each_loop f [] d = d"
| "for_each_loop f (None # slots) d = for_each_loop f slots d"
| "for_each_loop f (Some (key, val) # slots) d = for_each_loop f slots (f key val d)"

text \<open>The callback may change its custom data only.\<close>

definition hash_map_for_each_entry ::
  "('k, 'v) Hash_Map \<Rightarrow> ('k \<Rightarrow> 'v \<Rightarrow> 'd \<Rightarrow> 'd) \<Rightarrow> 'd \<Rightarrow> 'd res" where
  "hash_map_for_each_entry hm f custom_data =
    (if length (data hm) < unat (capacity hm) then Inl Out_of_bounds
     else Inr (for_each_loop f (take (unat (capacity hm)) (data hm)) custom_data))"

section \<open>Well-formed tables\<close>

text \<open>The client's contract: keys that compare equal are one key and hash alike.\<close>

locale hash_keys =
  fixes cmp :: "'k \<Rightarrow> 'k \<Rightarrow> bool"
    and hash :: "'k \<Rightarrow> u32"
  assumes cmp_refl [simp]: "cmp k k"
    and cmp_sym: "cmp k k' \<Longrightarrow> cmp k' k"
    and cmp_trans: "cmp k k' \<Longrightarrow> cmp k' k'' \<Longrightarrow> cmp k k''"
    and hash_cmp: "cmp k k' \<Longrightarrow> hash k = hash k'"
begin

lemma cmp_commute: "cmp k k' \<longleftrightarrow> cmp k' k"
  using cmp_sym by blast

lemma cmp_left: "cmp k k' \<Longrightarrow> cmp k k'' \<longleftrightarrow> cmp k' k''"
  using cmp_sym cmp_trans by blast

lemma cmp_right: "cmp k k' \<Longrightarrow> cmp k'' k \<longleftrightarrow> cmp k'' k'"
  using cmp_sym cmp_trans by blast

end

text \<open>How many steps a probe that starts at \<open>h\<close> needs to reach \<open>i\<close> in a ring of \<open>n\<close> slots.\<close>

definition dist :: "nat \<Rightarrow> nat \<Rightarrow> nat \<Rightarrow> nat" where
  "dist n h i = (if h \<le> i then i - h else n - h + i)"

lemma dist_lt [simp]: "h < n \<Longrightarrow> i < n \<Longrightarrow> dist n h i < n"
  by (auto simp: dist_def)

lemma dist_add [simp]: "h < n \<Longrightarrow> i < n \<Longrightarrow> (h + dist n h i) mod n = i"
  by (auto simp: dist_def)

lemma dist_mod: "h < n \<Longrightarrow> d < n \<Longrightarrow> dist n h ((h + d) mod n) = d"
  by (auto simp: dist_def mod_if)

lemma dist_eq_0 [simp]: "h < n \<Longrightarrow> i < n \<Longrightarrow> dist n h i = 0 \<longleftrightarrow> i = h"
  by (auto simp: dist_def)

lemma dist_self [simp]: "dist n i i = 0"
  by (simp add: dist_def)

lemma dist_inj: "h < n \<Longrightarrow> i < n \<Longrightarrow> j < n \<Longrightarrow> dist n h i = dist n h j \<Longrightarrow> i = j"
  by (auto simp: dist_def split: if_splits)

lemma dist_next:
  "p < n \<Longrightarrow> e < n \<Longrightarrow> p \<noteq> e \<Longrightarrow> dist n p e = Suc (dist n ((p + 1) mod n) e)"
  by (auto simp: dist_def mod_if)

lemma dist_step:
  "g < n \<Longrightarrow> p < n \<Longrightarrow> (p + 1) mod n \<noteq> g \<Longrightarrow> dist n g ((p + 1) mod n) = Suc (dist n g p)"
  by (auto simp: dist_def mod_if split: if_splits)

text \<open>\<open>i\<close> lies behind \<open>g\<close> on the path from \<open>h\<close>: distances add up.\<close>

lemma dist_through:
  "h < n \<Longrightarrow> g < n \<Longrightarrow> i < n \<Longrightarrow> dist n h g \<le> dist n h i \<Longrightarrow> dist n h i = dist n h g + dist n g i"
  by (auto simp: dist_def split: if_splits)

text \<open>The slots a probe for an element at \<open>i\<close> passes are all in use.\<close>

definition slot_key :: "('k \<times> 'v) option list \<Rightarrow> nat \<Rightarrow> 'k" where
  "slot_key s i = fst (the (s ! i))"

definition path_full :: "('k \<times> 'v) option list \<Rightarrow> nat \<Rightarrow> nat \<Rightarrow> bool" where
  "path_full s h i \<longleftrightarrow> (\<forall>j < length s. dist (length s) h j < dist (length s) h i \<longrightarrow> s ! j \<noteq> None)"

definition distinct_keys :: "('k \<Rightarrow> 'k \<Rightarrow> bool) \<Rightarrow> ('k \<times> 'v) option list \<Rightarrow> bool" where
  "distinct_keys cmp s \<longleftrightarrow> (\<forall>i < length s. \<forall>j < length s. s ! i \<noteq> None \<longrightarrow> s ! j \<noteq> None \<longrightarrow>
     cmp (slot_key s i) (slot_key s j) \<longrightarrow> i = j)"

definition used_slots :: "('k \<times> 'v) option list \<Rightarrow> nat" where
  "used_slots s = length (filter (\<lambda>x. x \<noteq> None) s)"

definition home :: "('k, 'v) Hash_Map \<Rightarrow> 'k \<Rightarrow> nat" where
  "home hm k = unat (key_hash_func hm k) mod unat (capacity hm)"

definition hm_inv :: "('k, 'v) Hash_Map \<Rightarrow> bool" where
  "hm_inv hm \<longleftrightarrow>
     hash_keys (key_compare_func hm) (key_hash_func hm) \<and>
     0 < capacity hm \<and> length (data hm) = unat (capacity hm) \<and>
     unat (num_elements hm) = used_slots (data hm) \<and>
     distinct_keys (key_compare_func hm) (data hm) \<and>
     (\<forall>i < length (data hm). data hm ! i \<noteq> None \<longrightarrow>
        path_full (data hm) (home hm (slot_key (data hm) i)) i)"

text \<open>Between operations at most half of the slots are in use.\<close>

definition hm_ok :: "('k, 'v) Hash_Map \<Rightarrow> bool" where
  "hm_ok hm \<longleftrightarrow> hm_inv hm \<and> 2 * used_slots (data hm) \<le> length (data hm)"

text \<open>The finite map a table stands for.\<close>

fun slots_abs :: "('k \<Rightarrow> 'k \<Rightarrow> bool) \<Rightarrow> ('k \<times> 'v) option list \<Rightarrow> 'k \<Rightarrow> 'v option" where
  "slots_abs cmp [] key = None"
| "slots_abs cmp (None # s) key = slots_abs cmp s key"
| "slots_abs cmp (Some (k, v) # s) key = (if cmp k key then Some v else slots_abs cmp s key)"

definition hm_abs :: "('k, 'v) Hash_Map \<Rightarrow> 'k \<Rightarrow> 'v option" where
  "hm_abs hm key = slots_abs (key_compare_func hm) (data hm) key"

text \<open>There is room to double the table without a byte count that wraps.\<close>

definition hm_room :: "('k, 'v) Hash_Map \<Rightarrow> bool" where
  "hm_room hm \<longleftrightarrow>
     2 * unat (capacity hm) * (4 + unat (key_size hm) + unat (value_size hm)) < 2 ^ 32"

definition holds :: "('k, 'v) Hash_Map \<Rightarrow> 'k \<Rightarrow> 'v \<Rightarrow> bool" where
  "holds hm key v \<longleftrightarrow> (\<exists>k. Some (k, v) \<in> set (data hm) \<and> key_compare_func hm k key)"

section \<open>Lookup in the abstract map\<close>

lemma used_lt_free: "used_slots s < length s \<Longrightarrow> \<exists>i < length s. s ! i = None"
proof (rule ccontr)
  assume "used_slots s < length s" "\<not> (\<exists>i < length s. s ! i = None)"
  then have "filter (\<lambda>x. x \<noteq> None) s = s"
    by (auto simp: filter_id_conv in_set_conv_nth)
  then show False using \<open>used_slots s < length s\<close> by (simp add: used_slots_def)
qed

lemma distinct_keysD:
  "distinct_keys cmp s \<Longrightarrow> i < length s \<Longrightarrow> j < length s \<Longrightarrow> s ! i = Some (k, v) \<Longrightarrow>
    s ! j = Some (k', v') \<Longrightarrow> cmp k k' \<Longrightarrow> i = j"
  by (auto simp: distinct_keys_def slot_key_def)

lemma holds_iff:
  "holds hm key v \<longleftrightarrow> (\<exists>i < length (data hm). \<exists>k. data hm ! i = Some (k, v) \<and> key_compare_func hm k key)"
  unfolding holds_def in_set_conv_nth by metis

lemma hm_cmp:
  assumes "hm_inv hm"
  shows "key_compare_func hm k k"
    and "key_compare_func hm k k' \<Longrightarrow> key_compare_func hm k' k"
    and "key_compare_func hm k k' \<Longrightarrow> key_compare_func hm k' k'' \<Longrightarrow> key_compare_func hm k k''"
    and "key_compare_func hm k k' \<Longrightarrow> home hm k = home hm k'"
proof -
  have k: "hash_keys (key_compare_func hm) (key_hash_func hm)" using assms by (simp add: hm_inv_def)
  show "key_compare_func hm k k" by (rule hash_keys.cmp_refl [OF k])
  show "key_compare_func hm k k' \<Longrightarrow> key_compare_func hm k' k" by (rule hash_keys.cmp_sym [OF k])
  show "key_compare_func hm k k' \<Longrightarrow> key_compare_func hm k' k'' \<Longrightarrow> key_compare_func hm k k''"
    by (rule hash_keys.cmp_trans [OF k])
  show "home hm k = home hm k'" if "key_compare_func hm k k'"
    using hash_keys.hash_cmp [OF k that] by (simp add: home_def)
qed

lemma holds_unique:
  assumes "hm_inv hm" "holds hm key v" "holds hm key v'"
  shows "v = v'"
proof -
  obtain i k where i: "i < length (data hm)" "data hm ! i = Some (k, v)" "key_compare_func hm k key"
    using assms(2) by (auto simp: holds_iff)
  obtain j k' where j: "j < length (data hm)" "data hm ! j = Some (k', v')" "key_compare_func hm k' key"
    using assms(3) by (auto simp: holds_iff)
  have "key_compare_func hm k k'" using hm_cmp [OF assms(1)] i(3) j(3) by blast
  then have "i = j"
    using distinct_keysD i j assms(1) unfolding hm_inv_def by metis
  then show ?thesis using i j by simp
qed

lemma slots_abs_Some: "slots_abs cmp s key = Some v \<Longrightarrow> \<exists>k. Some (k, v) \<in> set s \<and> cmp k key"
  by (induction cmp s key rule: slots_abs.induct) (auto split: if_splits)

lemma slots_abs_None: "slots_abs cmp s key = None \<Longrightarrow> Some (k, v) \<in> set s \<Longrightarrow> \<not> cmp k key"
  by (induction cmp s key rule: slots_abs.induct) (auto split: if_splits)

lemma hm_abs_holds:
  assumes "hm_inv hm"
  shows "hm_abs hm key = Some v \<longleftrightarrow> holds hm key v"
proof
  assume "holds hm key v"
  then show "hm_abs hm key = Some v"
    using holds_unique [OF assms] slots_abs_None slots_abs_Some
    unfolding hm_abs_def holds_def by (metis not_None_eq)
qed (auto simp: hm_abs_def holds_def dest: slots_abs_Some)

lemma hm_abs_None:
  "hm_inv hm \<Longrightarrow> hm_abs hm key = None \<longleftrightarrow> (\<forall>v. \<not> holds hm key v)"
  using hm_abs_holds by (metis not_None_eq)

text \<open>Two tables stand for maps related as their contents are.\<close>

lemma hm_abs_eqI:
  assumes "hm_inv hm" "\<And>v. holds hm key v \<longleftrightarrow> m = Some v"
  shows "hm_abs hm key = m"
  using assms by (metis hm_abs_holds not_None_eq)


section \<open>Where a probe stops\<close>

definition stops :: "('k, 'v) Hash_Map \<Rightarrow> 'k \<Rightarrow> nat \<Rightarrow> bool" where
  "stops hm key i \<longleftrightarrow> (case data hm ! i of None \<Rightarrow> True | Some (k, v) \<Rightarrow> key_compare_func hm k key)"

lemma hm_inv_dims:
  assumes "hm_inv hm"
  shows "length (data hm) = unat (capacity hm)" "0 < unat (capacity hm)"
    and "unat (capacity hm) < 4294967296"
  using assms by (auto simp: hm_inv_def word_gt_0 unat_gt_0)

lemma hm_inv_num:
  "hm_inv hm \<Longrightarrow> unat (num_elements hm) = used_slots (data hm)"
  by (simp add: hm_inv_def)

lemma home_lt: "hm_inv hm \<Longrightarrow> home hm k < unat (capacity hm)"
  unfolding home_def by (rule mod_less_divisor) (rule hm_inv_dims(2))

lemma start_pos: "key_hash_func hm k mod capacity hm = of_nat (home hm k)"
  by (simp add: home_def flip: unat_mod)

lemma unat_pos: "hm_inv hm \<Longrightarrow> i < unat (capacity hm) \<Longrightarrow> unat (of_nat i :: u32) = i"
  using hm_inv_dims(3) [of hm] by (intro unat_of_nat32) linarith

lemma unat_pos_lt: "i < unat (cap :: u32) \<Longrightarrow> unat (of_nat i :: u32) = i"
  using unat_lt32 [of cap] by (intro unat_of_nat32) linarith

lemma unat_next:
  assumes "i < unat cap"
  shows "((of_nat i :: u32) + 1) mod cap = of_nat ((i + 1) mod unat cap)"
proof -
  have "unat cap < 4294967296" by simp
  then have "i + 1 < 4294967296" using assms by linarith
  then have "unat ((of_nat (i + 1)) :: u32) = i + 1" by (rule unat_of_nat32)
  then have "unat ((of_nat (i + 1) :: u32) mod cap) = (i + 1) mod unat cap"
    by (simp only: unat_mod)
  moreover have "(of_nat i :: u32) + 1 = of_nat (i + 1)" by simp
  moreover have "(i + 1) mod unat cap < 4294967296"
    using \<open>i + 1 < 4294967296\<close> by (rule le_less_trans [OF mod_less_eq_dividend])
  then have "unat (of_nat ((i + 1) mod unat cap) :: u32) = (i + 1) mod unat cap" by (rule unat_of_nat32)
  ultimately show ?thesis by (intro word_eq_unatI) (simp add: add.commute)
qed

lemma next_pos_of_nat:
  "i < unat (capacity hm) \<Longrightarrow> next_pos hm (of_nat i) = of_nat ((i + 1) mod unat (capacity hm))"
  by (simp add: next_pos_def unat_next)

lemma pos_in_block: "hm_inv hm \<Longrightarrow> i < unat (capacity hm) \<Longrightarrow> in_block hm (of_nat i)"
  by (simp add: in_block_def unat_pos hm_inv_dims)

lemma pos_element: "hm_inv hm \<Longrightarrow> i < unat (capacity hm) \<Longrightarrow> get_element hm (of_nat i) = data hm ! i"
  by (simp add: get_element_def unat_pos)

lemmas pos_simps = pos_in_block pos_element next_pos_of_nat unat_pos

text \<open>One turn of each loop, at a slot where the probe goes on.\<close>

lemma loop_step:
  assumes "hm_inv hm" "i < unat (capacity hm)" "\<not> stops hm key i"
  shows "get_loop hm key val (of_nat i) = get_loop hm key val (of_nat ((i + 1) mod unat (capacity hm)))"
    and "put_loop hm key val (of_nat i) = put_loop hm key val (of_nat ((i + 1) mod unat (capacity hm)))"
    and "delete_loop hm key (of_nat i) = delete_loop hm key (of_nat ((i + 1) mod unat (capacity hm)))"
proof -
  obtain k v where s: "data hm ! i = Some (k, v)" "\<not> key_compare_func hm k key"
    using assms(3) by (auto simp: stops_def split: option.splits)
  note l = get_loop.simps [of hm key val "of_nat i"] put_loop.simps [of hm key val "of_nat i"]
    delete_loop.simps [of hm key "of_nat i"]
  show "get_loop hm key val (of_nat i) = get_loop hm key val (of_nat ((i + 1) mod unat (capacity hm)))"
    and "put_loop hm key val (of_nat i) = put_loop hm key val (of_nat ((i + 1) mod unat (capacity hm)))"
    and "delete_loop hm key (of_nat i) = delete_loop hm key (of_nat ((i + 1) mod unat (capacity hm)))"
    using l s assms(1,2) by (simp_all only: pos_simps not_True_eq_False if_False option.case prod.case)
qed

lemma loop_skip_all:
  assumes "hm_inv hm" "h < unat (capacity hm)"
  shows "\<forall>d' < d. \<not> stops hm key ((h + d') mod unat (capacity hm)) \<Longrightarrow>
    get_loop hm key val (of_nat h) = get_loop hm key val (of_nat ((h + d) mod unat (capacity hm))) \<and>
    put_loop hm key val (of_nat h) = put_loop hm key val (of_nat ((h + d) mod unat (capacity hm))) \<and>
    delete_loop hm key (of_nat h) = delete_loop hm key (of_nat ((h + d) mod unat (capacity hm)))"
proof (induction d)
  case 0
  show ?case using assms(2) by simp
next
  case (Suc d)
  let ?i = "(h + d) mod unat (capacity hm)"
  have i: "?i < unat (capacity hm)" "\<not> stops hm key ?i"
    using Suc.prems hm_inv_dims(2) [OF assms(1)] by auto
  have n: "(?i + 1) mod unat (capacity hm) = (h + Suc d) mod unat (capacity hm)"
    by (simp add: mod_Suc_eq)
  have p: "\<forall>d' < d. \<not> stops hm key ((h + d') mod unat (capacity hm))" using Suc.prems by simp
  show ?case using Suc.IH [OF p] loop_step [OF assms(1) i] unfolding n by simp
qed

lemmas loop_skip = loop_skip_all [THEN conjunct1] loop_skip_all [THEN conjunct2, THEN conjunct1]
  loop_skip_all [THEN conjunct2, THEN conjunct2]

text \<open>
  A probe in a table with a free slot stops, at the element of the key or at a free
  slot the whole path before which is in use; then no element holds the key.
\<close>

lemma probe_stops:
  assumes "hm_inv hm" "used_slots (data hm) < length (data hm)"
  obtains d where "d < unat (capacity hm)"
    and "stops hm key ((home hm key + d) mod unat (capacity hm))"
    and "\<forall>d' < d. \<not> stops hm key ((home hm key + d') mod unat (capacity hm))"
proof -
  let ?n = "unat (capacity hm)" and ?h = "home hm key"
  let ?Q = "\<lambda>d. stops hm key ((?h + d) mod ?n)"
  obtain e where e: "e < ?n" "data hm ! e = None"
    using used_lt_free [OF assms(2)] hm_inv_dims [OF assms(1)] by auto
  have "?Q (dist ?n ?h e)" using e home_lt [OF assms(1)] by (simp add: stops_def)
  then obtain d where d: "?Q d" "\<forall>d' < d. \<not> ?Q d'"
    using exists_least_iff [of ?Q] by blast
  have "d \<le> dist ?n ?h e" using d(2) \<open>?Q (dist ?n ?h e)\<close> not_le by blast
  moreover have "dist ?n ?h e < ?n" using e home_lt [OF assms(1)] by simp
  ultimately have "d < ?n" by simp
  then show ?thesis using that d by blast
qed

lemma probe_absent:
  assumes inv: "hm_inv hm" and d: "d < unat (capacity hm)"
    and free: "data hm ! ((home hm key + d) mod unat (capacity hm)) = None"
    and go: "\<forall>d' < d. \<not> stops hm key ((home hm key + d') mod unat (capacity hm))"
  shows "\<not> holds hm key v"
    and "path_full (data hm) (home hm key) ((home hm key + d) mod unat (capacity hm))"
proof -
  let ?n = "unat (capacity hm)" and ?h = "home hm key"
  have h: "?h < ?n" and len: "length (data hm) = ?n" using home_lt hm_inv_dims inv by auto
  show "path_full (data hm) ?h ((?h + d) mod ?n)"
    unfolding path_full_def len dist_mod [OF h d]
  proof (intro allI impI)
    fix j assume "j < ?n" "dist ?n ?h j < d"
    then have "\<not> stops hm key ((?h + dist ?n ?h j) mod ?n)" using go by blast
    then show "data hm ! j \<noteq> None" using h \<open>j < ?n\<close> by (simp add: stops_def split: option.splits)
  qed
  show "\<not> holds hm key v"
  proof
    assume "holds hm key v"
    then obtain i k where i: "i < ?n" "data hm ! i = Some (k, v)" "key_compare_func hm k key"
      by (auto simp: holds_iff len)
    have hk: "home hm k = ?h" using hm_cmp(4) [OF inv i(3)] .
    have full: "path_full (data hm) ?h i"
      using inv i len hk unfolding hm_inv_def slot_key_def by fastforce
    have "stops hm key ((?h + dist ?n ?h i) mod ?n)" using i h by (simp add: stops_def)
    then have "\<not> dist ?n ?h i < d" using go by blast
    moreover have "dist ?n ?h i \<noteq> d" using free i h by auto
    ultimately have "dist ?n ?h ((?h + d) mod ?n) < dist ?n ?h i" using dist_mod [OF h d] by simp
    moreover have "(?h + d) mod ?n < ?n" using d by simp
    ultimately show False using full free unfolding path_full_def len by blast
  qed
qed

lemma probe_present:
  assumes "hm_inv hm" "i < unat (capacity hm)" "data hm ! i = Some (k, v)" "key_compare_func hm k key"
  shows "holds hm key w \<longleftrightarrow> w = v"
proof -
  have "holds hm key v" using assms hm_inv_dims(1) [OF assms(1)] by (auto simp: holds_iff)
  then show ?thesis using holds_unique [OF assms(1)] by metis
qed

section \<open>Updating one slot\<close>

lemma path_full_mono:
  assumes "path_full s h i" "length s' = length s"
    and "\<And>j. j < length s \<Longrightarrow> s ! j \<noteq> None \<Longrightarrow> s' ! j \<noteq> None"
  shows "path_full s' h i"
  using assms unfolding path_full_def by metis

lemma used_slots_update:
  assumes "i < length s"
  shows "used_slots (s[i := x]) + (if s ! i = None then 0 else 1) =
         used_slots s + (if x = None then 0 else 1)"
  using assms
proof (induction s arbitrary: i)
  case (Cons a s)
  show ?case
  proof (cases i)
    case 0
    then show ?thesis by (auto simp: used_slots_def)
  next
    case (Suc j)
    then show ?thesis using Cons.IH [of j] Cons.prems by (auto simp: used_slots_def)
  qed
qed simp

lemma used_slots_le: "used_slots s \<le> length s"
  by (simp add: used_slots_def)

lemma used_slots_pos: "i < length s \<Longrightarrow> s ! i \<noteq> None \<Longrightarrow> 0 < used_slots s"
  using nth_mem [of i s] by (auto simp: used_slots_def filter_empty_conv simp del: nth_mem)

lemma home_update [simp]:
  "home (hm\<lparr>data := s\<rparr>) k = home hm k" "home (hm\<lparr>num_elements := c\<rparr>) k = home hm k"
  "home (hm\<lparr>data := s, num_elements := c\<rparr>) k = home hm k"
  "home (hm\<lparr>num_elements := c, data := s\<rparr>) k = home hm k"
  by (simp_all add: home_def)

text \<open>Putting an element where its probe stops keeps the table well formed.\<close>

lemma put_slot_inv:
  assumes inv: "hm_inv hm" and i: "i < unat (capacity hm)"
    and path: "path_full (data hm) (home hm key) i"
    and fresh: "\<And>j k v. j < unat (capacity hm) \<Longrightarrow> data hm ! j = Some (k, v) \<Longrightarrow> key_compare_func hm k key \<Longrightarrow> j = i"
    and num: "unat c = used_slots ((data hm)[i := Some (key, val)])"
  shows "hm_inv (hm\<lparr>data := (data hm)[i := Some (key, val)], num_elements := c\<rparr>)"
proof -
  let ?s = "data hm" and ?s' = "(data hm)[i := Some (key, val)]"
  have len: "length ?s = unat (capacity hm)" using hm_inv_dims inv by simp
  have mono: "?s ! j \<noteq> None \<Longrightarrow> ?s' ! j \<noteq> None" if "j < length ?s" for j
    using that by (cases "j = i") auto
  have paths: "path_full ?s' (home hm (slot_key ?s' j)) j" if "j < length ?s" "?s' ! j \<noteq> None" for j
  proof (rule path_full_mono [where s = ?s])
    show "path_full ?s (home hm (slot_key ?s' j)) j"
    proof (cases "j = i")
      case True
      then show ?thesis using path that by (simp add: slot_key_def)
    next
      case False
      then have "?s' ! j = ?s ! j" by simp
      then show ?thesis using inv that unfolding hm_inv_def slot_key_def by simp
    qed
  qed (use mono in auto)
  have "distinct_keys (key_compare_func hm) ?s'"
    unfolding distinct_keys_def
  proof (intro allI impI)
    fix a b assume ab: "a < length ?s'" "b < length ?s'" "?s' ! a \<noteq> None" "?s' ! b \<noteq> None"
      "key_compare_func hm (slot_key ?s' a) (slot_key ?s' b)"
    have other: "j = i" if j: "j < length ?s'" "?s' ! j \<noteq> None" "key_compare_func hm (slot_key ?s' j) key" for j
    proof (rule ccontr)
      assume "j \<noteq> i"
      then obtain k v where "?s ! j = Some (k, v)" "key_compare_func hm k key"
        using j by (auto simp: slot_key_def)
      then show False using fresh j(1) len \<open>j \<noteq> i\<close> by simp
    qed
    show "a = b"
    proof (cases "a = i \<or> b = i")
      case True
      then show ?thesis using ab other hm_cmp(2) [OF inv] i len
        by (metis slot_key_def fst_conv nth_list_update_eq option.sel)
    next
      case False
      then show ?thesis using ab inv unfolding hm_inv_def distinct_keys_def slot_key_def
        by (metis length_list_update nth_list_update_neq)
    qed
  qed
  then show ?thesis using inv num paths len by (simp add: hm_inv_def)
qed

lemma put_slot_holds:
  assumes inv: "hm_inv hm" and i: "i < unat (capacity hm)"
    and old: "\<And>k v. data hm ! i = Some (k, v) \<Longrightarrow> key_compare_func hm k key"
    and fresh: "\<And>j k v. j < unat (capacity hm) \<Longrightarrow> data hm ! j = Some (k, v) \<Longrightarrow> key_compare_func hm k key \<Longrightarrow> j = i"
  shows "holds (hm\<lparr>data := (data hm)[i := Some (key, val)], num_elements := c\<rparr>) key' v \<longleftrightarrow>
    (if key_compare_func hm key key' then v = val else holds hm key' v)"
proof -
  let ?s = "data hm" and ?s' = "(data hm)[i := Some (key, val)]"
  let ?hm = "hm\<lparr>data := ?s', num_elements := c\<rparr>"
  have len: "length ?s = unat (capacity hm)" using hm_inv_dims inv by simp
  have new: "holds ?hm key' v \<longleftrightarrow>
     (key_compare_func hm key key' \<and> v = val) \<or>
     (\<exists>j < length ?s. j \<noteq> i \<and> (\<exists>k. ?s ! j = Some (k, v) \<and> key_compare_func hm k key'))"
    using i len by (auto simp: holds_iff nth_list_update)
  show ?thesis
  proof (cases "key_compare_func hm key key'")
    case True
    have "\<not> key_compare_func hm k key'" if "j < length ?s" "j \<noteq> i" "?s ! j = Some (k, v)" for j k
    proof
      assume "key_compare_func hm k key'"
      then have "key_compare_func hm k key" using True hm_cmp [OF inv] by blast
      then show False using fresh that len by auto
    qed
    then show ?thesis using new True by auto
  next
    case False
    then have "\<not> (\<exists>k. ?s ! i = Some (k, v) \<and> key_compare_func hm k key')"
      using old hm_cmp [OF inv] by metis
    then show ?thesis using new False by (auto simp: holds_iff)
  qed
qed

section \<open>Get\<close>

text \<open>Every operation is decided by where the probe for its key stops.\<close>

lemma hm_ok_free: "hm_ok hm \<Longrightarrow> used_slots (data hm) < length (data hm)"
  using hm_inv_dims [of hm] by (simp add: hm_ok_def)

lemma probe_cases:
  assumes inv: "hm_inv hm" and free: "used_slots (data hm) < length (data hm)"
  obtains (present) i k v where "i < unat (capacity hm)" "data hm ! i = Some (k, v)"
      "key_compare_func hm k key" "hm_abs hm key = Some v"
      "\<And>val. get_loop hm key val (of_nat (home hm key)) = get_loop hm key val (of_nat i)"
      "\<And>val. put_loop hm key val (of_nat (home hm key)) = put_loop hm key val (of_nat i)"
      "delete_loop hm key (of_nat (home hm key)) = delete_loop hm key (of_nat i)"
  | (absent) i where "i < unat (capacity hm)" "data hm ! i = None" "hm_abs hm key = None"
      "path_full (data hm) (home hm key) i"
      "\<And>val. get_loop hm key val (of_nat (home hm key)) = get_loop hm key val (of_nat i)"
      "\<And>val. put_loop hm key val (of_nat (home hm key)) = put_loop hm key val (of_nat i)"
      "delete_loop hm key (of_nat (home hm key)) = delete_loop hm key (of_nat i)"
proof -
  obtain d where d: "d < unat (capacity hm)"
    and st: "stops hm key ((home hm key + d) mod unat (capacity hm))"
    and go: "\<forall>d' < d. \<not> stops hm key ((home hm key + d') mod unat (capacity hm))"
    using probe_stops [OF inv free] .
  let ?i = "(home hm key + d) mod unat (capacity hm)"
  have i: "?i < unat (capacity hm)" using hm_inv_dims(2) [OF inv] by simp
  note skip = loop_skip [OF inv home_lt [OF inv] go]
  show ?thesis
  proof (cases "data hm ! ?i")
    case None
    have "hm_abs hm key = None" using probe_absent(1) [OF inv d None go] hm_abs_None [OF inv] by simp
    then show ?thesis using absent [of ?i] i None probe_absent(2) [OF inv d None go] skip by blast
  next
    case (Some p)
    then obtain k v where s: "data hm ! ?i = Some (k, v)" "key_compare_func hm k key"
      using st by (cases p) (auto simp: stops_def)
    have "hm_abs hm key = Some v"
      using probe_present [OF inv i s] by (intro hm_abs_eqI [OF inv]) auto
    then show ?thesis using present [of ?i k v] i s skip by blast
  qed
qed

lemma get_correct:
  assumes "hm_ok hm"
  shows "hash_map_get hm key val =
    Some (Inr (case hm_abs hm key of Some v \<Rightarrow> (v, 0) | None \<Rightarrow> (val, -1)))"
proof -
  have inv: "hm_inv hm" using assms by (simp add: hm_ok_def)
  show ?thesis
    using inv hm_ok_free [OF assms]
  proof (cases rule: probe_cases [where key = key])
    case (present i k v)
    then show ?thesis using inv
      by (simp add: hash_map_get_def start_pos get_loop.simps [of _ _ _ "of_nat i"] pos_simps)
  next
    case (absent i)
    then show ?thesis using inv
      by (simp add: hash_map_get_def start_pos get_loop.simps [of _ _ _ "of_nat i"] pos_simps)
  qed
qed

section \<open>Put and grow\<close>

definition same_shape :: "('k, 'v) Hash_Map \<Rightarrow> ('k, 'v) Hash_Map \<Rightarrow> bool" where
  "same_shape hm hm' \<longleftrightarrow> capacity hm' = capacity hm \<and> key_size hm' = key_size hm \<and>
     value_size hm' = value_size hm \<and> key_compare_func hm' = key_compare_func hm \<and>
     key_hash_func hm' = key_hash_func hm"

text \<open>What a put leaves behind, whether or not the table has grown.\<close>

definition put_post :: "('k, 'v) Hash_Map \<Rightarrow> 'k \<Rightarrow> 'v \<Rightarrow> ('k, 'v) Hash_Map \<Rightarrow> bool" where
  "put_post hm key val hm' \<longleftrightarrow> hm_inv hm' \<and> same_shape hm hm' \<and>
     used_slots (data hm') = used_slots (data hm) + (if hm_abs hm key = None then 1 else 0) \<and>
     (\<forall>k. hm_abs hm' k = (if key_compare_func hm key k then Some val else hm_abs hm k))"

lemma put_slot_post:
  fixes c :: u32
  assumes inv: "hm_inv hm" and i: "i < unat (capacity hm)"
    and path: "path_full (data hm) (home hm key) i"
    and old: "\<And>k v. data hm ! i = Some (k, v) \<Longrightarrow> key_compare_func hm k key"
    and fresh: "\<And>j k v. j < unat (capacity hm) \<Longrightarrow> data hm ! j = Some (k, v) \<Longrightarrow> key_compare_func hm k key \<Longrightarrow> j = i"
    and num: "unat c = used_slots ((data hm)[i := Some (key, val)])"
    and new: "used_slots ((data hm)[i := Some (key, val)]) = used_slots (data hm) + (if hm_abs hm key = None then 1 else 0)"
  shows "put_post hm key val (hm\<lparr>data := (data hm)[i := Some (key, val)], num_elements := c\<rparr>)"
proof -
  let ?hm = "hm\<lparr>data := (data hm)[i := Some (key, val)], num_elements := c\<rparr>"
  have inv': "hm_inv ?hm" by (rule put_slot_inv [OF inv i path fresh num])
  have "hm_abs ?hm k = (if key_compare_func hm key k then Some val else hm_abs hm k)" for k
    using put_slot_holds [OF inv i old fresh] hm_abs_holds [OF inv] by (intro hm_abs_eqI [OF inv']) auto
  then show ?thesis using inv' new by (simp add: put_post_def same_shape_def)
qed

lemma hm_abs_slot:
  assumes "hm_inv hm" "j < unat (capacity hm)" "data hm ! j = Some (k, v)" "key_compare_func hm k key"
  shows "hm_abs hm key = Some v"
  using probe_present [OF assms] by (intro hm_abs_eqI [OF assms(1)]) auto

lemma put_loop_post:
  assumes inv: "hm_inv hm" and free: "used_slots (data hm) < length (data hm)"
  shows "\<exists>hm'. put_loop hm key val (key_hash_func hm key mod capacity hm) = Some (Inr hm') \<and>
    put_post hm key val hm'"
  using inv free
proof (cases rule: probe_cases [where key = key])
  case (present i k v)
  have n: "i < length (data hm)" using present hm_inv_dims(1) [OF inv] by simp
  have u: "used_slots ((data hm)[i := Some (key, val)]) = used_slots (data hm)"
    using used_slots_update [OF n, of "Some (key, val)"] present by simp
  have "put_loop hm key val (key_hash_func hm key mod capacity hm) =
      Some (Inr (hm\<lparr>data := (data hm)[i := Some (key, val)], num_elements := num_elements hm\<rparr>))"
    using present inv
    by (simp add: start_pos put_loop.simps [of _ _ _ "of_nat i"] pos_simps put_element_def)
  moreover have "put_post hm key val
      (hm\<lparr>data := (data hm)[i := Some (key, val)], num_elements := num_elements hm\<rparr>)"
  proof (rule put_slot_post [OF inv present(1)])
    show "path_full (data hm) (home hm key) i"
      using inv present(2) hm_cmp(4) [OF inv present(3)] n unfolding hm_inv_def slot_key_def by fastforce
    show "j = i" if "j < unat (capacity hm)" "data hm ! j = Some (k', v')" "key_compare_func hm k' key" for j k' v'
    proof -
      have "key_compare_func hm k' k" using that(3) present(3) hm_cmp [OF inv] by blast
      then show ?thesis using distinct_keysD [of "key_compare_func hm" "data hm" j i] that(1,2) present(2) inv n
        by (simp add: hm_inv_def)
    qed
    show "key_compare_func hm k' key" if "data hm ! i = Some (k', v')" for k' v'
      using that present(2,3) by simp
  qed (use present(4) u hm_inv_num [OF inv] in simp_all)
  ultimately show ?thesis by blast
next
  case (absent i)
  have n: "i < length (data hm)" using absent hm_inv_dims(1) [OF inv] by simp
  have u: "used_slots ((data hm)[i := Some (key, val)]) = used_slots (data hm) + 1"
    using used_slots_update [OF n, of "Some (key, val)"] absent by simp
  have c: "unat (num_elements hm + 1) = used_slots (data hm) + 1"
  proof -
    have "unat (num_elements hm) < unat (capacity hm)"
      using free hm_inv_dims(1) [OF inv] hm_inv_num [OF inv] by simp
    then have "unat (num_elements hm) + unat (1 :: u32) < 4294967296"
      using hm_inv_dims(3) [OF inv] by (simp del: unat_lt32)
    then show ?thesis using unat_add32 [of "num_elements hm" 1] hm_inv_num [OF inv] by simp
  qed
  have "put_loop hm key val (key_hash_func hm key mod capacity hm) =
      Some (Inr (hm\<lparr>data := (data hm)[i := Some (key, val)], num_elements := num_elements hm + 1\<rparr>))"
    using absent inv
    by (simp add: start_pos put_loop.simps [of _ _ _ "of_nat i"] pos_simps put_element_def)
  moreover have "put_post hm key val
      (hm\<lparr>data := (data hm)[i := Some (key, val)], num_elements := num_elements hm + 1\<rparr>)"
  proof (rule put_slot_post [OF inv absent(1) absent(4)])
    show "j = i" if "j < unat (capacity hm)" "data hm ! j = Some (k', v')" "key_compare_func hm k' key" for j k' v'
      using hm_abs_slot [OF inv that] absent(3) by simp
  qed (use absent(2,3) u c in simp_all)
  ultimately show ?thesis by blast
qed

text \<open>A put that leaves at most half of the slots in use does not grow the table.\<close>

lemma push_bit_1: "unat (x :: u32) * 2 < 4294967296 \<Longrightarrow> unat (push_bit 1 x) = 2 * unat x"
  using unat_mult32 [of x 2] by (simp add: push_bit_eq_mult)

lemma put_small:
  assumes inv: "hm_inv hm" and small: "2 * (used_slots (data hm) + 1) \<le> length (data hm)"
    and cap: "unat (capacity hm) < 2147483648"
  shows "\<exists>hm'. hash_map_put ka (Suc d) hm key val = Some (Inr (hm', 0)) \<and> put_post hm key val hm'"
proof -
  have "used_slots (data hm) < length (data hm)" using small by simp
  from put_loop_post [OF inv this] obtain hm' where
    l: "put_loop hm key val (key_hash_func hm key mod capacity hm) = Some (Inr hm')"
    and p: "put_post hm key val hm'" by blast
  have num: "unat (num_elements hm') \<le> used_slots (data hm) + 1"
    using p by (auto simp: put_post_def hm_inv_num)
  have len: "length (data hm) = unat (capacity hm)" using hm_inv_dims inv by simp
  have bound: "2 * unat (num_elements hm') \<le> unat (capacity hm)" 
  proof -
    have "2 * unat (num_elements hm') \<le> 2 * (used_slots (data hm) + 1)"
      using num by (rule mult_le_mono2)
    also have "\<dots> \<le> unat (capacity hm)" using small unfolding len .
    finally show ?thesis .
  qed
  have "unat (push_bit 1 (num_elements hm')) = 2 * unat (num_elements hm')"
    using bound cap by (intro push_bit_1) simp
  then have "\<not> push_bit 1 (num_elements hm') > capacity hm'"
    using bound p by (simp add: put_post_def same_shape_def word_less_nat_alt)
  then show ?thesis using l p by simp
qed

definition empty_map ::
  "u32 \<Rightarrow> u32 \<Rightarrow> u32 \<Rightarrow> ('k \<Rightarrow> 'k \<Rightarrow> bool) \<Rightarrow> ('k \<Rightarrow> u32) \<Rightarrow> ('k, 'v) Hash_Map" where
  "empty_map cap ks vs cmp hash = \<lparr>capacity = cap, num_elements = 0, key_size = ks, value_size = vs,
     key_compare_func = cmp, key_hash_func = hash, data = replicate (unat cap) None\<rparr>"

lemma create_eq:
  assumes cap: "0 < cap" and size: "unat cap * (4 + unat ks + unat vs) < 4294967296"
    and ka: "\<And>n. ka n \<noteq> 0"
  shows "hash_map_create ka cap ks vs cmp hash = Inr (empty_map cap ks vs cmp hash, 0)"
proof -
  let ?z = "4 + unat ks + unat vs"
  have "0 < unat cap" using cap by (simp add: word_less_nat_alt)
  then have "?z \<le> unat cap * ?z" by simp
  then have z: "?z < 4294967296" using size by (rule le_less_trans)
  then have "unat ((4 :: u32) + ks) = 4 + unat ks" by (subst unat_add32) auto
  then have e: "unat (element_size ks vs) = ?z"
    using z unfolding element_size_def by (subst unat_add32) auto
  then have "unat (cap * element_size ks vs) = unat cap * ?z"
    using size by (simp add: unat_mult32)
  then show ?thesis using cap ka e by (simp add: hash_map_create_def empty_map_def Let_def)
qed

lemma used_slots_replicate [simp]: "used_slots (replicate n None) = 0"
  by (simp add: used_slots_def)

lemma slots_abs_replicate [simp]: "slots_abs cmp (replicate n None) key = None"
  by (induction n) auto

lemma empty_map_inv:
  assumes "hash_keys cmp hash" "0 < cap"
  shows "hm_inv (empty_map cap ks vs cmp hash)" "hm_abs (empty_map cap ks vs cmp hash) key = None"
  using assms by (simp_all add: hm_inv_def empty_map_def distinct_keys_def hm_abs_def)

lemma used_slots_Cons [simp]:
  "used_slots (None # xs) = used_slots xs" "used_slots (Some p # xs) = Suc (used_slots xs)"
  by (simp_all add: used_slots_def)

lemma distinct_keys_tail: "distinct_keys cmp (x # xs) \<Longrightarrow> distinct_keys cmp xs"
  unfolding distinct_keys_def
proof (intro allI impI)
  fix i j
  assume a: "\<forall>i<length (x # xs). \<forall>j<length (x # xs). (x # xs) ! i \<noteq> None \<longrightarrow> (x # xs) ! j \<noteq> None \<longrightarrow>
      cmp (slot_key (x # xs) i) (slot_key (x # xs) j) \<longrightarrow> i = j"
    and ij: "i < length xs" "j < length xs" "xs ! i \<noteq> None" "xs ! j \<noteq> None"
      "cmp (slot_key xs i) (slot_key xs j)"
  show "i = j" using a [rule_format, of "Suc i" "Suc j"] ij by (simp add: slot_key_def)
qed

lemma distinct_keys_head:
  assumes "distinct_keys cmp (Some (k, v) # xs)" "Some (k', v') \<in> set xs"
  shows "\<not> cmp k k'"
proof
  assume c: "cmp k k'"
  obtain j where "j < length xs" "xs ! j = Some (k', v')" using assms(2) by (auto simp: in_set_conv_nth)
  then show False
    using distinct_keysD [OF assms(1), of 0 "Suc j"] c by auto
qed

lemma hm_room_cap:
  assumes "hm_room hm"
  shows "2 * unat (capacity hm) < 4294967296"
proof -
  have "2 * unat (capacity hm) * (4 + unat (key_size hm) + unat (value_size hm)) < 4294967296"
    using assms by (simp add: hm_room_def)
  with mult_le_mono2 [of 1 "4 + unat (key_size hm) + unat (value_size hm)" "2 * unat (capacity hm)"]
  show ?thesis by linarith
qed

definition put_works :: "('k, 'v) put_fun \<Rightarrow> bool" where
  "put_works put \<longleftrightarrow> (\<forall>hm key val. hm_inv hm \<longrightarrow> unat (capacity hm) < 2147483648 \<longrightarrow>
     2 * (used_slots (data hm) + 1) \<le> length (data hm) \<longrightarrow>
     (\<exists>hm'. put hm key val = Some (Inr (hm', 0)) \<and> put_post hm key val hm'))"

lemma put_works_put: "put_works (hash_map_put ka (Suc d))"
  unfolding put_works_def by (intro allI impI) (rule put_small; assumption)

lemma same_shape_trans: "same_shape a b \<Longrightarrow> same_shape b c \<Longrightarrow> same_shape a c"
  by (simp add: same_shape_def)

lemma same_shape_length: "same_shape a b \<Longrightarrow> hm_inv a \<Longrightarrow> hm_inv b \<Longrightarrow> length (data b) = length (data a)"
  by (simp add: same_shape_def hm_inv_def)

definition grow_post :: "('k, 'v) Hash_Map \<Rightarrow> ('k \<times> 'v) option list \<Rightarrow> ('k, 'v) Hash_Map \<Rightarrow> bool" where
  "grow_post hm xs hm' \<longleftrightarrow> hm_inv hm' \<and> same_shape hm hm' \<and>
     used_slots (data hm') \<le> used_slots (data hm) + used_slots xs \<and>
     (\<forall>k. hm_abs hm' k = (case slots_abs (key_compare_func hm) xs k of Some v \<Rightarrow> Some v | None \<Rightarrow> hm_abs hm k))"

lemma grow_loop_post:
  assumes "put_works put" "hm_inv hm" "unat (capacity hm) < 2147483648"
    and "2 * (used_slots (data hm) + used_slots xs) \<le> length (data hm)"
    and "distinct_keys (key_compare_func hm) xs"
  shows "\<exists>hm'. grow_loop put xs hm = Some (Inr (hm', 0)) \<and> grow_post hm xs hm'"
  using assms
proof (induction put xs hm rule: grow_loop.induct)
  case (1 put hm)
  then show ?case by (simp add: grow_post_def same_shape_def used_slots_def)
next
  case (2 put slots hm)
  then show ?case using distinct_keys_tail by (auto simp: grow_post_def)
next
  case (3 put key val slots hm)
  have inv: "hm_inv hm" using 3 by simp
  have "2 * (used_slots (data hm) + 1) \<le> length (data hm)" using "3.prems" by simp
  then obtain hm1 where p: "put hm key val = Some (Inr (hm1, 0))" "put_post hm key val hm1"
    using "3.prems"(1,3) inv unfolding put_works_def by blast
  have one: "hm_inv hm1" "same_shape hm hm1" using p(2) by (simp_all add: put_post_def)
  have len: "length (data hm1) = length (data hm)" using same_shape_length one inv by blast
  have used: "used_slots (data hm1) \<le> used_slots (data hm) + 1" using p(2) by (simp add: put_post_def)
  have room: "2 * (used_slots (data hm1) + used_slots slots) \<le> length (data hm1)"
    using used "3.prems"(4) unfolding len by simp
  have dist: "distinct_keys (key_compare_func hm1) slots"
    using "3.prems"(5) distinct_keys_tail one(2) by (auto simp: same_shape_def)
  have "unat (capacity hm1) < 2147483648" using "3.prems"(3) one(2) by (simp add: same_shape_def)
  then have "\<exists>hm'. grow_loop put slots hm1 = Some (Inr (hm', 0)) \<and> grow_post hm1 slots hm'"
    using "3.IH" "3.prems"(1) p(1) one(1) room dist by blast
  then obtain hm' where g: "grow_loop put slots hm1 = Some (Inr (hm', 0))" "grow_post hm1 slots hm'"
    by blast
  let ?c = "key_compare_func hm"
  have c: "key_compare_func hm1 = ?c" using one(2) by (simp add: same_shape_def)
  have "slots_abs ?c slots k = None" if "?c key k" for k
  proof (rule ccontr)
    assume "slots_abs ?c slots k \<noteq> None"
    then obtain v where "slots_abs ?c slots k = Some v" by blast
    then obtain k' where "Some (k', v) \<in> set slots" "?c k' k" using slots_abs_Some by metis
    then show False
      using distinct_keys_head [OF "3.prems"(5)] hm_cmp(2,3) [OF inv] that by blast
  qed
  then have "grow_post hm (Some (key, val) # slots) hm'"
    using g(2) p(2) used same_shape_trans [OF one(2)]
    by (auto simp: grow_post_def put_post_def c split: option.splits)
  then show ?case using p(1) g(1) by simp
qed

lemma grow_correct:
  assumes "put_works put" "hm_inv hm" "hm_room hm" "\<And>n. ka n \<noteq> 0"
  shows "\<exists>hm'. hash_map_grow ka put hm = Some (Inr (hm', 0)) \<and> hm_ok hm' \<and>
    capacity hm' = 2 * capacity hm \<and> unat (capacity hm') = 2 * unat (capacity hm) \<and>
    key_size hm' = key_size hm \<and> value_size hm' = value_size hm \<and>
    key_compare_func hm' = key_compare_func hm \<and> key_hash_func hm' = key_hash_func hm \<and>
    (\<forall>k. hm_abs hm' k = hm_abs hm k)"
proof -
  let ?z = "4 + unat (key_size hm) + unat (value_size hm)"
  let ?new = "empty_map (push_bit 1 (capacity hm)) (key_size hm) (value_size hm)
    (key_compare_func hm) (key_hash_func hm) :: ('a, 'b) Hash_Map"
  have room: "2 * unat (capacity hm) * ?z < 4294967296" using assms(3) by (simp add: hm_room_def)
  have "2 * unat (capacity hm) * 4 \<le> 2 * unat (capacity hm) * ?z" by (intro mult_le_mono2) simp
  then have cap: "2 * unat (capacity hm) < 1073741824" using room by linarith
  then have dbl: "unat (push_bit 1 (capacity hm)) = 2 * unat (capacity hm)"
    by (intro push_bit_1) simp
  have pos: "0 < push_bit 1 (capacity hm)"
    using dbl hm_inv_dims(2) [OF assms(2)] by (simp add: word_less_nat_alt)
  have create: "hash_map_create ka (push_bit 1 (capacity hm)) (key_size hm) (value_size hm)
      (key_compare_func hm) (key_hash_func hm) = Inr (?new, 0)"
    by (rule create_eq [OF pos _ assms(4)]) (simp only: dbl room)
  have keys: "hash_keys (key_compare_func hm) (key_hash_func hm)" using assms(2) by (simp add: hm_inv_def)
  have new: "hm_inv ?new" "hm_abs ?new k = None" for k
    using empty_map_inv [OF keys pos] by blast+
  have len: "length (data hm) = unat (capacity hm)" using hm_inv_dims(1) [OF assms(2)] .
  have half: "used_slots (data hm) \<le> unat (capacity hm)" using used_slots_le [of "data hm"] len by simp
  have "\<exists>hm'. grow_loop put (data hm) ?new = Some (Inr (hm', 0)) \<and> grow_post ?new (data hm) hm'"
  proof (rule grow_loop_post [OF assms(1) new(1)])
    show "distinct_keys (key_compare_func ?new) (data hm)"
      using assms(2) by (simp add: hm_inv_def empty_map_def)
    show "2 * (used_slots (data ?new) + used_slots (data hm)) \<le> length (data ?new)"
      using half dbl by (simp add: empty_map_def)
    show "unat (capacity ?new) < 2147483648" using cap dbl by (simp add: empty_map_def)
  qed
  then obtain hm' where g: "grow_loop put (data hm) ?new = Some (Inr (hm', 0))" "grow_post ?new (data hm) hm'"
    by blast
  have shape: "hm_inv hm'" "same_shape ?new hm'" "used_slots (data hm') \<le> used_slots (data hm)"
    using g(2) by (simp_all add: grow_post_def empty_map_def)
  have "length (data hm') = 2 * unat (capacity hm)"
    using same_shape_length [OF shape(2) new(1) shape(1)] dbl by (simp add: empty_map_def)
  then have "hm_ok hm'" using shape half by (simp add: hm_ok_def)
  moreover have "hm_abs hm' k = hm_abs hm k" for k
    using g(2) new(2) [of k] unfolding grow_post_def
    by (auto simp: hm_abs_def empty_map_def split: option.splits)
  moreover have "push_bit 1 (capacity hm) = 2 * capacity hm" by (simp add: push_bit_eq_mult)
  ultimately show ?thesis
    using g(1) create len shape(2) dbl by (simp add: hash_map_grow_def same_shape_def empty_map_def)
qed

section \<open>The contract of put\<close>

lemma put_full:
  assumes ok: "hm_ok hm" and room: "hm_room hm" and ka: "\<And>n. ka n \<noteq> 0"
  shows "\<exists>hm'. hash_map_put ka (Suc (Suc d)) hm key val = Some (Inr (hm', 0)) \<and> hm_ok hm' \<and>
    key_compare_func hm' = key_compare_func hm \<and> key_hash_func hm' = key_hash_func hm \<and>
    key_size hm' = key_size hm \<and> value_size hm' = value_size hm \<and>
    unat (capacity hm') \<le> 2 * unat (capacity hm) \<and>
    (\<forall>k. hm_abs hm' k = (if key_compare_func hm key k then Some val else hm_abs hm k))"
proof -
  have inv: "hm_inv hm" using ok by (simp add: hm_ok_def)
  obtain hm1 where
    l: "put_loop hm key val (key_hash_func hm key mod capacity hm) = Some (Inr hm1)"
    and p: "put_post hm key val hm1" using put_loop_post [OF inv hm_ok_free [OF ok]] by blast
  have one: "hm_inv hm1" "same_shape hm hm1" using p by (simp_all add: put_post_def)
  have room1: "hm_room hm1" using room one(2) by (simp add: hm_room_def same_shape_def)
  show ?thesis
  proof (cases "push_bit 1 (num_elements hm1) > capacity hm1")
    case True
    obtain hm2 where g: "hash_map_grow ka (hash_map_put ka (Suc d)) hm1 = Some (Inr (hm2, 0))"
      and h: "hm_ok hm2" "unat (capacity hm2) = 2 * unat (capacity hm1)"
      "key_size hm2 = key_size hm1" "value_size hm2 = value_size hm1"
      "key_compare_func hm2 = key_compare_func hm1" "key_hash_func hm2 = key_hash_func hm1"
      "\<forall>k. hm_abs hm2 k = hm_abs hm1 k"
      using grow_correct [where ka = ka, OF put_works_put [where ka = ka and d = d] one(1) room1 ka] by blast
    have "hash_map_put ka (Suc (Suc d)) hm key val = Some (Inr (hm2, 0))"
      using l g True by (simp del: hash_map_put.simps add: hash_map_put.simps(2) [of ka "Suc d"])
    then show ?thesis using h p one(2) by (simp add: put_post_def same_shape_def)
  next
    case False
    have c: "unat (capacity hm1) * 2 < 4294967296" using hm_room_cap [OF room1] by (simp add: mult.commute)
    have "unat (num_elements hm1) \<le> unat (capacity hm1)"
      using hm_inv_num [OF one(1)] used_slots_le [of "data hm1"] hm_inv_dims(1) [OF one(1)] by simp
    then have "unat (push_bit 1 (num_elements hm1)) = 2 * unat (num_elements hm1)"
      using c by (intro push_bit_1) linarith
    then have "hm_ok hm1"
      using False one(1) hm_inv_num [OF one(1)] hm_inv_dims(1) [OF one(1)]
      by (simp add: hm_ok_def word_less_nat_alt)
    then show ?thesis using l False p one(2) by (simp add: put_post_def same_shape_def)
  qed
qed

section \<open>Closing the gap after a delete\<close>

text \<open>
  While \<open>adjust_gap\<close> runs, slot \<open>g\<close> is free, every path is in use except perhaps at
  \<open>g\<close>, and the elements whose path leads over \<open>g\<close> are still ahead of \<open>p\<close>.
\<close>

definition gap_inv :: "('k, 'v) Hash_Map \<Rightarrow> nat \<Rightarrow> nat \<Rightarrow> bool" where
  "gap_inv hm g p \<longleftrightarrow>
     (let n = unat (capacity hm); s = data hm in
      hash_keys (key_compare_func hm) (key_hash_func hm) \<and> length s = n \<and> g < n \<and> p < n \<and> p \<noteq> g \<and>
      s ! g = None \<and> distinct_keys (key_compare_func hm) s \<and>
      (\<forall>i < n. s ! i \<noteq> None \<longrightarrow>
         (let h = home hm (slot_key s i) in
          (\<forall>j < n. j \<noteq> g \<longrightarrow> dist n h j < dist n h i \<longrightarrow> s ! j \<noteq> None) \<and>
          (dist n h g < dist n h i \<longrightarrow> dist n g p \<le> dist n g i))))"

lemma gap_invD:
  assumes "gap_inv hm g p"
  shows "hash_keys (key_compare_func hm) (key_hash_func hm)" "length (data hm) = unat (capacity hm)"
    "g < unat (capacity hm)" "p < unat (capacity hm)" "p \<noteq> g" "data hm ! g = None"
    "distinct_keys (key_compare_func hm) (data hm)"
    and "\<And>i j. i < unat (capacity hm) \<Longrightarrow> data hm ! i \<noteq> None \<Longrightarrow> j < unat (capacity hm) \<Longrightarrow> j \<noteq> g \<Longrightarrow>
      dist (unat (capacity hm)) (home hm (slot_key (data hm) i)) j <
      dist (unat (capacity hm)) (home hm (slot_key (data hm) i)) i \<Longrightarrow> data hm ! j \<noteq> None"
    and "\<And>i. i < unat (capacity hm) \<Longrightarrow> data hm ! i \<noteq> None \<Longrightarrow>
      dist (unat (capacity hm)) (home hm (slot_key (data hm) i)) g <
      dist (unat (capacity hm)) (home hm (slot_key (data hm) i)) i \<Longrightarrow>
      dist (unat (capacity hm)) g p \<le> dist (unat (capacity hm)) g i"
  using assms unfolding gap_inv_def Let_def by blast+

lemma gap_invI:
  assumes "hash_keys (key_compare_func hm) (key_hash_func hm)" "length (data hm) = unat (capacity hm)"
    "g < unat (capacity hm)" "p < unat (capacity hm)" "p \<noteq> g" "data hm ! g = None"
    "distinct_keys (key_compare_func hm) (data hm)"
    and "\<And>i j. i < unat (capacity hm) \<Longrightarrow> data hm ! i \<noteq> None \<Longrightarrow> j < unat (capacity hm) \<Longrightarrow> j \<noteq> g \<Longrightarrow>
      dist (unat (capacity hm)) (home hm (slot_key (data hm) i)) j <
      dist (unat (capacity hm)) (home hm (slot_key (data hm) i)) i \<Longrightarrow> data hm ! j \<noteq> None"
    and "\<And>i. i < unat (capacity hm) \<Longrightarrow> data hm ! i \<noteq> None \<Longrightarrow>
      dist (unat (capacity hm)) (home hm (slot_key (data hm) i)) g <
      dist (unat (capacity hm)) (home hm (slot_key (data hm) i)) i \<Longrightarrow>
      dist (unat (capacity hm)) g p \<le> dist (unat (capacity hm)) g i"
  shows "gap_inv hm g p"
  unfolding gap_inv_def Let_def using assms by blast

lemma home_less: "0 < unat (capacity hm) \<Longrightarrow> home hm k < unat (capacity hm)"
  by (simp add: home_def)

text \<open>The test of the code: the path of the element at \<open>p\<close> leads over \<open>g\<close>.\<close>

lemma gap_test:
  fixes g p h cap :: u32
  assumes "unat g < unat cap" "unat p < unat cap" "unat h < unat cap" "2 * unat cap < 4294967296"
  shows "(h \<le> (if g < h then g + cap else g) \<and>
          (if g < h then g + cap else g) \<le> (if p < h then p + cap else p)) \<longleftrightarrow>
         dist (unat cap) (unat h) (unat g) \<le> dist (unat cap) (unat h) (unat p)"
proof -
  have "unat (g + cap) = unat g + unat cap" "unat (p + cap) = unat p + unat cap"
    using assms by (auto intro!: unat_add32)
  then show ?thesis using assms by (auto simp: word_less_nat_alt word_le_nat_alt dist_def)
qed

lemma gap_inv_skip:
  assumes inv: "gap_inv hm g p" and s: "data hm ! p \<noteq> None"
    and e: "e < unat (capacity hm)" "e \<noteq> g" "data hm ! e = None"
    and keep: "\<not> dist (unat (capacity hm)) (home hm (slot_key (data hm) p)) g \<le>
      dist (unat (capacity hm)) (home hm (slot_key (data hm) p)) p"
    and before: "dist (unat (capacity hm)) g p \<le> dist (unat (capacity hm)) g e"
  shows "gap_inv hm g ((p + 1) mod unat (capacity hm)) \<and>
    dist (unat (capacity hm)) g ((p + 1) mod unat (capacity hm)) \<le> dist (unat (capacity hm)) g e"
proof -
  let ?n = "unat (capacity hm)" and ?q = "(p + 1) mod unat (capacity hm)"
  note D = gap_invD [OF inv]
  have "dist ?n g p \<noteq> dist ?n g e" using dist_inj [OF D(3,4) e(1)] s e(3) by auto
  then have less: "dist ?n g p < dist ?n g e" using before by simp
  have q: "?q < ?n" using D(4) by simp
  have "?q \<noteq> g"
  proof
    assume "?q = g"
    then have "dist ?n g p = ?n - 1" using D(3,4) by (auto simp: dist_def mod_if split: if_splits)
    moreover have "dist ?n g e < ?n" using D(3) e(1) by simp
    ultimately show False using less by linarith
  qed
  then have step: "dist ?n g ?q = Suc (dist ?n g p)" using dist_step D(3,4) by blast
  have ahead: "dist ?n g ?q \<le> dist ?n g i"
    if i: "i < ?n" "data hm ! i \<noteq> None"
      "dist ?n (home hm (slot_key (data hm) i)) g < dist ?n (home hm (slot_key (data hm) i)) i" for i
  proof -
    have "i \<noteq> p" using keep i(3) by auto
    then have "dist ?n g i \<noteq> dist ?n g p" using dist_inj D(3,4) i(1) by blast
    then show ?thesis using D(9) [OF i] step by simp
  qed
  have "gap_inv hm g ?q"
    by (rule gap_invI [OF D(1-3) q \<open>?q \<noteq> g\<close> D(6,7)]) (use D(8) ahead in blast)+
  then show ?thesis using step less by simp
qed

lemma dist_compose:
  "h < n \<Longrightarrow> g < n \<Longrightarrow> p < n \<Longrightarrow> dist n h g + dist n g p < n \<Longrightarrow> dist n h p = dist n h g + dist n g p"
  by (auto simp: dist_def split: if_splits)

lemma dist_one: "p < n \<Longrightarrow> 1 < n \<Longrightarrow> dist n p ((p + 1) mod n) = 1"
  by (auto simp: dist_def mod_if)

definition moved :: "('k, 'v) Hash_Map \<Rightarrow> nat \<Rightarrow> nat \<Rightarrow> ('k, 'v) Hash_Map" where
  "moved hm p g = hm\<lparr>data := (data hm)[p := None, g := data hm ! p]\<rparr>"

lemma moved_simps [simp]:
  "capacity (moved hm p g) = capacity hm" "num_elements (moved hm p g) = num_elements hm"
  "key_size (moved hm p g) = key_size hm" "value_size (moved hm p g) = value_size hm"
  "key_compare_func (moved hm p g) = key_compare_func hm" "key_hash_func (moved hm p g) = key_hash_func hm"
  "home (moved hm p g) k = home hm k" "length (data (moved hm p g)) = length (data hm)"
  by (simp_all add: moved_def)

lemma moved_mset:
  assumes "p < length (data hm)" "g < length (data hm)" "p \<noteq> g" "data hm ! g = None"
  shows "mset (data (moved hm p g)) = mset (data hm)"
proof -
  have "data (moved hm p g) = (data hm)[g := data hm ! p, p := data hm ! g]"
    using assms by (simp add: moved_def list_update_swap)
  then show ?thesis using mset_swap [OF assms(1,2)] by simp
qed

lemma moved_nth:
  assumes "p < length (data hm)" "g < length (data hm)" "p \<noteq> g" "j < length (data hm)"
  shows "data (moved hm p g) ! j = (if j = g then data hm ! p else if j = p then None else data hm ! j)"
  using assms by (simp add: moved_def nth_list_update)

lemma gap_inv_move:
  assumes inv: "gap_inv hm g p" and s: "data hm ! p \<noteq> None"
    and over: "dist (unat (capacity hm)) (home hm (slot_key (data hm) p)) g \<le>
      dist (unat (capacity hm)) (home hm (slot_key (data hm) p)) p"
  shows "gap_inv (moved hm p g) p ((p + 1) mod unat (capacity hm))"
proof -
  let ?n = "unat (capacity hm)" and ?q = "(p + 1) mod unat (capacity hm)"
  let ?m = "moved hm p g" and ?h = "\<lambda>i. home hm (slot_key (data hm) i)"
  note D = gap_invD [OF inv]
  have n: "1 < ?n" using D(3-5) by linarith
  have q: "?q < ?n" using n by simp
  have one: "dist ?n p ?q = 1" using dist_one [OF D(4) n] .
  then have qp: "?q \<noteq> p" using dist_eq_0 [OF D(4,4)] by auto
  have nth: "data ?m ! j = (if j = g then data hm ! p else if j = p then None else data hm ! j)" if "j < ?n" for j
    using moved_nth [of p hm g j] D(2-5) that by simp
  have src: "\<exists>i' < ?n. data hm ! i' \<noteq> None \<and> slot_key (data ?m) i = slot_key (data hm) i' \<and>
      ((i = g \<and> i' = p) \<or> (i \<noteq> g \<and> i \<noteq> p \<and> i' = i))" if "i < ?n" "data ?m ! i \<noteq> None" for i
    using that nth [of i] D(4) s by (auto simp: slot_key_def split: if_splits)
  show ?thesis
  proof (rule gap_invI)
    show "distinct_keys (key_compare_func ?m) (data ?m)"
      unfolding distinct_keys_def
    proof (intro allI impI)
      fix i j assume a: "i < length (data ?m)" "j < length (data ?m)" "data ?m ! i \<noteq> None" "data ?m ! j \<noteq> None"
        "key_compare_func ?m (slot_key (data ?m) i) (slot_key (data ?m) j)"
      then obtain i' j' where b: "i' < ?n" "j' < ?n" "data hm ! i' \<noteq> None" "data hm ! j' \<noteq> None"
        "key_compare_func hm (slot_key (data hm) i') (slot_key (data hm) j')"
        "(i = g \<and> i' = p) \<or> (i \<noteq> g \<and> i \<noteq> p \<and> i' = i)" "(j = g \<and> j' = p) \<or> (j \<noteq> g \<and> j \<noteq> p \<and> j' = j)"
        using src [of i] src [of j] D(2) by auto
      then have "i' = j'" using D(7) D(2) unfolding distinct_keys_def by metis
      then show "i = j" using b by blast
    qed
    show "data ?m ! j \<noteq> None"
      if i: "i < unat (capacity ?m)" "data ?m ! i \<noteq> None" "j < unat (capacity ?m)" "j \<noteq> p"
        "dist (unat (capacity ?m)) (home ?m (slot_key (data ?m) i)) j <
         dist (unat (capacity ?m)) (home ?m (slot_key (data ?m) i)) i" for i j
    proof (cases "j = g")
      case True
      then show ?thesis using nth D(3) s by simp
    next
      case False
      have "i < ?n" using i(1) by simp
      from src [OF this i(2)]
      obtain i' where i': "i' < ?n" "data hm ! i' \<noteq> None" "slot_key (data ?m) i = slot_key (data hm) i'"
        "(i = g \<and> i' = p) \<or> (i \<noteq> g \<and> i \<noteq> p \<and> i' = i)" by blast
      have "dist ?n (?h i') j < dist ?n (?h i') i'" using i(5) i' over by auto
      then have "data hm ! j \<noteq> None" using D(8) [OF i'(1,2)] i(3) False by simp
      then show ?thesis using nth [of j] i(3,4) False by simp
    qed
    show "dist (unat (capacity ?m)) p ?q \<le> dist (unat (capacity ?m)) p i"
      if "i < unat (capacity ?m)" "data ?m ! i \<noteq> None" for i
    proof -
      have "i \<noteq> p" using that nth [of i] D(5) by (auto split: if_splits)
      then have "dist ?n p i \<noteq> 0" using dist_eq_0 [OF D(4)] that(1) by simp
      then show ?thesis using one by simp
    qed
  qed (use D(1-5) q qp nth in auto)
qed

definition gap_post :: "('k, 'v) Hash_Map \<Rightarrow> ('k, 'v) Hash_Map \<Rightarrow> bool" where
  "gap_post hm hm' \<longleftrightarrow> same_shape hm hm' \<and> num_elements hm' = num_elements hm \<and>
     mset (data hm') = mset (data hm) \<and> distinct_keys (key_compare_func hm') (data hm') \<and>
     (\<forall>i < length (data hm'). data hm' ! i \<noteq> None \<longrightarrow>
        path_full (data hm') (home hm' (slot_key (data hm') i)) i)"

lemma gap_closed:
  assumes inv: "gap_inv hm g p" and s: "data hm ! p = None"
  shows "gap_post hm hm"
proof -
  let ?n = "unat (capacity hm)" and ?h = "\<lambda>i. home hm (slot_key (data hm) i)"
  note D = gap_invD [OF inv]
  have "path_full (data hm) (?h i) i" if i: "i < ?n" "data hm ! i \<noteq> None" for i
    unfolding path_full_def D(2)
  proof (intro allI impI)
    fix j assume j: "j < ?n" "dist ?n (?h i) j < dist ?n (?h i) i"
    have h: "?h i < ?n" using D(3) by (intro home_less) simp
    have "\<not> dist ?n (?h i) g < dist ?n (?h i) i"
    proof
      assume over: "dist ?n (?h i) g < dist ?n (?h i) i"
      then have "dist ?n g p \<le> dist ?n g i" using D(9) [OF i] by simp
      moreover have "dist ?n g p \<noteq> dist ?n g i" using dist_inj [OF D(3,4) i(1)] i(2) s by auto
      ultimately have less: "dist ?n g p < dist ?n g i" by simp
      have sum: "dist ?n (?h i) i = dist ?n (?h i) g + dist ?n g i"
        using dist_through h D(3) i(1) over by simp
      moreover have "dist ?n (?h i) i < ?n" using h i(1) by simp
      ultimately have "dist ?n (?h i) p = dist ?n (?h i) g + dist ?n g p"
        using less by (intro dist_compose [OF h D(3,4)]) linarith
      then have "data hm ! p \<noteq> None" using D(8) [OF i D(4,5)] sum less by simp
      then show False using s by simp
    qed
    then have "j \<noteq> g" using j(2) by auto
    then show "data hm ! j \<noteq> None" using D(8) [OF i j(1)] j(2) by simp
  qed
  then show ?thesis using D(2,7) by (simp add: gap_post_def same_shape_def)
qed

lemma gap_post_moved: "gap_post (moved hm p g) hm' \<Longrightarrow> mset (data (moved hm p g)) = mset (data hm) \<Longrightarrow> gap_post hm hm'"
  by (auto simp: gap_post_def same_shape_def)

lemma adjust_gap_loop_ok:
  assumes "gap_inv hm g p" "e < unat (capacity hm)" "e \<noteq> g" "data hm ! e = None"
    and "dist (unat (capacity hm)) g p \<le> dist (unat (capacity hm)) g e"
    and "2 * unat (capacity hm) < 4294967296"
  shows "\<exists>hm'. adjust_gap_loop hm (of_nat g) (of_nat p) = Some (Inr hm') \<and> gap_post hm hm'"
  using assms
proof (induction "dist (unat (capacity hm)) p e" arbitrary: hm g p)
  case 0
  then have "data hm ! p = None" using dist_eq_0 gap_invD(4) by metis
  moreover have "in_block hm (of_nat p)" "in_block hm (of_nat g)" "get_element hm (of_nat p) = data hm ! p"
    using gap_invD(2-4) [OF 0(2)] unfolding in_block_def get_element_def by (simp_all add: unat_pos_lt)
  ultimately show ?case using gap_closed [OF 0(2)] by (simp add: adjust_gap_loop.simps)
next
  case (Suc m)
  let ?n = "unat (capacity hm)" and ?q = "(p + 1) mod unat (capacity hm)"
  note inv = Suc.prems(1) and e = Suc.prems(2-4)
  note D = gap_invD [OF inv]
  have blk: "in_block hm (of_nat p)" "in_block hm (of_nat g)" "get_element hm (of_nat p) = data hm ! p"
    "next_pos hm (of_nat p) = of_nat ?q"
    using D(2-4) unfolding in_block_def get_element_def by (simp_all add: unat_pos_lt next_pos_of_nat)
  have "p \<noteq> e"
  proof
    assume "p = e"
    then show False using Suc.hyps(2) e(1) by simp
  qed
  then have m: "m = dist ?n ?q e" using Suc.hyps(2) dist_next [OF D(4) e(1)] by simp
  show ?case
  proof (cases "data hm ! p")
    case None
    then show ?thesis using gap_closed [OF inv] blk by (simp add: adjust_gap_loop.simps)
  next
    case (Some kv)
    then obtain k v where kv: "data hm ! p = Some (k, v)" by (cases kv) auto
    then have s: "data hm ! p \<noteq> None" "slot_key (data hm) p = k" by (simp_all add: slot_key_def)
    let ?w = "key_hash_func hm k mod capacity hm"
    let ?T = "dist ?n (home hm k) g \<le> dist ?n (home hm k) p"
    have h: "unat ?w = home hm k" by (simp add: home_def unat_mod)
    have test: "(?w \<le> (if of_nat g < ?w then of_nat g + capacity hm else of_nat g) \<and>
        (if of_nat g < ?w then of_nat g + capacity hm else of_nat g) \<le>
        (if of_nat p < ?w then of_nat p + capacity hm else of_nat p)) \<longleftrightarrow> ?T"
      using gap_test [of "of_nat g" "capacity hm" "of_nat p" ?w] D(3,4) Suc.prems(6) h
        home_less [of hm k] by (simp add: unat_pos_lt)
    have unfolded: "adjust_gap_loop hm (of_nat g) (of_nat p) =
       (if ?T then adjust_gap_loop (put_element (invalidate_element hm (of_nat p)) (of_nat g) k v) (of_nat p) (of_nat ?q)
        else adjust_gap_loop hm (of_nat g) (of_nat ?q))"
      by (simp only: adjust_gap_loop.simps [of hm "of_nat g" "of_nat p"] Let_def blk kv
            option.case prod.case test not_True_eq_False simp_thms if_False)
    show ?thesis
    proof (cases ?T)
      case True
      let ?m = "moved hm p g"
      have mv: "put_element (invalidate_element hm (of_nat p)) (of_nat g) k v = ?m"
        using D(3,4) kv by (simp add: put_element_def invalidate_element_def moved_def unat_pos_lt)
      have inv': "gap_inv ?m p ?q" by (rule gap_inv_move [OF inv s(1)]) (use True s(2) in simp)
      have ms: "mset (data ?m) = mset (data hm)" by (rule moved_mset) (use D(2-6) in auto)
      have e': "data ?m ! e = None" using moved_nth [of p hm g e] D(2-5) e \<open>p \<noteq> e\<close> by simp
      have "dist ?n p ?q \<le> dist ?n p e" using dist_one [OF D(4)] Suc.hyps(2) D(3-5) by simp
      then have "\<exists>hm'. adjust_gap_loop ?m (of_nat p) (of_nat ?q) = Some (Inr hm') \<and> gap_post ?m hm'"
        using Suc.hyps(1) [where hm = ?m and p = ?q and g = p] m inv' e(1) \<open>p \<noteq> e\<close> e' Suc.prems(6) by simp
      then show ?thesis using unfolded True mv gap_post_moved ms by auto
    next
      case False
      have "gap_inv hm g ?q \<and> dist ?n g ?q \<le> dist ?n g e"
        by (rule gap_inv_skip [OF inv s(1) e _ Suc.prems(5)]) (use False s(2) in simp)
      then show ?thesis using Suc.hyps(1) [where hm = hm and p = ?q and g = g] m e Suc.prems(6) unfolded False by simp
    qed
  qed
qed

section \<open>Delete\<close>

lemma used_slots_mset: "mset s = mset s' \<Longrightarrow> used_slots s = used_slots s'"
  unfolding used_slots_def by (metis mset_filter size_mset)

lemma next_of_gap:
  "i < n \<Longrightarrow> 1 < n \<Longrightarrow> (i + 1) mod n \<noteq> (i :: nat)"
  by (auto simp: mod_if)

lemma distinct_keys_clear:
  assumes "distinct_keys cmp s"
  shows "distinct_keys cmp (s[i := None])"
  unfolding distinct_keys_def
proof (intro allI impI)
  fix a b
  assume ab: "a < length (s[i := None])" "b < length (s[i := None])" "s[i := None] ! a \<noteq> None"
    "s[i := None] ! b \<noteq> None" "cmp (slot_key (s[i := None]) a) (slot_key (s[i := None]) b)"
  have "a \<noteq> i" "b \<noteq> i" using ab(1-4) by auto
  then show "a = b" using ab assms by (simp add: distinct_keys_def slot_key_def)
qed

lemma clear_conts:
  "Some x \<in> set (s[i := None]) \<longleftrightarrow> (\<exists>j < length s. j \<noteq> i \<and> s ! j = Some x)"
proof -
  have "s[i := None] ! j = Some x \<longleftrightarrow> j \<noteq> i \<and> s ! j = Some x" if "j < length s" for j
    using that by (cases "j = i") auto
  then show ?thesis by (auto simp: in_set_conv_nth)
qed

lemma delete_full:
  assumes ok: "hm_ok hm" and room: "hm_room hm"
  shows "\<exists>hm'. hash_map_delete hm key = Some (Inr (hm', if hm_abs hm key = None then -1 else 0)) \<and>
    hm_ok hm' \<and> same_shape hm hm' \<and> (hm_abs hm key = None \<longrightarrow> hm' = hm) \<and>
    (\<forall>k. hm_abs hm' k = (if key_compare_func hm key k then None else hm_abs hm k))"
proof -
  have inv: "hm_inv hm" using ok by (simp add: hm_ok_def)
  let ?n = "unat (capacity hm)"
  have len: "length (data hm) = ?n" using hm_inv_dims(1) [OF inv] .
  have start: "hash_map_delete hm key = delete_loop hm key (of_nat (home hm key))"
    by (simp add: hash_map_delete_def start_pos)
  show ?thesis
    using inv hm_ok_free [OF ok]
  proof (cases rule: probe_cases [where key = key])
    case (absent i)
    have "hm_abs hm k = None" if "key_compare_func hm key k" for k
    proof -
      have "\<not> holds hm k v" for v
        using absent(3) hm_abs_None [OF inv] hm_cmp(2,3) [OF inv] that unfolding holds_def by blast
      then show ?thesis using hm_abs_None [OF inv] by blast
    qed
    then show ?thesis using absent inv ok start
      by (simp add: delete_loop.simps [of _ _ "of_nat i"] pos_simps same_shape_def)
  next
    case (present i k v)
    let ?hm = "hm\<lparr>data := (data hm)[i := None]\<rparr>"
    have i: "i < length (data hm)" using present(1) len by simp
    have used: "used_slots ((data hm)[i := None]) + 1 = used_slots (data hm)"
      using used_slots_update [OF i, of None] present(2) by simp
    have n: "2 \<le> ?n" using ok used len by (simp add: hm_ok_def)
    have "used_slots (data hm) < ?n" using hm_ok_free [OF ok] len by simp
    then obtain e where e: "e < ?n" "data hm ! e = None" using used_lt_free [of "data hm"] len by auto
    have ei: "e \<noteq> i" using e present(2) by auto
    let ?q = "(i + 1) mod ?n"
    have gi: "gap_inv ?hm i ?q"
    proof (rule gap_invI)
      show "hash_keys (key_compare_func ?hm) (key_hash_func ?hm)" using inv by (simp add: hm_inv_def)
      show "distinct_keys (key_compare_func ?hm) (data ?hm)"
        using distinct_keys_clear [of "key_compare_func hm" "data hm"] inv unfolding hm_inv_def by auto
      show "data ?hm ! b \<noteq> None"
        if "a < unat (capacity ?hm)" "data ?hm ! a \<noteq> None" "b < unat (capacity ?hm)" "b \<noteq> i"
          "dist (unat (capacity ?hm)) (home ?hm (slot_key (data ?hm) a)) b <
           dist (unat (capacity ?hm)) (home ?hm (slot_key (data ?hm) a)) a" for a b
      proof -
        have "a \<noteq> i" using that(1,2) i by auto
        then have a: "a < length (data hm)" "data hm ! a \<noteq> None"
          "slot_key (data ?hm) a = slot_key (data hm) a"
          using that(1,2) len by (simp_all add: slot_key_def)
        then have "path_full (data hm) (home hm (slot_key (data hm) a)) a"
          using inv unfolding hm_inv_def by blast
        then show ?thesis using that(3-5) a(3) len unfolding path_full_def by simp
      qed
      show "dist (unat (capacity ?hm)) i ?q \<le> dist (unat (capacity ?hm)) i a"
        if "a < unat (capacity ?hm)" "data ?hm ! a \<noteq> None" for a
      proof -
        have "a \<noteq> i" using that i by auto
        then have "dist ?n i a \<noteq> 0" using dist_eq_0 [OF present(1)] that(1) by simp
        then show ?thesis using dist_one [OF present(1)] n by simp
      qed
    qed (use present(1) len n next_of_gap in auto)
    have two: "2 * ?n < 4294967296"
      using hm_room_cap [OF room] .
    have "dist ?n i ?q \<le> dist ?n i e"
      using dist_one [OF present(1)] n dist_eq_0 [OF present(1) e(1)] ei by simp
    then obtain hm' where g: "adjust_gap_loop ?hm (of_nat i) (of_nat ?q) = Some (Inr hm')" "gap_post ?hm hm'"
      using adjust_gap_loop_ok [OF gi, of e] e ei two by auto
    let ?new = "hm'\<lparr>num_elements := num_elements hm' - 1\<rparr>"
    have "delete_loop hm key (of_nat i) = Some (Inr (?new, 0))"
      using present(1-3) inv g(1)
      by (simp add: delete_loop.simps [of _ _ "of_nat i"] pos_simps adjust_gap_def invalidate_element_def next_pos_def unat_next)
    then have ret: "hash_map_delete hm key = Some (Inr (?new, 0))" using start present(7) by simp
    have shape: "same_shape hm ?new" using g(2) by (simp add: gap_post_def same_shape_def)
    have ms: "mset (data hm') = mset ((data hm)[i := None])" using g(2) by (simp add: gap_post_def)
    have used': "used_slots (data hm') + 1 = used_slots (data hm)" using used used_slots_mset [OF ms] by simp
    have len': "length (data hm') = ?n" using ms mset_eq_length len by fastforce
    have num: "unat (num_elements hm' - 1) = used_slots (data hm')"
    proof -
      have "unat (num_elements hm') = used_slots (data hm') + 1"
        using g(2) hm_inv_num [OF inv] used' by (simp add: gap_post_def)
      moreover have "unat (1 :: u32) \<le> unat (num_elements hm')" using calculation by simp
      ultimately show ?thesis using unat_sub32 [of 1 "num_elements hm'"] by (simp add: word_le_nat_alt)
    qed
    have inv': "hm_inv ?new"
      using inv g(2) len' num unfolding hm_inv_def gap_post_def same_shape_def
      by (elim conjE) simp
    have ok': "hm_ok ?new" using inv' ok used' len len' by (simp add: hm_ok_def)
    have cmp': "key_compare_func ?new = key_compare_func hm" using shape by (simp add: same_shape_def)
    have conts: "holds ?new k' w \<longleftrightarrow> holds hm k' w \<and> \<not> key_compare_func hm key k'" for k' w
    proof -
      have "set (data ?new) = set ((data hm)[i := None])" using mset_eq_setD [OF ms] by simp
      then have "holds ?new k' w \<longleftrightarrow>
         (\<exists>j < ?n. j \<noteq> i \<and> (\<exists>k. data hm ! j = Some (k, w) \<and> key_compare_func hm k k'))"
        unfolding holds_def cmp' using clear_conts [of _ "data hm" i] len by auto
      also have "\<dots> \<longleftrightarrow> holds hm k' w \<and> \<not> key_compare_func hm key k'"
      proof (cases "key_compare_func hm key k'")
        case True
        have "j = i" if "j < ?n" "data hm ! j = Some (k2, w)" "key_compare_func hm k2 k'" for j k2
        proof -
          have "key_compare_func hm k2 k" using True that(3) present(3) hm_cmp(2,3) [OF inv] by blast
          then show ?thesis using distinct_keysD that(1,2) i present(2) len inv unfolding hm_inv_def by metis
        qed
        then show ?thesis using True by auto
      next
        case False
        then have "\<not> key_compare_func hm k k'" using present(3) hm_cmp(2,3) [OF inv] by blast
        then show ?thesis using False present(2) len by (auto simp: holds_iff) 
      qed
      finally show ?thesis .
    qed
    have "hm_abs ?new k' = (if key_compare_func hm key k' then None else hm_abs hm k')" for k'
      using conts hm_abs_holds [OF inv] by (intro hm_abs_eqI [OF inv']) auto
    then show ?thesis using ret ok' shape present(4) by auto
  qed
qed

section \<open>What a table offers its clients\<close>

text \<open>
  A client that fills a table with a known number of keys needs no growth: \<open>room n t\<close>
  says that \<open>n\<close> more keys fit.
\<close>

locale key_table =
  fixes ok :: "'t \<Rightarrow> bool"
    and room :: "nat \<Rightarrow> 't \<Rightarrow> bool"
    and lookup :: "'t \<Rightarrow> 'k \<Rightarrow> 'v option"
    and same :: "'k \<Rightarrow> 'k \<Rightarrow> bool"
    and ins :: "'t \<Rightarrow> 'k \<Rightarrow> 'v \<Rightarrow> 't option"
  assumes ins_ok: "ok t \<Longrightarrow> room (Suc n) t \<Longrightarrow> \<exists>t'. ins t k v = Some t' \<and> ok t' \<and> room n t' \<and>
      (\<forall>k'. lookup t' k' = (if same k k' then Some v else lookup t k'))"
begin

fun ins_all :: "'t \<Rightarrow> ('k \<times> 'v) list \<Rightarrow> 't option" where
  "ins_all t [] = Some t"
| "ins_all t ((k, v) # kvs) = (case ins t k v of None \<Rightarrow> None | Some t' \<Rightarrow> ins_all t' kvs)"

lemma ins_all_ok:
  assumes "ok t" "room (length kvs + n) t"
  shows "\<exists>t'. ins_all t kvs = Some t' \<and> ok t' \<and> room n t' \<and>
    (\<forall>k'. lookup t' k' = (case find (\<lambda>(k, v). same k k') (rev kvs) of
        Some (k, v) \<Rightarrow> Some v | None \<Rightarrow> lookup t k'))"
  using assms
proof (induction kvs arbitrary: t)
  case (Cons kv kvs)
  obtain k v where kv: "kv = (k, v)" by (cases kv)
  obtain t1 where t1: "ins t k v = Some t1" "ok t1" "room (length kvs + n) t1"
    "\<forall>k'. lookup t1 k' = (if same k k' then Some v else lookup t k')"
    using ins_ok [of t "length kvs + n" k v] Cons.prems by auto
  obtain t2 where t2: "ins_all t1 kvs = Some t2" "ok t2" "room n t2"
    "\<forall>k'. lookup t2 k' = (case find (\<lambda>(k, v). same k k') (rev kvs) of
        Some (k, v) \<Rightarrow> Some v | None \<Rightarrow> lookup t1 k')"
    using Cons.IH [OF t1(2,3)] by blast
  have app: "find P (xs @ ys) = (case find P xs of Some x \<Rightarrow> Some x | None \<Rightarrow> find P ys)" for P :: "'k \<times> 'v \<Rightarrow> bool" and xs ys
    by (induction xs) auto
  show ?case using t1 t2 by (auto simp: kv app split: option.splits)
qed simp

end

definition table_ok :: "('k \<Rightarrow> 'k \<Rightarrow> bool) \<Rightarrow> ('k, 'v) Hash_Map \<Rightarrow> bool" where
  "table_ok cmp hm \<longleftrightarrow> hm_ok hm \<and> key_compare_func hm = cmp"

definition table_room :: "nat \<Rightarrow> ('k, 'v) Hash_Map \<Rightarrow> bool" where
  "table_room n hm \<longleftrightarrow> unat (capacity hm) < 2147483648 \<and> 2 * (used_slots (data hm) + n) \<le> length (data hm)"

definition table_put :: "(u32 \<Rightarrow> u32) \<Rightarrow> ('k, 'v) Hash_Map \<Rightarrow> 'k \<Rightarrow> 'v \<Rightarrow> ('k, 'v) Hash_Map option" where
  "table_put ka hm k v =
    (case hash_map_put ka 2 hm k v of Some (Inr (hm', r)) \<Rightarrow> if r = 0 then Some hm' else None | _ \<Rightarrow> None)"

interpretation hm_table: key_table "table_ok cmp" table_room hm_abs cmp "table_put ka" for cmp ka
proof unfold_locales
  fix t :: "('a, 'b) Hash_Map" and n k v
  assume a: "table_ok cmp t" "table_room (Suc n) t"
  have inv: "hm_inv t" and c: "key_compare_func t = cmp" using a(1) by (simp_all add: table_ok_def hm_ok_def)
  have "2 * (used_slots (data t) + 1) \<le> length (data t)" "unat (capacity t) < 2147483648"
    using a(2) by (simp_all add: table_room_def)
  from put_small [OF inv this, of ka 1 k v] obtain t' where
    p: "hash_map_put ka 2 t k v = Some (Inr (t', 0))" "put_post t k v t'" by (auto simp: numeral_2_eq_2)
  have inv': "hm_inv t'" "same_shape t t'" and u: "used_slots (data t') \<le> used_slots (data t) + 1"
    using p(2) by (simp_all add: put_post_def)
  have len: "length (data t') = length (data t)" using same_shape_length inv' inv by blast
  have "table_ok cmp t'" "table_room n t'"
    using inv' u len a(2) c by (simp_all add: table_ok_def hm_ok_def table_room_def same_shape_def)
  then show "\<exists>t'. table_put ka t k v = Some t' \<and> table_ok cmp t' \<and> table_room n t' \<and>
      (\<forall>k'. hm_abs t' k' = (if cmp k k' then Some v else hm_abs t k'))"
    using p by (auto simp: table_put_def put_post_def c)
qed

section \<open>Visiting every element\<close>

definition hm_entries :: "('k, 'v) Hash_Map \<Rightarrow> ('k \<times> 'v) list" where
  "hm_entries hm = List.map_filter (\<lambda>s. s) (data hm)"

lemma map_filter_Cons:
  "List.map_filter (\<lambda>s. s) (None # xs) = List.map_filter (\<lambda>s. s) xs"
  "List.map_filter (\<lambda>s. s) (Some p # xs) = p # List.map_filter (\<lambda>s. s) xs"
  by (simp_all add: List.map_filter_def)

lemma for_each_loop_fold:
  "for_each_loop f s d = fold (\<lambda>(k, v) d. f k v d) (List.map_filter (\<lambda>s. s) s) d"
  by (induction f s d rule: for_each_loop.induct) (simp_all add: map_filter_Cons List.map_filter_def)

lemma used_slots_entries: "length (List.map_filter (\<lambda>s. s) s) = used_slots s"
  by (simp add: List.map_filter_def used_slots_def)

lemma entries_holds: "holds hm key v \<longleftrightarrow> (\<exists>k. (k, v) \<in> set (hm_entries hm) \<and> key_compare_func hm k key)"
  by (force simp: holds_def hm_entries_def List.map_filter_def)

section \<open>Properties of the operations\<close>

lemma hash_keys_id: "hash_keys (=) (\<lambda>k :: u32. k)"
  by unfold_locales auto

lemma empty_map_ok:
  "hash_keys cmp hash \<Longrightarrow> 0 < cap \<Longrightarrow> hm_ok (empty_map cap ks vs cmp hash)"
  using empty_map_inv(1) [of cmp hash cap ks vs] by (simp add: hm_ok_def empty_map_def)

text \<open>
  C13: \<open>hash_map_put\<close> on a well-formed table always returns 0, with a well-formed
  table that maps every key comparing equal to the given one to the new value and
  every other key as before, whether it found the key, used a free slot or doubled
  the table; a recursion depth of two calls is enough.
\<close>

theorem hash_map_put_correct:
  assumes "hm_ok hm" "hm_room hm" and "\<And>n. ka n \<noteq> 0"
  shows "\<exists>hm'. hash_map_put ka (Suc (Suc depth)) hm key val = Some (Inr (hm', 0)) \<and> hm_ok hm' \<and>
    unat (capacity hm') \<le> 2 * unat (capacity hm) \<and>
    (\<forall>k. hm_abs hm' k = (if key_compare_func hm key k then Some val else hm_abs hm k))"
  using put_full [where ka = ka, OF assms] by blast

lemma hash_map_put_correct_witness:
  "\<exists>hm'. hash_map_put (\<lambda>n. 4096) 2 (empty_map 1 4 4 (=) (\<lambda>k. k)) (5 :: u32) (7 :: u32) = Some (Inr (hm', 0)) \<and>
     hm_ok hm' \<and> hm_abs hm' 5 = Some 7 \<and> hm_abs hm' 6 = None"
proof -
  let ?hm = "empty_map 1 4 4 (=) (\<lambda>k. k) :: (u32, u32) Hash_Map"
  have "hm_ok ?hm" by (rule empty_map_ok [OF hash_keys_id]) simp
  moreover have "hm_room ?hm" by (simp add: hm_room_def empty_map_def)
  ultimately have "\<exists>hm'. hash_map_put (\<lambda>n. 4096) (Suc (Suc 0)) ?hm 5 7 = Some (Inr (hm', 0)) \<and> hm_ok hm' \<and>
    unat (capacity hm') \<le> 2 * unat (capacity ?hm) \<and>
    (\<forall>k. hm_abs hm' k = (if key_compare_func ?hm 5 k then Some 7 else hm_abs ?hm k))"
    by (rule hash_map_put_correct) simp
  moreover have "key_compare_func ?hm = (=)" "hm_abs ?hm 6 = None"
    by (simp_all add: empty_map_def hm_abs_def)
  ultimately show ?thesis by (auto simp: numeral_2_eq_2)
qed

text \<open>
  C14: \<open>hash_map_get\<close> on a well-formed table always returns: 0 with the value the
  table maps the key to, or -1 with the caller's buffer untouched when there is none.
\<close>

theorem hash_map_get_correct:
  assumes "hm_ok hm"
  shows "hash_map_get hm key buf =
    Some (Inr (case hm_abs hm key of Some v \<Rightarrow> (v, 0) | None \<Rightarrow> (buf, -1)))"
  by (rule get_correct [OF assms])

lemma hash_map_get_correct_witness:
  "hash_map_get (empty_map 16 4 4 (=) (\<lambda>k. k) :: (u32, u32) Hash_Map) 3 9 = Some (Inr (9, -1))"
  using hash_map_get_correct [OF empty_map_ok [OF hash_keys_id], of 16 4 4 3 9]
  by (simp add: empty_map_def hm_abs_def)

text \<open>
  C15: \<open>hash_map_delete\<close> on a well-formed table always returns.  When the key is
  absent it returns -1 and changes nothing; otherwise it returns 0, the key is gone,
  every other key keeps its value, and \<open>adjust_gap\<close> has left no element that a
  probe would miss.
\<close>

theorem hash_map_delete_correct:
  assumes "hm_ok hm" "hm_room hm"
  shows "\<exists>hm'. hash_map_delete hm key = Some (Inr (hm', if hm_abs hm key = None then -1 else 0)) \<and>
    hm_ok hm' \<and> capacity hm' = capacity hm \<and> (if hm_abs hm key = None then hm' = hm else True) \<and>
    (\<forall>k. hm_abs hm' k = (if key_compare_func hm key k then None else hm_abs hm k))"
proof -
  obtain hm' where "hash_map_delete hm key = Some (Inr (hm', if hm_abs hm key = None then -1 else 0))"
    "hm_ok hm'" "same_shape hm hm'" "hm_abs hm key = None \<longrightarrow> hm' = hm"
    "\<forall>k. hm_abs hm' k = (if key_compare_func hm key k then None else hm_abs hm k)"
    using delete_full [OF assms] by blast
  then show ?thesis by (intro exI [of _ hm']) (simp add: same_shape_def)
qed

definition clash_map :: "(u32, u32) Hash_Map" where
  "clash_map = (empty_map 4 4 4 (=) (\<lambda>k. k))
     \<lparr>num_elements := 2, data := [Some (8, 80), Some (16, 160), None, None]\<rparr>"

lemma all_less_4: "(\<forall>i < (4::nat). P i) \<longleftrightarrow> P 0 \<and> P 1 \<and> P 2 \<and> P 3"
  by (auto simp: less_Suc_eq numeral_eq_Suc)

lemma clash_map_simps:
  "capacity clash_map = 4" "num_elements clash_map = 2" "key_compare_func clash_map = (=)"
  "data clash_map = [Some (8, 80), Some (16, 160), None, None]" "length (data clash_map) = 4"
  "key_hash_func clash_map = (\<lambda>k. k)" "key_size clash_map = 4" "value_size clash_map = 4"
  by (simp_all add: clash_map_def empty_map_def)

lemma clash_map_ok: "hm_ok clash_map"
proof -
  have "distinct_keys (=) (data clash_map)"
    unfolding distinct_keys_def clash_map_simps(5) all_less_4
    by (simp add: clash_map_simps(4) slot_key_def)
  moreover have "\<forall>i < 4. data clash_map ! i \<noteq> None \<longrightarrow>
       path_full (data clash_map) (home clash_map (slot_key (data clash_map) i)) i"
    unfolding all_less_4 path_full_def clash_map_simps(5)
    by (simp add: clash_map_simps(1,4,6) slot_key_def home_def dist_def)
  ultimately show ?thesis
    using hash_keys_id by (simp add: hm_ok_def hm_inv_def clash_map_simps used_slots_def)
qed

lemma hash_map_delete_correct_witness:
  "\<exists>hm'. hash_map_delete clash_map 8 = Some (Inr (hm', 0)) \<and> hm_ok hm' \<and>
     hm_abs hm' 8 = None \<and> hm_abs hm' 16 = Some 160"
proof -
  have "hm_room clash_map" by (simp add: hm_room_def clash_map_simps)
  moreover have "hm_abs clash_map 8 = Some 80" "hm_abs clash_map 16 = Some 160"
    "key_compare_func clash_map = (=)"
    by (simp_all add: clash_map_simps hm_abs_def)
  ultimately show ?thesis using hash_map_delete_correct [OF clash_map_ok, of 8] by auto
qed

text \<open>
  \<open>hash_map_create\<close> never returns its error code: it clears the block before it
  checks the address, so a null block faults there, and with any other block, whose
  byte count does not wrap, the table is well formed, empty, and has at least one slot.
\<close>

theorem hash_map_create_correct:
  assumes "hash_keys cmp hash"
    and "max (unat cap) 1 * (4 + unat ks + unat vs) < 2 ^ 32"
  shows "hash_map_create ka cap ks vs cmp hash = Inl Null_deref \<or>
    (\<exists>hm. hash_map_create ka cap ks vs cmp hash = Inr (hm, 0) \<and> hm_ok hm \<and>
      unat (capacity hm) = max (unat cap) 1 \<and> (\<forall>k. hm_abs hm k = (None :: 'v option)))"
proof -
  let ?c = "if 0 < cap then cap else 1"
  have c: "0 < ?c" "unat ?c = max (unat cap) 1"
    by (auto simp: word_less_nat_alt max_def unat_eq_zero)
  have eq: "hash_map_create ka cap ks vs cmp hash = hash_map_create ka ?c ks vs cmp hash"
    by (simp add: hash_map_create_def)
  show ?thesis
  proof (cases "ka (?c * element_size ks vs) = 0")
    case True
    then show ?thesis by (simp add: hash_map_create_def Let_def)
  next
    case False
    let ?ka = "\<lambda>n. if n = ?c * element_size ks vs then ka n else 1"
    have "hash_map_create ka ?c ks vs cmp hash = hash_map_create ?ka ?c ks vs cmp hash"
      using c(1) by (simp add: hash_map_create_def Let_def)
    also have "\<dots> = Inr (empty_map ?c ks vs cmp hash, 0)"
      using assms(2) False by (intro create_eq [OF c(1)]) (simp_all only: c(2), simp_all)
    finally have "hash_map_create ka cap ks vs cmp hash = Inr (empty_map ?c ks vs cmp hash, 0)"
      by (rule trans [OF eq])
    moreover have "hm_ok (empty_map ?c ks vs cmp hash :: ('a, 'v) Hash_Map)" by (rule empty_map_ok [OF assms(1) c(1)])
    moreover have "\<forall>k. hm_abs (empty_map ?c ks vs cmp hash) k = (None :: 'v option)"
      using empty_map_inv(2) [OF assms(1) c(1)] by blast
    moreover have "unat (capacity (empty_map ?c ks vs cmp hash :: ('a, 'v) Hash_Map)) = max (unat cap) 1"
      by (simp only: empty_map_def Hash_Map.select_convs c(2))
    ultimately show ?thesis by blast
  qed
qed

lemma hash_map_create_correct_witness:
  "\<exists>hm :: (u32, u32) Hash_Map. hash_map_create (\<lambda>n. 4096) 0 4 4 (=) (\<lambda>k. k) = Inr (hm, 0) \<and> hm_ok hm \<and>
     unat (capacity hm) = 1"
  using hash_map_create_correct [OF hash_keys_id, of 0 4 4 "\<lambda>n. 4096"]
  by (auto simp: hash_map_create_def Let_def)

text \<open>
  C16: \<open>hash_map_for_each_entry\<close> calls the function once for every element, in slot
  order: what it visits has as many entries as the table counts and is exactly the
  map the table stands for.
\<close>

theorem hash_map_for_each_correct:
  assumes "hm_ok hm"
  shows "hash_map_for_each_entry hm f d = Inr (fold (\<lambda>(k, v) d. f k v d) (hm_entries hm) d) \<and>
    length (hm_entries hm) = unat (num_elements hm) \<and>
    (\<forall>key v. hm_abs hm key = Some v \<longleftrightarrow> (\<exists>k. (k, v) \<in> set (hm_entries hm) \<and> key_compare_func hm k key))"
proof -
  have inv: "hm_inv hm" using assms by (simp add: hm_ok_def)
  then show ?thesis
    using hm_inv_dims(1) [OF inv] hm_inv_num [OF inv] hm_abs_holds [OF inv] used_slots_entries [of "data hm"]
    by (simp add: hash_map_for_each_entry_def for_each_loop_fold hm_entries_def
        entries_holds [unfolded hm_entries_def])
qed

lemma hash_map_for_each_correct_witness:
  "hash_map_for_each_entry clash_map (\<lambda>k v d. d + v) 0 = Inr 240 \<and> length (hm_entries clash_map) = 2"
  using hash_map_for_each_correct [OF clash_map_ok, of "\<lambda>k v d. d + v" 0]
  by (simp add: clash_map_simps hm_entries_def map_filter_Cons List.map_filter_def)
end
