(* ===== verification/Util.thy ===== *)
theory Util
  imports Prelude
begin

text \<open>
  The string and memory routines of src/src/util/util.c.

  Memory is a function from addresses to bytes.  A string is what a pointer into it
  shows: \<open>nat \<Rightarrow> u8\<close>, the bytes from the pointer on; \<open>cstr xs\<close> is the string whose
  characters are \<open>xs\<close>, ended by a 0.  The loops that look for the end of a string
  do not end when there is none, so they are partial functions.
\<close>

type_synonym mem = "u32 \<Rightarrow> u8"
type_synonym chars = "nat \<Rightarrow> u8"

section \<open>Strings\<close>

partial_function (option) strlen_loop :: "chars \<Rightarrow> nat \<Rightarrow> nat option" where
  "strlen_loop str len = (if str len \<noteq> 0 then strlen_loop str (len + 1) else Some len)"

definition strlen :: "chars \<Rightarrow> u32 option" where
  "strlen str = map_option of_nat (strlen_loop str 0)"

partial_function (option) strcpy_loop :: "chars \<Rightarrow> chars \<Rightarrow> nat \<Rightarrow> chars option" where
  "strcpy_loop dst src i =
    (if src i \<noteq> 0 then strcpy_loop (dst(i := src i)) src (i + 1) else Some (dst(i := 0)))"

definition strcpy :: "chars \<Rightarrow> chars \<Rightarrow> chars option" where
  "strcpy dst src = strcpy_loop dst src 0"

text \<open>1 when the strings differ, 0 when they are equal.\<close>

partial_function (option) strcmp_loop :: "chars \<Rightarrow> chars \<Rightarrow> nat \<Rightarrow> s32 option" where
  "strcmp_loop s1 s2 i =
    (if s1 i \<noteq> 0 \<and> s2 i \<noteq> 0
     then if s1 i \<noteq> s2 i then Some 1 else strcmp_loop s1 s2 (i + 1)
     else Some (if s1 i = 0 \<and> s2 i = 0 then 0 else 1))"

definition strcmp :: "chars \<Rightarrow> chars \<Rightarrow> s32 option" where
  "strcmp s1 s2 = strcmp_loop s1 s2 0"

definition cstr :: "u8 list \<Rightarrow> chars" where
  "cstr xs i = (if i < length xs then xs ! i else 0)"

section \<open>Memory\<close>

fun memcpy_loop :: "nat \<Rightarrow> u32 \<Rightarrow> u32 \<Rightarrow> u32 \<Rightarrow> mem \<Rightarrow> mem" where
  "memcpy_loop 0 i dst src m = m"
| "memcpy_loop (Suc n) i dst src m = memcpy_loop n (i + 1) dst src (m(dst + i := m (src + i)))"

definition memcpy :: "u32 \<Rightarrow> u32 \<Rightarrow> u32 \<Rightarrow> mem \<Rightarrow> mem" where
  "memcpy dst src n m = memcpy_loop (unat n) 0 dst src m"

fun memset_loop :: "nat \<Rightarrow> u32 \<Rightarrow> u32 \<Rightarrow> u8 \<Rightarrow> mem \<Rightarrow> mem" where
  "memset_loop 0 i ptr v m = m"
| "memset_loop (Suc n) i ptr v m = memset_loop n (i + 1) ptr v (m(ptr + i := v))"

definition memset :: "u32 \<Rightarrow> u8 \<Rightarrow> u32 \<Rightarrow> mem \<Rightarrow> mem" where
  "memset ptr v n m = memset_loop (unat n) 0 ptr v m"

section \<open>What they compute\<close>

lemma cstr_nth [simp]: "i < length xs \<Longrightarrow> cstr xs i = xs ! i"
  by (simp add: cstr_def)

lemma cstr_end [simp]: "length xs \<le> i \<Longrightarrow> cstr xs i = 0"
  by (simp add: cstr_def)

lemma strlen_loop_cstr:
  assumes "0 \<notin> set xs"
  shows "i \<le> length xs \<Longrightarrow> strlen_loop (cstr xs) i = Some (length xs)"
proof (induction "length xs - i" arbitrary: i)
  case 0
  then show ?case by (simp add: strlen_loop.simps)
next
  case (Suc d)
  then have i: "i < length xs" by simp
  then have "xs ! i \<noteq> 0" using assms by (metis nth_mem)
  then show ?case using Suc i by (subst strlen_loop.simps) simp
qed

lemma strlen_cstr: "0 \<notin> set xs \<Longrightarrow> strlen (cstr xs) = Some (of_nat (length xs))"
  by (simp add: strlen_def strlen_loop_cstr)

lemma strcmp_loop_cstr:
  assumes "0 \<notin> set xs" "0 \<notin> set ys"
  shows "i \<le> length xs \<Longrightarrow> i \<le> length ys \<Longrightarrow>
    strcmp_loop (cstr xs) (cstr ys) i = Some (if drop i xs = drop i ys then 0 else 1)"
proof (induction "length xs - i" arbitrary: i)
  case 0
  then have x: "cstr xs i = 0" and le: "length xs = i" by simp_all
  show ?case
  proof (cases "length ys = i")
    case True
    then have "cstr ys i = 0" by simp
    then show ?thesis using x le True by (simp add: strcmp_loop.simps [of _ _ i])
  next
    case False
    then have "i < length ys" using 0 by simp
    then have "ys ! i \<noteq> 0" using assms(2) nth_mem [of i ys] by metis
    then have "cstr ys i \<noteq> 0" "drop i ys \<noteq> []" using \<open>i < length ys\<close> by auto
    then show ?thesis using x le by (simp add: strcmp_loop.simps [of _ _ i])
  qed
next
  case (Suc d)
  then have i: "i < length xs" by simp
  then have x: "xs ! i \<noteq> 0" using assms(1) by (metis nth_mem)
  show ?case
  proof (cases "i < length ys")
    case True
    then have y: "ys ! i \<noteq> 0" using assms(2) by (metis nth_mem)
    have "drop i xs = xs ! i # drop (Suc i) xs" "drop i ys = ys ! i # drop (Suc i) ys"
      using i True by (simp_all add: Cons_nth_drop_Suc)
    then show ?thesis using Suc i True x y by (subst strcmp_loop.simps) simp
  next
    case False
    then have "drop i ys = []" "drop i xs \<noteq> []" using i by simp_all
    then show ?thesis using i x False by (subst strcmp_loop.simps) auto
  qed
qed

lemma strcmp_cstr:
  "0 \<notin> set xs \<Longrightarrow> 0 \<notin> set ys \<Longrightarrow> strcmp (cstr xs) (cstr ys) = Some (if xs = ys then 0 else 1)"
  using strcmp_loop_cstr [of xs ys 0] by (simp add: strcmp_def)

lemma strcpy_loop_cstr:
  assumes "0 \<notin> set xs"
  shows "i \<le> length xs \<Longrightarrow> \<exists>d. strcpy_loop dst (cstr xs) i = Some d \<and>
    (\<forall>j. d j = (if i \<le> j \<and> j \<le> length xs then cstr xs j else dst j))"
proof (induction "length xs - i" arbitrary: i dst)
  case 0
  then show ?case by (subst strcpy_loop.simps) auto
next
  case (Suc n)
  then have i: "i < length xs" by simp
  then have x: "xs ! i \<noteq> 0" using assms by (metis nth_mem)
  obtain d where d: "strcpy_loop (dst(i := xs ! i)) (cstr xs) (i + 1) = Some d"
    "\<forall>j. d j = (if i + 1 \<le> j \<and> j \<le> length xs then cstr xs j else (dst(i := xs ! i)) j)"
    using Suc.hyps(1) [of "i + 1" "dst(i := xs ! i)"] Suc.hyps(2) i by fastforce
  have "strcpy_loop dst (cstr xs) i = Some d" using d(1) i x by (subst strcpy_loop.simps) simp
  moreover have "d j = (if i \<le> j \<and> j \<le> length xs then cstr xs j else dst j)" for j
    using d(2) i by (cases "j = i") auto
  ultimately show ?case by blast
qed

text \<open>\<open>memset\<close> and \<open>memcpy\<close> change exactly the bytes of the destination.\<close>

definition offset_of :: "u32 \<Rightarrow> u32 \<Rightarrow> nat" where
  "offset_of base a = unat (a - base)"

lemma offset_of_eq: "offset_of base a = n \<Longrightarrow> a = base + of_nat n"
  by (auto simp: offset_of_def)

lemma offset_of_at: "offset_of ptr a = unat i \<longleftrightarrow> a = ptr + i"
  by (auto simp: offset_of_def word_unat_eq_iff [symmetric] algebra_simps)

lemma unat_Suc32: "unat (i :: u32) + Suc (Suc n) \<le> 4294967296 \<Longrightarrow> unat (i + 1) = unat i + 1"
  using unat_add32 [of i 1] by simp

lemma memset_loop_spec:
  "unat i + n \<le> 4294967296 \<Longrightarrow>
   memset_loop n i ptr v m a = (if unat i \<le> offset_of ptr a \<and> offset_of ptr a < unat i + n then v else m a)"
proof (induction n arbitrary: i m)
  case (Suc n)
  have e: "offset_of ptr a = unat i \<longleftrightarrow> a = ptr + i" by (rule offset_of_at)
  show ?case
  proof (cases n)
    case 0
    then show ?thesis using e by auto
  next
    case Suc': (Suc k)
    then have "unat (i + 1) = unat i + 1" using unat_Suc32 [of i k] Suc.prems by simp
    then show ?thesis using Suc.IH [of "i + 1"] Suc.prems e by auto
  qed
qed auto

lemma memset_spec:
  "memset ptr v n m a = (if offset_of ptr a < unat n then v else m a)"
  using memset_loop_spec [of 0 "unat n" ptr v m a] less_imp_le [OF unat_lt32 [of n]]
  by (simp add: memset_def)

text \<open>
  The copy runs upwards: it is right whenever no byte is written before it is read.
\<close>

definition copies_forward :: "u32 \<Rightarrow> u32 \<Rightarrow> nat \<Rightarrow> bool" where
  "copies_forward dst src n \<longleftrightarrow> (\<forall>j k. j < n \<longrightarrow> k < j \<longrightarrow> dst + of_nat k \<noteq> src + of_nat j)"

lemma memcpy_loop_spec:
  assumes "copies_forward dst src (unat i + n)"
  shows "unat i + n \<le> 4294967296 \<Longrightarrow> memcpy_loop n i dst src m a =
    (if unat i \<le> offset_of dst a \<and> offset_of dst a < unat i + n then m (src + (a - dst)) else m a)"
  using assms
proof (induction n arbitrary: i m)
  case (Suc n)
  have e: "offset_of dst a = unat i \<longleftrightarrow> a = dst + i" by (rule offset_of_at)
  show ?case
  proof (cases n)
    case 0
    then show ?thesis using e by auto
  next
    case Suc': (Suc k)
    then have u: "unat (i + 1) = unat i + 1" using unat_Suc32 [of i k] Suc.prems by simp
    have fwd: "copies_forward dst src (unat (i + 1) + n)" using Suc.prems(2) u by simp
    have rest: "memcpy_loop n (i + 1) dst src (m(dst + i := m (src + i))) a =
        (if unat i + 1 \<le> offset_of dst a \<and> offset_of dst a < unat i + 1 + n
         then (m(dst + i := m (src + i))) (src + (a - dst)) else (m(dst + i := m (src + i))) a)"
      using Suc.IH [OF _ fwd] Suc.prems(1) u by simp
    have unread: "src + (a - dst) \<noteq> dst + i" if "unat i + 1 \<le> offset_of dst a" "offset_of dst a < unat i + 1 + n"
    proof -
      have "dst + of_nat (unat i) \<noteq> src + of_nat (offset_of dst a)"
        using Suc.prems(2) [unfolded copies_forward_def, rule_format, of "offset_of dst a" "unat i"] that
        by simp
      then show ?thesis by (auto simp: offset_of_def)
    qed
    show ?thesis using rest unread e by auto
  qed
qed auto

lemma memcpy_spec:
  assumes "copies_forward dst src (unat n)"
  shows "memcpy dst src n m a = (if offset_of dst a < unat n then m (src + (a - dst)) else m a)"
  using memcpy_loop_spec [of dst src 0 "unat n" m a] assms less_imp_le [OF unat_lt32 [of n]]
  by (simp add: memcpy_def)

end
