(* ===== verification/Screen.thy ===== *)
theory Screen
  imports Util
begin

text \<open>
  The VGA text screen driver, src/src/screen.c.

  The state is the cursor position, the memory the frame buffer lies in and the
  bytes written to the CRT controller's ports, in order.  \<open>cursor_pos\<close> is a signed
  32-bit integer in C that never leaves 0..1999 between calls (proved below), so it
  is an \<open>int\<close> here.  Strings arrive as the list of their bytes.
\<close>

record Screen =
  cursor_pos :: int
  memory :: mem
  ports :: "(u16 \<times> u8) list"

definition VIDEO_MEMORY_ADDRESS :: u32 where "VIDEO_MEMORY_ADDRESS = 0xB8000"
definition WHITE_ON_BLACK_ATTRIBUTE :: u8 where "WHITE_ON_BLACK_ATTRIBUTE = 0x0F"
definition VIDEO_COLS_NUM :: int where "VIDEO_COLS_NUM = 80"
definition VIDEO_ROWS_NUM :: int where "VIDEO_ROWS_NUM = 25"
definition REG_SCREEN_CTRL :: u16 where "REG_SCREEN_CTRL = 0x3D4"
definition REG_SCREEN_DATA :: u16 where "REG_SCREEN_DATA = 0x3D5"

lemmas screen_consts = VIDEO_MEMORY_ADDRESS_def WHITE_ON_BLACK_ATTRIBUTE_def VIDEO_COLS_NUM_def
  VIDEO_ROWS_NUM_def REG_SCREEN_CTRL_def REG_SCREEN_DATA_def

definition io_byte_out :: "u16 \<Rightarrow> u8 \<Rightarrow> Screen \<Rightarrow> Screen" where
  "io_byte_out port byte s = s\<lparr>ports := ports s @ [(port, byte)]\<rparr>"

definition update_text_cursor :: "Screen \<Rightarrow> Screen" where
  "update_text_cursor s =
    (let s = io_byte_out REG_SCREEN_CTRL 0x0E s;
         s = io_byte_out REG_SCREEN_DATA (of_int (cursor_pos s div 256)) s;
         s = io_byte_out REG_SCREEN_CTRL 0x0F s in
     io_byte_out REG_SCREEN_DATA (of_int (cursor_pos s)) s)"

definition video_write :: "int \<Rightarrow> u8 \<Rightarrow> Screen \<Rightarrow> Screen" where
  "video_write i v s = s\<lparr>memory := (memory s)(VIDEO_MEMORY_ADDRESS + of_int i := v)\<rparr>"

definition print_at :: "u8 \<Rightarrow> int \<Rightarrow> int \<Rightarrow> Screen \<Rightarrow> Screen" where
  "print_at c y x s =
    video_write ((y * VIDEO_COLS_NUM + x) * 2 + 1) WHITE_ON_BLACK_ATTRIBUTE
      (video_write ((y * VIDEO_COLS_NUM + x) * 2) c s)"

definition screen_pos_cursor :: "u32 \<Rightarrow> u32 \<Rightarrow> Screen \<Rightarrow> Screen res" where
  "screen_pos_cursor x y s =
    rbind (kassert (x < of_int VIDEO_COLS_NUM) ''error setting screen X cursor position'') (\<lambda>_.
    rbind (kassert (y < of_int VIDEO_ROWS_NUM) ''error setting screen Y cursor position'') (\<lambda>_.
    Inr (s\<lparr>cursor_pos := sint (of_int VIDEO_COLS_NUM * y + x)\<rparr>)))"

definition screen_init :: "Screen \<Rightarrow> Screen" where
  "screen_init s =
    (let s = s\<lparr>cursor_pos := 0\<rparr>;
         s = io_byte_out REG_SCREEN_CTRL 0x0A s;
         s = io_byte_out REG_SCREEN_DATA 0b00001111 s;
         s = io_byte_out REG_SCREEN_CTRL 0x0B s in
     io_byte_out REG_SCREEN_DATA 0b00011111 s)"

text \<open>The two blanking loops write a 0 character and its attribute \<open>n\<close> times from cell \<open>i\<close>.\<close>

fun blank_loop :: "nat \<Rightarrow> int \<Rightarrow> int \<Rightarrow> Screen \<Rightarrow> Screen" where
  "blank_loop 0 base i s = s"
| "blank_loop (Suc n) base i s =
     blank_loop n base (i + 1) (video_write (2 * (base + i) + 1) 0xF (video_write (2 * (base + i)) 0 s))"

definition shift_one_line_up :: "Screen \<Rightarrow> Screen" where
  "shift_one_line_up s =
    blank_loop (nat VIDEO_COLS_NUM) ((VIDEO_ROWS_NUM - 1) * VIDEO_COLS_NUM) 0
      (s\<lparr>memory := memcpy VIDEO_MEMORY_ADDRESS (VIDEO_MEMORY_ADDRESS + of_int (VIDEO_COLS_NUM * 2))
           (of_int ((VIDEO_ROWS_NUM - 1) * VIDEO_COLS_NUM * 2)) (memory s)\<rparr>)"

definition print_char_step :: "u8 \<Rightarrow> Screen \<Rightarrow> Screen" where
  "print_char_step c s =
    (let s = (if c = 10
              then s\<lparr>cursor_pos := cursor_pos s + (VIDEO_COLS_NUM - cursor_pos s mod VIDEO_COLS_NUM)\<rparr>
              else let y = cursor_pos s div VIDEO_COLS_NUM; x = cursor_pos s mod VIDEO_COLS_NUM;
                       s = print_at c y x s in
                   s\<lparr>cursor_pos := cursor_pos s + 1\<rparr>) in
     if VIDEO_COLS_NUM * VIDEO_ROWS_NUM \<le> cursor_pos s
     then shift_one_line_up (s\<lparr>cursor_pos := cursor_pos s - VIDEO_COLS_NUM\<rparr>)
     else s)"

definition screen_print_with_len :: "u8 list \<Rightarrow> Screen \<Rightarrow> Screen" where
  "screen_print_with_len str s = update_text_cursor (fold print_char_step str s)"

definition screen_print :: "u8 list \<Rightarrow> Screen \<Rightarrow> Screen" where
  "screen_print str = screen_print_with_len (takeWhile (\<lambda>c. c \<noteq> 0) str)"

definition screen_print_char :: "u8 \<Rightarrow> Screen \<Rightarrow> Screen" where
  "screen_print_char c = screen_print_with_len [c]"

definition screen_print_nibble :: "u8 \<Rightarrow> Screen \<Rightarrow> Screen" where
  "screen_print_nibble nibble =
    (let d = nibble + 48; d = (if 9 < nibble then d + 7 else d) in screen_print_with_len [d])"

definition screen_print_byte :: "u8 \<Rightarrow> Screen \<Rightarrow> Screen" where
  "screen_print_byte byte s = screen_print_nibble (byte AND 0x0F) (screen_print_nibble (drop_bit 4 byte) s)"

definition screen_print_u32 :: "u32 \<Rightarrow> Screen \<Rightarrow> Screen" where
  "screen_print_u32 v s =
    screen_print_byte (ucast v) (screen_print_byte (ucast (drop_bit 8 v))
      (screen_print_byte (ucast (drop_bit 16 v)) (screen_print_byte (ucast (drop_bit 24 v)) s)))"

definition screen_print_ptr :: "u32 \<Rightarrow> Screen \<Rightarrow> Screen" where
  "screen_print_ptr = screen_print_u32"

definition screen_clear :: "Screen \<Rightarrow> Screen" where
  "screen_clear s =
    update_text_cursor ((blank_loop (nat (VIDEO_COLS_NUM * VIDEO_ROWS_NUM)) 0 0 s)\<lparr>cursor_pos := 0\<rparr>)"

section \<open>The frame buffer seen as bytes and cells\<close>

definition vram :: "Screen \<Rightarrow> nat \<Rightarrow> u8" where
  "vram s k = memory s (VIDEO_MEMORY_ADDRESS + of_nat k)"

definition off_screen :: "u32 \<Rightarrow> bool" where
  "off_screen a \<longleftrightarrow> 4000 \<le> offset_of VIDEO_MEMORY_ADDRESS a"

definition screen_ok :: "Screen \<Rightarrow> bool" where
  "screen_ok s \<longleftrightarrow> 0 \<le> cursor_pos s \<and> cursor_pos s < 2000"

lemma of_nat_eq32: "i < 4294967296 \<Longrightarrow> j < 4294967296 \<Longrightarrow> (of_nat i :: u32) = of_nat j \<longleftrightarrow> i = j"
  using unat_of_nat32 [of i] unat_of_nat32 [of j] by metis

lemma offset_of_base: "k < 4294967296 \<Longrightarrow> offset_of b (b + of_nat k) = k"
  by (simp add: offset_of_def unat_of_nat32)

lemma vram_write:
  assumes "0 \<le> i" "i < 4000" "k < 4000"
  shows "vram (video_write i v s) k = (if int k = i then v else vram s k)"
proof -
  have "(of_int i :: u32) = of_nat (nat i)" using assms(1) by simp
  moreover have "(of_nat k :: u32) = of_nat (nat i) \<longleftrightarrow> k = nat i" using assms by (intro of_nat_eq32) auto
  ultimately show ?thesis using assms(1) by (auto simp: vram_def video_write_def)
qed

lemma video_write_frame:
  assumes "0 \<le> i" "i < 4000" "off_screen a"
  shows "memory (video_write i v s) a = memory s a"
proof -
  have "(of_int i :: u32) = of_nat (nat i)" using assms(1) by simp
  moreover have "offset_of VIDEO_MEMORY_ADDRESS (VIDEO_MEMORY_ADDRESS + of_nat (nat i)) = nat i"
    using assms by (intro offset_of_base) auto
  ultimately have "a \<noteq> VIDEO_MEMORY_ADDRESS + of_int i" using assms unfolding off_screen_def by auto
  then show ?thesis by (simp add: video_write_def)
qed

lemma video_write_pos [simp]: "cursor_pos (video_write i v s) = cursor_pos s"
  by (simp add: video_write_def)

lemma blank_loop_pos [simp]: "cursor_pos (blank_loop n b i s) = cursor_pos s"
  by (induction n b i s rule: blank_loop.induct) simp_all

lemma blank_loop_vram:
  assumes "k < 4000"
  shows "0 \<le> base + i \<Longrightarrow> 2 * (base + i + int n) \<le> 4000 \<Longrightarrow> vram (blank_loop n base i s) k =
    (if 2 * (base + i) \<le> int k \<and> int k < 2 * (base + i + int n) then (if even k then 0 else 0xF) else vram s k)"
proof (induction n base i s rule: blank_loop.induct)
  case (2 n base i s)
  have even: "even k" if "int k = 2 * base + 2 * i" using that by presburger
  have odd: "odd k" if "int k = 2 * base + 2 * i + 1" using that by presburger
  show ?case using 2 assms even odd by (auto simp: vram_write)
qed auto

lemma blank_loop_frame:
  assumes "off_screen a"
  shows "0 \<le> base + i \<Longrightarrow> 2 * (base + i + int n) \<le> 4000 \<Longrightarrow> memory (blank_loop n base i s) a = memory s a"
  using assms
  by (induction n base i s rule: blank_loop.induct) (simp_all add: video_write_frame)

lemma scroll_forward: "copies_forward VIDEO_MEMORY_ADDRESS (VIDEO_MEMORY_ADDRESS + 160) 3840"
proof -
  have "(of_nat k :: u32) \<noteq> 160 + of_nat j" if "k < j" "j < 3840" for j k
  proof -
    have "(of_nat k :: u32) = of_nat (160 + j) \<longleftrightarrow> k = 160 + j" using that by (intro of_nat_eq32) auto
    then show ?thesis using that by auto
  qed
  then show ?thesis by (auto simp: copies_forward_def add.assoc)
qed

lemma shift_memory:
  "memory (s\<lparr>memory := memcpy VIDEO_MEMORY_ADDRESS (VIDEO_MEMORY_ADDRESS + of_int (VIDEO_COLS_NUM * 2))
      (of_int ((VIDEO_ROWS_NUM - 1) * VIDEO_COLS_NUM * 2)) (memory s)\<rparr>) a =
   (if offset_of VIDEO_MEMORY_ADDRESS a < 3840 then memory s (a + 160) else memory s a)"
proof -
  have n: "unat (3840 :: u32) = 3840" by simp
  have "copies_forward VIDEO_MEMORY_ADDRESS (VIDEO_MEMORY_ADDRESS + 160) (unat (3840 :: u32))"
    unfolding n by (rule scroll_forward)
  from memcpy_spec [OF this, of "memory s" a] have
    "memcpy VIDEO_MEMORY_ADDRESS (VIDEO_MEMORY_ADDRESS + 160) 3840 (memory s) a =
      (if offset_of VIDEO_MEMORY_ADDRESS a < 3840 then memory s (a + 160) else memory s a)"
    unfolding n by (simp add: algebra_simps)
  then show ?thesis by (simp add: VIDEO_COLS_NUM_def VIDEO_ROWS_NUM_def)
qed

lemma shift_vram:
  assumes "k < 4000"
  shows "vram (shift_one_line_up s) k =
    (if k < 3840 then vram s (k + 160) else if even k then 0 else 0xF)"
proof -
  have "k < 4294967296" using assms by simp
  then have off: "offset_of VIDEO_MEMORY_ADDRESS (VIDEO_MEMORY_ADDRESS + of_nat k) = k" by (rule offset_of_base)
  let ?s = "s\<lparr>memory := memcpy VIDEO_MEMORY_ADDRESS (VIDEO_MEMORY_ADDRESS + of_int (VIDEO_COLS_NUM * 2))
      (of_int ((VIDEO_ROWS_NUM - 1) * VIDEO_COLS_NUM * 2)) (memory s)\<rparr>"
  have cp: "vram ?s k = (if k < 3840 then vram s (k + 160) else vram s k)"
    unfolding vram_def shift_memory off by (simp add: algebra_simps)
  have "vram (shift_one_line_up s) k = (if 3840 \<le> k then (if even k then 0 else 0xF) else vram ?s k)"
    unfolding shift_one_line_up_def using assms
    by (subst blank_loop_vram) (auto simp: VIDEO_COLS_NUM_def VIDEO_ROWS_NUM_def)
  then show ?thesis using cp by simp
qed

lemma shift_frame:
  assumes "off_screen a"
  shows "memory (shift_one_line_up s) a = memory s a"
proof -
  have "\<not> offset_of VIDEO_MEMORY_ADDRESS a < 3840" using assms by (simp add: off_screen_def)
  then show ?thesis
    unfolding shift_one_line_up_def
    by (subst blank_loop_frame [OF assms]) (simp_all add: VIDEO_COLS_NUM_def VIDEO_ROWS_NUM_def
        shift_memory [unfolded VIDEO_COLS_NUM_def VIDEO_ROWS_NUM_def, simplified])
qed

section \<open>The screen as a grid of characters\<close>

text \<open>
  The specification: 25 lines of 80 characters, a cursor, and attributes of no
  interest to it.  Reaching the end of the last line moves every line up by one.
\<close>

record Text =
  cell :: "nat \<Rightarrow> u8"
  pos :: nat

definition scroll :: "Text \<Rightarrow> Text" where
  "scroll t = \<lparr>cell = (\<lambda>i. if i < 1920 then cell t (i + 80) else 0), pos = pos t - 80\<rparr>"

definition put_char :: "u8 \<Rightarrow> Text \<Rightarrow> Text" where
  "put_char c t =
    (let t = (if c = 10 then t\<lparr>pos := 80 * (pos t div 80 + 1)\<rparr>
              else t\<lparr>cell := (cell t)(pos t := c), pos := pos t + 1\<rparr>) in
     if pos t = 2000 then scroll t else t)"

definition shows_text :: "Screen \<Rightarrow> Text \<Rightarrow> bool" where
  "shows_text s t \<longleftrightarrow> cursor_pos s = int (pos t) \<and> pos t < 2000 \<and>
     (\<forall>i < 2000. vram s (2 * i) = cell t i \<and> vram s (2 * i + 1) = WHITE_ON_BLACK_ATTRIBUTE)"

lemma print_at_vram:
  assumes "0 \<le> y" "0 \<le> x" "x < 80" "y < 25" "i < 2000"
  shows "vram (print_at c y x s) (2 * i) = (if int i = 80 * y + x then c else vram s (2 * i))"
    and "vram (print_at c y x s) (2 * i + 1) =
      (if int i = 80 * y + x then WHITE_ON_BLACK_ATTRIBUTE else vram s (2 * i + 1))"
proof -
  have odd: "(1 :: int) + 2 * a \<noteq> 2 * b" for a b by presburger
  show "vram (print_at c y x s) (2 * i) = (if int i = 80 * y + x then c else vram s (2 * i))"
    using assms odd [of "80 * y + x" "int i"] by (auto simp: print_at_def VIDEO_COLS_NUM_def vram_write algebra_simps)
  show "vram (print_at c y x s) (2 * i + 1) =
      (if int i = 80 * y + x then WHITE_ON_BLACK_ATTRIBUTE else vram s (2 * i + 1))"
    using assms odd [of "int i" "80 * y + x"] by (auto simp: print_at_def VIDEO_COLS_NUM_def vram_write algebra_simps)
qed

lemma print_at_pos [simp]: "cursor_pos (print_at c y x s) = cursor_pos s"
  by (simp add: print_at_def)

lemma shift_pos [simp]: "cursor_pos (shift_one_line_up s) = cursor_pos s"
  by (simp add: shift_one_line_up_def)

lemma vram_cursor [simp]: "vram (s\<lparr>cursor_pos := p\<rparr>) k = vram s k"
  by (simp add: vram_def)

lemma scroll_shows:
  assumes "cursor_pos s = 2000" "pos t = 2000"
    and "\<forall>i < 2000. vram s (2 * i) = cell t i \<and> vram s (2 * i + 1) = WHITE_ON_BLACK_ATTRIBUTE"
  shows "shows_text (shift_one_line_up (s\<lparr>cursor_pos := cursor_pos s - VIDEO_COLS_NUM\<rparr>)) (scroll t)"
  unfolding shows_text_def
proof (intro conjI allI impI)
  fix i :: nat assume i: "i < 2000"
  let ?s = "s\<lparr>cursor_pos := cursor_pos s - VIDEO_COLS_NUM\<rparr>"
  have src: "vram s (2 * i + 160) = cell t (i + 80) \<and> vram s (2 * i + 1 + 160) = WHITE_ON_BLACK_ATTRIBUTE" if "i < 1920"
    using assms(3) [rule_format, of "i + 80"] that by (simp add: algebra_simps)
  show "vram (shift_one_line_up ?s) (2 * i) = cell (scroll t) i"
    using i src by (simp add: shift_vram scroll_def)
  show "vram (shift_one_line_up ?s) (2 * i + 1) = WHITE_ON_BLACK_ATTRIBUTE"
  proof (cases "i < 1920")
    case True
    then show ?thesis using src shift_vram [of "2 * i + 1" ?s] by simp
  next
    case False
    then show ?thesis using i shift_vram [of "2 * i + 1" ?s] by (simp add: WHITE_ON_BLACK_ATTRIBUTE_def)
  qed
qed (use assms in \<open>simp_all add: scroll_def VIDEO_COLS_NUM_def\<close>)

lemma line_start: "int p + (80 - int p mod 80) = int (80 * (p div 80 + 1))"
proof -
  have "int p - int p mod 80 = 80 * (int p div 80)" by (rule minus_mod_eq_mult_div)
  moreover have "int (80 * (p div 80 + 1)) = 80 * (int p div 80) + 80" by (simp add: zdiv_int)
  ultimately show ?thesis by linarith
qed

lemma print_char_step_refines:
  assumes "shows_text s t"
  shows "shows_text (print_char_step c s) (put_char c t)"
proof (cases "c = 10")
  case True
  let ?s = "s\<lparr>cursor_pos := cursor_pos s + (VIDEO_COLS_NUM - cursor_pos s mod VIDEO_COLS_NUM)\<rparr>"
  let ?t = "t\<lparr>pos := 80 * (pos t div 80 + 1)\<rparr>"
  have p: "pos t < 2000" "cursor_pos s = int (pos t)" using assms by (simp_all add: shows_text_def)
  have np: "cursor_pos ?s = int (pos ?t)"
    using line_start [of "pos t"] p(2) by (simp add: VIDEO_COLS_NUM_def)
  have le: "pos ?t \<le> 2000" using p(1) by simp
  have same: "\<forall>i < 2000. vram ?s (2 * i) = cell ?t i \<and> vram ?s (2 * i + 1) = WHITE_ON_BLACK_ATTRIBUTE"
    using assms by (simp add: shows_text_def)
  show ?thesis
  proof (cases "pos ?t = 2000")
    case wrap: True
    then have "cursor_pos ?s = 2000" using np by simp
    then show ?thesis using scroll_shows [OF _ wrap same] True wrap
      by (simp add: print_char_step_def put_char_def Let_def VIDEO_COLS_NUM_def VIDEO_ROWS_NUM_def)
  next
    case False
    then have "pos ?t < 2000" using le by simp
    then show ?thesis using np same True False
      by (simp add: print_char_step_def put_char_def Let_def VIDEO_COLS_NUM_def VIDEO_ROWS_NUM_def shows_text_def)
  qed
next
  case False
  have p: "pos t < 2000" "cursor_pos s = int (pos t)" using assms by (simp_all add: shows_text_def)
  let ?y = "cursor_pos s div VIDEO_COLS_NUM" and ?x = "cursor_pos s mod VIDEO_COLS_NUM"
  let ?s = "(print_at c ?y ?x s)\<lparr>cursor_pos := cursor_pos s + 1\<rparr>"
  let ?t = "t\<lparr>cell := (cell t)(pos t := c), pos := pos t + 1\<rparr>"
  have yx: "0 \<le> ?y" "0 \<le> ?x" "?x < 80" "?y < 25" "80 * ?y + ?x = int (pos t)"
    using p by (auto simp: VIDEO_COLS_NUM_def)
  have same: "\<forall>i < 2000. vram ?s (2 * i) = cell ?t i \<and> vram ?s (2 * i + 1) = WHITE_ON_BLACK_ATTRIBUTE"
    using assms print_at_vram [OF yx(1-4)] yx(5) by (auto simp: shows_text_def)
  have np: "cursor_pos ?s = int (pos ?t)" using p(2) by simp
  show ?thesis
  proof (cases "pos ?t = 2000")
    case wrap: True
    then have "cursor_pos ?s = 2000" using np by simp
    then show ?thesis using scroll_shows [OF _ wrap same] False wrap
      by (simp add: print_char_step_def put_char_def Let_def VIDEO_COLS_NUM_def VIDEO_ROWS_NUM_def)
  next
    case nend: False
    then have "pos ?t < 2000" using p(1) by simp
    then show ?thesis using np same False nend
      by (simp add: print_char_step_def put_char_def Let_def VIDEO_COLS_NUM_def VIDEO_ROWS_NUM_def shows_text_def)
  qed
qed

section \<open>Properties of the screen\<close>

definition screen_put :: "u8 list \<Rightarrow> Text \<Rightarrow> Text" where
  "screen_put str t = fold put_char str t"

lemma update_text_cursor_same [simp]:
  "cursor_pos (update_text_cursor s) = cursor_pos s" "memory (update_text_cursor s) = memory s"
  by (simp_all add: update_text_cursor_def io_byte_out_def Let_def)

lemma shows_text_cong:
  "cursor_pos s = cursor_pos s' \<Longrightarrow> memory s = memory s' \<Longrightarrow> shows_text s t \<longleftrightarrow> shows_text s' t"
  by (simp add: shows_text_def vram_def)

lemma fold_print_refines:
  "shows_text s t \<Longrightarrow> shows_text (fold print_char_step str s) (screen_put str t)"
  by (induction str arbitrary: s t) (simp_all add: screen_put_def print_char_step_refines)

lemma print_refines:
  "shows_text s t \<Longrightarrow> shows_text (screen_print_with_len str s) (screen_put str t)"
  unfolding screen_print_with_len_def
  using fold_print_refines shows_text_cong update_text_cursor_same by metis

definition blank_screen :: Screen where
  "blank_screen = screen_clear \<lparr>cursor_pos = 5, memory = (\<lambda>_. 7), ports = []\<rparr>"

lemma clear_shows: "shows_text (screen_clear s) \<lparr>cell = (\<lambda>_. 0), pos = 0\<rparr>"
proof -
  let ?s = "(blank_loop (nat (VIDEO_COLS_NUM * VIDEO_ROWS_NUM)) 0 0 s)\<lparr>cursor_pos := 0\<rparr>"
  have "vram ?s k = (if even k then 0 else 0xF)" if "k < 4000" for k
    using blank_loop_vram [OF that, of 0 0 2000 s] that by (simp add: VIDEO_COLS_NUM_def VIDEO_ROWS_NUM_def)
  then have "shows_text ?s \<lparr>cell = (\<lambda>_. 0), pos = 0\<rparr>"
    by (auto simp: shows_text_def WHITE_ON_BLACK_ATTRIBUTE_def)
  then show ?thesis unfolding screen_clear_def using shows_text_cong update_text_cursor_same by metis
qed

text \<open>
  C17: Printing refines the grid of characters: from a screen that shows a text,
  \<open>screen_print_with_len\<close> leads to a screen that shows the text with every
  character put at the cursor, newlines moving to the next line and the last line
  scrolling; the cursor never leaves the grid and every attribute stays white on black.
\<close>

theorem screen_print_refines:
  assumes "shows_text s t"
  shows "shows_text (screen_print_with_len str s) (screen_put str t)"
  by (rule print_refines [OF assms])

lemma screen_print_refines_witness:
  "shows_text (screen_print_with_len [104, 105, 10, 33] blank_screen)
     (screen_put [104, 105, 10, 33] \<lparr>cell = (\<lambda>_. 0), pos = 0\<rparr>) \<and>
   pos (screen_put [104, 105, 10, 33] \<lparr>cell = (\<lambda>_. 0), pos = 0\<rparr>) = 81"
  using screen_print_refines [OF clear_shows, of "[104, 105, 10, 33]"]
  by (simp add: blank_screen_def screen_put_def put_char_def Let_def)

text \<open>
  Clearing shows 25 empty lines with the cursor at the top left corner, from any
  state of the frame buffer.
\<close>

theorem screen_clear_blank:
  "shows_text (screen_clear s) \<lparr>cell = (\<lambda>_. 0), pos = 0\<rparr>"
  by (rule clear_shows)

lemma put_line:
  assumes "10 \<notin> set str" "pos t + length str < 2000"
  shows "screen_put str t = \<lparr>cell = (\<lambda>i. if pos t \<le> i \<and> i < pos t + length str then str ! (i - pos t) else cell t i),
     pos = pos t + length str\<rparr>"
  using assms
proof (induction str arbitrary: t)
  case (Cons c str)
  let ?t = "t\<lparr>cell := (cell t)(pos t := c), pos := pos t + 1\<rparr>"
  have step: "put_char c t = ?t" using Cons.prems by (auto simp: put_char_def)
  have "screen_put str ?t = \<lparr>cell = (\<lambda>i. if pos ?t \<le> i \<and> i < pos ?t + length str then str ! (i - pos ?t) else cell ?t i),
     pos = pos ?t + length str\<rparr>"
    by (rule Cons.IH) (use Cons.prems in auto)
  moreover have "(\<lambda>i. if pos ?t \<le> i \<and> i < pos ?t + length str then str ! (i - pos ?t) else cell ?t i) =
      (\<lambda>i. if pos t \<le> i \<and> i < pos t + length (c # str) then (c # str) ! (i - pos t) else cell t i)"
    by (rule ext) (auto simp: nth_Cons')
  ultimately show ?case using step by (simp add: screen_put_def)
next
  case Nil
  have "(\<lambda>i. if pos t \<le> i \<and> i < pos t + length [] then [] ! (i - pos t) else cell t i) = cell t"
    by (rule ext) auto
  then show ?case by (simp add: screen_put_def)
qed

text \<open>
  A string without newline that ends before the last cell appears on the screen
  unchanged from the cursor on, every other cell keeps its character, and the cursor
  stands behind it.
\<close>

theorem screen_print_text:
  assumes "shows_text s t" and "10 \<notin> set str" "pos t + length str < 2000" and "i < 2000"
  shows "vram (screen_print_with_len str s) (2 * i) =
      (if pos t \<le> i \<and> i < pos t + length str then str ! (i - pos t) else cell t i) \<and>
    cursor_pos (screen_print_with_len str s) = int (pos t + length str)"
  using print_refines [OF assms(1), of str] put_line [OF assms(2,3)] assms(4) by (simp add: shows_text_def)

lemma screen_print_text_witness:
  "vram (screen_print_with_len [104, 105] blank_screen) 2 = 105 \<and>
   cursor_pos (screen_print_with_len [104, 105] blank_screen) = 2"
  using screen_print_text [OF clear_shows, of "[104, 105]" 1] by (simp add: blank_screen_def)

definition shown_cursor :: "(u16 \<times> u8) list \<Rightarrow> int option" where
  "shown_cursor ps = (case rev ps of
     (d1, lo) # (c1, i1) # (d2, hi) # (c2, i2) # _ \<Rightarrow>
       if d1 = REG_SCREEN_DATA \<and> c1 = REG_SCREEN_CTRL \<and> d2 = REG_SCREEN_DATA \<and> c2 = REG_SCREEN_CTRL \<and>
          i1 = 0x0F \<and> i2 = 0x0E
       then Some (256 * uint hi + uint lo) else None
     | _ \<Rightarrow> None)"

lemma uint_bytes: "0 \<le> p \<Longrightarrow> p < 2000 \<Longrightarrow> 256 * uint (of_int (p div 256) :: u8) + uint (of_int p :: u8) = p"
  by (simp add: uint_word_of_int)

lemma cursor_registers:
  assumes "screen_ok s"
  shows "shown_cursor (ports (update_text_cursor s)) = Some (cursor_pos s)"
  using assms uint_bytes [of "cursor_pos s"]
  by (simp add: update_text_cursor_def io_byte_out_def Let_def shown_cursor_def screen_ok_def)

lemma print_char_step_ok:
  assumes "screen_ok s"
  shows "screen_ok (print_char_step c s)"
  using assms pos_mod_sign [of 80 "cursor_pos s"] pos_mod_bound [of 80 "cursor_pos s"]
    minus_mod_eq_mult_div [of "cursor_pos s" 80]
  by (auto simp: print_char_step_def screen_ok_def Let_def VIDEO_COLS_NUM_def VIDEO_ROWS_NUM_def)

lemma print_at_frame:
  assumes "screen_ok s" "off_screen a"
  shows "memory (print_at c (cursor_pos s div VIDEO_COLS_NUM) (cursor_pos s mod VIDEO_COLS_NUM) s) a = memory s a"
  using assms by (simp add: print_at_def video_write_frame screen_ok_def VIDEO_COLS_NUM_def)

lemma print_char_step_frame:
  assumes "screen_ok s" "off_screen a"
  shows "memory (print_char_step c s) a = memory s a"
  using print_at_frame [OF assms, of c] by (simp add: print_char_step_def Let_def shift_frame [OF assms(2)])

lemma fold_print_ok:
  "screen_ok s \<Longrightarrow> off_screen a \<Longrightarrow>
    screen_ok (fold print_char_step str s) \<and> memory (fold print_char_step str s) a = memory s a"
  by (induction str arbitrary: s) (simp_all add: print_char_step_ok print_char_step_frame)



text \<open>
  \<open>screen_pos_cursor\<close> accepts exactly the positions of the grid, keeps the cursor
  inside it, and spins in an assertion for any other.
\<close>

theorem screen_pos_cursor_correct:
  "screen_pos_cursor x y s =
    (if 80 \<le> x then Inl (Assert_failed ''error setting screen X cursor position'')
     else if 25 \<le> y then Inl (Assert_failed ''error setting screen Y cursor position'')
     else Inr (s\<lparr>cursor_pos := 80 * uint y + uint x\<rparr>))"
proof -
  have "sint (80 * y + x) = 80 * uint y + uint x" if "x < 80" "y < 25"
  proof -
    have b: "unat x < 80" "unat y < 25" using that by (simp_all add: word_less_nat_alt)
    then have m: "unat (80 * y) = 80 * unat y" by (subst unat_mult32) simp_all
    then have u: "unat (80 * y + x) = 80 * unat y + unat x" using b by (subst unat_add32) simp_all
    then have "unat (80 * y + x) < 2147483648" using b by simp
    then have "sint (80 * y + x) = int (unat (80 * y + x))"
      by (rule sint_small32)
    then show ?thesis using u by simp
  qed
  then show ?thesis by (auto simp: screen_pos_cursor_def VIDEO_COLS_NUM_def VIDEO_ROWS_NUM_def kassert_def not_le)
qed
end
