(* ===== verification/Printf.thy ===== *)
theory Printf
  imports Screen "HOL-Library.Signed_Division"
begin

text \<open>
  Formatted output, src/src/util/printf.c.

  A 16-byte buffer is a list of 16 bytes.  The variable arguments are the words of
  the caller's stack from the first one on, so that \<open>rawos_va_arg\<close> past the last
  argument reads whatever lies there; \<open>str_at\<close> gives the bytes each pointer points
  to.  \<open>vprintf\<close> yields the strings it hands to the screen, in order, and \<open>printf\<close>
  prints them.
\<close>

section \<open>Numbers as text\<close>

fun hex_loop :: "nat \<Rightarrow> nat \<Rightarrow> u32 \<Rightarrow> nat \<Rightarrow> u32 \<Rightarrow> u8 list \<Rightarrow> u8 list" where
  "hex_loop 0 bitsize mask32 i val buffer = buffer"
| "hex_loop (Suc n) bitsize mask32 i val buffer =
    (let f = drop_bit (bitsize - 4) (val AND mask32);
         c = (if 9 < f then ucast f + 0x57 else ucast f + 0x30) in
     hex_loop n bitsize mask32 (i + 1) (push_bit 4 val) (buffer[i := c]))"

definition u32_to_str_base16 :: "u32 \<Rightarrow> nat \<Rightarrow> u8 list \<Rightarrow> nat \<times> u8 list" where
  "u32_to_str_base16 val bitsize buffer =
    (bitsize div 4,
     hex_loop (bitsize div 4) bitsize (drop_bit (32 - bitsize) 0xf0000000) 0 val buffer)"

text \<open>The digits are written from the end of a local array; \<open>aux\<close> is the index of \<open>auxbuffer\<close> in it.\<close>

function digits_loop :: "u32 \<Rightarrow> u8 list \<Rightarrow> nat \<Rightarrow> u8 list \<times> nat" where
  "digits_loop val b aux =
    (if val \<noteq> 0 then digits_loop (val div 10) (b[aux := 0x30 + ucast (val mod 10)]) (aux - 1)
     else (b, aux))"
  by auto
termination
proof (relation "measure (\<lambda>(val, b, aux). unat val)")
  fix val :: u32 and b :: "u8 list" and aux :: nat
  assume "val \<noteq> 0"
  then have "unat val div 10 < unat val" by (simp add: unat_gt_0)
  then show "((val div 10, b[aux := 0x30 + ucast (val mod 10)], aux - 1), val, b, aux)
      \<in> measure (\<lambda>(val, b, aux). unat val)" by (simp add: unat_div)
qed simp

declare digits_loop.simps [simp del]

text \<open>\<open>memcpy\<close> of \<open>n\<close> bytes of the local array from index \<open>from\<close>; index 16 is the byte \<open>beyond\<close> it.\<close>

definition copy_out :: "nat \<Rightarrow> u8 list \<Rightarrow> u8 \<Rightarrow> nat \<Rightarrow> nat \<Rightarrow> u8 list \<Rightarrow> u8 list" where
  "copy_out to b beyond from n buffer =
    fold (\<lambda>i buf. buf[to + i := (b @ [beyond]) ! (from + i)]) [0..<n] buffer"

definition u32_to_str :: "u32 \<Rightarrow> u8 list \<Rightarrow> nat \<times> u8 list" where
  "u32_to_str val buffer =
    (if val = 0 then (1, buffer[0 := 0x30])
     else let (b, aux) = digits_loop val (replicate 16 0) 15; size = 15 - aux in
          (size, copy_out 0 b 0 (aux + 1) size buffer))"

text \<open>
  The signed variant divides signed: \<open>sdiv\<close> and \<open>smod\<close> truncate as C does.  The
  negation wraps, so the least integer stays negative.
\<close>

function sdigits_loop :: "int \<Rightarrow> u8 list \<Rightarrow> nat \<Rightarrow> u8 list \<times> nat" where
  "sdigits_loop val b aux =
    (if val \<noteq> 0 then sdigits_loop (val sdiv 10) (b[aux := of_int (0x30 + val smod 10)]) (aux - 1)
     else (b, aux))"
  by auto
termination
proof (relation "measure (\<lambda>(val, b, aux). nat \<bar>val\<bar>)")
  fix val :: int and b :: "u8 list" and aux :: nat
  assume "val \<noteq> 0"
  have "\<bar>val sdiv 10\<bar> = \<bar>val\<bar> div 10"
    using pos_imp_zdiv_nonneg_iff [of 10 "\<bar>val\<bar>"] by (auto simp: signed_divide_int_def abs_mult sgn_if)
  then have "\<bar>val sdiv 10\<bar> < \<bar>val\<bar>" using \<open>val \<noteq> 0\<close> by linarith
  then show "((val sdiv 10, b[aux := of_int (0x30 + val smod 10)], aux - 1), val, b, aux)
      \<in> measure (\<lambda>(val, b, aux). nat \<bar>val\<bar>)" by simp
qed simp

declare sdigits_loop.simps [simp del]

definition s32_to_str :: "u8 \<Rightarrow> s32 \<Rightarrow> u8 list \<Rightarrow> nat \<times> u8 list" where
  "s32_to_str beyond val buffer =
    (if val = 0 then (1, buffer[0 := 0x30])
     else let neg = (sint val < 0);
              val = (if neg then - val else val);
              buffer = (if neg then buffer[0 := 0x2D] else buffer);
              sum = (if neg then 1 else 0);
              (b, aux) = sdigits_loop (sint val) (replicate 16 0) 15;
              size = 15 + sum - aux in
          (size, copy_out sum b beyond (aux + 1) size buffer))"

section \<open>Format strings\<close>

definition c_string :: "u8 list \<Rightarrow> u8 list" where
  "c_string = takeWhile (\<lambda>c. c \<noteq> 0)"

definition print_string :: "u8 list \<Rightarrow> u8 list list" where
  "print_string str = map (\<lambda>c. [c]) (c_string str)"

definition print_decimal_unsigned :: "u32 \<Rightarrow> u8 list list" where
  "print_decimal_unsigned val = [c_string (snd (u32_to_str val (replicate 16 0)))]"

definition print_decimal_signed :: "u8 \<Rightarrow> s32 \<Rightarrow> u8 list list" where
  "print_decimal_signed beyond val = [c_string (snd (s32_to_str beyond val (replicate 16 0)))]"

definition print_hexadecimal :: "u32 \<Rightarrow> u8 list list" where
  "print_hexadecimal val = [c_string (snd (u32_to_str_base16 val 32 (replicate 16 0)))]"

fun vprintf :: "(u32 \<Rightarrow> u8 list) \<Rightarrow> u8 \<Rightarrow> (nat \<Rightarrow> u32) \<Rightarrow> nat \<Rightarrow> u8 list \<Rightarrow> u8 list list" where
  "vprintf str_at beyond args ap [] = []"
| "vprintf str_at beyond args ap (c # at) =
    (if c = 0 then []
     else if c = 0x25 then
       (case at of
          [] \<Rightarrow> []
        | d # at' \<Rightarrow>
            if d = 0 then []
            else if d = 0x25 then [d] # vprintf str_at beyond args ap at'
            else if d = 0x73 then
              print_string (str_at (args ap)) @ vprintf str_at beyond args (ap + 1) at'
            else if d = 0x75 then
              print_decimal_unsigned (args ap) @ vprintf str_at beyond args (ap + 1) at'
            else if d = 0x64 then
              print_decimal_signed beyond (args ap) @ vprintf str_at beyond args (ap + 1) at'
            else if d = 0x78 then
              print_hexadecimal (args ap) @ vprintf str_at beyond args (ap + 1) at'
            else vprintf str_at beyond args ap at')
     else [c] # vprintf str_at beyond args ap at)"

definition printf :: "(u32 \<Rightarrow> u8 list) \<Rightarrow> u8 \<Rightarrow> u8 list \<Rightarrow> (nat \<Rightarrow> u32) \<Rightarrow> Screen \<Rightarrow> Screen" where
  "printf str_at beyond str args s = fold screen_print_with_len (vprintf str_at beyond args 0 str) s"

section \<open>Decimal text\<close>

text \<open>The reference: the digits of a number, most significant first.\<close>

fun decimal :: "nat \<Rightarrow> u8 list" where
  "decimal n = (if n < 10 then [0x30 + of_nat n] else decimal (n div 10) @ [0x30 + of_nat (n mod 10)])"

declare decimal.simps [simp del]

definition digits_value :: "u8 list \<Rightarrow> nat" where
  "digits_value ds = foldl (\<lambda>a d. 10 * a + (unat d - 0x30)) 0 ds"

definition digit :: "u8 \<Rightarrow> bool" where
  "digit c \<longleftrightarrow> 0x30 \<le> c \<and> c \<le> 0x39"

lemma unat_digit: "d < 10 \<Longrightarrow> unat ((0x30 :: u8) + of_nat d) = 0x30 + d"
  by (simp add: unat_word_ariths unat_of_nat take_bit_nat_eq_self)

lemma decimal_value: "digits_value (decimal n) = n"
  by (induction n rule: decimal.induct) (subst decimal.simps, auto simp: digits_value_def unat_digit)

lemma digit_of: "d < 10 \<Longrightarrow> digit (0x30 + of_nat d)"
  using unat_digit [of d] by (simp add: digit_def word_le_nat_alt)

lemma decimal_digits: "c \<in> set (decimal n) \<Longrightarrow> digit c"
  by (induction n rule: decimal.induct) (subst (asm) decimal.simps, auto simp: digit_of split: if_splits)

lemma decimal_nonempty [simp]: "decimal n \<noteq> []"
  by (subst decimal.simps) simp

lemma decimal_hd: "0 < n \<Longrightarrow> hd (decimal n) \<noteq> 0x30"
proof (induction n rule: decimal.induct)
  case (1 n)
  show ?case
  proof (cases "n < 10")
    case True
    have "unat ((0x30 :: u8) + of_nat n) \<noteq> unat (0x30 :: u8)" using unat_digit [OF True] 1(2) by simp
    then have "(0x30 :: u8) + of_nat n \<noteq> 0x30" by metis
    then show ?thesis using True by (subst decimal.simps) simp
  next
    case False
    then show ?thesis using 1 by (subst decimal.simps) simp
  qed
qed

lemma decimal_length: "n < 10 ^ k \<Longrightarrow> 0 < k \<Longrightarrow> length (decimal n) \<le> k"
proof (induction k arbitrary: n)
  case (Suc k)
  show ?case
  proof (cases "n < 10")
    case False
    then have "0 < k" using Suc.prems by (cases k) auto
    then have "length (decimal (n div 10)) \<le> k" using Suc.prems by (intro Suc.IH) auto
    then show ?thesis using False by (subst decimal.simps) simp
  qed (subst decimal.simps, simp)
qed simp

lemma sdiv_nat: "int n sdiv 10 = int (n div 10)" "int n smod 10 = int (n mod 10)"
  by (auto simp: signed_divide_int_def signed_modulo_int_def sgn_if zdiv_int zmod_int
      minus_div_mult_eq_mod)

lemma digit_int: "(of_int (0x30 + int d) :: u8) = 0x30 + of_nat d"
  by simp

lemma sdigits_loop_spec:
  "0 < n \<Longrightarrow> length (decimal n) \<le> aux \<Longrightarrow> aux < length b \<Longrightarrow>
   sdigits_loop (int n) b aux =
     (take (aux + 1 - length (decimal n)) b @ decimal n @ drop (aux + 1) b, aux - length (decimal n))"
proof (induction n arbitrary: b aux rule: decimal.induct)
  case (1 n)
  let ?d = "0x30 + of_nat (n mod 10) :: u8"
  have step: "sdigits_loop (int n) b aux = sdigits_loop (int (n div 10)) (b[aux := ?d]) (aux - 1)"
    using 1(2) by (simp add: sdigits_loop.simps [of "int n"] sdiv_nat)
  show ?case
  proof (cases "n < 10")
    case True
    then have "decimal n = [?d]" by (subst decimal.simps) simp
    moreover have "sdigits_loop (int n) b aux = (b[aux := ?d], aux - 1)"
      using step True by (simp add: sdigits_loop.simps [of 0])
    ultimately show ?thesis using 1(4) by (simp add: upd_conv_take_nth_drop)
  next
    case False
    let ?D = "decimal (n div 10)"
    have dec: "decimal n = ?D @ [?d]" using False by (subst decimal.simps) simp
    have len: "length ?D \<le> aux - 1" "1 \<le> aux" "0 < length ?D" using 1(3) dec by auto
    have "sdigits_loop (int (n div 10)) (b[aux := ?d]) (aux - 1) =
      (take (aux - 1 + 1 - length ?D) (b[aux := ?d]) @ ?D @ drop (aux - 1 + 1) (b[aux := ?d]), aux - 1 - length ?D)"
      using 1(1) [OF False, of "aux - 1" "b[aux := ?d]"] False len 1(4) by simp
    moreover have "drop (aux - 1 + 1) (b[aux := ?d]) = ?d # drop (aux + 1) b"
      using len(2) 1(4) by (simp add: drop_update_swap upd_conv_take_nth_drop)
    moreover have "take (aux - 1 + 1 - length ?D) (b[aux := ?d]) = take (aux + 1 - length (decimal n)) b"
      using len dec by (simp add: take_update_swap list_update_beyond)
    ultimately show ?thesis using step dec len by simp
  qed
qed

lemma digits_loop_eq: "unat val = n \<Longrightarrow> digits_loop val b aux = sdigits_loop (int n) b aux"
proof (induction val b aux arbitrary: n rule: digits_loop.induct)
  case (1 val b aux)
  show ?case
  proof (cases "val = 0")
    case False
    then have n: "n \<noteq> 0" using 1(2) by (metis unsigned_eq_0_iff)
    have "n mod 10 < 2 ^ 8" by (rule less_le_trans [of _ 10]) simp_all
    then have digit: "(of_nat (n mod 10) :: u8) = ucast (val mod 10)"
      using 1(2) by (intro word_eq_unatI) (simp add: unat_of_nat unsigned_ucast_eq unat_mod take_bit_nat_eq_self)
    have "digits_loop val b aux = sdigits_loop (int (n div 10)) (b[aux := 0x30 + ucast (val mod 10)]) (aux - 1)"
      using 1(1) [OF False, of "n div 10"] False 1(2) by (simp add: digits_loop.simps [of val] unat_div)
    then show ?thesis using n digit by (simp add: sdigits_loop.simps [of "int n"] sdiv_nat)
  qed (use 1(2) in \<open>simp add: digits_loop.simps sdigits_loop.simps\<close>)
qed

lemma copy_out_eq:
  assumes "to + n \<le> length buffer" "from + n \<le> length (b @ [beyond])"
  shows "copy_out to b beyond from n buffer =
    take to buffer @ take n (drop from (b @ [beyond])) @ drop (to + n) buffer"
  using assms
proof (induction n)
  case (Suc n)
  let ?c = "b @ [beyond]"
  have "copy_out to b beyond from (Suc n) buffer =
      (copy_out to b beyond from n buffer)[to + n := ?c ! (from + n)]"
    by (simp add: copy_out_def)
  also have "copy_out to b beyond from n buffer = take to buffer @ take n (drop from ?c) @ drop (to + n) buffer"
    using Suc by simp
  also have "drop (to + n) buffer = buffer ! (to + n) # drop (to + Suc n) buffer"
    using Suc.prems(1) by (simp add: Cons_nth_drop_Suc)
  also have "(take to buffer @ take n (drop from ?c) @ buffer ! (to + n) # drop (to + Suc n) buffer)[to + n := ?c ! (from + n)] =
      take to buffer @ take n (drop from ?c) @ ?c ! (from + n) # drop (to + Suc n) buffer"
    using Suc.prems by (simp add: list_update_append)
  also have "take n (drop from ?c) @ ?c ! (from + n) # drop (to + Suc n) buffer =
      take (Suc n) (drop from ?c) @ drop (to + Suc n) buffer"
    using Suc.prems(2) take_Suc_conv_app_nth [of n "drop from ?c"] by (simp only: nth_drop length_drop) simp
  finally show ?case .
qed (simp add: copy_out_def)

lemma decimal_32: "length (decimal (unat (w :: u32))) \<le> 10"
proof -
  have "unat w < 10 ^ 10" using unat_lt32 [of w] by (simp del: unat_lt32)
  then show ?thesis by (rule decimal_length) simp
qed

lemma decimal_nonzero: "c \<in> set (decimal n) \<Longrightarrow> c \<noteq> 0"
  using decimal_digits [of c n] by (auto simp: digit_def)

lemma c_string_app: "(\<And>c. c \<in> set xs \<Longrightarrow> c \<noteq> 0) \<Longrightarrow> c_string (xs @ ys) = xs @ c_string ys"
  by (simp add: c_string_def takeWhile_append2)

lemma c_string_decimal [simp]: "c_string (decimal n @ ys) = decimal n @ c_string ys"
  by (rule c_string_app) (rule decimal_nonzero)

lemma c_string_zeros [simp]: "c_string (replicate n 0) = []"
  by (cases n) (simp_all add: c_string_def)

lemma c_string_Cons: "c_string (c # xs) = (if c = 0 then [] else c # c_string xs)"
  by (simp add: c_string_def)

lemma c_string_Nil [simp]: "c_string [] = []"
  by (simp add: c_string_def)

lemma zeros_16: "replicate 16 (0 :: u8) = 0 # replicate 15 0"
  by (simp add: numeral_eq_Suc)

lemma drop_digits:
  assumes "length ds \<le> 15"
  shows "take (length ds) (drop (15 - length ds + 1) (take (16 - length ds) (replicate 16 0) @ ds @ xs)) = ds"
  using assms by (simp add: Suc_diff_le)

lemma u32_to_str_text:
  assumes "val \<noteq> 0"
  shows "u32_to_str val (replicate 16 0) =
    (length (decimal (unat val)), decimal (unat val) @ replicate (16 - length (decimal (unat val))) 0)"
proof -
  let ?d = "decimal (unat val)"
  have n: "0 < unat val" using assms by (simp add: unat_gt_0)
  have len: "length ?d \<le> 10" by (rule decimal_32)
  have "digits_loop val (replicate 16 0) 15 =
      (take (16 - length ?d) (replicate 16 0) @ ?d @ drop 16 (replicate 16 0), 15 - length ?d)"
    unfolding digits_loop_eq [OF refl] using sdigits_loop_spec [OF n, of 15 "replicate 16 0"] len by simp
  then have "u32_to_str val (replicate 16 0) = (length ?d, copy_out 0
      (take (16 - length ?d) (replicate 16 0) @ ?d) 0 (15 - length ?d + 1) (length ?d) (replicate 16 0))"
    using assms len by (simp add: u32_to_str_def Let_def)
  also have "copy_out 0 (take (16 - length ?d) (replicate 16 0) @ ?d) 0 (15 - length ?d + 1) (length ?d) (replicate 16 0) =
      ?d @ replicate (16 - length ?d) 0"
    using len drop_digits [of ?d "[0]"] by (subst copy_out_eq) simp_all
  finally show ?thesis .
qed

lemma print_unsigned_text: "print_decimal_unsigned val = [decimal (unat val)]"
proof (cases "val = 0")
  case True
  then show ?thesis
    by (simp add: print_decimal_unsigned_def u32_to_str_def decimal.simps [of 0] zeros_16 c_string_Cons)
next
  case False
  then show ?thesis
    by (simp add: print_decimal_unsigned_def u32_to_str_text)
qed


text \<open>The signed variant copies one byte too many when it has written a minus sign.\<close>

lemma sint_range: "- 2147483648 \<le> sint (w :: u32)" "sint (w :: u32) < 2147483648"
  using sint_ge [of w] sint_lt [of w] by simp_all

lemma sint_neg:
  assumes "sint (w :: u32) < 0" "w \<noteq> 0x80000000"
  shows "sint (- w) = - sint w"
proof -
  have "sint w \<noteq> - 2147483648"
  proof
    assume "sint w = - 2147483648"
    then have "sint w = sint (0x80000000 :: u32)" by simp
    then have "w = 0x80000000" by (rule signed_word_eqI)
    then show False using assms(2) by simp
  qed
  then have r: "- 2147483648 \<le> - sint w" "- sint w < 2147483648" using sint_range [of w] assms(1) by linarith+
  have "- w = of_int (- sint w)" by simp
  then have "sint (- w) = sint (of_int (- sint w) :: u32)" by simp
  also have "\<dots> = - sint w" using r by (simp only: signed_of_int) (simp add: signed_take_bit_int_eq_self)
  finally show ?thesis .
qed

lemma decimal_31: "n < 2147483648 \<Longrightarrow> length (decimal n) \<le> 10"
  by (rule decimal_length) simp_all

lemma s32_to_str_text:
  assumes "val \<noteq> 0" "val \<noteq> 0x80000000"
  shows "s32_to_str beyond val (replicate 16 0) =
    (let ds = decimal (nat \<bar>sint val\<bar>) in
     if sint val < 0 then (length ds + 1, 0x2D # ds @ [beyond] @ replicate (14 - length ds) 0)
     else (length ds, ds @ replicate (16 - length ds) 0))"
proof -
  let ?n = "nat \<bar>sint val\<bar>" and ?d = "decimal (nat \<bar>sint val\<bar>)"
  have "sint val \<noteq> 0"
  proof
    assume "sint val = 0"
    then have "sint val = sint (0 :: u32)" by simp
    then have "val = 0" by (rule signed_word_eqI)
    then show False using assms(1) by simp
  qed
  then have n: "0 < ?n" by simp
  have len: "length ?d \<le> 10" using sint_range [of val] assms sint_neg [of val] sint_range [of "- val"]
    by (intro decimal_31) linarith
  have loop: "sdigits_loop (int ?n) (replicate 16 0) 15 =
      (take (16 - length ?d) (replicate 16 0) @ ?d @ drop 16 (replicate 16 0), 15 - length ?d)"
    using sdigits_loop_spec [OF n, of 15 "replicate 16 0"] len by simp
  show ?thesis
  proof (cases "sint val < 0")
    case True
    have i: "int ?n = sint (- val)" using True sint_neg [OF True assms(2)] by simp
    have "s32_to_str beyond val (replicate 16 0) = (length ?d + 1, copy_out 1
      (take (16 - length ?d) (replicate 16 0) @ ?d) beyond (15 - length ?d + 1) (length ?d + 1) ((replicate 16 0)[0 := 0x2D]))"
      using assms(1) True loop len unfolding i by (simp add: s32_to_str_def Let_def)
    also have "copy_out 1 (take (16 - length ?d) (replicate 16 0) @ ?d) beyond (15 - length ?d + 1) (length ?d + 1) ((replicate 16 0)[0 := 0x2D]) =
        0x2D # ?d @ [beyond] @ replicate (14 - length ?d) 0"
      using len by (subst copy_out_eq) (simp_all add: zeros_16 Suc_diff_le)
    finally show ?thesis using True by (simp add: Let_def)
  next
    case False
    have i: "int ?n = sint val" using False by simp
    have "s32_to_str beyond val (replicate 16 0) = (length ?d, copy_out 0
      (take (16 - length ?d) (replicate 16 0) @ ?d) beyond (15 - length ?d + 1) (length ?d) (replicate 16 0))"
      using assms(1) False loop len unfolding i by (simp add: s32_to_str_def Let_def)
    also have "copy_out 0 (take (16 - length ?d) (replicate 16 0) @ ?d) beyond (15 - length ?d + 1) (length ?d) (replicate 16 0) =
        ?d @ replicate (16 - length ?d) 0"
      using len drop_digits [of ?d "[beyond]"] by (subst copy_out_eq) simp_all
    finally show ?thesis using False by (simp add: Let_def)
  qed
qed

section \<open>Hexadecimal text\<close>

definition hex_digit :: "nat \<Rightarrow> u8" where
  "hex_digit n = (if 9 < n then of_nat n + 0x57 else of_nat n + 0x30)"

definition hex_text :: "u32 \<Rightarrow> u8 list" where
  "hex_text w = map (\<lambda>i. hex_digit (unat w div 16 ^ (7 - i) mod 16)) [0..<8]"

definition hex_value :: "u8 \<Rightarrow> nat" where
  "hex_value c = (if 0x61 \<le> c then unat c - 0x57 else unat c - 0x30)"

lemma hex_digit_value: "n < 16 \<Longrightarrow> hex_value (hex_digit n) = n \<and> hex_digit n \<noteq> 0"
proof -
  have "\<forall>n \<in> set [0..<16]. hex_value (hex_digit n) = n \<and> hex_digit n \<noteq> 0" by code_simp
  then show "n < 16 \<Longrightarrow> hex_value (hex_digit n) = n \<and> hex_digit n \<noteq> 0" by simp
qed

lemma nibble:
  assumes "i \<le> 7"
  shows "unat (drop_bit 28 ((push_bit (4 * i) (v :: u32)) AND 0xf0000000)) = unat v div 16 ^ (7 - i) mod 16"
proof -
  have "drop_bit 28 ((push_bit (4 * i) v) AND 0xf0000000) = drop_bit 28 (push_bit (4 * i) v) AND 15"
    by simp
  also have "\<dots> = take_bit 4 (drop_bit 28 (push_bit (4 * i) v))"
    by (simp add: take_bit_eq_mask mask_eq_exp_minus_1)
  also have "\<dots> = take_bit 4 (drop_bit (28 - 4 * i) v)"
    using assms by (intro bit_word_eqI) (auto simp: bit_simps dest: bit_imp_le_length)
  finally have "drop_bit 28 ((push_bit (4 * i) v) AND 0xf0000000) = take_bit 4 (drop_bit (28 - 4 * i) v)" .
  then have "unat (drop_bit 28 ((push_bit (4 * i) v) AND 0xf0000000)) = unat v div 2 ^ (28 - 4 * i) mod 16"
    by (simp only: unsigned_take_bit_eq unsigned_drop_bit_eq) (simp add: take_bit_eq_mod drop_bit_eq_div)
  moreover have "(2 :: nat) ^ (28 - 4 * i) = 16 ^ (7 - i)"
    using power_mult [of "2 :: nat" 4 "7 - i"] by (simp add: diff_mult_distrib2)
  ultimately show ?thesis by simp
qed

lemma hex_char:
  "(if 9 < f then ucast f + 0x57 else ucast f + 0x30) = hex_digit (unat f)" if "unat (f :: u32) < 16"
proof -
  have "(ucast f :: u8) = of_nat (unat f)"
    using that by (intro word_eq_unatI) (simp add: unat_of_nat unsigned_ucast_eq)
  then show ?thesis by (simp add: hex_digit_def word_less_nat_alt)
qed

lemma hex_loop_nth:
  "i + n \<le> 8 \<Longrightarrow> length buf = 16 \<Longrightarrow>
   length (hex_loop n 32 0xf0000000 i (push_bit (4 * i) v) buf) = 16 \<and>
   (\<forall>j < 16. hex_loop n 32 0xf0000000 i (push_bit (4 * i) v) buf ! j =
     (if i \<le> j \<and> j < i + n then hex_digit (unat v div 16 ^ (7 - j) mod 16) else buf ! j))"
proof (induction n arbitrary: i buf)
  case (Suc n)
  let ?f = "drop_bit 28 ((push_bit (4 * i) v) AND 0xf0000000)"
  have f: "unat ?f = unat v div 16 ^ (7 - i) mod 16" using nibble [of i v] Suc.prems by simp
  have c: "(if 9 < ?f then ucast ?f + 0x57 else ucast ?f + 0x30) = hex_digit (unat v div 16 ^ (7 - i) mod 16)"
    using hex_char [of ?f] f by simp
  have k: "(32 :: nat) - 4 = 28" by simp
  have p: "push_bit 4 (push_bit (4 * i) v) = push_bit (4 * (i + 1)) v" by (simp add: push_bit_push_bit)
  let ?b = "buf[i := hex_digit (unat v div 16 ^ (7 - i) mod 16)]"
  have step: "hex_loop (Suc n) 32 0xf0000000 i (push_bit (4 * i) v) buf =
      hex_loop n 32 0xf0000000 (i + 1) (push_bit (4 * (i + 1)) v) ?b"
    using c p k by (simp only: hex_loop.simps Let_def)
  have IH: "length (hex_loop n 32 0xf0000000 (i + 1) (push_bit (4 * (i + 1)) v) ?b) = 16"
    "\<forall>j < 16. hex_loop n 32 0xf0000000 (i + 1) (push_bit (4 * (i + 1)) v) ?b ! j =
     (if i + 1 \<le> j \<and> j < i + 1 + n then hex_digit (unat v div 16 ^ (7 - j) mod 16) else ?b ! j)"
    using Suc.IH [of "i + 1" ?b] Suc.prems by simp_all
  show ?case
    unfolding step
  proof (intro conjI allI impI IH(1))
    fix j :: nat assume j: "j < 16"
    show "hex_loop n 32 0xf0000000 (i + 1) (push_bit (4 * (i + 1)) v) ?b ! j =
      (if i \<le> j \<and> j < i + Suc n then hex_digit (unat v div 16 ^ (7 - j) mod 16) else buf ! j)"
      using IH(2) [rule_format, OF j] Suc.prems by (cases "j = i") auto
  qed
qed auto

lemma hex_text_result:
  "u32_to_str_base16 v 32 (replicate 16 0) = (8, hex_text v @ replicate 8 0)"
proof -
  let ?r = "hex_loop 8 32 0xf0000000 0 (push_bit (4 * 0) v) (replicate 16 0)"
  have r: "length ?r = 16" "\<forall>j < 16. ?r ! j = (if j < 8 then hex_digit (unat v div 16 ^ (7 - j) mod 16) else 0)"
    using hex_loop_nth [of 0 8 "replicate 16 0" v] by auto
  have "?r = hex_text v @ replicate 8 0"
    by (rule nth_equalityI) (use r in \<open>auto simp: hex_text_def nth_append\<close>)
  then show ?thesis by (simp add: u32_to_str_base16_def)
qed

lemma print_hex_text: "print_hexadecimal v = [hex_text v]"
proof -
  have "c \<noteq> 0" if "c \<in> set (hex_text v)" for c
    using that hex_digit_value by (auto simp: hex_text_def)
  then show ?thesis using c_string_app [of "hex_text v"] by (simp add: print_hexadecimal_def hex_text_result)
qed

lemma hex_prefix:
  assumes "n < 16 ^ 8"
  shows "m \<le> 8 \<Longrightarrow> foldl (\<lambda>a c. 16 * a + hex_value c) 0
    (map (\<lambda>i. hex_digit (n div 16 ^ (7 - i) mod 16)) [0..<m]) = n div 16 ^ (8 - m)"
proof (induction m)
  case (Suc m)
  have v: "hex_value (hex_digit (n div 16 ^ (7 - m) mod 16)) = n div 16 ^ (7 - m) mod 16"
    using hex_digit_value by simp
  have "8 - m = Suc (7 - m)" using Suc.prems by simp
  then have "(16 :: nat) ^ (8 - m) = 16 ^ (7 - m) * 16" by (simp only: power_Suc mult.commute)
  then have "n div 16 ^ (8 - m) = n div 16 ^ (7 - m) div 16" by (simp add: div_mult2_eq)
  then show ?case using Suc v by simp
qed (use assms in simp)

lemma hex_text_value: "foldl (\<lambda>a c. 16 * a + hex_value c) 0 (hex_text val) = unat val"
proof -
  have "unat val < 16 ^ 8" using unat_lt32 [of val] by (simp del: unat_lt32)
  from hex_prefix [OF this, of 8] show ?thesis by (simp add: hex_text_def)
qed

section \<open>Properties of formatted output\<close>

text \<open>
  C19: \<open>%u\<close> prints the decimal numeral of the value: digits only, no leading zero, at
  most ten of them, and reading them back gives the value.
\<close>

theorem print_unsigned_decimal:
  "\<exists>ds. print_decimal_unsigned val = [ds] \<and> list_all digit ds \<and>
     digits_value ds = unat val \<and> length ds \<le> 10 \<and> (if val = 0 then ds = [0x30] else hd ds \<noteq> 0x30)"
proof (intro exI conjI)
  show "list_all digit (decimal (unat val))" using decimal_digits by (simp add: list_all_iff)
  show "if val = 0 then decimal (unat val) = [0x30] else hd (decimal (unat val)) \<noteq> 0x30"
    using decimal_hd [of "unat val"] unsigned_eq_0_iff [of val] by (auto simp: decimal.simps [of 0])
qed (rule print_unsigned_text decimal_value decimal_32)+

text \<open>
  \<open>%x\<close> prints exactly eight lower-case hexadecimal digits, most significant
  first, and each is the digit of its four bits of the value.
\<close>

theorem print_hex_digits:
  "print_hexadecimal val = [hex_text val] \<and> length (hex_text val) = 8 \<and>
   foldl (\<lambda>a c. 16 * a + hex_value c) 0 (hex_text val) = unat val"
  using hex_text_value print_hex_text by (simp add: hex_text_def)



datatype directive = Lit u8 | Unsigned | Signed | Hex | Str | Percent

fun format_of :: "directive \<Rightarrow> u8 list" where
  "format_of (Lit c) = [c]"
| "format_of Unsigned = [0x25, 0x75]"
| "format_of Signed = [0x25, 0x64]"
| "format_of Hex = [0x25, 0x78]"
| "format_of Str = [0x25, 0x73]"
| "format_of Percent = [0x25, 0x25]"

fun rendered :: "(u32 \<Rightarrow> u8 list) \<Rightarrow> u8 \<Rightarrow> (nat \<Rightarrow> u32) \<Rightarrow> nat \<Rightarrow> directive list \<Rightarrow> u8 list" where
  "rendered str_at beyond args ap [] = []"
| "rendered str_at beyond args ap (Lit c # ds) = c # rendered str_at beyond args ap ds"
| "rendered str_at beyond args ap (Percent # ds) = 0x25 # rendered str_at beyond args ap ds"
| "rendered str_at beyond args ap (Unsigned # ds) =
     decimal (unat (args ap)) @ rendered str_at beyond args (ap + 1) ds"
| "rendered str_at beyond args ap (Signed # ds) =
     concat (print_decimal_signed beyond (args ap)) @ rendered str_at beyond args (ap + 1) ds"
| "rendered str_at beyond args ap (Hex # ds) =
     hex_text (args ap) @ rendered str_at beyond args (ap + 1) ds"
| "rendered str_at beyond args ap (Str # ds) =
     c_string (str_at (args ap)) @ rendered str_at beyond args (ap + 1) ds"

definition plain :: "directive \<Rightarrow> bool" where
  "plain d \<longleftrightarrow> (\<forall>c. d = Lit c \<longrightarrow> c \<noteq> 0 \<and> c \<noteq> 0x25)"

lemma concat_print_string: "concat (print_string s) = c_string s"
  by (simp add: print_string_def)

text \<open>
  C21: A format string is printed directive by directive: literal characters as they
  are, each directive as the text of the next argument, and \<open>%%\<close> as a percent sign
  that takes no argument.
\<close>

theorem vprintf_renders:
  assumes "list_all plain ds"
  shows "concat (vprintf str_at beyond args ap (concat (map format_of ds))) = rendered str_at beyond args ap ds"
  using assms
  by (induction str_at beyond args ap ds rule: rendered.induct)
    (simp_all add: plain_def print_unsigned_text print_hex_text concat_print_string)

lemma vprintf_renders_witness:
  "concat (vprintf (\<lambda>p. [0x68, 0x69, 0]) 0 (\<lambda>i. of_nat (i + 7)) 0 [0x25, 0x75, 0x3A, 0x25, 0x73, 0x25, 0x25]) =
     [0x37, 0x3A, 0x68, 0x69, 0x25]"
  using vprintf_renders [of "[Unsigned, Lit 0x3A, Str, Percent]" "\<lambda>p. [0x68, 0x69, 0]" 0 "\<lambda>i. of_nat (i + 7)" 0]
  by (simp add: plain_def decimal.simps c_string_def)

text \<open>
  The least integer is printed as a minus sign and characters that are not digits:
  its negation wraps and the remainders are negative.
\<close>

theorem print_signed_least:
  "print_decimal_signed 0 0x80000000 = [[0x2D, 0x2E, 0x2F, 0x2C, 0x29, 0x2C, 0x28, 0x2D, 0x2A, 0x2C, 0x28]]"
  by (simp add: print_decimal_signed_def s32_to_str_def sdigits_loop.simps) code_simp
end
