(* ===== verification/Interrupt.thy ===== *)
theory Interrupt
  imports Prelude
begin

text \<open>
  The interrupt descriptor table, the interrupt controllers and the dispatch of
  interrupts to handlers: src/src/interrupt.c.

  The assembly stubs the descriptors point to are not C code: \<open>stub_addr\<close> gives
  their addresses.  A handler may change the registers of the interrupted code and
  the rest of the kernel state \<open>'s\<close>; a function pointer that is null is \<open>None\<close>.
\<close>

section \<open>The table\<close>

record IDT_Descriptor =
  offset_low :: u16
  selector :: u16
  always0 :: u8
  flags :: u8
  offset_high :: u16

record IDT =
  descriptors :: "IDT_Descriptor list"
  limit :: u16
  base :: u32

definition IDT_BASE :: u32 where "IDT_BASE = 0"
definition IDT_SIZE :: nat where "IDT_SIZE = 256"
definition IDT_INTERRUPT_GATE_FLAGS :: u8 where "IDT_INTERRUPT_GATE_FLAGS = 0b10001110"

definition idt_set_descriptor :: "u32 \<Rightarrow> u16 \<Rightarrow> u8 \<Rightarrow> IDT_Descriptor" where
  "idt_set_descriptor handler sel fl =
    \<lparr>offset_low = ucast (handler AND 0xFFFF), selector = 0x08, always0 = 0,
     flags = IDT_INTERRUPT_GATE_FLAGS OR 0x60, offset_high = ucast (drop_bit 16 handler)\<rparr>"

text \<open>The stubs of asm/interrupt.asm.\<close>

datatype stub = interrupt_isr nat | interrupt_irq nat

text \<open>The calls of \<open>interrupt_init\<close> in the order of the code: the index written and the stub.\<close>

definition idt_calls :: "(nat \<times> stub) list" where
  "idt_calls =
     map (\<lambda>i. (i, interrupt_isr i)) [0..<9] @ [(8, interrupt_isr 8)] @
     map (\<lambda>i. (i, interrupt_isr i)) [10..<19] @ [(18, interrupt_isr 18)] @
     map (\<lambda>i. (i, interrupt_isr i)) [20..<29] @ [(28, interrupt_isr 28)] @
     map (\<lambda>i. (i, interrupt_isr i)) [30..<32] @
     map (\<lambda>i. (32 + i, interrupt_irq i)) [0..<15] @
     map (\<lambda>i. (i, interrupt_isr i)) [47..<256]"

definition set_descriptors :: "(stub \<Rightarrow> u32) \<Rightarrow> (nat \<times> stub) list \<Rightarrow> IDT_Descriptor list \<Rightarrow> IDT_Descriptor list" where
  "set_descriptors stub_addr calls ds =
    fold (\<lambda>(i, s) ds. ds[i := idt_set_descriptor (stub_addr s) 0x08 IDT_INTERRUPT_GATE_FLAGS]) calls ds"

section \<open>The interrupt controllers\<close>

type_synonym port_log = "(u16 \<times> u8) list"

definition PIC1 :: u16 where "PIC1 = 0x20"
definition PIC2 :: u16 where "PIC2 = 0xA0"
definition PIC_EOI :: u8 where "PIC_EOI = 0x20"
definition PIC1_VECTOR_OFFSET :: u8 where "PIC1_VECTOR_OFFSET = 0x20"
definition PIC2_VECTOR_OFFSET :: u8 where "PIC2_VECTOR_OFFSET = 0x28"

definition pic_remap :: port_log where
  "pic_remap =
    [(PIC1, 0x10 OR 0x01), (PIC2, 0x10 OR 0x01), (PIC1 + 1, PIC1_VECTOR_OFFSET), (PIC2 + 1, PIC2_VECTOR_OFFSET),
     (PIC1 + 1, 0x4), (PIC2 + 1, 0x2), (PIC1 + 1, 0x01), (PIC2 + 1, 0x01), (PIC1 + 1, 0x0), (PIC2 + 1, 0x0)]"

section \<open>State and operations\<close>

record Interrupt_Handler_Args =
  edi :: u32  esi :: u32  ebp :: u32  esp :: u32  ebx :: u32  edx :: u32  ecx :: u32  eax :: u32
  int_no :: u32  err_code :: u32
  eip :: u32  cs :: u32  eflags :: u32  useresp :: u32  ss :: u32

type_synonym 's handler = "Interrupt_Handler_Args \<Rightarrow> 's \<Rightarrow> Interrupt_Handler_Args \<times> 's"

record 's Interrupts =
  idt :: IDT
  idtr :: u32
  enabled :: bool
  pic_ports :: port_log
  interrupt_handlers :: "'s handler option list"

definition interrupt_init :: "(stub \<Rightarrow> u32) \<Rightarrow> 's Interrupts \<Rightarrow> 's Interrupts" where
  "interrupt_init stub_addr s =
    (let s = s\<lparr>pic_ports := pic_ports s @ pic_remap\<rparr>;
         ds = set_descriptors stub_addr idt_calls (descriptors (idt s));
         idt_descriptors_len = 8 * IDT_SIZE in
     s\<lparr>idt := \<lparr>descriptors = ds, limit = of_nat (idt_descriptors_len - 1), base = IDT_BASE\<rparr>,
       idtr := IDT_BASE + of_nat idt_descriptors_len, enabled := True\<rparr>)"

definition interrupt_register_handler :: "'s handler \<Rightarrow> u32 \<Rightarrow> 's Interrupts \<Rightarrow> 's Interrupts res" where
  "interrupt_register_handler h n s =
    (if unat n < length (interrupt_handlers s)
     then Inr (s\<lparr>interrupt_handlers := (interrupt_handlers s)[unat n := Some h]\<rparr>)
     else Inl Out_of_bounds)"

text \<open>A call of a handler, or the line that is printed when there is none.\<close>

datatype 's outcome = Handled Interrupt_Handler_Args 's | Unhandled string u32

definition dispatch :: "string \<Rightarrow> 's Interrupts \<Rightarrow> Interrupt_Handler_Args \<Rightarrow> 's \<Rightarrow> 's outcome res" where
  "dispatch name s args k =
    (if unat (int_no args) < length (interrupt_handlers s)
     then (case interrupt_handlers s ! unat (int_no args) of
             Some h \<Rightarrow> Inr (let (args', k') = h args k in Handled args' k')
           | None \<Rightarrow> Inr (Unhandled name (int_no args)))
     else Inl Out_of_bounds)"

definition isr_handler :: "'s Interrupts \<Rightarrow> Interrupt_Handler_Args \<Rightarrow> 's \<Rightarrow> 's outcome res" where
  "isr_handler s args k = dispatch ''ISR Handler called for unhandled INT number: ISR'' s args k"

text \<open>The controllers are told before the handler runs, the slave first.\<close>

definition irq_handler ::
  "'s Interrupts \<Rightarrow> Interrupt_Handler_Args \<Rightarrow> 's \<Rightarrow> 's Interrupts \<times> 's outcome res" where
  "irq_handler s args k =
    (let s = (if ucast PIC2_VECTOR_OFFSET \<le> int_no args
              then s\<lparr>pic_ports := pic_ports s @ [(PIC2, PIC_EOI)]\<rparr> else s);
         s = s\<lparr>pic_ports := pic_ports s @ [(PIC1, PIC_EOI)]\<rparr> in
     (s, dispatch ''IRQ Handler called for unhandled INT number: IRQ'' s args k))"

section \<open>Reading the table\<close>

text \<open>What the processor reads from a descriptor: where the handler is, in which ring it may be raised.\<close>

definition gate_target :: "IDT_Descriptor \<Rightarrow> u32" where
  "gate_target d = push_bit 16 (ucast (offset_high d)) OR ucast (offset_low d)"

definition gate_present :: "IDT_Descriptor \<Rightarrow> bool" where
  "gate_present d \<longleftrightarrow> bit (flags d) 7"

definition gate_privilege :: "IDT_Descriptor \<Rightarrow> u8" where
  "gate_privilege d = drop_bit 5 (flags d) AND 3"

text \<open>The stub the vector \<open>i\<close> should enter.\<close>

definition vector_stub :: "nat \<Rightarrow> stub" where
  "vector_stub i = (if 32 \<le> i \<and> i < 47 then interrupt_irq (i - 32) else interrupt_isr i)"

lemma gate_target_set: "gate_target (idt_set_descriptor a sel fl) = a"
proof -
  have m: "(a AND 0xFFFF) = take_bit 16 a" by (simp add: take_bit_eq_mask mask_eq_exp_minus_1)
  show ?thesis
    unfolding gate_target_def idt_set_descriptor_def
    by (intro bit_word_eqI) (auto simp: m bit_simps)
qed

lemma gate_flags_set:
  "gate_present (idt_set_descriptor a sel fl)" "gate_privilege (idt_set_descriptor a sel fl) = 3"
  by (simp_all add: gate_present_def gate_privilege_def idt_set_descriptor_def IDT_INTERRUPT_GATE_FLAGS_def bit_numeral_rec)

lemma selector_set: "selector (idt_set_descriptor a sel fl) = 0x08"
  by (simp add: idt_set_descriptor_def)

lemma set_descriptors_nth:
  assumes "\<forall>(i, s) \<in> set calls. s = vector_stub i" "i < length ds"
  shows "set_descriptors stub_addr calls ds ! i =
    (if i \<in> fst ` set calls
     then idt_set_descriptor (stub_addr (vector_stub i)) 0x08 IDT_INTERRUPT_GATE_FLAGS else ds ! i)"
  using assms
proof (induction calls arbitrary: ds)
  case (Cons c calls)
  obtain j s where c: "c = (j, s)" by (cases c)
  let ?d = "idt_set_descriptor (stub_addr s) 0x08 IDT_INTERRUPT_GATE_FLAGS"
  have "set_descriptors stub_addr (c # calls) ds = set_descriptors stub_addr calls (ds[j := ?d])"
    by (simp add: set_descriptors_def c)
  moreover have "s = vector_stub j" using Cons.prems(1) c by simp
  ultimately show ?case using Cons.IH [of "ds[j := ?d]"] Cons.prems c
    by (cases "i = j") auto
qed (simp add: set_descriptors_def)

lemma set_descriptors_length [simp]: "length (set_descriptors stub_addr calls ds) = length ds"
  by (induction calls arbitrary: ds) (auto simp: set_descriptors_def)

lemma idt_calls_stubs: "\<forall>(i, s) \<in> set idt_calls. s = vector_stub i"
  by (auto simp: idt_calls_def vector_stub_def)

lemma idt_calls_indices: "fst ` set idt_calls = {..<256} - {9, 19, 29}"
proof -
  have "fst ` set idt_calls =
      {0..<9} \<union> {8} \<union> {10..<19} \<union> {18} \<union> {20..<29} \<union> {28} \<union> {30..<32} \<union> ((+) 32 ` {0..<15}) \<union> {47..<256}"
    unfolding idt_calls_def by (simp only: set_append set_map image_Un image_image set_upt) auto
  also have "\<dots> = {..<256} - {9, 19, 29}" unfolding image_add_atLeastLessThan by auto
  finally show ?thesis .
qed

section \<open>Properties\<close>

text \<open>
  C22: After \<open>interrupt_init\<close> every vector of the table except 9, 19 and 29 is a
  present interrupt gate, open to ring 3, whose offset is the address of that
  vector's stub; the descriptors 9, 19 and 29 are whatever memory held before, and
  the processor is given the limit and base of the whole table.
\<close>

theorem interrupt_init_gates:
  assumes "length (descriptors (idt s)) = 256" and "i < 256"
  shows "if i \<in> {9, 19, 29}
    then descriptors (idt (interrupt_init stub_addr s)) ! i = descriptors (idt s) ! i
    else (let d = descriptors (idt (interrupt_init stub_addr s)) ! i in
      gate_target d = stub_addr (vector_stub i) \<and> gate_present d \<and> gate_privilege d = 3 \<and> selector d = 0x08)"
proof -
  have "descriptors (idt (interrupt_init stub_addr s)) ! i =
    (if i \<in> {9, 19, 29} then descriptors (idt s) ! i
     else idt_set_descriptor (stub_addr (vector_stub i)) 0x08 IDT_INTERRUPT_GATE_FLAGS)"
    using set_descriptors_nth [OF idt_calls_stubs, of i "descriptors (idt s)" stub_addr] assms
    by (simp add: interrupt_init_def Let_def idt_calls_indices)
  then show ?thesis
    by (simp add: gate_target_set gate_flags_set selector_set Let_def)
qed

definition sample_interrupts :: "u32 Interrupts" where
  "sample_interrupts = \<lparr>idt = \<lparr>descriptors = replicate 256 \<lparr>offset_low = 0, selector = 0, always0 = 0, flags = 0, offset_high = 0\<rparr>,
     limit = 0, base = 0\<rparr>, idtr = 0, enabled = False, pic_ports = [], interrupt_handlers = replicate 256 None\<rparr>"

lemma interrupt_init_gates_witness:
  "descriptors (idt (interrupt_init (\<lambda>s. 0x12345678) sample_interrupts)) ! 9 =
     \<lparr>offset_low = 0, selector = 0, always0 = 0, flags = 0, offset_high = 0\<rparr> \<and>
   gate_target (descriptors (idt (interrupt_init (\<lambda>s. 0x12345678) sample_interrupts)) ! 128) = 0x12345678"
  using interrupt_init_gates [of sample_interrupts 9 "\<lambda>s. 0x12345678"]
    interrupt_init_gates [of sample_interrupts 128 "\<lambda>s. 0x12345678"]
  by (simp add: sample_interrupts_def Let_def)



definition sample_args :: "u32 \<Rightarrow> Interrupt_Handler_Args" where
  "sample_args n = \<lparr>edi = 0, esi = 0, ebp = 0, esp = 0, ebx = 0, edx = 0, ecx = 0, eax = 0,
     int_no = n, err_code = 0, eip = 0, cs = 0, eflags = 0, useresp = 0, ss = 0\<rparr>"


end
