(* ===== verification/Keyboard.thy ===== *)
theory Keyboard
  imports Prelude
begin

text \<open>
  The keyboard driver: src/src/keyboard.c with the scan codes of
  keyboard_scancode_set_1.h.

  A receiver buffer is an object at the address its owner registered; the driver
  keeps those addresses until the next character is pressed and then fills every one
  of them.  What the two ports answer is an argument of the interrupt handler.
\<close>

section \<open>State\<close>

definition KEY_CHARACTER :: u32 where "KEY_CHARACTER = 0x1"
definition KEY_CONTROL :: u32 where "KEY_CONTROL = 0x2"
definition KEY_UNKNOWN :: u32 where "KEY_UNKNOWN = 0x4"
definition KEY_PRESS :: u32 where "KEY_PRESS = 0x8"
definition KEY_RELEASE :: u32 where "KEY_RELEASE = 0x10"
definition KEY_CODE_SHIFT :: u8 where "KEY_CODE_SHIFT = 1"
definition KEY_CODE_CTRL :: u8 where "KEY_CODE_CTRL = 1"
definition KEY_LOOKUP_TABLE_SIZE :: nat where "KEY_LOOKUP_TABLE_SIZE = 256"
definition KEYBOARD_EVENT_BUFFERS_MAX :: nat where "KEYBOARD_EVENT_BUFFERS_MAX = 64"

lemmas key_consts = KEY_CHARACTER_def KEY_CONTROL_def KEY_UNKNOWN_def KEY_PRESS_def KEY_RELEASE_def
  KEY_CODE_SHIFT_def KEY_CODE_CTRL_def

record Keyboard_Event_Receiver_Buffer =
  buffer :: "u8 list"
  buffer_capacity :: u32
  buffer_filled :: u32
  event_received :: u32

record Key_Information =
  key_code :: u8
  key_flags :: u32

record Keyboard_State =
  key_lookup_table :: "Key_Information list"
  keyboard_event_buffers_num :: u32
  keyboard_event_buffers :: "u32 list"
  shift_enabled :: s32

type_synonym kerbs = "u32 \<Rightarrow> Keyboard_Event_Receiver_Buffer"

section \<open>Operations\<close>

definition keyboard_register_event_buffer ::
  "u32 \<Rightarrow> Keyboard_State \<Rightarrow> kerbs \<Rightarrow> (Keyboard_State \<times> kerbs) res" where
  "keyboard_register_event_buffer kerb s m =
    (let m = m(kerb := (m kerb)\<lparr>event_received := 0, buffer_filled := 0\<rparr>);
         n = keyboard_event_buffers_num s in
     if unat n < length (keyboard_event_buffers s)
     then Inr (s\<lparr>keyboard_event_buffers := (keyboard_event_buffers s)[unat n := kerb],
                keyboard_event_buffers_num := n + 1\<rparr>, m)
     else Inl Out_of_bounds)"

definition get_key_character :: "Keyboard_State \<Rightarrow> u8 \<Rightarrow> u8" where
  "get_key_character s code =
    (if 0x41 \<le> code \<and> code \<le> 0x5A then (if shift_enabled s = 0 then code + 32 else code)
     else if code = 0x2D then (if shift_enabled s \<noteq> 0 then 0x5F else code)
     else code)"

fun deliver :: "u8 \<Rightarrow> u32 list \<Rightarrow> kerbs \<Rightarrow> kerbs res" where
  "deliver out [] m = Inr m"
| "deliver out (kerb # ks) m =
    (if buffer (m kerb) = [] then Inl Out_of_bounds
     else deliver out ks
       (m(kerb := (m kerb)\<lparr>buffer := (buffer (m kerb))[0 := out], event_received := 1, buffer_filled := 1\<rparr>)))"

text \<open>
  \<open>status\<close> is the first read of the status register and \<open>scan_code\<close> the read of the
  data port; the first result says whether the error line is printed.
\<close>

definition keyboard_interrupt_handler ::
  "u8 \<Rightarrow> u8 \<Rightarrow> Keyboard_State \<Rightarrow> kerbs \<Rightarrow> (bool \<times> Keyboard_State \<times> kerbs) res" where
  "keyboard_interrupt_handler status scan_code s m =
    (let complains = (status AND 0x01 = 0);
         ki = key_lookup_table s ! unat scan_code in
     if key_flags ki AND KEY_CHARACTER \<noteq> 0 then
       if key_flags ki AND KEY_PRESS \<noteq> 0 then
         rbind (deliver (get_key_character s (key_code ki))
                  (take (unat (keyboard_event_buffers_num s)) (keyboard_event_buffers s)) m)
           (\<lambda>m. Inr (complains, s\<lparr>keyboard_event_buffers_num := 0\<rparr>, m))
       else Inr (complains, s, m)
     else if key_flags ki AND KEY_CONTROL \<noteq> 0 then
       if key_flags ki AND KEY_PRESS \<noteq> 0 then
         Inr (complains, if key_code ki = KEY_CODE_SHIFT then s\<lparr>shift_enabled := 1\<rparr> else s, m)
       else if key_flags ki AND KEY_RELEASE \<noteq> 0 then
         Inr (complains, if key_code ki = KEY_CODE_SHIFT then s\<lparr>shift_enabled := 0\<rparr> else s, m)
       else Inr (complains, s, m)
     else Inr (complains, s, m))"

section \<open>The lookup table\<close>

text \<open>The letters with their press and release codes, in the order of the code.\<close>

definition letter_codes :: "(u8 \<times> u8 \<times> u8) list" where
  "letter_codes =
    [(0x41, 0x1E, 0x9E), (0x42, 0x30, 0xB0), (0x43, 0x2E, 0xAE), (0x44, 0x20, 0xA0), (0x45, 0x12, 0x92),
     (0x46, 0x21, 0xA1), (0x47, 0x22, 0xA2), (0x48, 0x23, 0xA3), (0x49, 0x17, 0x97), (0x4A, 0x24, 0xA4),
     (0x4B, 0x25, 0xA5), (0x4C, 0x26, 0xA6), (0x4D, 0x32, 0xB2), (0x4E, 0x31, 0xB1), (0x4F, 0x18, 0x98),
     (0x50, 0x19, 0x99), (0x51, 0x10, 0x90), (0x52, 0x13, 0x93), (0x53, 0x1F, 0x9F), (0x54, 0x14, 0x94),
     (0x55, 0x16, 0x96), (0x56, 0x2F, 0xAF), (0x58, 0x2D, 0xAD), (0x57, 0x11, 0x91), (0x59, 0x15, 0x95),
     (0x5A, 0x2C, 0xAC)]"

definition pressed :: "u8 \<Rightarrow> u8 \<Rightarrow> u8 \<times> Key_Information" where
  "pressed scan c = (scan, \<lparr>key_code = c, key_flags = KEY_CHARACTER OR KEY_PRESS\<rparr>)"

definition released :: "u8 \<Rightarrow> u8 \<Rightarrow> u8 \<times> Key_Information" where
  "released scan c = (scan, \<lparr>key_code = c, key_flags = KEY_CHARACTER OR KEY_RELEASE\<rparr>)"

definition control :: "u8 \<Rightarrow> u8 \<Rightarrow> u32 \<Rightarrow> u8 \<times> Key_Information" where
  "control scan c dir = (scan, \<lparr>key_code = c, key_flags = KEY_CONTROL OR dir\<rparr>)"

definition table_writes :: "(u8 \<times> Key_Information) list" where
  "table_writes =
     map (\<lambda>(c, p, r). pressed p c) letter_codes @
     [pressed 0x35 0x2F, pressed 0x0C 0x2D, pressed 0x34 0x2E] @
     map (\<lambda>(c, p, r). released r c) letter_codes @
     [released 0xB5 0x2F, released 0x8C 0x2E, released 0xB4 0x2D,
      pressed 0x1C 0x0A, released 0x9C 0x0A, pressed 0x39 0x20, released 0xB9 0x20,
      control 0x2A KEY_CODE_SHIFT KEY_PRESS, control 0xAA KEY_CODE_SHIFT KEY_RELEASE,
      control 0x36 KEY_CODE_SHIFT KEY_PRESS, control 0xB6 KEY_CODE_SHIFT KEY_RELEASE,
      control 0x1D KEY_CODE_CTRL KEY_PRESS, control 0x9D KEY_CODE_CTRL KEY_RELEASE]"

definition init_table :: "Key_Information list" where
  "init_table = fold (\<lambda>(scan, ki) t. t[unat scan := ki]) table_writes
     (replicate KEY_LOOKUP_TABLE_SIZE \<lparr>key_code = 0, key_flags = KEY_UNKNOWN\<rparr>)"

text \<open>The handler is registered for IRQ1 by the caller of this step; the rest of the state is cleared.\<close>

definition keyboard_init :: Keyboard_State where
  "keyboard_init = \<lparr>key_lookup_table = init_table, keyboard_event_buffers_num = 0,
     keyboard_event_buffers = replicate KEYBOARD_EVENT_BUFFERS_MAX 0, shift_enabled = 0\<rparr>"

section \<open>What a scan code means\<close>

datatype key_event = Char_press u8 | Char_release u8 | Modifier_press | Modifier_release | Nothing

text \<open>The same table as events; a later entry for a code wins.\<close>

definition table_events :: "(u8 \<times> key_event) list" where
  "table_events =
     map (\<lambda>(c, p, r). (p, Char_press c)) letter_codes @
     [(0x35, Char_press 0x2F), (0x0C, Char_press 0x2D), (0x34, Char_press 0x2E)] @
     map (\<lambda>(c, p, r). (r, Char_release c)) letter_codes @
     [(0xB5, Char_release 0x2F), (0x8C, Char_release 0x2E), (0xB4, Char_release 0x2D),
      (0x1C, Char_press 0x0A), (0x9C, Char_release 0x0A), (0x39, Char_press 0x20), (0xB9, Char_release 0x20),
      (0x2A, Modifier_press), (0xAA, Modifier_release), (0x36, Modifier_press), (0xB6, Modifier_release),
      (0x1D, Modifier_press), (0x9D, Modifier_release)]"

definition key_event :: "u8 \<Rightarrow> key_event" where
  "key_event scan = (case map_of (rev table_events) scan of Some e \<Rightarrow> e | None \<Rightarrow> Nothing)"

definition event_info :: "key_event \<Rightarrow> Key_Information" where
  "event_info e = (case e of
     Char_press c \<Rightarrow> \<lparr>key_code = c, key_flags = KEY_CHARACTER OR KEY_PRESS\<rparr>
   | Char_release c \<Rightarrow> \<lparr>key_code = c, key_flags = KEY_CHARACTER OR KEY_RELEASE\<rparr>
   | Modifier_press \<Rightarrow> \<lparr>key_code = 1, key_flags = KEY_CONTROL OR KEY_PRESS\<rparr>
   | Modifier_release \<Rightarrow> \<lparr>key_code = 1, key_flags = KEY_CONTROL OR KEY_RELEASE\<rparr>
   | Nothing \<Rightarrow> \<lparr>key_code = 0, key_flags = KEY_UNKNOWN\<rparr>)"

lemma table_writes_events: "table_writes = map (\<lambda>(s, e). (s, event_info e)) table_events"
  by (simp add: table_writes_def table_events_def event_info_def pressed_def released_def control_def
      key_consts case_prod_beta comp_def)

lemma fold_update_nth:
  "length t = 256 \<Longrightarrow> length (fold (\<lambda>(scan, ki) t. t[unat scan := ki]) ws t) = 256 \<and>
   fold (\<lambda>(scan, ki) t. t[unat scan := ki]) ws t ! unat (s :: u8) =
     (case map_of (rev ws) s of Some ki \<Rightarrow> ki | None \<Rightarrow> t ! unat s)"
proof (induction ws arbitrary: t)
  case (Cons w ws)
  obtain a ki where w: "w = (a, ki)" by (cases w)
  have "t[unat a := ki] ! unat s = (if a = s then ki else t ! unat s)"
    using Cons.prems by (simp add: nth_list_update word_unat_eq_iff)
  then show ?case using Cons.IH [of "t[unat a := ki]"] Cons.prems
    by (auto simp: w map_add_def split: option.splits)
qed simp

lemma map_of_event_info:
  "map_of (rev (map (\<lambda>(s, e). (s, event_info e)) xs)) s = map_option event_info (map_of (rev xs) s)"
  by (simp add: rev_map map_of_map)

lemma init_table_nth: "init_table ! unat s = event_info (key_event s)" "length init_table = 256"
  using fold_update_nth [of "replicate 256 (event_info Nothing)" table_writes s]
  by (auto simp: init_table_def KEY_LOOKUP_TABLE_SIZE_def key_event_def event_info_def [of Nothing]
      table_writes_events map_of_event_info split: option.splits)

lemma table_events_distinct: "distinct (map fst table_events)"
proof -
  have "distinct (map (\<lambda>x. unat (fst x)) table_events)"
    by (simp add: table_events_def letter_codes_def)
  then have "distinct (map unat (map fst table_events))" by (simp add: comp_def)
  then show ?thesis by (simp only: distinct_map)
qed

lemma key_event_in: "(s, e) \<in> set table_events \<Longrightarrow> key_event s = e"
  using map_of_is_SomeI [of "rev table_events" s e] table_events_distinct
  by (simp add: key_event_def rev_map [symmetric] distinct_rev)

lemma letter_events: "(c, p, r) \<in> set letter_codes \<Longrightarrow> key_event p = Char_press c \<and> key_event r = Char_release c"
  by (intro conjI key_event_in) (force simp: table_events_def)+

lemma other_events:
  "key_event 0x2A = Modifier_press" "key_event 0xAA = Modifier_release"
  "key_event 0x36 = Modifier_press" "key_event 0xB6 = Modifier_release"
  "key_event 0x1D = Modifier_press" "key_event 0x9D = Modifier_release"
  "key_event 0x39 = Char_press 0x20" "key_event 0x1C = Char_press 0x0A" "key_event 0x0C = Char_press 0x2D"
  "key_event 0x8C = Char_release 0x2E" "key_event 0x34 = Char_press 0x2E" "key_event 0xB4 = Char_release 0x2D"
  by (rule key_event_in, simp add: table_events_def)+

section \<open>The handler by events\<close>

lemma handler_event:
  assumes "key_lookup_table s = init_table"
  shows "keyboard_interrupt_handler status scan s m =
    (case key_event scan of
       Char_press c \<Rightarrow>
         rbind (deliver (get_key_character s c) (take (unat (keyboard_event_buffers_num s)) (keyboard_event_buffers s)) m)
           (\<lambda>m. Inr (status AND 1 = 0, s\<lparr>keyboard_event_buffers_num := 0\<rparr>, m))
     | Modifier_press \<Rightarrow> Inr (status AND 1 = 0, s\<lparr>shift_enabled := 1\<rparr>, m)
     | Modifier_release \<Rightarrow> Inr (status AND 1 = 0, s\<lparr>shift_enabled := 0\<rparr>, m)
     | _ \<Rightarrow> Inr (status AND 1 = 0, s, m))"
  by (cases "key_event scan")
    (simp_all add: keyboard_interrupt_handler_def assms init_table_nth event_info_def key_consts Let_def)

definition filled :: "u8 \<Rightarrow> Keyboard_Event_Receiver_Buffer \<Rightarrow> Keyboard_Event_Receiver_Buffer" where
  "filled c b = b\<lparr>buffer := (buffer b)[0 := c], event_received := 1, buffer_filled := 1\<rparr>"

lemma filled_filled [simp]: "filled c (filled c b) = filled c b" "buffer (filled c b) = [] \<longleftrightarrow> buffer b = []"
  by (simp_all add: filled_def)

lemma deliver_all:
  "list_all (\<lambda>k. buffer (m k) \<noteq> []) ks \<Longrightarrow>
    deliver c ks m = Inr (\<lambda>k. if k \<in> set ks then filled c (m k) else m k)"
proof (induction ks arbitrary: m)
  case (Cons k ks)
  have "list_all (\<lambda>j. buffer ((m(k := filled c (m k))) j) \<noteq> []) ks"
    using Cons.prems by (auto simp: list_all_iff)
  then have "deliver c ks (m(k := filled c (m k))) =
      Inr (\<lambda>j. if j \<in> set ks then filled c ((m(k := filled c (m k))) j) else (m(k := filled c (m k))) j)"
    by (rule Cons.IH)
  moreover have "(\<lambda>j. if j \<in> set ks then filled c ((m(k := filled c (m k))) j) else (m(k := filled c (m k))) j) =
      (\<lambda>j. if j \<in> set (k # ks) then filled c (m j) else m j)"
    by (rule ext) auto
  ultimately show ?case using Cons.prems by (simp add: filled_def [symmetric])
qed simp

text \<open>The scan codes of a stretch of typing, one interrupt each.\<close>

fun run_keys :: "u8 list \<Rightarrow> Keyboard_State \<Rightarrow> kerbs \<Rightarrow> (Keyboard_State \<times> kerbs) res" where
  "run_keys [] s m = Inr (s, m)"
| "run_keys (scan # codes) s m =
    rbind (keyboard_interrupt_handler 1 scan s m) (\<lambda>(_, s, m). run_keys codes s m)"

fun shift_after :: "u8 list \<Rightarrow> s32 \<Rightarrow> s32" where
  "shift_after [] sh = sh"
| "shift_after (scan # codes) sh =
    shift_after codes (case key_event scan of Modifier_press \<Rightarrow> 1 | Modifier_release \<Rightarrow> 0 | _ \<Rightarrow> sh)"

definition types_char :: "u8 \<Rightarrow> bool" where
  "types_char scan = (case key_event scan of Char_press c \<Rightarrow> True | _ \<Rightarrow> False)"

lemma run_keys_quiet:
  "key_lookup_table s = init_table \<Longrightarrow> keyboard_event_buffers_num s = 0 \<or> list_all (\<lambda>c. \<not> types_char c) codes \<Longrightarrow>
   run_keys codes s m = Inr (s\<lparr>shift_enabled := shift_after codes (shift_enabled s)\<rparr>, m)"
proof (induction codes arbitrary: s)
  case (Cons c codes)
  have "\<exists>b s'. keyboard_interrupt_handler 1 c s m = Inr (b, s', m) \<and>
      s' = s\<lparr>shift_enabled := (case key_event c of Modifier_press \<Rightarrow> 1 | Modifier_release \<Rightarrow> 0 | _ \<Rightarrow> shift_enabled s)\<rparr>"
    using Cons.prems by (cases "key_event c") (auto simp: handler_event types_char_def)
  then show ?case using Cons.IH Cons.prems by auto
qed simp

lemma run_keys_append:
  "run_keys (xs @ ys) s m = rbind (run_keys xs s m) (\<lambda>(s, m). run_keys ys s m)"
proof (induction xs arbitrary: s m)
  case (Cons x xs)
  then show ?case by (cases "keyboard_interrupt_handler 1 x s m") auto
qed simp

section \<open>Properties\<close>

definition idle_buffer :: Keyboard_Event_Receiver_Buffer where
  "idle_buffer = \<lparr>buffer = [0, 0], buffer_capacity = 2, buffer_filled = 0, event_received = 0\<rparr>"

text \<open>
  C26: When a character key is pressed, every waiting buffer receives that one
  character, upper case or the underscore exactly while shift is held, each is
  marked filled, no other buffer changes, and nobody is waiting any more.
\<close>

theorem key_press_delivered:
  assumes "key_lookup_table s = init_table" and "key_event scan = Char_press c"
    and "list_all (\<lambda>k. buffer (m k) \<noteq> []) (take (unat (keyboard_event_buffers_num s)) (keyboard_event_buffers s))"
  shows "keyboard_interrupt_handler status scan s m =
    Inr (status AND 1 = 0, s\<lparr>keyboard_event_buffers_num := 0\<rparr>,
      (\<lambda>k. if k \<in> set (take (unat (keyboard_event_buffers_num s)) (keyboard_event_buffers s))
            then filled (get_key_character s c) (m k) else m k))"
  by (simp add: handler_event [OF assms(1)] assms(2) deliver_all [OF assms(3)])

lemma key_press_delivered_witness:
  "keyboard_interrupt_handler 1 0x39
     (keyboard_init\<lparr>keyboard_event_buffers_num := 1, keyboard_event_buffers := [7]\<rparr>) (\<lambda>_. idle_buffer) =
   Inr (False, keyboard_init\<lparr>keyboard_event_buffers := [7]\<rparr>,
     (\<lambda>_. idle_buffer)(7 := \<lparr>buffer = [0x20, 0], buffer_capacity = 2, buffer_filled = 1, event_received = 1\<rparr>))"
proof -
  let ?s = "keyboard_init\<lparr>keyboard_event_buffers_num := 1, keyboard_event_buffers := [7]\<rparr>"
  have "key_lookup_table ?s = init_table" by (simp add: keyboard_init_def)
  from key_press_delivered [OF this other_events(7), of "\<lambda>_. idle_buffer" 1] show ?thesis
    by (auto simp: idle_buffer_def filled_def get_key_character_def keyboard_init_def fun_eq_iff)
qed

text \<open>
  C25: A buffer that has been registered waits through any sequence of scan codes that
  types no character and then receives the first character typed, in the case the
  modifier keys of that sequence leave the keyboard in.
\<close>

theorem first_character_received:
  assumes "key_lookup_table s = init_table" and "keyboard_event_buffers_num s = 0"
    and "length (keyboard_event_buffers s) = 64" and "buffer (m k) \<noteq> []"
    and "list_all (\<lambda>c. \<not> types_char c) codes" and "key_event scan = Char_press c"
  shows "\<exists>s1 m1 s2 m2. keyboard_register_event_buffer k s m = Inr (s1, m1) \<and>
    run_keys (codes @ [scan]) s1 m1 = Inr (s2, m2) \<and> event_received (m1 k) = 0 \<and>
    event_received (m2 k) = 1 \<and> buffer_filled (m2 k) = 1 \<and> keyboard_event_buffers_num s2 = 0 \<and>
    hd (buffer (m2 k)) = get_key_character (s\<lparr>shift_enabled := shift_after codes (shift_enabled s)\<rparr>) c"
proof -
  let ?s1 = "s\<lparr>keyboard_event_buffers := (keyboard_event_buffers s)[0 := k], keyboard_event_buffers_num := 1\<rparr>"
  let ?m1 = "m(k := (m k)\<lparr>event_received := 0, buffer_filled := 0\<rparr>)"
  let ?sh = "shift_after codes (shift_enabled s)"
  let ?s' = "?s1\<lparr>shift_enabled := ?sh\<rparr>"
  have reg: "keyboard_register_event_buffer k s m = Inr (?s1, ?m1)"
    using assms(2,3) by (simp add: keyboard_register_event_buffer_def Let_def)
  have quiet: "run_keys codes ?s1 ?m1 = Inr (?s', ?m1)"
    using run_keys_quiet [of ?s1 codes ?m1] assms(1,5) by simp
  obtain b bs where bs: "buffer (m k) = b # bs" using assms(4) by (cases "buffer (m k)") auto
  obtain x xs where xs: "keyboard_event_buffers s = x # xs" using assms(3) by (cases "keyboard_event_buffers s") auto
  have "take (unat (keyboard_event_buffers_num ?s')) (keyboard_event_buffers ?s') = [k]"
    using xs by simp
  then have "keyboard_interrupt_handler 1 scan ?s' ?m1 =
    Inr (False, ?s'\<lparr>keyboard_event_buffers_num := 0\<rparr>,
      (\<lambda>j. if j \<in> set [k] then filled (get_key_character ?s' c) (?m1 j) else ?m1 j))"
    using assms(1,6) bs deliver_all [of ?m1 "[k]" "get_key_character ?s' c"] handler_event [of ?s' 1 scan ?m1]
    by simp
  then have "run_keys (codes @ [scan]) ?s1 ?m1 = Inr (?s'\<lparr>keyboard_event_buffers_num := 0\<rparr>,
      (\<lambda>j. if j \<in> set [k] then filled (get_key_character ?s' c) (?m1 j) else ?m1 j))"
    using quiet by (simp add: run_keys_append)
  moreover have "get_key_character ?s' c = get_key_character (s\<lparr>shift_enabled := ?sh\<rparr>) c"
    by (simp add: get_key_character_def)
  ultimately show ?thesis using reg bs by (simp add: filled_def)
qed

lemma first_character_received_witness:
  "\<exists>s1 m1 s2 m2. keyboard_register_event_buffer 7 keyboard_init (\<lambda>_. idle_buffer) = Inr (s1, m1) \<and>
     run_keys ([0x2A] @ [0x1E]) s1 m1 = Inr (s2, m2) \<and> event_received (m2 7) = 1 \<and> hd (buffer (m2 7)) = 0x41"
proof -
  have a: "key_event 0x1E = Char_press 0x41"
    using letter_events [of "0x41" "0x1E" "0x9E"] by (simp add: letter_codes_def)
  have "list_all (\<lambda>c. \<not> types_char c) [0x2A]" by (simp add: types_char_def other_events)
  from first_character_received [OF _ _ _ _ this a, where s = keyboard_init and m = "\<lambda>_. idle_buffer" and k = 7]
  show ?thesis
    by (simp add: keyboard_init_def idle_buffer_def KEYBOARD_EVENT_BUFFERS_MAX_def other_events get_key_character_def)
      blast
qed

text \<open>
  With nobody waiting, typing only moves the shift state: after any sequence of
  scan codes it is on exactly if the last modifier code was a press.  The left
  control key is such a modifier, because its key code equals that of shift.
\<close>

theorem shift_state:
  assumes "key_lookup_table s = init_table" and "keyboard_event_buffers_num s = 0"
  shows "run_keys codes s m = Inr (s\<lparr>shift_enabled := shift_after codes (shift_enabled s)\<rparr>, m) \<and>
    shift_after (codes @ [0x1D]) (shift_enabled s) = 1 \<and> shift_after (codes @ [0x2A]) (shift_enabled s) = 1 \<and>
    shift_after (codes @ [0x9D]) (shift_enabled s) = 0 \<and> shift_after (codes @ [0xAA]) (shift_enabled s) = 0"
proof -
  have "shift_after (codes @ [c]) sh =
      (case key_event c of Modifier_press \<Rightarrow> 1 | Modifier_release \<Rightarrow> 0 | _ \<Rightarrow> shift_after codes sh)" for c sh
    by (induction codes arbitrary: sh) (simp_all split: key_event.split)
  then show ?thesis using run_keys_quiet [OF assms(1), of codes m] assms(2) by (simp add: other_events)
qed

lemma shift_state_witness:
  "run_keys [0x1D, 0x1E] keyboard_init (\<lambda>_. idle_buffer) = Inr (keyboard_init\<lparr>shift_enabled := 1\<rparr>, \<lambda>_. idle_buffer)"
proof -
  have a: "key_event 0x1E = Char_press 0x41"
    using letter_events [of "0x41" "0x1E" "0x9E"] by (simp add: letter_codes_def)
  show ?thesis
    using shift_state [where s = keyboard_init and codes = "[0x1D, 0x1E]" and m = "\<lambda>_. idle_buffer"]
    by (simp add: keyboard_init_def other_events a)
qed

end
