(* ===== verification/Gdt.thy ===== *)
theory Gdt
  imports Prelude
begin

text \<open>
  The segment descriptors and the task state segment: src/src/gdt.c.

  A bit field of the packed structure is a word of its width.  \<open>gdt_entry_bytes\<close>
  is the layout the packed attribute gives the structure, bit fields from the low
  bit up; the last section reads it back the way the processor does.
\<close>

section \<open>Structures\<close>

type_synonym u1 = "1 word"
type_synonym u2 = "2 word"
type_synonym u4 = "4 word"

record GDT_Entry =
  segment_limit1 :: u16
  base1 :: u16
  base2 :: u8
  accessed :: u1
  readable :: u1
  conforming :: u1
  code :: u1
  descriptor_type :: u1
  descriptor_privilege_level :: u2
  segment_present :: u1
  segment_limit2 :: u4
  avl :: u1
  code_segment_64bit :: u1
  default_operation_size :: u1
  granularity :: u1
  base3 :: u8

definition null_entry :: GDT_Entry where
  "null_entry = \<lparr>segment_limit1 = 0, base1 = 0, base2 = 0, accessed = 0, readable = 0, conforming = 0,
     code = 0, descriptor_type = 0, descriptor_privilege_level = 0, segment_present = 0,
     segment_limit2 = 0, avl = 0, code_segment_64bit = 0, default_operation_size = 0, granularity = 0, base3 = 0\<rparr>"

record GDT_Descriptor =
  gdt_limit :: u16
  gdt_base :: u32

text \<open>The fields \<open>gdt_init\<close> sets; every other field of the segment is 0 after \<open>memset\<close>.\<close>

record TSS_Entry =
  esp0 :: u32
  ss0 :: u32
  tss_es :: u32
  tss_cs :: u32
  tss_ss :: u32
  tss_ds :: u32
  tss_fs :: u32
  tss_gs :: u32

definition sizeof_GDT_Entry :: u32 where "sizeof_GDT_Entry = 8"
definition sizeof_TSS_Entry :: u32 where "sizeof_TSS_Entry = 104"
definition GDT_NUM_ENTRIES :: u32 where "GDT_NUM_ENTRIES = 6"
definition KERNEL_STACK_ADDRESS_IN_PROCESS_ADDRESS_SPACE :: u32 where
  "KERNEL_STACK_ADDRESS_IN_PROCESS_ADDRESS_SPACE = 0xF0000000"

record Gdt_State =
  gdt_entries :: "GDT_Entry list"
  gdt_descriptor :: GDT_Descriptor
  tss_entry :: TSS_Entry

section \<open>gdt\_init\<close>

definition flat_segment :: "u2 \<Rightarrow> u1 \<Rightarrow> GDT_Entry" where
  "flat_segment dpl is_code =
    \<lparr>segment_limit1 = 0xFFFF, base1 = 0, base2 = 0, accessed = 0, readable = 1, conforming = 0,
     code = is_code, descriptor_type = 1, descriptor_privilege_level = dpl, segment_present = 1,
     segment_limit2 = 0b1111, avl = 0, code_segment_64bit = 0, default_operation_size = 1,
     granularity = 1, base3 = 0\<rparr>"

definition tss_segment :: "u32 \<Rightarrow> GDT_Entry" where
  "tss_segment tss_base =
    (let tss_limit = tss_base + sizeof_TSS_Entry in
     \<lparr>segment_limit1 = ucast (tss_limit AND 0xFFFF), base1 = ucast (tss_base AND 0xFFFF),
      base2 = ucast (drop_bit 16 tss_base AND 0xFF), accessed = 1, readable = 0, conforming = 0,
      code = 1, descriptor_type = 0, descriptor_privilege_level = 0b11, segment_present = 1,
      segment_limit2 = ucast (drop_bit 16 tss_limit AND 0xF), avl = 0, code_segment_64bit = 0,
      default_operation_size = 1, granularity = 1, base3 = ucast (drop_bit 24 tss_base AND 0xFF)\<rparr>)"

text \<open>\<open>entries\<close> and \<open>tss\<close> are the addresses the linker gave the two static variables.\<close>

definition gdt_init :: "u32 \<Rightarrow> u32 \<Rightarrow> Gdt_State" where
  "gdt_init entries tss =
    \<lparr>gdt_entries = [null_entry, flat_segment 0b00 1, flat_segment 0b00 0, flat_segment 0b11 1,
                    flat_segment 0b11 0, tss_segment tss],
     gdt_descriptor = \<lparr>gdt_limit = ucast (sizeof_GDT_Entry * GDT_NUM_ENTRIES - 1), gdt_base = entries\<rparr>,
     tss_entry = \<lparr>esp0 = KERNEL_STACK_ADDRESS_IN_PROCESS_ADDRESS_SPACE, ss0 = 0x10, tss_es = 0x13,
                  tss_cs = 0x0b, tss_ss = 0x13, tss_ds = 0x13, tss_fs = 0x13, tss_gs = 0x13\<rparr>\<rparr>"

section \<open>What the processor reads\<close>

definition access_byte :: "GDT_Entry \<Rightarrow> u8" where
  "access_byte e = ucast (accessed e) OR push_bit 1 (ucast (readable e)) OR push_bit 2 (ucast (conforming e)) OR
     push_bit 3 (ucast (code e)) OR push_bit 4 (ucast (descriptor_type e)) OR
     push_bit 5 (ucast (descriptor_privilege_level e)) OR push_bit 7 (ucast (segment_present e))"

definition granularity_byte :: "GDT_Entry \<Rightarrow> u8" where
  "granularity_byte e = ucast (segment_limit2 e) OR push_bit 4 (ucast (avl e)) OR
     push_bit 5 (ucast (code_segment_64bit e)) OR push_bit 6 (ucast (default_operation_size e)) OR
     push_bit 7 (ucast (granularity e))"

definition gdt_entry_bytes :: "GDT_Entry \<Rightarrow> u8 list" where
  "gdt_entry_bytes e =
    [ucast (segment_limit1 e), ucast (drop_bit 8 (segment_limit1 e)), ucast (base1 e), ucast (drop_bit 8 (base1 e)),
     base2 e, access_byte e, granularity_byte e, base3 e]"

definition byte_at :: "u8 list \<Rightarrow> nat \<Rightarrow> u32" where
  "byte_at bs i = ucast (bs ! i)"

definition segment_base :: "u8 list \<Rightarrow> u32" where
  "segment_base bs = byte_at bs 2 OR push_bit 8 (byte_at bs 3) OR push_bit 16 (byte_at bs 4) OR push_bit 24 (byte_at bs 7)"

definition segment_limit :: "u8 list \<Rightarrow> u32" where
  "segment_limit bs = byte_at bs 0 OR push_bit 8 (byte_at bs 1) OR push_bit 16 (byte_at bs 6 AND 0xF)"

definition segment_dpl :: "u8 list \<Rightarrow> u8" where
  "segment_dpl bs = drop_bit 5 (bs ! 5) AND 3"

lemma split16: "(ucast (ucast w :: u8) :: u32) OR push_bit 8 (ucast (ucast (drop_bit 8 w) :: u8)) = ucast (w :: u16)"
proof (rule bit_word_eqI)
  fix n :: nat assume "n < LENGTH(32)"
  have "n < 8 \<or> (8 \<le> n \<and> n < 16) \<or> 16 \<le> n" by linarith
  then show "bit ((ucast (ucast w :: u8) :: u32) OR push_bit 8 (ucast (ucast (drop_bit 8 w) :: u8))) n = bit (ucast w :: u32) n"
    using \<open>n < LENGTH(32)\<close> by (elim disjE conjE) (auto simp: bit_simps dest: bit_imp_le_length)
qed

lemma segment_base_entry:
  "segment_base (gdt_entry_bytes e) =
    ucast (base1 e) OR push_bit 16 (ucast (base2 e)) OR push_bit 24 (ucast (base3 e))"
  using split16 [of "base1 e"]
  by (simp add: segment_base_def gdt_entry_bytes_def byte_at_def or.assoc [symmetric])

lemma tss_base_read: "segment_base (gdt_entry_bytes (tss_segment b)) = b"
proof -
  have m: "\<And>w :: u32. w AND 0xFFFF = take_bit 16 w" "\<And>w :: u32. w AND 0xFF = take_bit 8 w"
    by (simp_all add: take_bit_eq_mask mask_eq_exp_minus_1)
  show ?thesis
    unfolding segment_base_entry
  proof (rule bit_word_eqI)
    fix n :: nat assume n: "n < LENGTH(32)"
    have "n < 16 \<or> (16 \<le> n \<and> n < 24) \<or> 24 \<le> n" by linarith
    then show "bit ((ucast (base1 (tss_segment b)) :: u32) OR push_bit 16 (ucast (base2 (tss_segment b))) OR
        push_bit 24 (ucast (base3 (tss_segment b)))) n = bit b n"
      using n by (elim disjE conjE) (auto simp: tss_segment_def Let_def m bit_simps)
  qed
qed

lemma tss_limit_read: "segment_limit (gdt_entry_bytes (tss_segment b)) = take_bit 20 (b + 104)"
proof -
  have m: "\<And>w :: u32. w AND 0xFFFF = take_bit 16 w" "\<And>w :: u32. w AND 0xF = take_bit 4 w"
    by (simp_all add: take_bit_eq_mask mask_eq_exp_minus_1)
  have g: "byte_at (gdt_entry_bytes (tss_segment b)) 6 AND 0xF = ucast (segment_limit2 (tss_segment b))"
    unfolding m byte_at_def
  proof (rule bit_word_eqI)
    fix n :: nat assume "n < LENGTH(32)"
    have "n = 0 \<or> n = 1 \<or> n = 2 \<or> n = 3 \<or> 4 \<le> n" by linarith
    then show "bit (take_bit 4 (ucast (gdt_entry_bytes (tss_segment b) ! 6)) :: u32) n =
        bit (ucast (segment_limit2 (tss_segment b)) :: u32) n"
      by (elim disjE) (auto simp: gdt_entry_bytes_def granularity_byte_def tss_segment_def Let_def bit_simps)
  qed
  have "segment_limit (gdt_entry_bytes (tss_segment b)) =
      ucast (segment_limit1 (tss_segment b)) OR push_bit 16 (ucast (segment_limit2 (tss_segment b)))"
    using split16 [of "segment_limit1 (tss_segment b)"] g
    by (simp add: segment_limit_def gdt_entry_bytes_def byte_at_def or.assoc [symmetric])
  also have "\<dots> = take_bit 20 (b + 104)"
  proof (rule bit_word_eqI)
    fix n :: nat assume n: "n < LENGTH(32)"
    have "n < 16 \<or> (16 \<le> n \<and> n < 20) \<or> 20 \<le> n" by linarith
    then show "bit ((ucast (segment_limit1 (tss_segment b)) :: u32) OR push_bit 16 (ucast (segment_limit2 (tss_segment b)))) n =
        bit (take_bit 20 (b + 104)) n"
      using n by (elim disjE conjE) (auto simp: tss_segment_def Let_def sizeof_TSS_Entry_def m bit_simps)
  qed
  finally show ?thesis .
qed

section \<open>Properties\<close>

text \<open>
  The table \<open>gdt_init\<close> builds is the flat model: after the null descriptor, code and
  data segments for ring 0 and ring 3, in the byte layout of the processor, with the
  selectors 0x08, 0x10, 0x18 and 0x20, base 0, and a limit of 4 GB in pages of 4 KB.
\<close>

theorem gdt_flat_segments:
  "map gdt_entry_bytes (take 5 (gdt_entries (gdt_init entries tss))) =
    [[0, 0, 0, 0, 0, 0, 0, 0],
     [0xFF, 0xFF, 0, 0, 0, 0x9A, 0xCF, 0],
     [0xFF, 0xFF, 0, 0, 0, 0x92, 0xCF, 0],
     [0xFF, 0xFF, 0, 0, 0, 0xFA, 0xCF, 0],
     [0xFF, 0xFF, 0, 0, 0, 0xF2, 0xCF, 0]] \<and>
   gdt_limit (gdt_descriptor (gdt_init entries tss)) = 47 \<and> gdt_base (gdt_descriptor (gdt_init entries tss)) = entries"
  by (simp add: gdt_init_def null_entry_def flat_segment_def gdt_entry_bytes_def access_byte_def granularity_byte_def
      sizeof_GDT_Entry_def GDT_NUM_ENTRIES_def)

text \<open>
  C27: The processor finds the task state segment: the sixth descriptor, read back from
  its bytes, has the address of \<open>tss_entry\<close> as its base whatever that address is.  Its
  limit, however, is the low 20 bits of the end address of the segment instead of
  its size less one.
\<close>

theorem gdt_tss_segment:
  "segment_base (gdt_entry_bytes (gdt_entries (gdt_init entries tss) ! 5)) = tss \<and>
   segment_limit (gdt_entry_bytes (gdt_entries (gdt_init entries tss) ! 5)) = take_bit 20 (tss + 104) \<and>
   gdt_entry_bytes (gdt_entries (gdt_init entries tss) ! 5) ! 5 = 0xE9 \<and>
   esp0 (tss_entry (gdt_init entries tss)) = 0xF0000000 \<and> ss0 (tss_entry (gdt_init entries tss)) = 0x10"
proof -
  have "gdt_entry_bytes (tss_segment tss) ! 5 = 0xE9"
    by (simp add: gdt_entry_bytes_def access_byte_def tss_segment_def Let_def)
  then show ?thesis
    using tss_base_read [of tss] tss_limit_read [of tss]
    by (simp add: gdt_init_def KERNEL_STACK_ADDRESS_IN_PROCESS_ADDRESS_SPACE_def)
qed

end
