(* ===== verification/Timer.thy ===== *)
theory Timer
  imports Interrupt
begin

text \<open>
  The programmable interval timer: src/src/timer.c.  The static counter of the handler
  is the state; \<open>process_switch\<close> is the scheduler it calls, a change of the rest of
  the kernel state.
\<close>

definition PIT_CLOCK_FREQUENCY_HZ :: u32 where "PIT_CLOCK_FREQUENCY_HZ = 1193180"
definition PIT_DATA_PORT_0 :: u16 where "PIT_DATA_PORT_0 = 0x40"
definition PIT_COMMAND_PORT :: u16 where "PIT_COMMAND_PORT = 0x43"
definition TIMER_DESIRED_FREQUENCY_HZ :: u32 where "TIMER_DESIRED_FREQUENCY_HZ = 100"

definition timer_interrupt_handler :: "('s \<Rightarrow> 's) \<Rightarrow> u32 \<times> 's \<Rightarrow> u32 \<times> 's" where
  "timer_interrupt_handler process_switch ts =
    (let (tick, s) = ts; tick = tick + 1 in
     if tick mod 100 = 0 then (tick, process_switch s) else (tick, s))"

definition timer_ports :: port_log where
  "timer_ports =
    (let divisor = PIT_CLOCK_FREQUENCY_HZ div TIMER_DESIRED_FREQUENCY_HZ in
     [(PIT_COMMAND_PORT, 0x36), (PIT_DATA_PORT_0, ucast (divisor AND 0xFF)),
      (PIT_DATA_PORT_0, ucast (drop_bit 8 divisor AND 0xFF))])"

definition timer_init :: "'s handler \<Rightarrow> 's Interrupts \<Rightarrow> 's Interrupts res" where
  "timer_init handler s =
    interrupt_register_handler handler 32 (s\<lparr>pic_ports := pic_ports s @ timer_ports\<rparr>)"

lemma ticks:
  "unat t + n < 4294967296 \<Longrightarrow> ((timer_interrupt_handler f) ^^ n) (t, s) =
     (t + of_nat n, (f ^^ ((unat t + n) div 100 - unat t div 100)) s)"
proof (induction n)
  case (Suc n)
  let ?k = "(unat t + n) div 100 - unat t div 100"
  have n: "unat (t + of_nat n) = unat t + n"
    using Suc.prems by (subst unat_add32) (simp_all add: unat_of_nat32)
  then have "unat (t + of_nat n + 1) = unat t + Suc n"
    using Suc.prems by (subst unat_add32) simp_all
  then have m: "unat ((t + of_nat n + 1) mod 100) = (unat t + Suc n) mod 100"
    by (simp only: unat_mod) simp
  have z: "(t + of_nat n + 1) mod 100 = 0 \<longleftrightarrow> (unat t + Suc n) mod 100 = 0"
    unfolding m [symmetric] by (metis unsigned_0 unsigned_eq_0_iff)
  have le: "unat t div 100 \<le> (unat t + n) div 100" by (simp add: div_le_mono)
  show ?case
  proof (cases "(unat t + Suc n) mod 100 = 0")
    case True
    then have "(unat t + Suc n) div 100 = Suc ((unat t + n) div 100)"
      by (metis add_Suc_right div_Suc)
    then have "(unat t + Suc n) div 100 - unat t div 100 = Suc ?k" using le by (simp add: Suc_diff_le)
    then show ?thesis using Suc True z by (simp add: timer_interrupt_handler_def add.assoc)
  next
    case False
    then have "(unat t + Suc n) div 100 = (unat t + n) div 100"
      by (metis add_Suc_right div_Suc)
    then show ?thesis using Suc False z by (simp add: timer_interrupt_handler_def add.assoc)
  qed
qed simp

text \<open>
  Out of \<open>n\<close> timer interrupts from boot on, exactly every hundredth switches the
  process, as long as the counter has not wrapped.
\<close>

theorem timer_switches:
  assumes "n < 4294967296"
  shows "((timer_interrupt_handler process_switch) ^^ n) (0, s) = (of_nat n, (process_switch ^^ (n div 100)) s)"
  using ticks [of 0 n process_switch s] assms by simp

lemma timer_switches_witness:
  "((timer_interrupt_handler (\<lambda>k :: nat. k + 1)) ^^ 250) (0, 0) = (250, 2)"
  using timer_switches [of 250 "\<lambda>k :: nat. k + 1" 0] by simp

text \<open>
  The divisor the two data bytes transmit, low byte first, is 11931, which makes the
  timer tick within a thousandth of the desired 100 Hz.
\<close>

theorem timer_divisor:
  "timer_ports = [(0x43, 0x36), (0x40, 0x9B), (0x40, 0x2E)] \<and> 0x9B + 256 * 0x2E = (11931 :: nat) \<and>
   unat PIT_CLOCK_FREQUENCY_HZ div 11931 = unat TIMER_DESIRED_FREQUENCY_HZ"
  by (simp add: timer_ports_def Let_def PIT_CLOCK_FREQUENCY_HZ_def TIMER_DESIRED_FREQUENCY_HZ_def
      PIT_COMMAND_PORT_def PIT_DATA_PORT_0_def)

end
