(* ===== verification/Paging_State.thy ===== *)
theory Paging_State
  imports Bitmap Util
begin

text \<open>
  The data of src/src/paging.h and of the process list of src/src/process.c, and
  the one operation of process.c that the paging code calls.

  The structures that C reaches through pointers live in stores indexed by their
  address: the page tables, the page directories and the process records.  Two
  pointers that are equal therefore name the same structure, which is what links
  the kernel's page tables into every address space.  The bytes of these structures
  are not part of the byte memory \<open>mem\<close> of the kernel.  \<open>phys\<close> is the contents of
  the physical frames that hold process pages.
\<close>

section \<open>paging.h\<close>

record Page_Entry =
  present :: bool
  writable :: bool
  user_mode :: bool
  reserved :: "2 word"
  accessed :: bool
  dirty :: bool
  reserved2 :: "2 word"
  available :: "3 word"
  frame_address_20_bits :: "20 word"

definition zero_entry :: Page_Entry where
  "zero_entry = \<lparr>present = False, writable = False, user_mode = False, reserved = 0, accessed = False,
     dirty = False, reserved2 = 0, available = 0, frame_address_20_bits = 0\<rparr>"

text \<open>\<open>tables\<close> holds the pointers to the page tables, 0 for none.\<close>

record Page_Directory =
  tables :: "nat \<Rightarrow> u32"
  tables_x86_representation :: "nat \<Rightarrow> u32"

definition zero_directory :: Page_Directory where
  "zero_directory = \<lparr>tables = \<lambda>i. 0, tables_x86_representation = \<lambda>i. 0\<rparr>"

definition KERNEL_STACK_RESERVED_PAGES :: u32 where "KERNEL_STACK_RESERVED_PAGES = 2048"
definition KERNEL_STACK_ADDRESS :: u32 where "KERNEL_STACK_ADDRESS = 0xC0000000"
definition AVAILABLE_FRAMES_NUM :: u32 where "AVAILABLE_FRAMES_NUM = 0xC0000"
definition KERNEL_PAGE_TABLES_ADDRESS :: u32 where "KERNEL_PAGE_TABLES_ADDRESS = 0x00100000"

section \<open>Processes\<close>

text \<open>The part of a \<open>Hash_Map\<close> that is copied with it: the elements are behind \<open>fd_data\<close>.\<close>

record Fd_Map =
  fd_capacity :: u32
  fd_num_elements :: u32
  fd_data :: u32

record Process =
  pid :: u32
  esp :: u32
  ebp :: u32
  eip :: u32
  page_directory :: u32
  file_descriptors :: Fd_Map
  fd_next :: s32
  previous_process :: u32
  next_process :: u32

record Kernel =
  available_frames :: Bitmap
  kernel_page_directory :: u32
  page_directories :: "u32 \<Rightarrow> Page_Directory"
  page_tables :: "u32 \<Rightarrow> nat \<Rightarrow> Page_Entry"
  phys :: mem
  loaded_directory :: u32
  cr3 :: u32
  final_kernel_code_data_addr :: u32
  active_process :: u32
  processes :: "u32 \<Rightarrow> Process"
  current_pid :: u32
  fd_blocks :: "u32 \<Rightarrow> (s32 \<times> u32) option list"

section \<open>Access to the stores\<close>

definition directory :: "Kernel \<Rightarrow> u32 \<Rightarrow> Page_Directory" where
  "directory k pd = page_directories k pd"

definition kernel_dir :: "Kernel \<Rightarrow> Page_Directory" where
  "kernel_dir k = directory k (kernel_page_directory k)"

definition set_table :: "u32 \<Rightarrow> nat \<Rightarrow> u32 \<Rightarrow> Kernel \<Rightarrow> Kernel" where
  "set_table pd i v k = k\<lparr>page_directories := (page_directories k)
     (pd := (directory k pd)\<lparr>tables := (tables (directory k pd))(i := v)\<rparr>)\<rparr>"

definition set_x86 :: "u32 \<Rightarrow> nat \<Rightarrow> u32 \<Rightarrow> Kernel \<Rightarrow> Kernel" where
  "set_x86 pd i v k = k\<lparr>page_directories := (page_directories k)
     (pd := (directory k pd)\<lparr>tables_x86_representation := (tables_x86_representation (directory k pd))(i := v)\<rparr>)\<rparr>"

definition clear_table :: "u32 \<Rightarrow> Kernel \<Rightarrow> Kernel" where
  "clear_table t k = k\<lparr>page_tables := (page_tables k)(t := \<lambda>j. zero_entry)\<rparr>"

definition set_entry :: "u32 \<Rightarrow> nat \<Rightarrow> Page_Entry \<Rightarrow> Kernel \<Rightarrow> Kernel" where
  "set_entry t j e k = k\<lparr>page_tables := (page_tables k)(t := (page_tables k t)(j := e))\<rparr>"

lemmas store_defs = directory_def kernel_dir_def set_table_def set_x86_def clear_table_def set_entry_def

text \<open>An array index outside the 1024 tables of a directory is outside the object.\<close>

definition table_index :: "u32 \<Rightarrow> nat res" where
  "table_index page_num = (let i = unat (page_num div 1024) in if i < 1024 then Inr i else Inl Out_of_bounds)"

section \<open>process\_link\_kernel\_table\_to\_all\_address\_spaces\<close>

text \<open>
  The walk over the ring of processes.  There are 2 to the 32 addresses: a walk of
  that many steps that has not come back to \<open>active_process\<close> never will.
\<close>

function link_loop :: "nat \<Rightarrow> u32 \<Rightarrow> u32 \<Rightarrow> nat \<Rightarrow> u32 \<Rightarrow> Kernel \<Rightarrow> Kernel res" where
  "link_loop fuel current vaddr i x86 k =
    (if fuel = 0 then Inl Spins
     else if current = 0 then Inl Null_deref
     else let pd = page_directory (processes k current);
              k' = set_x86 pd i x86 (set_table pd i vaddr k);
              nxt = next_process (processes k current) in
          if nxt \<noteq> active_process k then link_loop (fuel - 1) nxt vaddr i x86 k' else Inr k')"
  by pat_completeness auto
termination
  by (relation "measure fst") auto

declare link_loop.simps [simp del]

definition process_link_kernel_table_to_all_address_spaces :: "u32 \<Rightarrow> nat \<Rightarrow> u32 \<Rightarrow> Kernel \<Rightarrow> Kernel res" where
  "process_link_kernel_table_to_all_address_spaces vaddr i x86 k =
    rbind (kassert (active_process k \<noteq> 0)
            ''Can't link kernel table to all address spaces: there is no active process.'') (\<lambda>_.
    link_loop 4294967296 (active_process k) vaddr i x86 k)"

end
