(* ===== verification/Kalloc_Heap.thy ===== *)
theory Kalloc_Heap
  imports Util Kalloc_Avl
begin

text \<open>
  The kernel heap, src/src/alloc/kalloc_heap.c, and its front end
  src/src/alloc/kalloc.c.

  The heap lives in byte memory: a block is a 12-byte header (magic, size, used),
  the user's bytes and an 8-byte footer (magic, pointer to the header), laid out as
  the compiler does with 4-byte alignment.  The tree of holes is the model of
  Kalloc_Avl, whose cells lie in the 16 pages in front of the heap.  Creating a
  page is an operation of the paging code: \<open>pager\<close> gets a page number, the memory and
  the paging state \<open>'p\<close>.  \<open>garbage\<close> is the uninitialised local of the tree's
  operations.  Growing the heap and trying again is a loop that ends only when a
  hole fits, so \<open>kalloc_heap_alloc\<close> is a partial function.
\<close>

section \<open>Reading and writing memory\<close>

definition rd16 :: "mem \<Rightarrow> u32 \<Rightarrow> u16" where
  "rd16 m a = ucast (m a) OR push_bit 8 (ucast (m (a + 1)))"

definition wr16 :: "u32 \<Rightarrow> u16 \<Rightarrow> mem \<Rightarrow> mem" where
  "wr16 a v m = m(a := ucast v, a + 1 := ucast (drop_bit 8 v))"

definition rd32 :: "mem \<Rightarrow> u32 \<Rightarrow> u32" where
  "rd32 m a = ucast (m a) OR push_bit 8 (ucast (m (a + 1))) OR push_bit 16 (ucast (m (a + 2))) OR
     push_bit 24 (ucast (m (a + 3)))"

definition wr32 :: "u32 \<Rightarrow> u32 \<Rightarrow> mem \<Rightarrow> mem" where
  "wr32 a v m = m(a := ucast v, a + 1 := ucast (drop_bit 8 v), a + 2 := ucast (drop_bit 16 v),
     a + 3 := ucast (drop_bit 24 v))"

section \<open>Headers and footers\<close>

definition HEAP_HEADER_MAGIC :: u16 where "HEAP_HEADER_MAGIC = 0xABCD"
definition HEAP_FOOTER_MAGIC :: u16 where "HEAP_FOOTER_MAGIC = 0xEF01"
definition NUM_PAGES_RESERVED_FOR_AVL :: u32 where "NUM_PAGES_RESERVED_FOR_AVL = 16"
definition PAGE_SIZE :: u32 where "PAGE_SIZE = 4096"
definition sizeof_header :: u32 where "sizeof_header = 12"
definition sizeof_footer :: u32 where "sizeof_footer = 8"

lemmas heap_consts = HEAP_HEADER_MAGIC_def HEAP_FOOTER_MAGIC_def NUM_PAGES_RESERVED_FOR_AVL_def
  PAGE_SIZE_def sizeof_header_def sizeof_footer_def

definition header_size :: "mem \<Rightarrow> u32 \<Rightarrow> u32" where "header_size m h = rd32 m (h + 4)"
definition header_used :: "mem \<Rightarrow> u32 \<Rightarrow> u32" where "header_used m h = rd32 m (h + 8)"
definition set_header_magic :: "u32 \<Rightarrow> mem \<Rightarrow> mem" where "set_header_magic h = wr16 h HEAP_HEADER_MAGIC"
definition set_header_size :: "u32 \<Rightarrow> u32 \<Rightarrow> mem \<Rightarrow> mem" where "set_header_size h v = wr32 (h + 4) v"
definition set_header_used :: "u32 \<Rightarrow> u32 \<Rightarrow> mem \<Rightarrow> mem" where "set_header_used h v = wr32 (h + 8) v"
definition footer_header :: "mem \<Rightarrow> u32 \<Rightarrow> u32" where "footer_header m f = rd32 m (f + 4)"
definition set_footer_magic :: "u32 \<Rightarrow> mem \<Rightarrow> mem" where "set_footer_magic f = wr16 f HEAP_FOOTER_MAGIC"
definition set_footer_header :: "u32 \<Rightarrow> u32 \<Rightarrow> mem \<Rightarrow> mem" where "set_footer_header f v = wr32 (f + 4) v"

lemmas field_defs = header_size_def header_used_def set_header_magic_def set_header_size_def
  set_header_used_def footer_header_def set_footer_magic_def set_footer_header_def

record Kalloc_Heap =
  avl_initial_addr :: u32
  initial_addr :: u32
  heap_size :: u32
  avl :: Kalloc_AVL

type_synonym 'p pager = "u32 \<Rightarrow> mem \<Rightarrow> 'p \<Rightarrow> (mem \<times> 'p) res"

section \<open>kalloc\_heap\_create\<close>

fun create_pages :: "'p pager \<Rightarrow> nat \<Rightarrow> u32 \<Rightarrow> mem \<Rightarrow> 'p \<Rightarrow> (mem \<times> 'p) res" where
  "create_pages pager 0 page m p = Inr (m, p)"
| "create_pages pager (Suc n) page m p =
    rbind (pager page m p) (\<lambda>(m, p). create_pages pager n (page + 1) m p)"

definition kalloc_heap_create ::
  "bool \<Rightarrow> 'p pager \<Rightarrow> u32 \<Rightarrow> u32 \<Rightarrow> mem \<Rightarrow> 'p \<Rightarrow> (Kalloc_Heap \<times> mem \<times> 'p) res" where
  "kalloc_heap_create garbage pager addr initial_pages m p =
    rbind (kassert (addr mod 0x1000 = 0) ''kalloc: initial address must be aligned'') (\<lambda>_.
    rbind (kassert (initial_pages * PAGE_SIZE \<ge> sizeof_footer + sizeof_header)
             ''kalloc: insufficient number of initial pages'') (\<lambda>_.
    rbind (create_pages pager (unat (NUM_PAGES_RESERVED_FOR_AVL + initial_pages)) (addr div PAGE_SIZE) m p)
      (\<lambda>(m, p).
    let init = addr + NUM_PAGES_RESERVED_FOR_AVL * PAGE_SIZE; sz = initial_pages * PAGE_SIZE in
    rbind (kalloc_avl_init addr (NUM_PAGES_RESERVED_FOR_AVL * PAGE_SIZE)) (\<lambda>avl.
    let first_header = init; first_footer = init + sz - sizeof_footer;
        m = set_header_magic first_header m;
        m = set_header_size first_header (sz - sizeof_header - sizeof_footer) m;
        m = set_header_used first_header 0 m;
        m = set_footer_header first_footer first_header m;
        m = set_footer_magic first_footer m in
    rbind (kalloc_avl_insert garbage avl (header_size m first_header) (first_header + sizeof_header))
      (\<lambda>(avl, r). Inr (\<lparr>avl_initial_addr = addr, initial_addr = init, heap_size = sz, avl = avl\<rparr>, m, p))))))"

section \<open>kalloc\_heap\_alloc\<close>

definition get_aligned_address :: "u32 \<Rightarrow> u32 \<Rightarrow> u32" where
  "get_aligned_address address alignment =
    (if alignment \<noteq> 0 then
       if address AND (alignment - 1) \<noteq> 0 then (address AND NOT (alignment - 1)) + alignment else address
     else address)"

text \<open>The space in front of the aligned address goes to the previous block.\<close>

definition merge_slack :: "Kalloc_Heap \<Rightarrow> u32 \<Rightarrow> u32 \<Rightarrow> mem \<Rightarrow> mem res" where
  "merge_slack heap hole_header aligned_header m =
    rbind (kassert (hole_header \<noteq> initial_addr heap) ''kalloc: aligned-alloc is not supported when heap is empty'') (\<lambda>_.
    let hole_footer = hole_header + sizeof_header + header_size m hole_header;
        previous_footer = hole_header - sizeof_footer;
        previous_header = footer_header m previous_footer;
        new_previous_footer = aligned_header - sizeof_footer in
    rbind (kassert (new_previous_footer > previous_footer)
             ''kalloc: new footer address must be greater than previous footer address'') (\<lambda>_.
    let m = set_header_size previous_header
              (header_size m previous_header + (new_previous_footer - previous_footer)) m;
        m = set_footer_header new_previous_footer previous_header m;
        m = set_footer_magic new_previous_footer m in
    Inr (set_footer_header hole_footer aligned_header m)))"

text \<open>The rest of the hole becomes a new hole, unless it is too small for one.\<close>

definition split_block ::
  "bool \<Rightarrow> Kalloc_Heap \<Rightarrow> u32 \<Rightarrow> u32 \<Rightarrow> u32 \<Rightarrow> mem \<Rightarrow> (Kalloc_Heap \<times> mem) res" where
  "split_block garbage heap header hole_sz bytes m =
    (if header_size m header > bytes + sizeof_header + sizeof_footer then
       let block_footer = header + sizeof_header + bytes;
           new_hole_header = block_footer + sizeof_footer;
           new_hole_footer = header + sizeof_header + header_size m header;
           m = set_header_size header bytes m;
           m = set_header_used header 1 m;
           m = set_footer_magic block_footer m;
           m = set_footer_header block_footer header m;
           m = set_header_magic new_hole_header m;
           m = set_header_size new_hole_header (hole_sz - bytes - sizeof_header - sizeof_footer) m;
           m = set_header_used new_hole_header 0 m;
           m = set_footer_header new_hole_footer new_hole_header m in
       rbind (kalloc_avl_insert garbage (avl heap) (header_size m new_hole_header) (new_hole_header + sizeof_header))
         (\<lambda>(t, r). Inr (heap\<lparr>avl := t\<rparr>, m))
     else Inr (heap, set_header_used header 1 m))"

definition take_hole ::
  "bool \<Rightarrow> Kalloc_Heap \<Rightarrow> u32 \<Rightarrow> u32 \<Rightarrow> u32 \<Rightarrow> mem \<Rightarrow> (u32 \<times> Kalloc_Heap \<times> mem) res" where
  "take_hole garbage heap user_space bytes alignment m =
    (let hole_header = user_space - sizeof_header in
     rbind (kassert (header_used m hole_header = 0) ''kalloc: found hole in inconsistent state'') (\<lambda>_.
     rbind (kalloc_avl_remove garbage (avl heap) (header_size m hole_header) user_space) (\<lambda>(t, r).
     let heap = heap\<lparr>avl := t\<rparr>;
         hole_sz = header_size m hole_header;
         aligned_user_space = get_aligned_address user_space alignment;
         aligned_header = aligned_user_space - sizeof_header in
     rbind (kassert (aligned_user_space \<ge> user_space)
              ''kalloc: aligned space must be greater or equal to original space'') (\<lambda>_.
     rbind (if aligned_user_space > user_space
            then rbind (merge_slack heap hole_header aligned_header m)
                   (\<lambda>m. Inr (m, hole_sz - (aligned_user_space - user_space)))
            else Inr (m, hole_sz)) (\<lambda>(m, hole_sz).
     let m = set_header_magic aligned_header m;
         m = set_header_used aligned_header 0 m;
         m = set_header_size aligned_header hole_sz m in
     rbind (split_block garbage heap aligned_header hole_sz bytes m) (\<lambda>(heap, m).
     Inr (aligned_user_space, heap, m)))))))"

text \<open>One more page at the end: a new hole, or more room in the hole that ends the heap.\<close>

definition expand_heap ::
  "bool \<Rightarrow> 'p pager \<Rightarrow> Kalloc_Heap \<Rightarrow> mem \<Rightarrow> 'p \<Rightarrow> (Kalloc_Heap \<times> mem \<times> 'p) res" where
  "expand_heap garbage pager heap m p =
    rbind (pager ((initial_addr heap + heap_size heap) div PAGE_SIZE) m p) (\<lambda>(m, p).
    let last_footer = initial_addr heap + heap_size heap - sizeof_footer;
        last_header = footer_header m last_footer;
        heap = heap\<lparr>heap_size := heap_size heap + PAGE_SIZE\<rparr> in
    if header_used m last_header \<noteq> 0 then
      let new_hole_header = last_footer + sizeof_footer;
          new_hole_footer = new_hole_header + PAGE_SIZE - sizeof_footer;
          m = set_header_magic new_hole_header m;
          m = set_header_size new_hole_header (PAGE_SIZE - sizeof_header - sizeof_footer) m;
          m = set_header_used new_hole_header 0 m;
          m = set_footer_magic new_hole_footer m;
          m = set_footer_header new_hole_footer new_hole_header m in
      rbind (kalloc_avl_insert garbage (avl heap) (header_size m new_hole_header) (new_hole_header + sizeof_header))
        (\<lambda>(t, r). Inr (heap\<lparr>avl := t\<rparr>, m, p))
    else
      let new_footer = initial_addr heap + heap_size heap - sizeof_footer;
          m = set_footer_magic new_footer m;
          m = set_footer_header new_footer last_header m in
      rbind (kalloc_avl_remove garbage (avl heap) (header_size m last_header) (last_header + sizeof_header)) (\<lambda>(t, r).
      let m = set_header_size last_header (header_size m last_header + PAGE_SIZE) m in
      rbind (kalloc_avl_insert garbage t (header_size m last_header) (last_header + sizeof_header)) (\<lambda>(t, r).
      Inr (heap\<lparr>avl := t\<rparr>, m, p))))"

partial_function (option) kalloc_heap_alloc ::
  "bool \<Rightarrow> 'p pager \<Rightarrow> u32 \<Rightarrow> u32 \<Rightarrow> Kalloc_Heap \<Rightarrow> mem \<Rightarrow> 'p \<Rightarrow>
     (u32 \<times> Kalloc_Heap \<times> mem \<times> 'p) res option" where
  "kalloc_heap_alloc garbage pager bytes alignment heap m p =
    (let user_space = kalloc_avl_find_hole (avl heap) bytes alignment in
     if user_space \<noteq> 0 then
       Some (rbind (take_hole garbage heap user_space bytes alignment m)
               (\<lambda>(user_space, heap, m). Inr (user_space, heap, m, p)))
     else case expand_heap garbage pager heap m p of
       Inl e \<Rightarrow> Some (Inl e)
     | Inr (heap, m, p) \<Rightarrow> kalloc_heap_alloc garbage pager bytes alignment heap m p)"

section \<open>kalloc\_heap\_free\<close>

definition merge_previous ::
  "bool \<Rightarrow> Kalloc_Heap \<Rightarrow> u32 \<Rightarrow> u32 \<Rightarrow> mem \<Rightarrow> (u32 \<times> Kalloc_Heap \<times> mem) res" where
  "merge_previous garbage heap header footer m =
    (if header \<noteq> initial_addr heap then
       let previous_footer = header - sizeof_footer;
           previous_header = footer_header m previous_footer in
       if header_used m previous_header = 0 then
         rbind (kalloc_avl_remove garbage (avl heap) (header_size m previous_header) (previous_header + sizeof_header))
           (\<lambda>(t, r).
           let m = set_header_size previous_header
                     (header_size m previous_header + (header_size m header + sizeof_header + sizeof_footer)) m;
               m = set_footer_header footer previous_header m in
           Inr (previous_header, heap\<lparr>avl := t\<rparr>, m))
       else Inr (header, heap, m)
     else Inr (header, heap, m))"

definition merge_next ::
  "bool \<Rightarrow> Kalloc_Heap \<Rightarrow> u32 \<Rightarrow> u32 \<Rightarrow> mem \<Rightarrow> (Kalloc_Heap \<times> mem) res" where
  "merge_next garbage heap header footer m =
    (if footer \<noteq> initial_addr heap + heap_size heap - sizeof_footer then
       let next_header = footer + sizeof_footer;
           next_footer = next_header + sizeof_header + header_size m next_header in
       if header_used m next_header = 0 then
         rbind (kalloc_avl_remove garbage (avl heap) (header_size m next_header) (next_header + sizeof_header))
           (\<lambda>(t, r).
           let m = set_header_size header
                     (header_size m header + (header_size m next_header + sizeof_header + sizeof_footer)) m;
               m = set_footer_header next_footer header m in
           Inr (heap\<lparr>avl := t\<rparr>, m))
       else Inr (heap, m)
     else Inr (heap, m))"

definition kalloc_heap_free :: "bool \<Rightarrow> Kalloc_Heap \<Rightarrow> u32 \<Rightarrow> mem \<Rightarrow> (Kalloc_Heap \<times> mem) res" where
  "kalloc_heap_free garbage heap user_ptr m =
    (let header = user_ptr - sizeof_header;
         footer = user_ptr + header_size m header in
     rbind (kassert (header_used m header = 1) ''kalloc: found hole in inconsistent state'') (\<lambda>_.
     rbind (merge_previous garbage heap header footer m) (\<lambda>(header, heap, m).
     rbind (merge_next garbage heap header footer m) (\<lambda>(heap, m).
     let m = set_header_used header 0 m in
     rbind (kalloc_avl_insert garbage (avl heap) (header_size m header) (header + sizeof_header)) (\<lambda>(t, r).
     Inr (heap\<lparr>avl := t\<rparr>, m))))))"

section \<open>kalloc.c\<close>

definition KERNEL_HEAP_ADDRESS :: u32 where "KERNEL_HEAP_ADDRESS = 0x00500000"

definition kalloc_init ::
  "bool \<Rightarrow> 'p pager \<Rightarrow> u32 \<Rightarrow> mem \<Rightarrow> 'p \<Rightarrow> (u32 \<times> Kalloc_Heap \<times> mem \<times> 'p) res option" where
  "kalloc_init garbage pager initial_pages m p =
    (case kalloc_heap_create garbage pager KERNEL_HEAP_ADDRESS initial_pages m p of
       Inl e \<Rightarrow> Some (Inl e)
     | Inr (heap, m, p) \<Rightarrow> kalloc_heap_alloc garbage pager 1 0 heap m p)"

definition kalloc_alloc where
  "kalloc_alloc garbage pager bytes heap m p = kalloc_heap_alloc garbage pager bytes 0x0 heap m p"

definition kalloc_alloc_aligned where
  "kalloc_alloc_aligned garbage pager bytes alignment heap m p =
    kalloc_heap_alloc garbage pager bytes alignment heap m p"

definition kalloc_free where
  "kalloc_free garbage user_ptr heap m = kalloc_heap_free garbage heap user_ptr m"

definition kalloc_realloc ::
  "bool \<Rightarrow> 'p pager \<Rightarrow> u32 \<Rightarrow> u32 \<Rightarrow> u32 \<Rightarrow> Kalloc_Heap \<Rightarrow> mem \<Rightarrow> 'p \<Rightarrow>
     (u32 \<times> Kalloc_Heap \<times> mem \<times> 'p) res option" where
  "kalloc_realloc garbage pager user_ptr old_size new_size heap m p =
    (if new_size \<le> old_size then Some (Inr (user_ptr, heap, m, p))
     else case kalloc_heap_alloc garbage pager new_size 0x0 heap m p of
       None \<Rightarrow> None
     | Some r \<Rightarrow> Some (rbind r (\<lambda>(new, heap, m, p).
         rbind (kalloc_free garbage user_ptr heap (memcpy new user_ptr old_size m)) (\<lambda>(heap, m).
         Inr (new, heap, m, p)))))"

end
