(* ===== verification/Paging.thy ===== *)
theory Paging
  imports Paging_State Kalloc_Heap
begin

text \<open>
  src/src/paging.c: the identity mapping built before paging is enabled, the pages of
  the kernel and of the processes, and the address spaces of processes.

  An operation that may allocate from the heap carries the heap, the byte memory and
  the paging state; creating a kernel page is the page source of the heap.
\<close>

section \<open>Before paging is enabled\<close>

definition table_address :: "nat \<Rightarrow> u32" where
  "table_address i = KERNEL_PAGE_TABLES_ADDRESS + of_nat i * 0x1000"

definition nulls :: "Kernel \<Rightarrow> nat" where
  "nulls k = card {i. i < 1024 \<and> tables (kernel_dir k) i = 0}"

text \<open>The pointer to a new table, its representation for the processor, and an empty table.\<close>

definition enter_pre_paging_table :: "nat \<Rightarrow> Kernel \<Rightarrow> Kernel" where
  "enter_pre_paging_table i k =
    (let pd = kernel_page_directory k; a = table_address i in
     clear_table a (set_x86 pd i (a OR 0x7) (set_table pd i a k)))"

definition kernel_entry :: "u32 \<Rightarrow> Page_Entry" where
  "kernel_entry frame_num = zero_entry\<lparr>present := True, user_mode := False, writable := True,
     frame_address_20_bits := ucast frame_num\<rparr>"

lemma table_address_nonzero: "i < 1024 \<Longrightarrow> table_address i \<noteq> 0"
proof -
  assume "i < 1024"
  then have "unat (0x100000 + of_nat i * 0x1000 :: u32) = 0x100000 + i * 0x1000"
    by (simp add: word_nat)
  then show ?thesis
    unfolding table_address_def KERNEL_PAGE_TABLES_ADDRESS_def by (metis add_eq_0_iff_both_eq_0 unat_0 zero_neq_numeral)
qed

lemma nulls_set_table:
  assumes "i < 1024" "tables (kernel_dir k) i = 0" "kernel_dir k' = (kernel_dir k)\<lparr>tables := (tables (kernel_dir k))(i := a)\<rparr> \<or>
    tables (kernel_dir k') = (tables (kernel_dir k))(i := a)" "a \<noteq> 0"
  shows "nulls k = Suc (nulls k')"
proof -
  have t: "tables (kernel_dir k') = (tables (kernel_dir k))(i := a)" using assms(3) by auto
  have "{j. j < 1024 \<and> tables (kernel_dir k) j = 0} = insert i {j. j < 1024 \<and> tables (kernel_dir k') j = 0}"
    using assms(1,2,4) by (auto simp: t)
  moreover have "i \<notin> {j. j < 1024 \<and> tables (kernel_dir k') j = 0}" using assms(4) by (simp add: t)
  ultimately show ?thesis by (simp add: nulls_def)
qed

lemma kernel_dir_enter:
  "tables (kernel_dir (enter_pre_paging_table i k)) = (tables (kernel_dir k))(i := table_address i)"
  by (simp add: enter_pre_paging_table_def Let_def store_defs)

function create_pre_paging_mapping :: "u32 \<Rightarrow> u32 \<Rightarrow> Kernel \<Rightarrow> Kernel res" where
  "create_pre_paging_mapping page_num frame_num k =
    (let i = unat (page_num div 1024); j = unat (page_num mod 1024) in
     if 1024 \<le> i then Inl Out_of_bounds
     else rbind (if tables (kernel_dir k) i = 0
                 then let vpn = table_address i div 0x1000 in
                   create_pre_paging_mapping vpn vpn (enter_pre_paging_table i k)
                 else Inr k) (\<lambda>k.
       rbind (bitmap_set (available_frames k) frame_num) (\<lambda>bm.
       Inr (set_entry (tables (kernel_dir k) i) j (kernel_entry frame_num) (k\<lparr>available_frames := bm\<rparr>)))))"
  by pat_completeness auto
termination
proof (relation "measure (\<lambda>(p, f, k). nulls k)", goal_cases)
  case (2 page_num frame_num k i j vpn)
  then show ?case
    using nulls_set_table [of i k "enter_pre_paging_table i k" "table_address i"] table_address_nonzero [of i]
    by (simp add: kernel_dir_enter)
qed simp

declare create_pre_paging_mapping.simps [simp del]

definition create_pre_paging_page_table :: "nat \<Rightarrow> Kernel \<Rightarrow> Kernel res" where
  "create_pre_paging_page_table i k =
    (if 1024 \<le> i then Inl Out_of_bounds
     else let vpn = table_address i div 0x1000 in
       create_pre_paging_mapping vpn vpn (enter_pre_paging_table i k))"

definition reserve_pre_paging_space :: "u32 \<Rightarrow> mem \<Rightarrow> Kernel \<Rightarrow> u32 \<times> mem \<times> Kernel" where
  "reserve_pre_paging_space bytes m k =
    (let addr = final_kernel_code_data_addr k in
     (addr, memset addr 0 bytes m, k\<lparr>final_kernel_code_data_addr := addr + bytes\<rparr>))"

definition reserve_pre_paging_aligned_space :: "u32 \<Rightarrow> mem \<Rightarrow> Kernel \<Rightarrow> u32 \<times> mem \<times> Kernel" where
  "reserve_pre_paging_aligned_space bytes m k =
    (let a = final_kernel_code_data_addr k;
         addr = (if a AND 0xFFFFF000 \<noteq> 0 then (a AND 0xFFFFF000) + 0x1000 else a) in
     (addr, memset addr 0 bytes m, k\<lparr>final_kernel_code_data_addr := addr + bytes\<rparr>))"

section \<open>Looking up addresses and pages\<close>

definition get_physical_address_of_virtual_address :: "u32 \<Rightarrow> u32 \<Rightarrow> Kernel \<Rightarrow> u32 res" where
  "get_physical_address_of_virtual_address pd virtual_addr k =
    (let page_num = virtual_addr div 4096; page_offset = virtual_addr mod 4096;
         table_num = unat (page_num div 1024); j = unat (page_num mod 1024);
         t = tables (directory k pd) table_num in
     if t = 0 then Inl Null_deref
     else Inr (ucast (frame_address_20_bits (page_tables k t j)) * 0x1000 + page_offset))"

definition paging_get_page_directory_x86_tables_frame_address :: "u32 \<Rightarrow> Kernel \<Rightarrow> u32 res" where
  "paging_get_page_directory_x86_tables_frame_address pd k =
    rbind (get_physical_address_of_virtual_address (kernel_page_directory k) pd k) (\<lambda>a. Inr (a + 4096))"

definition paging_get_page_frame_address :: "u32 \<Rightarrow> u32 \<Rightarrow> Kernel \<Rightarrow> u32 res" where
  "paging_get_page_frame_address pd page_num k =
    get_physical_address_of_virtual_address pd (page_num * 0x1000) k"

definition KERNEL_STACK_ADDRESS_IN_PROCESS_ADDRESS_SPACE :: u32 where
  "KERNEL_STACK_ADDRESS_IN_PROCESS_ADDRESS_SPACE = 0xF0000000"
definition KERNEL_STACK_RESERVED_PAGES_IN_PROCESS_ADDRESS_SPACE :: u32 where
  "KERNEL_STACK_RESERVED_PAGES_IN_PROCESS_ADDRESS_SPACE = 2048"

definition is_page_part_of_kernel_stack_in_process_address_space :: "u32 \<Rightarrow> bool" where
  "is_page_part_of_kernel_stack_in_process_address_space page_num \<longleftrightarrow>
    (let last = KERNEL_STACK_ADDRESS_IN_PROCESS_ADDRESS_SPACE div 0x1000;
         first = last - KERNEL_STACK_RESERVED_PAGES_IN_PROCESS_ADDRESS_SPACE in
     first \<le> page_num \<and> page_num \<le> last)"

definition page_exist :: "u32 \<Rightarrow> u32 \<Rightarrow> Kernel \<Rightarrow> bool res" where
  "page_exist pd page_num k =
    rbind (table_index page_num) (\<lambda>i.
    let t = tables (directory k pd) i in
    Inr (t \<noteq> 0 \<and> present (page_tables k t (unat (page_num mod 1024)))))"

text \<open>The page entry is the pair of the table's address and the index in it.\<close>

definition get_page :: "u32 \<Rightarrow> u32 \<Rightarrow> Kernel \<Rightarrow> (u32 \<times> nat) res" where
  "get_page pd page_num k =
    rbind (table_index page_num) (\<lambda>i.
    let t = tables (directory k pd) i; j = unat (page_num mod 1024) in
    rbind (kassert (t \<noteq> 0) ''Trying to get page from a table that is not created'') (\<lambda>_.
    rbind (kassert (present (page_tables k t j)) ''Trying to get a page that doesn't exist!'') (\<lambda>_.
    Inr (t, j))))"

section \<open>The test byte of a new page\<close>

text \<open>
  The first byte of a page entry.  A page that holds a page table keeps the byte in
  the entry 0 of that table; every other page of the kernel's half keeps it in the
  byte memory.
\<close>

definition low_byte :: "Page_Entry \<Rightarrow> u8" where
  "low_byte e = of_bool (present e) OR push_bit 1 (of_bool (writable e)) OR push_bit 2 (of_bool (user_mode e)) OR
     push_bit 3 (ucast (reserved e)) OR push_bit 5 (of_bool (accessed e)) OR push_bit 6 (of_bool (dirty e)) OR
     push_bit 7 (ucast (reserved2 e))"

definition set_low_byte :: "u8 \<Rightarrow> Page_Entry \<Rightarrow> Page_Entry" where
  "set_low_byte b e = e\<lparr>present := bit b 0, writable := bit b 1, user_mode := bit b 2,
     reserved := ucast (drop_bit 3 b), accessed := bit b 5, dirty := bit b 6,
     reserved2 := (reserved2 e AND 2) OR of_bool (bit b 7)\<rparr>"

definition is_table_page :: "u32 \<Rightarrow> bool" where
  "is_table_page a \<longleftrightarrow> KERNEL_PAGE_TABLES_ADDRESS \<le> a \<and> a < KERNEL_PAGE_TABLES_ADDRESS + 0x400000"

text \<open>
  The kernel's gigabyte is the byte memory; above it an address is translated by the
  loaded page directory, and the byte is in a physical frame.
\<close>

definition translate :: "u32 \<Rightarrow> Kernel \<Rightarrow> u32 res" where
  "translate a k =
    (let t = tables (directory k (loaded_directory k)) (unat (a div 4096 div 1024));
         e = page_tables k t (unat (a div 4096 mod 1024)) in
     if t = 0 \<or> \<not> present e then Inl Page_fault
     else Inr (ucast (frame_address_20_bits e) * 0x1000 + a mod 4096))"

definition write_byte :: "u32 \<Rightarrow> u8 \<Rightarrow> mem \<Rightarrow> Kernel \<Rightarrow> (mem \<times> Kernel) res" where
  "write_byte a v m k =
    (if a < 0x40000000 then Inr (m(a := v), k)
     else rbind (translate a k) (\<lambda>p. Inr (m, k\<lparr>phys := (phys k)(p := v)\<rparr>)))"

definition read_byte :: "u32 \<Rightarrow> mem \<Rightarrow> Kernel \<Rightarrow> u8 res" where
  "read_byte a m k =
    (if a < 0x40000000 then Inr (m a) else rbind (translate a k) (\<lambda>p. Inr (phys k p)))"

definition test_write :: "u32 \<Rightarrow> mem \<Rightarrow> Kernel \<Rightarrow> (mem \<times> Kernel) res" where
  "test_write a m k =
    (if is_table_page a then Inr (m, set_entry a 0 (set_low_byte 0xAB (page_tables k a 0)) k)
     else write_byte a 0xAB m k)"

definition test_read :: "u32 \<Rightarrow> mem \<Rightarrow> Kernel \<Rightarrow> u8 res" where
  "test_read a m k = (if is_table_page a then Inr (low_byte (page_tables k a 0)) else read_byte a m k)"

section \<open>Kernel pages\<close>

text \<open>Give a present, writable frame to entry \<open>j\<close> of table \<open>t\<close>, and test the page.\<close>

definition allocate_frame ::
  "u32 \<Rightarrow> nat \<Rightarrow> u32 \<Rightarrow> bool \<Rightarrow> mem \<Rightarrow> Kernel \<Rightarrow> (u32 \<times> mem \<times> Kernel) res" where
  "allocate_frame t j page_num user m k =
    rbind (kassert (\<not> present (page_tables k t j)) ''Trying to create page that already exists!'') (\<lambda>_.
    rbind (bitmap_get_first_clear (available_frames k)) (\<lambda>allocd_frame.
    rbind (bitmap_set (available_frames k) allocd_frame) (\<lambda>bm.
    let k = k\<lparr>available_frames := bm\<rparr>;
        k = set_entry t j ((page_tables k t j)\<lparr>present := True, user_mode := user, writable := True,
              frame_address_20_bits := ucast allocd_frame\<rparr>) k in
    rbind (test_write (page_num * 0x1000) m k) (\<lambda>(m, k).
    rbind (test_read (page_num * 0x1000) m k) (\<lambda>b.
    rbind (kassert (b = 0xAB) ''A non-addressable frame was chosen'') (\<lambda>_.
    Inr (allocd_frame, m, k)))))))"

function paging_create_kernel_page_with_any_frame ::
  "u32 \<Rightarrow> mem \<Rightarrow> Kernel \<Rightarrow> (u32 \<times> mem \<times> Kernel) res" where
  "paging_create_kernel_page_with_any_frame page_num m k =
    (let i = unat (page_num div 1024); j = unat (page_num mod 1024); pd = kernel_page_directory k in
     if 1024 \<le> i then Inl Out_of_bounds
     else rbind (if tables (kernel_dir k) i = 0
        then let virtual_page_address = table_address i in
          rbind (paging_create_kernel_page_with_any_frame (virtual_page_address div 0x1000) m
                  (set_table pd i virtual_page_address k)) (\<lambda>(allocd_frame, m, k).
          let x86 = (allocd_frame * 0x1000) OR 0x7;
              k = clear_table virtual_page_address (set_x86 pd i x86 k) in
          rbind (process_link_kernel_table_to_all_address_spaces virtual_page_address i x86 k) (\<lambda>k.
          Inr (m, k)))
        else Inr (m, k)) (\<lambda>(m, k).
       allocate_frame (tables (directory k pd) i) j page_num False m k))"
  by pat_completeness auto
termination
proof (relation "measure (\<lambda>(p, m, k). nulls k)", goal_cases)
  case (2 page_num m k i j pd a)
  then show ?case
    using nulls_set_table [of i k "set_table pd i a k" a] table_address_nonzero [of i]
    by (simp add: store_defs)
qed simp

declare paging_create_kernel_page_with_any_frame.simps [simp del]

text \<open>The page source of the kernel heap.\<close>

definition kernel_pager :: "Kernel pager" where
  "kernel_pager page_num m k =
    rbind (paging_create_kernel_page_with_any_frame page_num m k) (\<lambda>(f, m, k). Inr (m, k))"

section \<open>paging\_init\<close>

text \<open>
  \<open>behind\<close> is the memory that follows the array of the frame bitmap.  Each loop maps
  the pages of a list to the frames of the same number.
\<close>

fun create_page_tables :: "nat list \<Rightarrow> Kernel \<Rightarrow> Kernel res" where
  "create_page_tables [] k = Inr k"
| "create_page_tables (i # is) k = rbind (create_pre_paging_page_table i k) (create_page_tables is)"

fun identity_map :: "u32 list \<Rightarrow> Kernel \<Rightarrow> Kernel res" where
  "identity_map [] k = Inr k"
| "identity_map (p # ps) k = rbind (create_pre_paging_mapping p p k) (identity_map ps)"

fun mark_frames :: "u32 list \<Rightarrow> Kernel \<Rightarrow> Kernel res" where
  "mark_frames [] k = Inr k"
| "mark_frames (f # fs) k =
    rbind (bitmap_set (available_frames k) f) (\<lambda>bm. mark_frames fs (k\<lparr>available_frames := bm\<rparr>))"

definition stack_pages :: "u32 list" where
  "stack_pages = map (\<lambda>i. KERNEL_STACK_ADDRESS div 0x1000 - of_nat i) [0..<unat KERNEL_STACK_RESERVED_PAGES]"

definition video_pages :: "u32 list" where
  "video_pages = map of_nat [0xA0..<0xC0]"

definition code_pages :: "u32 \<Rightarrow> u32 list" where
  "code_pages final = map of_nat [0..<(unat final + 0xFFF) div 0x1000]"

definition low_frames :: "u32 list" where
  "low_frames = map of_nat [0..<0x100]"

text \<open>Loading the page directory \<open>pd\<close>: the processor gets the frame address of its x86 half.\<close>

definition paging_switch_page_directory :: "u32 \<Rightarrow> u32 \<Rightarrow> Kernel \<Rightarrow> Kernel" where
  "paging_switch_page_directory pd frame_addr k = k\<lparr>loaded_directory := pd, cr3 := frame_addr\<rparr>"

definition paging_init :: "u8 list \<Rightarrow> mem \<Rightarrow> Kernel \<Rightarrow> (mem \<times> Kernel) res" where
  "paging_init behind m k =
    (let k = k\<lparr>available_frames := bitmap_init (replicate (unat (AVAILABLE_FRAMES_NUM div 8)) 0 @ behind)
               (AVAILABLE_FRAMES_NUM div 8)\<rparr>;
         (pd, m, k) = reserve_pre_paging_aligned_space 8192 m k;
         k = k\<lparr>kernel_page_directory := pd, page_directories := (page_directories k)(pd := zero_directory)\<rparr>;
         first_page_table_index = unat (KERNEL_PAGE_TABLES_ADDRESS div 0x1000 div 1024);
         last_page_table_index = unat ((KERNEL_PAGE_TABLES_ADDRESS + 0x400000) div 0x1000 div 1024) in
     rbind (create_page_tables [first_page_table_index..<Suc last_page_table_index] k) (\<lambda>k.
     rbind (identity_map stack_pages k) (\<lambda>k.
     rbind (identity_map video_pages k) (\<lambda>k.
     rbind (identity_map (code_pages (final_kernel_code_data_addr k)) k) (\<lambda>k.
     rbind (mark_frames low_frames k) (\<lambda>k.
     Inr (m, paging_switch_page_directory (kernel_page_directory k) (kernel_page_directory k + 4096) k)))))))"

section \<open>Reports\<close>

text \<open>
  The page fault handler prints what the error code says, and panics.  \<open>hex\<close> is the
  text of the faulting address.
\<close>

definition page_fault_text :: "u32 \<Rightarrow> string \<Rightarrow> string" where
  "page_fault_text err_code hex =
    ''Page fault! ( '' @ (if err_code AND 0x1 = 0 then ''present '' else []) @
    (if err_code AND 0x2 \<noteq> 0 then ''read-only '' else []) @ (if err_code AND 0x4 \<noteq> 0 then ''user-mode '' else []) @
    (if err_code AND 0x8 \<noteq> 0 then ''reserved '' else []) @ '') at 0x'' @ hex @ [CHR 0x0A]"

definition page_fault_handler :: "u32 \<Rightarrow> string \<Rightarrow> string \<times> unit res" where
  "page_fault_handler err_code hex = (page_fault_text err_code hex, Inl (Panic ''Page fault''))"

text \<open>The addresses that \<open>print_all_present_pages\<close> prints, in its order.\<close>

definition print_all_present_pages :: "u32 \<Rightarrow> Kernel \<Rightarrow> u32 list" where
  "print_all_present_pages pd k =
    concat (map (\<lambda>i. let t = tables (directory k pd) i in
      if t = 0 then []
      else concat (map (\<lambda>j. if present (page_tables k t j) then [0x400000 * of_nat i + 0x1000 * of_nat j] else [])
             [0..<1024])) [0..<1024])"

definition paging_get_kernel_page_directory :: "Kernel \<Rightarrow> u32" where
  "paging_get_kernel_page_directory k = kernel_page_directory k"

end
