(* ===== verification/Heap_Blocks.thy ===== *)
theory Heap_Blocks
  imports Kalloc_Heap Kalloc_Avl_Correct
begin

text \<open>
  The shape of the kernel heap in byte memory: addresses as natural numbers, reads
  after writes, and the chain of blocks that headers and footers describe.
\<close>

section \<open>Addresses\<close>

text \<open>
  \<open>adr n\<close> is the machine word of the number \<open>n\<close>.  The rules push address arithmetic
  inside \<open>adr\<close>, where it is linear arithmetic on natural numbers.
\<close>

definition adr :: "nat \<Rightarrow> u32" where
  "adr = of_nat"

lemma adr_add [simp]: "adr a + adr b = adr (a + b)"
  by (simp add: adr_def)

lemma adr_add_numeral [simp]: "adr a + numeral k = adr (a + numeral k)" "adr a + 1 = adr (a + 1)"
  "numeral k + adr a = adr (numeral k + a)"
  by (simp_all add: adr_def)

lemma adr_sub: "b \<le> a \<Longrightarrow> adr a - adr b = adr (a - b)"
  by (simp add: adr_def of_nat_diff)

lemma adr_sub_numeral: "numeral k \<le> a \<Longrightarrow> adr a - numeral k = adr (a - numeral k)"
  by (simp add: adr_def of_nat_diff)

lemma unat_adr [simp]: "a < 4294967296 \<Longrightarrow> unat (adr a) = a"
  by (simp add: adr_def unat_of_nat32)

lemma adr_unat [simp]: "adr (unat w) = w"
  by (simp add: adr_def)

lemma adr_inject: "a < 4294967296 \<Longrightarrow> b < 4294967296 \<Longrightarrow> adr a = adr b \<longleftrightarrow> a = b"
  by (metis unat_adr)

lemma adr_less: "a < 4294967296 \<Longrightarrow> b < 4294967296 \<Longrightarrow> adr a < adr b \<longleftrightarrow> a < b"
  by (simp add: word_less_nat_alt)

lemma adr_le: "a < 4294967296 \<Longrightarrow> b < 4294967296 \<Longrightarrow> adr a \<le> adr b \<longleftrightarrow> a \<le> b"
  by (simp add: word_le_nat_alt)

lemma adr_numeral: "numeral k = adr (numeral k)" "1 = adr 1" "0 = adr 0"
  by (simp_all add: adr_def)

lemma adr_eq_0: "a < 4294967296 \<Longrightarrow> adr a = 0 \<longleftrightarrow> a = 0"
  using adr_inject [of a 0] by (simp add: adr_def)

lemmas adr_order = adr_inject adr_less adr_le

section \<open>Reading what was written\<close>

lemma word_offsets [simp]:
  "(a :: u32) + 1 \<noteq> a" "a + 2 \<noteq> a" "a + 3 \<noteq> a" "a + 2 \<noteq> a + 1" "a + 3 \<noteq> a + 1" "a + 3 \<noteq> a + 2"
  by simp_all

lemma rd16_wr16 [simp]: "rd16 (wr16 a v m) a = v"
proof -
  have "ucast (ucast v :: u8) OR push_bit 8 (ucast (ucast (drop_bit 8 v) :: u8)) = v"
    by (rule bit_word_eqI) (auto simp: bit_simps)
  then show ?thesis by (simp add: rd16_def wr16_def)
qed

lemma rd32_wr32 [simp]: "rd32 (wr32 a v m) a = v"
proof -
  have "ucast (ucast v :: u8) OR push_bit 8 (ucast (ucast (drop_bit 8 v) :: u8)) OR
      push_bit 16 (ucast (ucast (drop_bit 16 v) :: u8)) OR push_bit 24 (ucast (ucast (drop_bit 24 v) :: u8)) = v"
    (is "?l = v")
  proof (rule bit_word_eqI)
    fix n assume "n < LENGTH(32)"
    then consider "n < 8" | "8 \<le> n" "n < 16" | "16 \<le> n" "n < 24" | "24 \<le> n" "n < 32"
      by (simp only: len_num1 len_bit0) linarith
    then show "bit ?l n = bit v n"
      by cases (auto simp: bit_simps)
  qed
  then show ?thesis by (simp add: rd32_def wr32_def)
qed

text \<open>\<open>outside lo hi m m'\<close>: the memories differ at most in the bytes from \<open>lo\<close> to below \<open>hi\<close>.\<close>

definition outside :: "nat \<Rightarrow> nat \<Rightarrow> mem \<Rightarrow> mem \<Rightarrow> bool" where
  "outside lo hi m m' \<longleftrightarrow> (\<forall>x. x < 4294967296 \<longrightarrow> x < lo \<or> hi \<le> x \<longrightarrow> m' (adr x) = m (adr x))"

lemma outsideD: "outside lo hi m m' \<Longrightarrow> x < 4294967296 \<Longrightarrow> x < lo \<or> hi \<le> x \<Longrightarrow> m' (adr x) = m (adr x)"
  unfolding outside_def by blast

lemma outside_refl [simp]: "outside lo hi m m"
  by (simp add: outside_def)

lemma outside_trans: "outside lo hi m m' \<Longrightarrow> outside lo hi m' m'' \<Longrightarrow> outside lo hi m m''"
  by (simp add: outside_def)

lemma outside_mono: "outside lo hi m m' \<Longrightarrow> lo' \<le> lo \<Longrightarrow> hi \<le> hi' \<Longrightarrow> outside lo' hi' m m'"
  by (auto simp: outside_def)

lemma outside_wr16: "a + 2 \<le> 4294967296 \<Longrightarrow> outside a (a + 2) m (wr16 (adr a) v m)"
  by (auto simp: outside_def wr16_def adr_inject)

lemma outside_wr32: "a + 4 \<le> 4294967296 \<Longrightarrow> outside a (a + 4) m (wr32 (adr a) v m)"
  by (auto simp: outside_def wr32_def adr_inject)

lemma outside_wr [intro]:
  "outside lo hi m m' \<Longrightarrow> lo \<le> x \<Longrightarrow> x + 2 \<le> hi \<Longrightarrow> hi \<le> 4294967296 \<Longrightarrow> outside lo hi m (wr16 (adr x) v16 m')"
  "outside lo hi m m' \<Longrightarrow> lo \<le> x \<Longrightarrow> x + 4 \<le> hi \<Longrightarrow> hi \<le> 4294967296 \<Longrightarrow> outside lo hi m (wr32 (adr x) v m')"
  by (erule outside_trans, rule outside_mono [OF outside_wr16], simp_all)
     (erule outside_trans, rule outside_mono [OF outside_wr32], simp_all)

lemma rd16_outside:
  "outside lo hi m m' \<Longrightarrow> b + 2 \<le> 4294967296 \<Longrightarrow> b + 2 \<le> lo \<or> hi \<le> b \<Longrightarrow> rd16 m' (adr b) = rd16 m (adr b)"
  unfolding rd16_def adr_add_numeral by (elim disjE) (simp_all add: outsideD [of lo hi m m'])

lemma rd32_outside:
  "outside lo hi m m' \<Longrightarrow> b + 4 \<le> 4294967296 \<Longrightarrow> b + 4 \<le> lo \<or> hi \<le> b \<Longrightarrow> rd32 m' (adr b) = rd32 m (adr b)"
  unfolding rd32_def adr_add_numeral by (elim disjE) (simp_all add: outsideD [of lo hi m m'])

lemma byte_wr [simp]:
  "a + 2 \<le> 4294967296 \<Longrightarrow> x < 4294967296 \<Longrightarrow> x < a \<or> a + 2 \<le> x \<Longrightarrow> wr16 (adr a) v16 m (adr x) = m (adr x)"
  "a + 4 \<le> 4294967296 \<Longrightarrow> x < 4294967296 \<Longrightarrow> x < a \<or> a + 4 \<le> x \<Longrightarrow> wr32 (adr a) v m (adr x) = m (adr x)"
  by (rule outsideD [OF outside_wr16], assumption+) (rule outsideD [OF outside_wr32], assumption+)

text \<open>Reads of one field after a write to another one.\<close>

lemma rd_wr_after:
  "a + 4 \<le> b \<Longrightarrow> b + 4 \<le> 4294967296 \<Longrightarrow> rd32 (wr32 (adr a) v m) (adr b) = rd32 m (adr b)"
  "a + 2 \<le> b \<Longrightarrow> b + 4 \<le> 4294967296 \<Longrightarrow> rd32 (wr16 (adr a) v16 m) (adr b) = rd32 m (adr b)"
  "a + 4 \<le> b \<Longrightarrow> b + 2 \<le> 4294967296 \<Longrightarrow> rd16 (wr32 (adr a) v m) (adr b) = rd16 m (adr b)"
  "a + 2 \<le> b \<Longrightarrow> b + 2 \<le> 4294967296 \<Longrightarrow> rd16 (wr16 (adr a) v16 m) (adr b) = rd16 m (adr b)"
  by (rule rd32_outside [OF outside_wr32] rd32_outside [OF outside_wr16]
      rd16_outside [OF outside_wr32] rd16_outside [OF outside_wr16]; simp)+

lemma rd_wr_before:
  "b + 4 \<le> a \<Longrightarrow> a + 4 \<le> 4294967296 \<Longrightarrow> rd32 (wr32 (adr a) v m) (adr b) = rd32 m (adr b)"
  "b + 4 \<le> a \<Longrightarrow> a + 2 \<le> 4294967296 \<Longrightarrow> rd32 (wr16 (adr a) v16 m) (adr b) = rd32 m (adr b)"
  "b + 2 \<le> a \<Longrightarrow> a + 4 \<le> 4294967296 \<Longrightarrow> rd16 (wr32 (adr a) v m) (adr b) = rd16 m (adr b)"
  "b + 2 \<le> a \<Longrightarrow> a + 2 \<le> 4294967296 \<Longrightarrow> rd16 (wr16 (adr a) v16 m) (adr b) = rd16 m (adr b)"
  by (rule rd32_outside [OF outside_wr32] rd32_outside [OF outside_wr16]
      rd16_outside [OF outside_wr32] rd16_outside [OF outside_wr16]; simp)+

lemmas rd_wr = rd_wr_after rd_wr_before

text \<open>The fields of headers and footers, at numbers.\<close>

lemma fields [simp]:
  "header_size m (adr a) = rd32 m (adr (a + 4))"
  "header_used m (adr a) = rd32 m (adr (a + 8))"
  "set_header_magic (adr a) = wr16 (adr a) HEAP_HEADER_MAGIC"
  "set_header_size (adr a) v = wr32 (adr (a + 4)) v"
  "set_header_used (adr a) v = wr32 (adr (a + 8)) v"
  "footer_header m (adr a) = rd32 m (adr (a + 4))"
  "set_footer_magic (adr a) = wr16 (adr a) HEAP_FOOTER_MAGIC"
  "set_footer_header (adr a) v = wr32 (adr (a + 4)) v"
  by (simp_all add: field_defs fun_eq_iff)

lemma sizes [simp]: "sizeof_header = 12" "sizeof_footer = 8" "PAGE_SIZE = 4096"
  by (simp_all add: heap_consts)

section \<open>The chain of blocks\<close>

text \<open>
  A block of \<open>s\<close> user bytes at address \<open>a\<close>; \<open>u\<close> tells whether it is in use.  The
  heap is described by the list of its blocks from left to right.
\<close>

definition block_at :: "mem \<Rightarrow> nat \<Rightarrow> nat \<Rightarrow> bool \<Rightarrow> bool" where
  "block_at m a s u \<longleftrightarrow> rd16 m (adr a) = HEAP_HEADER_MAGIC \<and> rd32 m (adr (a + 4)) = adr s \<and>
     rd32 m (adr (a + 8)) = (if u then 1 else 0) \<and>
     rd16 m (adr (a + s + 12)) = HEAP_FOOTER_MAGIC \<and> rd32 m (adr (a + s + 16)) = adr a"

type_synonym layout = "(nat \<times> bool) list"

fun ext :: "layout \<Rightarrow> nat" where
  "ext [] = 0"
| "ext ((s, u) # bs) = s + 20 + ext bs"

fun chain :: "mem \<Rightarrow> nat \<Rightarrow> layout \<Rightarrow> bool" where
  "chain m a [] = True"
| "chain m a ((s, u) # bs) = (block_at m a s u \<and> chain m (a + s + 20) bs)"

fun free_blocks :: "nat \<Rightarrow> layout \<Rightarrow> (nat \<times> nat) set" where
  "free_blocks a [] = {}"
| "free_blocks a ((s, u) # bs) = (if u then {} else {(s, a + 12)}) \<union> free_blocks (a + s + 20) bs"

fun used_blocks :: "nat \<Rightarrow> layout \<Rightarrow> (nat \<times> nat) set" where
  "used_blocks a [] = {}"
| "used_blocks a ((s, u) # bs) = (if u then {(s, a + 12)} else {}) \<union> used_blocks (a + s + 20) bs"

text \<open>No two neighbours are both holes.\<close>

fun no_adjacent :: "layout \<Rightarrow> bool" where
  "no_adjacent ((s, u) # (t, v) # bs) = ((u \<or> v) \<and> no_adjacent ((t, v) # bs))"
| "no_adjacent _ = True"

lemma ext_append [simp]: "ext (xs @ ys) = ext xs + ext ys"
  by (induction xs rule: ext.induct) simp_all

lemma chain_append [simp]: "chain m a (xs @ ys) \<longleftrightarrow> chain m a xs \<and> chain m (a + ext xs) ys"
  by (induction xs arbitrary: a rule: ext.induct) (simp_all add: add_ac)

lemma free_blocks_append [simp]: "free_blocks a (xs @ ys) = free_blocks a xs \<union> free_blocks (a + ext xs) ys"
  by (induction xs arbitrary: a rule: ext.induct) (simp_all add: add_ac Un_assoc)

lemma used_blocks_append [simp]: "used_blocks a (xs @ ys) = used_blocks a xs \<union> used_blocks (a + ext xs) ys"
  by (induction xs arbitrary: a rule: ext.induct) (simp_all add: add_ac Un_assoc)

lemma no_adjacent_append:
  "no_adjacent (xs @ ys) \<longleftrightarrow> no_adjacent xs \<and> no_adjacent ys \<and>
     (xs = [] \<or> ys = [] \<or> snd (last xs) \<or> snd (hd ys))"
  by (induction xs rule: no_adjacent.induct) (cases ys; auto)+

lemma no_adjacent_Cons: "no_adjacent (x # ys) \<longleftrightarrow> no_adjacent ys \<and> (ys = [] \<or> snd x \<or> snd (hd ys))"
  using no_adjacent_append [of "[x]" ys] by (cases x) auto

lemma free_blocks_range: "(s, p) \<in> free_blocks a bs \<Longrightarrow> a + 12 \<le> p \<and> p + s + 8 \<le> a + ext bs"
  by (induction bs arbitrary: a rule: ext.induct) (fastforce split: if_splits)+

lemma used_blocks_range: "(s, p) \<in> used_blocks a bs \<Longrightarrow> a + 12 \<le> p \<and> p + s + 8 \<le> a + ext bs"
  by (induction bs arbitrary: a rule: ext.induct) (fastforce split: if_splits)+

lemma free_blocksE:
  assumes "(s, p) \<in> free_blocks a bs"
  obtains xs ys where "bs = xs @ (s, False) # ys" "p = a + ext xs + 12"
  using assms
proof (induction bs arbitrary: a thesis rule: ext.induct)
  case (2 t u bs)
  from 2(3) consider "\<not> u" "s = t" "p = a + 12" | "(s, p) \<in> free_blocks (a + t + 20) bs"
    by (auto split: if_splits)
  then show ?case
  proof cases
    case 1
    then show ?thesis using 2(2) [of "[]" bs] by simp
  next
    case 2
    then obtain xs ys where "bs = xs @ (s, False) # ys" "p = a + t + 20 + ext xs + 12"
      using "2.IH" by blast
    then show ?thesis using "2.prems"(1) [of "(t, u) # xs" ys] by simp
  qed
qed simp

lemma used_blocksE:
  assumes "(s, p) \<in> used_blocks a bs"
  obtains xs ys where "bs = xs @ (s, True) # ys" "p = a + ext xs + 12"
  using assms
proof (induction bs arbitrary: a thesis rule: ext.induct)
  case (2 t u bs)
  from 2(3) consider "u" "s = t" "p = a + 12" | "(s, p) \<in> used_blocks (a + t + 20) bs"
    by (auto split: if_splits)
  then show ?case
  proof cases
    case 1
    then show ?thesis using 2(2) [of "[]" bs] by simp
  next
    case 2
    then obtain xs ys where "bs = xs @ (s, True) # ys" "p = a + t + 20 + ext xs + 12"
      using "2.IH" by blast
    then show ?thesis using "2.prems"(1) [of "(t, u) # xs" ys] by simp
  qed
qed simp

text \<open>A block does not see writes elsewhere, nor writes inside its user bytes.\<close>

lemma block_at_outside:
  assumes "block_at m a s u" "outside lo hi m m'" "a + s + 20 \<le> lo \<or> hi \<le> a \<or> a + 12 \<le> lo \<and> hi \<le> a + s + 12"
    "a + s + 20 \<le> 4294967296"
  shows "block_at m' a s u"
  using assms(1,3,4) unfolding block_at_def
  by (auto simp: rd16_outside [OF assms(2)] rd32_outside [OF assms(2)])

lemma chain_outside:
  "chain m a bs \<Longrightarrow> outside lo hi m m' \<Longrightarrow> a + ext bs \<le> lo \<or> hi \<le> a \<Longrightarrow> a + ext bs \<le> 4294967296 \<Longrightarrow>
   chain m' a bs"
proof (induction bs arbitrary: a rule: ext.induct)
  case (2 s u bs)
  then show ?case by (auto intro: block_at_outside)
qed simp

section \<open>Rounding up\<close>

definition align_up :: "nat \<Rightarrow> nat \<Rightarrow> nat" where
  "align_up p al = (if al \<noteq> 0 \<and> p mod al \<noteq> 0 then p - p mod al + al else p)"

definition alignment_ok :: "nat \<Rightarrow> bool" where
  "alignment_ok al \<longleftrightarrow> al = 0 \<or> (\<exists>k \<le> 30. al = 2 ^ k)"

lemma align_up_ge: "p \<le> align_up p al"
proof (cases "al \<noteq> 0 \<and> p mod al \<noteq> 0")
  case True
  then have "p mod al < al" by simp
  then have "p \<le> p - p mod al + al" by linarith
  with True show ?thesis by (simp add: align_up_def)
qed (auto simp: align_up_def)

lemma align_up_lt: "align_up p al \<le> p + al - 1 + (if al = 0 then 1 else 0)"
  using mod_less_eq_dividend [of p al] by (auto simp: align_up_def)

lemma align_up_dvd: "al \<noteq> 0 \<Longrightarrow> al dvd align_up p al"
  by (auto simp: align_up_def minus_mod_eq_div_mult)

lemma and_low: "adr p AND (adr (2 ^ k) - 1) = adr (p mod 2 ^ k)" if "p < 4294967296"
proof -
  have "adr p AND (adr (2 ^ k) - 1) = take_bit k (adr p)"
    by (simp add: adr_def take_bit_eq_mask mask_eq_exp_minus_1)
  also have "\<dots> = adr (p mod 2 ^ k)"
    by (simp add: adr_def take_bit_eq_mod of_nat_mod unsigned_take_bit_eq flip: take_bit_eq_mod of_nat_take_bit)
  finally show ?thesis .
qed

lemma and_high:
  assumes "p < 4294967296"
  shows "adr p AND NOT (adr (2 ^ k) - 1) = adr (p - p mod 2 ^ k)"
proof -
  let ?m = "adr (2 ^ k) - 1"
  have "adr p AND NOT ?m = adr p AND NOT (adr p AND ?m)"
    by (rule bit_word_eqI) (auto simp: bit_simps)
  also have "\<dots> = adr p - (adr p AND ?m)"
    by (rule disjunctive_diff [symmetric]) (simp add: bit_simps)
  also have "\<dots> = adr (p - p mod 2 ^ k)"
    by (simp add: and_low [OF assms] adr_sub)
  finally show ?thesis .
qed

lemma aligned_addresses:
  assumes "p \<le> 3212840960" "alignment_ok al"
  shows "get_aligned_address (adr p) (adr al) = adr (align_up p al)"
    and "aligned_hole_addr (adr p) (adr al) = adr (align_up p al)"
proof -
  show 1: "get_aligned_address (adr p) (adr al) = adr (align_up p al)"
  proof (cases "al = 0")
    case False
    then obtain k where k: "k \<le> 30" "al = 2 ^ k" using assms(2) by (auto simp: alignment_ok_def)
    have "(2 :: nat) ^ k \<le> 2 ^ 30" using k(1) by (intro power_increasing) simp_all
    then have "al < 4294967296" "p mod al < 4294967296" using k assms(1) mod_less_eq_dividend [of p al] by (simp, linarith)
    then show ?thesis
      using False assms(1) and_low [of p k] and_high [of p k] unfolding k(2) [symmetric]
      by (simp add: get_aligned_address_def align_up_def adr_eq_0)
  qed (simp add: get_aligned_address_def align_up_def adr_def)
  show "aligned_hole_addr (adr p) (adr al) = adr (align_up p al)"
    using 1 by (simp add: get_aligned_address_def aligned_hole_addr_def split: if_splits)
qed

end
