(* ===== verification/Kalloc_Heap_Correct.thy ===== *)
theory Kalloc_Heap_Correct
  imports Heap_Blocks
begin

text \<open>
  Correctness of the kernel heap: the chain of blocks and the tree of holes stay
  consistent under allocation, expansion and release, blocks in use never overlap
  and keep their bytes.
\<close>

section \<open>Invariant\<close>

text \<open>
  The heap starts at \<open>a\<close> and is \<open>n\<close> bytes long, whole pages below the kernel stack,
  whose lowest page is at 0xBF801000.
\<close>

definition region :: "Kalloc_Heap \<Rightarrow> nat \<Rightarrow> nat \<Rightarrow> bool" where
  "region h a n \<longleftrightarrow> initial_addr h = adr a \<and> heap_size h = adr n \<and> 4096 \<le> a \<and>
     4096 dvd a \<and> 4096 dvd n \<and> a + n \<le> 3212840960"

definition index_of :: "nat \<Rightarrow> layout \<Rightarrow> (u32 \<times> u32) set" where
  "index_of a bs = (\<lambda>(s, p). (adr s, adr p)) ` free_blocks a bs"

definition heap_ok :: "Kalloc_Heap \<Rightarrow> mem \<Rightarrow> nat \<Rightarrow> layout \<Rightarrow> bool" where
  "heap_ok h m a bs \<longleftrightarrow> region h a (ext bs) \<and> bs \<noteq> [] \<and> chain m a bs \<and> no_adjacent bs \<and>
     avl_ok (avl h) \<and> avl_holes (avl h) = index_of a bs"

text \<open>
  Between the steps of an operation one block is neither hole nor block: its \<open>used\<close>
  field says nothing and the tree does not hold it.
\<close>

definition central :: "mem \<Rightarrow> nat \<Rightarrow> nat \<Rightarrow> bool" where
  "central m b s \<longleftrightarrow> rd16 m (adr b) = HEAP_HEADER_MAGIC \<and> rd32 m (adr (b + 4)) = adr s \<and>
     rd16 m (adr (b + s + 12)) = HEAP_FOOTER_MAGIC \<and> rd32 m (adr (b + s + 16)) = adr b"

definition open_heap :: "Kalloc_Heap \<Rightarrow> mem \<Rightarrow> nat \<Rightarrow> layout \<Rightarrow> nat \<Rightarrow> layout \<Rightarrow> bool" where
  "open_heap h m a xs s ys \<longleftrightarrow> region h a (ext xs + s + 20 + ext ys) \<and> chain m a xs \<and>
     central m (a + ext xs) s \<and> chain m (a + ext xs + s + 20) ys \<and> no_adjacent xs \<and> no_adjacent ys \<and>
     avl_ok (avl h) \<and> avl_holes (avl h) = index_of a xs \<union> index_of (a + ext xs + s + 20) ys"

lemma block_at_central: "block_at m b s u \<longleftrightarrow> central m b s \<and> rd32 m (adr (b + 8)) = (if u then 1 else 0)"
  by (auto simp: block_at_def central_def)

lemma index_of_append [simp]: "index_of a (xs @ ys) = index_of a xs \<union> index_of (a + ext xs) ys"
  by (simp add: index_of_def image_Un)

lemma index_of_Cons [simp]:
  "index_of a ((s, u) # bs) = (if u then {} else {(adr s, adr (a + 12))}) \<union> index_of (a + s + 20) bs"
  by (simp add: index_of_def image_Un)

lemma index_of_Nil [simp]: "index_of a [] = {}"
  by (simp add: index_of_def)

lemma region_avl [simp]: "region (h\<lparr>avl := t\<rparr>) = region h"
  by (simp add: region_def fun_eq_iff)

lemma avl_update_inject [simp]: "h\<lparr>avl := t\<rparr> = h\<lparr>avl := t'\<rparr> \<longleftrightarrow> t = t'"
  by (metis Kalloc_Heap.select_convs(4) Kalloc_Heap.surjective Kalloc_Heap.update_convs(4))

lemma avl_update_twice: "h\<lparr>avl := t, avl := t'\<rparr> = h\<lparr>avl := t'\<rparr>" "avl (h\<lparr>avl := t\<rparr>) = t"
  by simp_all

lemma regionD:
  assumes "region h a n"
  shows "initial_addr h = adr a" "heap_size h = adr n" "4096 \<le> a" "a + n \<le> 3212840960" "n \<le> 3212840960"
  using assms by (simp_all add: region_def)

lemma index_of_outside:
  assumes "(w, adr p) \<in> index_of a bs" "p < 4294967296" "a + ext bs \<le> 4294967296"
  shows "a + 12 \<le> p \<and> p + 8 \<le> a + ext bs"
proof -
  obtain s q where q: "(s, q) \<in> free_blocks a bs" "adr p = adr q"
    using assms(1) by (auto simp: index_of_def)
  then show ?thesis
    using free_blocks_range [OF q(1)] assms(2,3) by (simp add: adr_inject)
qed

section \<open>Opening and closing a block\<close>

lemma open_used:
  "heap_ok h m a (xs @ (s, True) # ys) \<Longrightarrow> open_heap h m a xs s ys"
  by (auto simp: heap_ok_def open_heap_def no_adjacent_append no_adjacent_Cons block_at_central add_ac)

lemma open_hole:
  assumes "heap_ok h m a (xs @ (s, False) # ys)"
  shows "\<exists>t. kalloc_avl_remove g (avl h) (adr s) (adr (a + ext xs + 12)) = Inr (t, 0) \<and>
           open_heap (h\<lparr>avl := t\<rparr>) m a xs s ys \<and> avl_spare t = Suc (avl_spare (avl h))"
proof -
  have r: "a + (ext xs + s + 20 + ext ys) \<le> 3212840960"
    and ok: "avl_ok (avl h)" and H: "avl_holes (avl h) = index_of a (xs @ (s, False) # ys)"
    using assms by (auto simp: heap_ok_def region_def)
  have "(adr s, adr (a + ext xs + 12)) \<in> avl_holes (avl h)" by (simp add: H)
  then obtain t where t: "kalloc_avl_remove g (avl h) (adr s) (adr (a + ext xs + 12)) = Inr (t, 0)" "avl_ok t"
    "avl_holes t = avl_holes (avl h) - {(adr s, adr (a + ext xs + 12))}" "avl_spare t = Suc (avl_spare (avl h))"
    using avl.del_ok [OF ok] by blast
  have "(adr s, adr (a + ext xs + 12)) \<notin> index_of a xs \<union> index_of (a + ext xs + s + 20) ys"
    using index_of_outside [of _ "a + ext xs + 12" a xs] index_of_outside [of _ "a + ext xs + 12" "a + ext xs + s + 20" ys] r
    by auto
  then have "avl_holes t = index_of a xs \<union> index_of (a + ext xs + s + 20) ys"
    using t(3) by (auto simp: H)
  with t assms show ?thesis
    by (auto simp: heap_ok_def open_heap_def no_adjacent_append no_adjacent_Cons block_at_central add_ac)
qed

lemma close_block:
  assumes "open_heap h m a xs s ys"
  shows "chain (wr32 (adr (a + ext xs + 8)) (if u then 1 else 0) m) a (xs @ (s, u) # ys)"
proof -
  let ?m = "wr32 (adr (a + ext xs + 8)) (if u then 1 else 0) m"
  have r: "a + (ext xs + s + 20 + ext ys) \<le> 3212840960" using assms by (simp add: open_heap_def region_def)
  then have o: "outside (a + ext xs) (a + ext xs + 12) m ?m" by (intro outside_wr outside_refl) simp_all
  have m: "chain m a xs" "chain m (a + ext xs + s + 20) ys" "central m (a + ext xs) s"
    using assms by (simp_all add: open_heap_def)
  have "central ?m (a + ext xs) s" using m(3) r by (simp add: central_def rd_wr add_ac)
  then show ?thesis
    using chain_outside [OF m(1) o] chain_outside [OF m(2) o] r by (simp add: block_at_central add_ac)
qed

lemma close_used:
  assumes "open_heap h m a xs s ys"
  shows "heap_ok h (wr32 (adr (a + ext xs + 8)) 1 m) a (xs @ (s, True) # ys)"
  using assms close_block [OF assms, of True]
  by (auto simp: heap_ok_def open_heap_def no_adjacent_append no_adjacent_Cons add_ac)

lemma close_hole:
  assumes "open_heap h m a xs s ys" "avl_spare (avl h) \<noteq> 0"
    "xs = [] \<or> snd (last xs)" "ys = [] \<or> snd (hd ys)"
  shows "\<exists>t. kalloc_avl_insert g (avl h) (adr s) (adr (a + ext xs + 12)) = Inr (t, 0) \<and>
           heap_ok (h\<lparr>avl := t\<rparr>) (wr32 (adr (a + ext xs + 8)) 0 m) a (xs @ (s, False) # ys) \<and>
           avl_spare (avl h) = Suc (avl_spare t)"
proof -
  have r: "a + (ext xs + s + 20 + ext ys) \<le> 3212840960"
    and ok: "avl_ok (avl h)" and H: "avl_holes (avl h) = index_of a xs \<union> index_of (a + ext xs + s + 20) ys"
    using assms by (auto simp: open_heap_def region_def)
  have "(adr s, adr (a + ext xs + 12)) \<notin> avl_holes (avl h)"
    using index_of_outside [of _ "a + ext xs + 12" a xs] index_of_outside [of _ "a + ext xs + 12" "a + ext xs + s + 20" ys] r
    by (auto simp: H)
  then obtain t where "kalloc_avl_insert g (avl h) (adr s) (adr (a + ext xs + 12)) = Inr (t, 0)" "avl_ok t"
    "avl_holes t = insert (adr s, adr (a + ext xs + 12)) (avl_holes (avl h))" "avl_spare (avl h) = Suc (avl_spare t)"
    using avl.ins_ok [OF ok _ assms(2)] by blast
  with assms close_block [OF assms(1), of False] show ?thesis
    by (auto simp: heap_ok_def open_heap_def no_adjacent_append no_adjacent_Cons add_ac)
qed

section \<open>Merging\<close>

lemma merge_previous_hole:
  assumes "open_heap h m a (xs @ [(t, False)]) s ys"
  shows "\<exists>tr m'. merge_previous g h (adr (a + ext xs + t + 20)) (adr (a + ext xs + t + s + 32)) m =
             Inr (adr (a + ext xs), h\<lparr>avl := tr\<rparr>, m') \<and>
           open_heap (h\<lparr>avl := tr\<rparr>) m' a xs (t + s + 20) ys \<and> avl_spare tr = Suc (avl_spare (avl h)) \<and>
           outside (a + ext xs) (a + ext xs + t + s + 40) m m'"
proof -
  let ?b = "a + ext xs"
  have r: "region h a (ext xs + t + s + 40 + ext ys)" using assms by (simp add: open_heap_def add_ac)
  note R = regionD [OF r]
  have ok: "avl_ok (avl h)" and H: "avl_holes (avl h) = insert (adr t, adr (?b + 12)) (index_of a xs \<union> index_of (?b + t + s + 40) ys)"
    using assms by (auto simp: open_heap_def add_ac)
  have fresh: "(adr t, adr (?b + 12)) \<notin> index_of a xs \<union> index_of (?b + t + s + 40) ys"
    using index_of_outside [of _ "?b + 12" a xs] index_of_outside [of _ "?b + 12" "?b + t + s + 40" ys] R by auto
  obtain tr where tr: "kalloc_avl_remove g (avl h) (adr t) (adr (?b + 12)) = Inr (tr, 0)" "avl_ok tr"
    "avl_holes tr = avl_holes (avl h) - {(adr t, adr (?b + 12))}" "avl_spare tr = Suc (avl_spare (avl h))"
    using avl.del_ok [OF ok, of "adr t" "adr (?b + 12)" g] H by blast
  have holes: "avl_holes tr = index_of a xs \<union> index_of (?b + t + s + 40) ys"
    using tr(3) fresh by (auto simp: H)
  have m: "chain m a xs" "block_at m ?b t False" "central m (?b + t + 20) s" "chain m (?b + t + s + 40) ys"
    "no_adjacent xs" "no_adjacent ys"
    using assms by (auto simp: open_heap_def no_adjacent_append add_ac)
  let ?m = "wr32 (adr (?b + t + s + 36)) (adr ?b) (wr32 (adr (?b + 4)) (adr (t + s + 20)) m)"
  have o: "outside ?b (?b + t + s + 40) m ?m"
    using R by (intro outside_wr outside_refl) simp_all
  have "merge_previous g h (adr (?b + t + 20)) (adr (?b + t + s + 32)) m = Inr (adr ?b, h\<lparr>avl := tr\<rparr>, ?m)"
    using R m(2,3) tr(1)
    by (simp add: merge_previous_def adr_inject adr_sub_numeral block_at_def central_def Let_def add_ac)
  moreover have "central ?m ?b (t + s + 20)"
    using m(2,3) R by (simp add: block_at_def central_def rd_wr add_ac)
  ultimately show ?thesis
    using o m r R holes tr chain_outside [OF m(1) o] chain_outside [OF m(4) o]
    by (simp add: open_heap_def add_ac)
qed

lemma merge_previous_none:
  assumes "open_heap h m a xs s ys" "xs = [] \<or> snd (last xs)"
  shows "merge_previous g h (adr (a + ext xs)) f m = Inr (adr (a + ext xs), h, m)"
proof (cases xs rule: rev_cases)
  case Nil
  then show ?thesis using assms by (simp add: merge_previous_def open_heap_def region_def)
next
  case (snoc xs' x)
  then obtain t where x: "x = (t, True)" using assms(2) by (cases x) auto
  have r: "region h a (ext xs' + t + s + 40 + ext ys)" using assms(1) snoc x by (simp add: open_heap_def add_ac)
  have "block_at m (a + ext xs') t True"
    using assms(1) snoc x by (simp add: open_heap_def)
  then show ?thesis
    using regionD [OF r] snoc x
    by (simp add: merge_previous_def adr_inject adr_sub_numeral block_at_def Let_def add_ac)
qed

lemma merge_next_hole:
  assumes "open_heap h m a xs s ((t, False) # ys)"
  shows "\<exists>tr m'. merge_next g h (adr (a + ext xs)) (adr (a + ext xs + s + 12)) m = Inr (h\<lparr>avl := tr\<rparr>, m') \<and>
           open_heap (h\<lparr>avl := tr\<rparr>) m' a xs (s + t + 20) ys \<and> avl_spare tr = Suc (avl_spare (avl h)) \<and>
           outside (a + ext xs) (a + ext xs + s + t + 40) m m'"
proof -
  let ?b = "a + ext xs"
  have r: "region h a (ext xs + s + t + 40 + ext ys)" using assms by (simp add: open_heap_def add_ac)
  note R = regionD [OF r]
  have ok: "avl_ok (avl h)" and H: "avl_holes (avl h) = insert (adr t, adr (?b + s + 32)) (index_of a xs \<union> index_of (?b + s + t + 40) ys)"
    using assms by (auto simp: open_heap_def add_ac)
  have fresh: "(adr t, adr (?b + s + 32)) \<notin> index_of a xs \<union> index_of (?b + s + t + 40) ys"
    using index_of_outside [of _ "?b + s + 32" a xs] index_of_outside [of _ "?b + s + 32" "?b + s + t + 40" ys] R by auto
  obtain tr where tr: "kalloc_avl_remove g (avl h) (adr t) (adr (?b + s + 32)) = Inr (tr, 0)" "avl_ok tr"
    "avl_holes tr = avl_holes (avl h) - {(adr t, adr (?b + s + 32))}" "avl_spare tr = Suc (avl_spare (avl h))"
    using avl.del_ok [OF ok, of "adr t" "adr (?b + s + 32)" g] H by blast
  have holes: "avl_holes tr = index_of a xs \<union> index_of (?b + s + t + 40) ys"
    using tr(3) fresh by (auto simp: H)
  have m: "chain m a xs" "central m ?b s" "block_at m (?b + s + 20) t False" "chain m (?b + s + t + 40) ys"
    "no_adjacent xs" "no_adjacent ys"
    using assms by (auto simp: open_heap_def no_adjacent_Cons add_ac)
  let ?m = "wr32 (adr (?b + s + t + 36)) (adr ?b) (wr32 (adr (?b + 4)) (adr (s + t + 20)) m)"
  have o: "outside ?b (?b + s + t + 40) m ?m"
    using R by (intro outside_wr outside_refl) simp_all
  have "merge_next g h (adr ?b) (adr (?b + s + 12)) m = Inr (h\<lparr>avl := tr\<rparr>, ?m)"
    using R m(2,3) tr(1)
    by (simp add: merge_next_def adr_inject adr_sub_numeral block_at_def central_def Let_def add_ac)
  moreover have "central ?m ?b (s + t + 20)"
    using m(2,3) R by (simp add: block_at_def central_def rd_wr add_ac)
  ultimately show ?thesis
    using o m r R holes tr chain_outside [OF m(1) o] chain_outside [OF m(4) o]
    by (simp add: open_heap_def add_ac)
qed

lemma merge_next_none:
  assumes "open_heap h m a xs s ys" "ys = [] \<or> snd (hd ys)"
  shows "merge_next g h (adr (a + ext xs)) (adr (a + ext xs + s + 12)) m = Inr (h, m)"
proof (cases ys)
  case Nil
  then have r: "region h a (ext xs + s + 20)" using assms by (simp add: open_heap_def)
  then show ?thesis using regionD [OF r] by (simp add: merge_next_def adr_sub_numeral add_ac)
next
  case (Cons y ys')
  then obtain t where y: "y = (t, True)" using assms(2) by (cases y) auto
  have r: "region h a (ext xs + s + t + 40 + ext ys')" using assms(1) Cons y by (simp add: open_heap_def add_ac)
  have "block_at m (a + ext xs + s + 20) t True" "central m (a + ext xs) s"
    using assms(1) Cons y by (simp_all add: open_heap_def)
  then show ?thesis
    using regionD [OF r]
    by (simp add: merge_next_def adr_inject adr_sub_numeral block_at_def central_def Let_def add_ac)
qed

text \<open>The two merges of a release, whatever the neighbours are.\<close>

lemma merge_previous_ok:
  assumes "open_heap h m a xs s ys"
  shows "\<exists>xs' s' tr m'. merge_previous g h (adr (a + ext xs)) (adr (a + ext xs + s + 12)) m =
             Inr (adr (a + ext xs'), h\<lparr>avl := tr\<rparr>, m') \<and> open_heap (h\<lparr>avl := tr\<rparr>) m' a xs' s' ys \<and>
           (xs' = [] \<or> snd (last xs')) \<and> used_blocks a xs' = used_blocks a xs \<and> ext xs' + s' = ext xs + s \<and>
           avl_spare (avl h) \<le> avl_spare tr \<and> outside (a + ext xs') (a + ext xs + s + 20) m m'"
proof (cases "xs = [] \<or> snd (last xs)")
  case True
  with merge_previous_none [OF assms True] assms show ?thesis
    by (intro exI [of _ xs] exI [of _ s] exI [of _ "avl h"] exI [of _ m]) simp
next
  case False
  then obtain xs' t where xs: "xs = xs' @ [(t, False)]"
    by (metis append_butlast_last_id prod.collapse)
  have "no_adjacent xs" using assms by (simp add: open_heap_def)
  then have last: "xs' = [] \<or> snd (last xs')" by (auto simp: xs no_adjacent_append)
  obtain tr m' where tm:
    "merge_previous g h (adr (a + ext xs' + t + 20)) (adr (a + ext xs' + t + s + 32)) m =
       Inr (adr (a + ext xs'), h\<lparr>avl := tr\<rparr>, m')"
    "open_heap (h\<lparr>avl := tr\<rparr>) m' a xs' (t + s + 20) ys" "avl_spare tr = Suc (avl_spare (avl h))"
    "outside (a + ext xs') (a + ext xs' + t + s + 40) m m'"
    using merge_previous_hole assms unfolding xs by blast
  with last show ?thesis
    by (intro exI [of _ xs'] exI [of _ "t + s + 20"] exI [of _ tr] exI [of _ m']) (simp add: xs add_ac)
qed

lemma merge_next_ok:
  assumes "open_heap h m a xs s ys"
  shows "\<exists>s' ys' tr m'. merge_next g h (adr (a + ext xs)) (adr (a + ext xs + s + 12)) m =
             Inr (h\<lparr>avl := tr\<rparr>, m') \<and> open_heap (h\<lparr>avl := tr\<rparr>) m' a xs s' ys' \<and>
           (ys' = [] \<or> snd (hd ys')) \<and>
           used_blocks (a + ext xs + s' + 20) ys' = used_blocks (a + ext xs + s + 20) ys \<and>
           s' + ext ys' = s + ext ys \<and> s \<le> s' \<and>
           avl_spare (avl h) \<le> avl_spare tr \<and> outside (a + ext xs) (a + ext xs + s' + 20) m m'"
proof (cases "ys = [] \<or> snd (hd ys)")
  case True
  with merge_next_none [OF assms True] assms show ?thesis
    by (intro exI [of _ s] exI [of _ ys] exI [of _ "avl h"] exI [of _ m]) simp
next
  case False
  then obtain ys' t where ys: "ys = (t, False) # ys'"
    by (metis list.collapse prod.collapse)
  have "no_adjacent ys" using assms by (simp add: open_heap_def)
  then have hd: "ys' = [] \<or> snd (hd ys')" by (auto simp: ys no_adjacent_Cons)
  obtain tr m' where
    "merge_next g h (adr (a + ext xs)) (adr (a + ext xs + s + 12)) m = Inr (h\<lparr>avl := tr\<rparr>, m')"
    "open_heap (h\<lparr>avl := tr\<rparr>) m' a xs (s + t + 20) ys'" "avl_spare tr = Suc (avl_spare (avl h))"
    "outside (a + ext xs) (a + ext xs + s + t + 40) m m'"
    using merge_next_hole assms unfolding ys by blast
  with hd show ?thesis
    by (intro exI [of _ "s + t + 20"] exI [of _ ys'] exI [of _ tr] exI [of _ m']) (simp add: ys add_ac)
qed

section \<open>Bytes in use\<close>

text \<open>\<open>kept U m m'\<close>: every user byte of the blocks in \<open>U\<close> is the same in both memories.\<close>

definition kept :: "(nat \<times> nat) set \<Rightarrow> mem \<Rightarrow> mem \<Rightarrow> bool" where
  "kept U m m' \<longleftrightarrow> (\<forall>(s, p) \<in> U. \<forall>i < s. m' (adr (p + i)) = m (adr (p + i)))"

lemma kept_refl [simp]: "kept U m m"
  by (simp add: kept_def)

lemma kept_trans: "kept U m m' \<Longrightarrow> kept U m' m'' \<Longrightarrow> kept U m m''"
  by (fastforce simp: kept_def)

lemma kept_Un [simp]: "kept (U \<union> V) m m' \<longleftrightarrow> kept U m m' \<and> kept V m m'"
  by (auto simp: kept_def)

lemma kept_insert: "kept {x} m m' \<Longrightarrow> kept U m m' \<Longrightarrow> kept (insert x U) m m'"
  by (auto simp: kept_def)

lemma kept_outside:
  assumes "outside lo hi m m'" "a + ext bs \<le> lo \<or> hi \<le> a" "a + ext bs \<le> 4294967296"
  shows "kept (used_blocks a bs) m m'"
proof -
  have "m' (adr (p + i)) = m (adr (p + i))" if "(s, p) \<in> used_blocks a bs" "i < s" for s p i
    using used_blocks_range [OF that(1)] that(2) assms(2,3) by (intro outsideD [OF assms(1)]) linarith+
  then show ?thesis by (auto simp: kept_def)
qed

lemma used_apart:
  assumes "a + ext xs \<le> p" "p + s < b"
  shows "(s, p + 12) \<notin> used_blocks a xs \<union> used_blocks b ys"
  using used_blocks_range [of s "p + 12" a xs] used_blocks_range [of s "p + 12" b ys] assms by auto

section \<open>Release\<close>

lemma heap_free_step:
  assumes "heap_ok h m a bs" "(s, p) \<in> used_blocks a bs" "avl_spare (avl h) \<noteq> 0"
  shows "\<exists>t m' bs'. kalloc_heap_free g h (adr p) m = Inr (h\<lparr>avl := t\<rparr>, m') \<and>
           heap_ok (h\<lparr>avl := t\<rparr>) m' a bs' \<and> used_blocks a bs' = used_blocks a bs - {(s, p)} \<and>
           ext bs' = ext bs \<and> kept (used_blocks a bs') m m' \<and> outside a (a + ext bs) m m' \<and>
           avl_spare (avl h) \<le> Suc (avl_spare t)"
proof -
  obtain xs ys where bs: "bs = xs @ (s, True) # ys" and p: "p = a + ext xs + 12"
    using assms(2) by (rule used_blocksE)
  have o: "open_heap h m a xs s ys" using assms(1) unfolding bs by (rule open_used)
  have R: "a + ext xs + s + 20 + ext ys \<le> 3212840960" "12 \<le> a"
    using o by (simp_all add: open_heap_def region_def)
  have block: "block_at m (a + ext xs) s True" using assms(1) by (simp add: heap_ok_def bs)
  obtain xs' s1 t1 m1 where 1: "merge_previous g h (adr (a + ext xs)) (adr (a + ext xs + s + 12)) m =
      Inr (adr (a + ext xs'), h\<lparr>avl := t1\<rparr>, m1)" "open_heap (h\<lparr>avl := t1\<rparr>) m1 a xs' s1 ys"
    "xs' = [] \<or> snd (last xs')" "used_blocks a xs' = used_blocks a xs" "ext xs' + s1 = ext xs + s"
    "avl_spare (avl h) \<le> avl_spare t1" "outside (a + ext xs') (a + ext xs + s + 20) m m1"
    using merge_previous_ok [OF o] by metis
  obtain s2 ys' t2 m2 where 2: "merge_next g (h\<lparr>avl := t1\<rparr>) (adr (a + ext xs')) (adr (a + ext xs' + s1 + 12)) m1 =
      Inr (h\<lparr>avl := t2\<rparr>, m2)" "open_heap (h\<lparr>avl := t2\<rparr>) m2 a xs' s2 ys'"
    "ys' = [] \<or> snd (hd ys')" "used_blocks (a + ext xs' + s2 + 20) ys' = used_blocks (a + ext xs' + s1 + 20) ys"
    "s2 + ext ys' = s1 + ext ys" "s1 \<le> s2" "avl_spare t1 \<le> avl_spare t2"
    "outside (a + ext xs') (a + ext xs' + s2 + 20) m1 m2"
    using merge_next_ok [OF 1(2), of g, unfolded avl_update_twice] by blast
  have "avl_spare (avl (h\<lparr>avl := t2\<rparr>)) \<noteq> 0" using assms(3) 1(6) 2(7) by simp
  then obtain t3 where 3: "kalloc_avl_insert g t2 (adr s2) (adr (a + ext xs' + 12)) = Inr (t3, 0)"
    "heap_ok (h\<lparr>avl := t3\<rparr>) (wr32 (adr (a + ext xs' + 8)) 0 m2) a (xs' @ (s2, False) # ys')"
    "avl_spare t2 = Suc (avl_spare t3)"
    using close_hole [OF 2(2) _ 1(3) 2(3)] by auto
  let ?m = "wr32 (adr (a + ext xs' + 8)) 0 m2"
  have at: "a + ext xs + s = a + ext xs' + s1" using 1(5) by linarith
  have fr: "outside (a + ext xs') (a + ext xs' + s2 + 20) m ?m"
    using outside_trans [OF outside_mono [OF 1(7), of "a + ext xs'" "a + ext xs' + s2 + 20"] 2(8)] 2(5,6) 1(5) R
    by (intro outside_wr) (simp_all add: at)
  have 4: "merge_next g (h\<lparr>avl := t1\<rparr>) (adr (a + ext xs')) (adr (a + ext xs + s + 12)) m1 =
      Inr (h\<lparr>avl := t2\<rparr>, m2)"
    using 2(1) by (simp only: at)
  have "rd32 m2 (adr (a + ext xs' + 4)) = adr s2" using 2(2) by (simp add: open_heap_def central_def)
  then have "kalloc_heap_free g h (adr p) m = Inr (h\<lparr>avl := t3\<rparr>, ?m)"
    using block 1(1) 4 3(1) R 2(5) 1(5) unfolding p
    by (simp add: kalloc_heap_free_def adr_sub_numeral block_at_def Let_def rd_wr add_ac)
  moreover have "used_blocks a bs - {(s, p)} = used_blocks a (xs' @ (s2, False) # ys')"
  proof -
    have "used_blocks (a + ext xs' + s2 + 20) ys' = used_blocks (a + ext xs + s + 20) ys"
      using 2(4) by (simp only: at)
    then show ?thesis
      using used_apart [of a xs "a + ext xs" s "a + ext xs + s + 20" ys]
      by (simp add: bs p 1(4) add_ac Diff_insert_absorb)
  qed
  moreover have "kept (used_blocks a (xs' @ (s2, False) # ys')) m ?m"
    using kept_outside [OF fr, of a xs'] kept_outside [OF fr, of "a + ext xs' + s2 + 20" ys'] 2(5) 1(5) R by simp
  moreover have "outside a (a + ext bs) m ?m"
    using 2(5) 1(5) by (intro outside_mono [OF fr]) (simp_all add: bs)
  moreover have "ext (xs' @ (s2, False) # ys') = ext bs" using 2(5) 1(5) by (simp add: bs)
  ultimately show ?thesis
    using 3(2,3) 1(6) 2(7) by (intro exI [of _ t3] exI [of _ ?m] exI [of _ "xs' @ (s2, False) # ys'"]) simp
qed

section \<open>Allocation from a hole\<close>

lemma split_block_cut:
  assumes "open_heap h m a xs (n + 20 + k) ys" "0 < k" "ys = [] \<or> snd (hd ys)" "avl_spare (avl h) \<noteq> 0"
  shows "\<exists>t m'. split_block g h (adr (a + ext xs)) (adr (n + 20 + k)) (adr n) m = Inr (h\<lparr>avl := t\<rparr>, m') \<and>
           heap_ok (h\<lparr>avl := t\<rparr>) m' a (xs @ (n, True) # (k, False) # ys) \<and>
           avl_spare (avl h) = Suc (avl_spare t) \<and>
           outside (a + ext xs) (a + ext xs + n + k + 40) m m'"
proof -
  let ?b = "a + ext xs"
  have r: "region h a (ext xs + n + k + 40 + ext ys)" using assms(1) by (simp add: open_heap_def add_ac)
  note R = regionD [OF r]
  have m: "chain m a xs" "central m ?b (n + 20 + k)" "chain m (?b + n + k + 40) ys"
    and na: "no_adjacent xs" "no_adjacent ys" and ok: "avl_ok (avl h)"
    and H: "avl_holes (avl h) = index_of a xs \<union> index_of (?b + n + k + 40) ys"
    using assms(1) by (simp_all add: open_heap_def add_ac)
  let ?m = "wr32 (adr (?b + n + k + 36)) (adr (?b + n + 20)) (wr32 (adr (?b + n + 28)) 0
    (wr32 (adr (?b + n + 24)) (adr k) (wr16 (adr (?b + n + 20)) HEAP_HEADER_MAGIC
    (wr32 (adr (?b + n + 16)) (adr ?b) (wr16 (adr (?b + n + 12)) HEAP_FOOTER_MAGIC
    (wr32 (adr (?b + 8)) 1 (wr32 (adr (?b + 4)) (adr n) m)))))))"
  have o: "outside ?b (?b + n + k + 40) m ?m"
    using R by (intro outside_wr outside_refl) simp_all
  have new: "(adr k, adr (?b + n + 32)) \<notin> avl_holes (avl h)"
    using index_of_outside [of _ "?b + n + 32" a xs] index_of_outside [of _ "?b + n + 32" "?b + n + k + 40" ys] R
    by (auto simp: H)
  obtain t where t: "kalloc_avl_insert g (avl h) (adr k) (adr (?b + n + 32)) = Inr (t, 0)" "avl_ok t"
    "avl_holes t = insert (adr k, adr (?b + n + 32)) (avl_holes (avl h))" "avl_spare (avl h) = Suc (avl_spare t)"
    using avl.ins_ok [OF ok new assms(4)] by blast
  have "central ?m ?b n" "rd32 ?m (adr (?b + 8)) = 1"
    using m(2) R by (simp_all add: central_def rd_wr add_ac)
  moreover have "central ?m (?b + n + 20) k" "rd32 ?m (adr (?b + n + 28)) = 0"
    using m(2) R by (simp_all add: central_def rd_wr add_ac)
  ultimately have "heap_ok (h\<lparr>avl := t\<rparr>) ?m a (xs @ (n, True) # (k, False) # ys)"
    using chain_outside [OF m(1) o] chain_outside [OF m(3) o] r R na t assms(3)
    by (simp add: heap_ok_def no_adjacent_append no_adjacent_Cons block_at_central H add_ac)
  moreover have "split_block g h (adr ?b) (adr (n + 20 + k)) (adr n) m = Inr (h\<lparr>avl := t\<rparr>, ?m)"
    using R m(2) t(1) assms(2)
    by (simp add: split_block_def central_def adr_order adr_sub adr_sub_numeral rd_wr Let_def add_ac)
  ultimately show ?thesis using o t(4) by (intro exI [of _ t] exI [of _ ?m]) simp
qed

lemma split_block_ok:
  assumes "open_heap h m a xs s ys" "n \<le> s" "ys = [] \<or> snd (hd ys)" "avl_spare (avl h) \<noteq> 0"
  shows "\<exists>t m' zs n'. split_block g h (adr (a + ext xs)) (adr s) (adr n) m = Inr (h\<lparr>avl := t\<rparr>, m') \<and>
           heap_ok (h\<lparr>avl := t\<rparr>) m' a (xs @ zs @ ys) \<and> ext zs = s + 20 \<and> n \<le> n' \<and>
           used_blocks (a + ext xs) zs = {(n', a + ext xs + 12)} \<and> avl_spare (avl h) \<le> Suc (avl_spare t) \<and>
           outside (a + ext xs) (a + ext xs + s + 20) m m'"
proof (cases "n + 20 < s")
  case True
  then obtain k where s: "s = n + 20 + k" "0 < k" by (metis less_iff_Suc_add zero_less_Suc add_Suc_right)
  obtain t m' where "split_block g h (adr (a + ext xs)) (adr s) (adr n) m = Inr (h\<lparr>avl := t\<rparr>, m')"
    "heap_ok (h\<lparr>avl := t\<rparr>) m' a (xs @ (n, True) # (k, False) # ys)" "avl_spare (avl h) = Suc (avl_spare t)"
    "outside (a + ext xs) (a + ext xs + n + k + 40) m m'"
    using split_block_cut [OF _ s(2) assms(3,4)] assms(1) unfolding s(1) by blast
  then show ?thesis
    by (intro exI [of _ t] exI [of _ m'] exI [of _ "[(n, True), (k, False)]"] exI [of _ n]) (simp add: s(1) add_ac)
next
  case False
  have R: "a + ext xs + s + 20 \<le> 3212840960" "central m (a + ext xs) s"
    using assms(1) by (simp_all add: open_heap_def region_def)
  let ?m = "wr32 (adr (a + ext xs + 8)) 1 m"
  have o: "outside (a + ext xs) (a + ext xs + s + 20) m ?m"
    using R by (intro outside_wr outside_refl) simp_all
  have "split_block g h (adr (a + ext xs)) (adr s) (adr n) m = Inr (h, ?m)"
    using R False assms(2) by (simp add: split_block_def central_def adr_order Let_def add_ac)
  then show ?thesis
    using close_used [OF assms(1)] o assms(2)
    by (intro exI [of _ "avl h"] exI [of _ ?m] exI [of _ "[(s, True)]"] exI [of _ s]) simp
qed

text \<open>The space in front of an aligned address goes to the block on the left.\<close>

definition take_header :: "nat \<Rightarrow> nat \<Rightarrow> mem \<Rightarrow> mem" where
  "take_header b s m = wr32 (adr (b + 4)) (adr s) (wr32 (adr (b + 8)) 0 (wr16 (adr b) HEAP_HEADER_MAGIC m))"

lemma take_header_open:
  assumes "open_heap h m a xs s ys"
  shows "open_heap h (take_header (a + ext xs) s m) a xs s ys"
    and "outside (a + ext xs) (a + ext xs + 12) m (take_header (a + ext xs) s m)"
proof -
  have R: "a + ext xs + s + 20 + ext ys \<le> 3212840960" using assms by (simp add: open_heap_def region_def)
  show o: "outside (a + ext xs) (a + ext xs + 12) m (take_header (a + ext xs) s m)"
    using R unfolding take_header_def by (intro outside_wr outside_refl) simp_all
  have m: "chain m a xs" "central m (a + ext xs) s" "chain m (a + ext xs + s + 20) ys"
    using assms by (simp_all add: open_heap_def)
  have "central (take_header (a + ext xs) s m) (a + ext xs) s"
    using R m(2) by (simp add: take_header_def central_def rd_wr add_ac)
  then show "open_heap h (take_header (a + ext xs) s m) a xs s ys"
    using assms chain_outside [OF m(1) o] chain_outside [OF m(3) o] R by (simp add: open_heap_def)
qed

lemma merge_slack_ok:
  assumes "open_heap h m a (xs @ [(t, True)]) (d + s) ys" "0 < d"
  shows "\<exists>m'. merge_slack h (adr (a + ext xs + t + 20)) (adr (a + ext xs + t + 20 + d)) m = Inr m' \<and>
           open_heap h (take_header (a + ext xs + t + 20 + d) s m') a (xs @ [(t + d, True)]) s ys \<and>
           outside (a + ext xs) (a + ext xs + t + d + s + 40) m (take_header (a + ext xs + t + 20 + d) s m') \<and>
           kept {(t, a + ext xs + 12)} m (take_header (a + ext xs + t + 20 + d) s m')"
proof -
  let ?b = "a + ext xs"
  have r: "region h a (ext xs + t + d + s + 40 + ext ys)" using assms(1) by (simp add: open_heap_def add_ac)
  note R = regionD [OF r]
  have m: "chain m a xs" "block_at m ?b t True" "central m (?b + t + 20) (d + s)" "chain m (?b + t + d + s + 40) ys"
    using assms(1) by (simp_all add: open_heap_def add_ac)
  let ?m1 = "wr32 (adr (?b + t + d + s + 36)) (adr (?b + t + 20 + d)) (wr16 (adr (?b + t + 12 + d)) HEAP_FOOTER_MAGIC
    (wr32 (adr (?b + t + d + 16)) (adr ?b) (wr32 (adr (?b + 4)) (adr (t + d)) m)))"
  let ?m = "take_header (?b + t + 20 + d) s ?m1"
  have o: "outside ?b (?b + t + d + s + 40) m ?m"
    using R unfolding take_header_def by (intro outside_wr outside_refl) simp_all
  have "merge_slack h (adr (?b + t + 20)) (adr (?b + t + 20 + d)) m = Inr ?m1"
    using R m(2,3) assms(2)
    by (simp add: merge_slack_def block_at_def central_def adr_order adr_sub adr_sub_numeral rd_wr Let_def add_ac)
  moreover have "block_at ?m ?b (t + d) True"
    using m(2) R assms(2) by (simp add: take_header_def block_at_def rd_wr add_ac)
  moreover have "central ?m (?b + t + 20 + d) s"
    using m(3) R assms(2) by (simp add: take_header_def central_def rd_wr add_ac)
  moreover have "kept {(t, ?b + 12)} m ?m"
    using R assms(2) by (auto simp: kept_def take_header_def)
  ultimately show ?thesis
    using o m r R chain_outside [OF m(1) o] chain_outside [OF m(4) o] assms(1)
    by (simp add: open_heap_def no_adjacent_append add_ac)
qed

text \<open>
  \<open>allocated a bs bs' n q\<close>: the layout \<open>bs'\<close> has the blocks in use of \<open>bs\<close>, at the same
  addresses and not smaller, and a new one at \<open>q\<close> with room for \<open>n\<close> bytes.
\<close>

definition allocated :: "nat \<Rightarrow> layout \<Rightarrow> layout \<Rightarrow> nat \<Rightarrow> nat \<Rightarrow> bool" where
  "allocated a bs bs' n q \<longleftrightarrow> (\<exists>n'. n \<le> n' \<and> (n', q) \<in> used_blocks a bs') \<and> q \<notin> snd ` used_blocks a bs \<and>
     snd ` used_blocks a bs' = insert q (snd ` used_blocks a bs) \<and>
     (\<forall>(s, p) \<in> used_blocks a bs. \<exists>s'. s \<le> s' \<and> (s', p) \<in> used_blocks a bs')"

lemma used_below: "p \<in> snd ` used_blocks a bs \<Longrightarrow> a + 12 \<le> p \<and> p + 8 \<le> a + ext bs"
  using used_blocks_range by fastforce

lemma allocatedI:
  assumes "used_blocks a bs = used_blocks a xs \<union> used_blocks b ys" "a + ext xs \<le> q" "q < b"
    "used_blocks a bs' = used_blocks a xs \<union> {(n', q)} \<union> used_blocks b ys" "n \<le> n'"
  shows "allocated a bs bs' n q"
  using assms used_below [of q a xs] used_below [of q b ys]
  unfolding allocated_def by (auto simp: image_Un)

lemma allocated_grown:
  assumes "used_blocks a bs = used_blocks a xs \<union> {(t, a + ext xs + 12)} \<union> used_blocks b ys"
    "a + ext xs + 12 < q" "q < b" "t \<le> t'" "n \<le> n'"
    "used_blocks a bs' = used_blocks a xs \<union> {(t', a + ext xs + 12)} \<union> {(n', q)} \<union> used_blocks b ys"
  shows "allocated a bs bs' n q"
  using assms used_below [of q a xs] used_below [of q b ys]
  unfolding allocated_def by (auto simp: image_Un)

lemma take_hole_exact:
  assumes "heap_ok h m a (xs @ (s, False) # ys)" "n \<le> s" "p = a + ext xs + 12"
    "get_aligned_address (adr p) al = adr p"
  shows "\<exists>t m' bs'. take_hole g h (adr p) (adr n) al m = Inr (adr p, h\<lparr>avl := t\<rparr>, m') \<and>
           heap_ok (h\<lparr>avl := t\<rparr>) m' a bs' \<and> allocated a (xs @ (s, False) # ys) bs' n p \<and>
           kept (used_blocks a (xs @ (s, False) # ys)) m m' \<and> ext bs' = ext xs + s + 20 + ext ys \<and>
           avl_spare (avl h) \<le> avl_spare t \<and> outside (a + ext xs) (a + ext xs + s + 20) m m'"
proof -
  obtain t1 where 1: "kalloc_avl_remove g (avl h) (adr s) (adr p) = Inr (t1, 0)"
    "open_heap (h\<lparr>avl := t1\<rparr>) m a xs s ys" "avl_spare t1 = Suc (avl_spare (avl h))"
    using open_hole [OF assms(1), of g] unfolding assms(3) by blast
  have R: "a + ext xs + s + 20 + ext ys \<le> 3212840960" "12 \<le> a"
    using 1(2) by (simp_all add: open_heap_def region_def)
  have ys: "ys = [] \<or> snd (hd ys)" and b: "block_at m (a + ext xs) s False"
    using assms(1) by (auto simp: heap_ok_def no_adjacent_append no_adjacent_Cons)
  let ?m1 = "take_header (a + ext xs) s m"
  note 2 = take_header_open [OF 1(2)]
  obtain t m' zs n' where 3: "split_block g (h\<lparr>avl := t1\<rparr>) (adr (a + ext xs)) (adr s) (adr n) ?m1 =
      Inr (h\<lparr>avl := t\<rparr>, m')" "heap_ok (h\<lparr>avl := t\<rparr>) m' a (xs @ zs @ ys)" "ext zs = s + 20" "n \<le> n'"
    "used_blocks (a + ext xs) zs = {(n', a + ext xs + 12)}" "avl_spare t1 \<le> Suc (avl_spare t)"
    "outside (a + ext xs) (a + ext xs + s + 20) ?m1 m'"
    using split_block_ok [OF 2(1) assms(2) ys, of g, unfolded avl_update_twice] 1(3) by auto
  have o: "outside (a + ext xs) (a + ext xs + s + 20) m m'"
    using outside_trans [OF outside_mono [OF 2(2)] 3(7)] by simp
  have "take_hole g h (adr p) (adr n) al m = Inr (adr p, h\<lparr>avl := t\<rparr>, m')"
    using R 1(1) b 3(1) assms(4) unfolding assms(3)
    by (simp add: take_hole_def block_at_def adr_sub_numeral take_header_def Let_def add_ac)
  moreover have "allocated a (xs @ (s, False) # ys) (xs @ zs @ ys) n p"
    using 3(3,4,5) assms(3) by (intro allocatedI [of _ _ xs "a + ext xs + s + 20" ys _ _ n']) (auto simp: add_ac)
  moreover have "kept (used_blocks a (xs @ (s, False) # ys)) m m'"
    using kept_outside [OF o, of a xs] kept_outside [OF o, of "a + ext xs + s + 20" ys] R by simp
  moreover have "ext (xs @ zs @ ys) = ext xs + s + 20 + ext ys" using 3(3) by simp
  ultimately show ?thesis using o 3(2,6) 1(3) by (intro exI [of _ t] exI [of _ m'] exI [of _ "xs @ zs @ ys"]) simp
qed

lemma take_hole_aligned:
  assumes "heap_ok h m a (xs @ (t, True) # (d + s, False) # ys)" "n \<le> s" "0 < d"
    "p = a + ext xs + t + 32" "get_aligned_address (adr p) al = adr (p + d)"
  shows "\<exists>tr m' bs'. take_hole g h (adr p) (adr n) al m = Inr (adr (p + d), h\<lparr>avl := tr\<rparr>, m') \<and>
           heap_ok (h\<lparr>avl := tr\<rparr>) m' a bs' \<and> allocated a (xs @ (t, True) # (d + s, False) # ys) bs' n (p + d) \<and>
           kept (used_blocks a (xs @ (t, True) # (d + s, False) # ys)) m m' \<and>
           ext bs' = ext xs + t + d + s + 40 + ext ys \<and>
           avl_spare (avl h) \<le> avl_spare tr \<and> outside (a + ext xs) (a + ext xs + t + d + s + 40) m m'"
proof -
  have ok: "heap_ok h m a ((xs @ [(t, True)]) @ (d + s, False) # ys)" using assms(1) by simp
  obtain t1 where 1: "kalloc_avl_remove g (avl h) (adr (d + s)) (adr p) = Inr (t1, 0)"
    "open_heap (h\<lparr>avl := t1\<rparr>) m a (xs @ [(t, True)]) (d + s) ys" "avl_spare t1 = Suc (avl_spare (avl h))"
    using open_hole [OF ok, of g] unfolding assms(4) by (auto simp: add_ac)
  have R: "initial_addr h = adr a" "a + ext xs + t + d + s + 40 + ext ys \<le> 3212840960" "12 \<le> a"
    using 1(2) by (simp_all add: open_heap_def region_def)
  have ys: "ys = [] \<or> snd (hd ys)" and b: "block_at m (a + ext xs + t + 20) (d + s) False"
    using assms(1) by (auto simp: heap_ok_def no_adjacent_append no_adjacent_Cons)
  obtain m1 where 2: "merge_slack (h\<lparr>avl := t1\<rparr>) (adr (a + ext xs + t + 20)) (adr (a + ext xs + t + 20 + d)) m = Inr m1"
    "open_heap (h\<lparr>avl := t1\<rparr>) (take_header (a + ext xs + t + 20 + d) s m1) a (xs @ [(t + d, True)]) s ys"
    "outside (a + ext xs) (a + ext xs + t + d + s + 40) m (take_header (a + ext xs + t + 20 + d) s m1)"
    "kept {(t, a + ext xs + 12)} m (take_header (a + ext xs + t + 20 + d) s m1)"
    using merge_slack_ok [OF 1(2) assms(3)] by blast
  let ?m1 = "take_header (a + ext xs + t + 20 + d) s m1"
  have pos: "a + ext (xs @ [(t + d, True)]) = a + ext xs + t + 20 + d" by simp
  obtain t2 m' zs n' where 3: "split_block g (h\<lparr>avl := t1\<rparr>) (adr (a + ext xs + t + 20 + d)) (adr s) (adr n) ?m1 =
      Inr (h\<lparr>avl := t2\<rparr>, m')" "heap_ok (h\<lparr>avl := t2\<rparr>) m' a ((xs @ [(t + d, True)]) @ zs @ ys)"
    "ext zs = s + 20" "n \<le> n'"
    "used_blocks (a + ext xs + t + 20 + d) zs = {(n', a + ext xs + t + 20 + d + 12)}" "avl_spare t1 \<le> Suc (avl_spare t2)"
    "outside (a + ext xs + t + 20 + d) (a + ext xs + t + 20 + d + s + 20) ?m1 m'"
    using split_block_ok [OF 2(2) assms(2) ys, of g, unfolded avl_update_twice pos] 1(3) by auto
  have o: "outside (a + ext xs) (a + ext xs + t + d + s + 40) m m'"
    using outside_trans [OF 2(3) outside_mono [OF 3(7)]] by simp
  have k: "kept {(t, a + ext xs + 12)} m m'"
    using kept_trans [OF 2(4), of m'] kept_outside [OF 3(7), of "a + ext xs" "[(t, True)]"] R by simp
  have "take_hole g h (adr p) (adr n) al m = Inr (adr (p + d), h\<lparr>avl := t2\<rparr>, m')"
    using R 1(1) b 2(1) 3(1) assms(3,5) unfolding assms(4)
    by (simp add: take_hole_def block_at_def adr_order adr_sub adr_sub_numeral take_header_def Let_def add_ac)
  moreover have "allocated a (xs @ (t, True) # (d + s, False) # ys) ((xs @ [(t + d, True)]) @ zs @ ys) n (p + d)"
    using 3(3,4,5) assms(4)
    by (intro allocated_grown [of _ _ xs t "a + ext xs + t + d + s + 40" ys _ "t + d" _ n']) (auto simp: add_ac)
  moreover have "kept (used_blocks a (xs @ (t, True) # (d + s, False) # ys)) m m'"
    using kept_outside [OF o, of a xs] kept_outside [OF o, of "a + ext xs + t + d + s + 40" ys] k R
    by (auto simp: add_ac intro: kept_insert)
  moreover have "ext ((xs @ [(t + d, True)]) @ zs @ ys) = ext xs + t + d + s + 40 + ext ys" using 3(3) by simp
  ultimately show ?thesis using o 3(2,6) 1(3)
    by (intro exI [of _ t2] exI [of _ m'] exI [of _ "(xs @ [(t + d, True)]) @ zs @ ys"]) simp
qed

text \<open>The heap is anchored when its first block is in use: nothing is ever merged to its left.\<close>

definition anchored :: "nat \<Rightarrow> layout \<Rightarrow> bool" where
  "anchored a bs \<longleftrightarrow> a + 12 \<in> snd ` used_blocks a bs"

lemma anchored_allocated: "allocated a bs bs' n q \<Longrightarrow> anchored a bs \<Longrightarrow> anchored a bs'"
  by (simp add: allocated_def anchored_def)

lemma anchored_hole:
  assumes "anchored a bs" "bs = xs @ (s, False) # ys"
  shows "xs \<noteq> []"
  using assms used_below [of "a + 12" "a + s + 20" ys] by (cases xs) (simp_all add: anchored_def)

lemma heap_take_step:
  assumes "heap_ok h m a bs" "(s, p) \<in> free_blocks a bs" "alignment_ok al" "al = 0 \<or> anchored a bs"
    "align_up p al - p + n \<le> s"
  shows "\<exists>t m' bs'. take_hole g h (adr p) (adr n) (adr al) m = Inr (adr (align_up p al), h\<lparr>avl := t\<rparr>, m') \<and>
           heap_ok (h\<lparr>avl := t\<rparr>) m' a bs' \<and> allocated a bs bs' n (align_up p al) \<and>
           kept (used_blocks a bs) m m' \<and> ext bs' = ext bs \<and> avl_spare (avl h) \<le> avl_spare t \<and>
           outside a (a + ext bs) m m'"
proof -
  obtain xs ys where bs: "bs = xs @ (s, False) # ys" and p: "p = a + ext xs + 12"
    using assms(2) by (rule free_blocksE)
  have R: "a + ext bs \<le> 3212840960" using assms(1) by (simp add: heap_ok_def region_def)
  have q: "get_aligned_address (adr p) (adr al) = adr (align_up p al)"
    using R assms(3) by (intro aligned_addresses) (simp_all add: p bs)
  show ?thesis
  proof (cases "align_up p al = p")
    case True
    obtain t m' bs' where "take_hole g h (adr p) (adr n) (adr al) m = Inr (adr p, h\<lparr>avl := t\<rparr>, m')"
      "heap_ok (h\<lparr>avl := t\<rparr>) m' a bs'" "allocated a bs bs' n p" "kept (used_blocks a bs) m m'"
      "ext bs' = ext xs + s + 20 + ext ys" "avl_spare (avl h) \<le> avl_spare t"
      "outside (a + ext xs) (a + ext xs + s + 20) m m'"
      using take_hole_exact [of h m a xs s ys n p "adr al" g] assms(1,5) q True p unfolding bs by auto
    then show ?thesis unfolding True
      by (intro exI [of _ t] exI [of _ m'] exI [of _ bs']) (auto simp: bs elim: outside_mono)
  next
    case False
    then have "xs \<noteq> []" using assms(4) anchored_hole [OF _ bs] by (auto simp: align_up_def split: if_splits)
    then obtain xs' t u where xs: "xs = xs' @ [(t, u)]" by (metis prod.collapse rev_exhaust)
    have "no_adjacent bs" using assms(1) by (simp add: heap_ok_def)
    then have u by (auto simp: bs xs no_adjacent_append no_adjacent_Cons)
    define d where "d = align_up p al - p"
    have d: "0 < d" "align_up p al = p + d" using False align_up_ge [of p al] by (auto simp: d_def)
    obtain k where k: "s = d + k" "n \<le> k" using assms(5) by (auto simp: d_def le_iff_add add.assoc)
    have bs': "bs = xs' @ (t, True) # (d + k, False) # ys" using \<open>u\<close> by (simp add: bs xs k(1))
    have p': "p = a + ext xs' + t + 32" by (simp add: p xs)
    obtain tr m' bs'' where "take_hole g h (adr p) (adr n) (adr al) m = Inr (adr (p + d), h\<lparr>avl := tr\<rparr>, m')"
      "heap_ok (h\<lparr>avl := tr\<rparr>) m' a bs''" "allocated a bs bs'' n (p + d)" "kept (used_blocks a bs) m m'"
      "ext bs'' = ext xs' + t + d + k + 40 + ext ys" "avl_spare (avl h) \<le> avl_spare tr"
      "outside (a + ext xs') (a + ext xs' + t + d + k + 40) m m'"
      using take_hole_aligned [OF assms(1) [unfolded bs'] k(2) d(1) p', of "adr al" g] q
      unfolding d(2) bs' by blast
    then show ?thesis unfolding d(2)
      by (intro exI [of _ tr] exI [of _ m'] exI [of _ bs'']) (auto simp: bs' elim: outside_mono)
  qed
qed

section \<open>What the search finds\<close>

lemma heap_find:
  assumes "heap_ok h m a bs" "alignment_ok al" "n < 4294967296"
    "kalloc_avl_find_hole (avl h) (adr n) (adr al) \<noteq> 0"
  shows "\<exists>s p. (s, p) \<in> free_blocks a bs \<and> kalloc_avl_find_hole (avl h) (adr n) (adr al) = adr p \<and>
           align_up p al - p + n \<le> s"
proof -
  have R: "a + ext bs \<le> 3212840960" and H: "avl_holes (avl h) = index_of a bs"
    using assms(1) by (simp_all add: heap_ok_def region_def)
  obtain hs where hs: "(hs, kalloc_avl_find_hole (avl h) (adr n) (adr al)) \<in> index_of a bs"
    "fits (adr n) (adr al) (hs, kalloc_avl_find_hole (avl h) (adr n) (adr al))"
    using avl.find_hit [OF refl assms(4)] unfolding H by blast
  then obtain s p where sp: "(s, p) \<in> free_blocks a bs" "hs = adr s"
    "kalloc_avl_find_hole (avl h) (adr n) (adr al) = adr p"
    by (auto simp: index_of_def)
  have B: "p \<le> 3212840960" "s \<le> 3212840960" using free_blocks_range [OF sp(1)] R by linarith+
  have u: "align_up p al \<le> p + 1073741823"
  proof (cases "al = 0")
    case False
    then obtain k where "k \<le> 30" "al = 2 ^ k" using assms(2) by (auto simp: alignment_ok_def)
    moreover have "(2 :: nat) ^ k \<le> 2 ^ 30" using calculation(1) by (intro power_increasing) simp_all
    ultimately have "al \<le> 1073741824" by simp
    then show ?thesis using align_up_lt [of p al] False by simp
  qed (simp add: align_up_def)
  have "adr n \<le> adr s" "adr n + (adr (align_up p al) - adr p) \<le> adr s"
    using hs(2) unfolding sp fits_def hole_has_alignment_space_def
    by (simp_all add: aligned_addresses(2) [OF B(1) assms(2)])
  moreover have "n \<le> s" using calculation(1) B assms(3) by (simp add: adr_le)
  moreover have "adr n + (adr (align_up p al) - adr p) = adr (n + (align_up p al - p))"
    using align_up_ge [of p al] by (simp add: adr_sub)
  moreover have "n + (align_up p al - p) < 4294967296" using calculation(3) u B by linarith
  ultimately have "n + (align_up p al - p) \<le> s" using B by (simp add: adr_le)
  then show ?thesis using sp by (intro exI [of _ s] exI [of _ p]) (simp add: add.commute)
qed

text \<open>The space at the end of the heap that one more page makes larger.\<close>

definition tail :: "layout \<Rightarrow> nat" where
  "tail bs = (if snd (last bs) then 0 else fst (last bs) + 20)"

lemma tail_hole:
  assumes "tail bs \<noteq> 0" "bs \<noteq> []"
  obtains xs t where "bs = xs @ [(t, False)]" "tail bs = t + 20"
  using assms by (cases bs rule: rev_cases) (auto simp: tail_def split: if_splits)

lemma heap_find_room:
  assumes "heap_ok h m a bs" "alignment_ok al" "n + al + 20 \<le> tail bs"
  shows "kalloc_avl_find_hole (avl h) (adr n) (adr al) \<noteq> 0"
proof
  assume none: "kalloc_avl_find_hole (avl h) (adr n) (adr al) = 0"
  have R: "a + ext bs \<le> 3212840960" "4096 \<le> a" and H: "avl_holes (avl h) = index_of a bs"
    and ok: "avl_ok (avl h)" and ne: "bs \<noteq> []"
    using assms(1) by (simp_all add: heap_ok_def region_def)
  obtain xs t where bs: "bs = xs @ [(t, False)]" "tail bs = t + 20"
    using tail_hole [of bs] assms(3) ne by auto
  have last: "(adr t, adr (a + ext xs + 12)) \<in> avl_holes (avl h)" by (simp add: H bs)
  have "0 \<notin> snd ` avl_holes (avl h)"
  proof
    assume "0 \<in> snd ` avl_holes (avl h)"
    then obtain w where "(w, adr 0) \<in> index_of a bs" by (auto simp: H adr_def)
    then show False using index_of_outside [of w 0 a bs] R by simp
  qed
  then obtain k where k: "k \<in> avl_holes (avl h)" "\<forall>k' \<in> avl_holes (avl h). k' \<le> k" "\<not> fits (adr n) (adr al) k"
    using avl.find_none [OF ok _ _ none] last by blast
  then obtain s p where sp: "(s, p) \<in> free_blocks a bs" "k = (adr s, adr p)" by (auto simp: H index_of_def)
  have B: "p \<le> 3212840960" "s \<le> 3212840960" using free_blocks_range [OF sp(1)] R by linarith+
  have t: "t \<le> 3212840960" using R bs by simp
  have "adr t \<le> adr s" using k(2) last sp(2) by (auto simp: less_eq_prod_def less_prod_def)
  then have "t \<le> s" using B t by (simp add: adr_le)
  then have room: "n + al \<le> s" using assms(3) bs(2) by linarith
  moreover have "align_up p al - p \<le> al" using align_up_lt [of p al] by (auto simp: align_up_def)
  ultimately have "n + (align_up p al - p) \<le> s" by linarith
  then have "fits (adr n) (adr al) (adr s, adr p)"
    using B align_up_ge [of p al] room
    by (simp add: fits_def hole_has_alignment_space_def aligned_addresses(2) [OF B(1) assms(2)] adr_sub adr_le)
  then show False using k(3) sp(2) by simp
qed

section \<open>Expansion\<close>

lemma adr_page: "a < 4294967296 \<Longrightarrow> adr a div 4096 = adr (a div 4096)"
  by (rule word_eq_unatI) (simp add: word_nat)

lemma expand_after_block:
  assumes "heap_ok h m a (xs @ [(t, True)])" "avl_spare (avl h) \<noteq> 0"
    "pager (adr ((a + ext xs + t + 20) div 4096)) m p = Inr (m', p')"
    "outside (a + ext xs + t + 20) (a + ext xs + t + 4116) m m'" "a + ext xs + t + 4116 \<le> 3212840960"
  shows "\<exists>h' m''. expand_heap g pager h m p = Inr (h', m'', p') \<and>
           heap_ok h' m'' a (xs @ [(t, True), (4076, False)]) \<and> avl_spare (avl h) = Suc (avl_spare (avl h')) \<and>
           outside (a + ext xs + t + 20) (a + ext xs + t + 4116) m m''"
proof -
  let ?e = "a + ext xs + t + 20"
  have r: "region h a (ext xs + t + 20)" and m: "chain m a (xs @ [(t, True)])" and na: "no_adjacent (xs @ [(t, True)])"
    and ok: "avl_ok (avl h)" and H: "avl_holes (avl h) = index_of a (xs @ [(t, True)])"
    using assms(1) by (auto simp: heap_ok_def add_ac)
  note R = regionD [OF r]
  let ?m = "wr32 (adr (?e + 4092)) (adr ?e) (wr16 (adr (?e + 4088)) HEAP_FOOTER_MAGIC
    (wr32 (adr (?e + 8)) 0 (wr32 (adr (?e + 4)) (adr 4076) (wr16 (adr ?e) HEAP_HEADER_MAGIC m'))))"
  have o: "outside ?e (?e + 4096) m ?m"
    using R assms(4,5) by (intro outside_wr) (simp_all add: add_ac)
  have m': "chain m' a (xs @ [(t, True)])"
    using chain_outside [OF m assms(4)] R by simp
  have m'': "chain ?m a (xs @ [(t, True)])"
    using chain_outside [OF m o] R by simp
  have new: "(adr 4076, adr (?e + 12)) \<notin> avl_holes (avl h)"
    using index_of_outside [of _ "?e + 12" a "xs @ [(t, True)]"] R by (auto simp: H)
  obtain tr where tr: "kalloc_avl_insert g (avl h) (adr 4076) (adr (?e + 12)) = Inr (tr, 0)" "avl_ok tr"
    "avl_holes tr = insert (adr 4076, adr (?e + 12)) (avl_holes (avl h))" "avl_spare (avl h) = Suc (avl_spare tr)"
    using avl.ins_ok [OF ok new assms(2)] by blast
  have c: "(4076 :: u32) = adr 4076" by (simp add: adr_def)
  let ?h = "h\<lparr>heap_size := adr (ext xs + t + 4116), avl := tr\<rparr>"
  have "expand_heap g pager h m p = Inr (?h, ?m, p')"
    using R m' assms(3,5) tr(1)
    by (simp add: expand_heap_def adr_page adr_sub_numeral block_at_def rd_wr Let_def c add_ac)
  moreover have "block_at ?m ?e 4076 False"
    using assms(5) by (simp add: block_at_def rd_wr add_ac)
  moreover have "region ?h a (ext xs + t + 4116)"
    using r assms(5) dvd_add [of 4096 "ext xs + t + 20" 4096] by (simp add: region_def add_ac)
  ultimately show ?thesis
    using m'' o na tr H
    by (intro exI [of _ ?h] exI [of _ ?m]) (simp add: heap_ok_def no_adjacent_append no_adjacent_Cons add_ac)
qed

lemma expand_after_hole:
  assumes "heap_ok h m a (xs @ [(t, False)])"
    "pager (adr ((a + ext xs + t + 20) div 4096)) m p = Inr (m', p')"
    "outside (a + ext xs + t + 20) (a + ext xs + t + 4116) m m'" "a + ext xs + t + 4116 \<le> 3212840960"
  shows "\<exists>h' m''. expand_heap g pager h m p = Inr (h', m'', p') \<and>
           heap_ok h' m'' a (xs @ [(t + 4096, False)]) \<and> avl_spare (avl h') = avl_spare (avl h) \<and>
           outside (a + ext xs) (a + ext xs + t + 4116) m m''"
proof -
  let ?b = "a + ext xs" and ?e = "a + ext xs + t + 20"
  have r: "region h a (ext xs + t + 20)" and m: "chain m a (xs @ [(t, False)])" and na: "no_adjacent (xs @ [(t, False)])"
    and ok: "avl_ok (avl h)" and H: "avl_holes (avl h) = index_of a (xs @ [(t, False)])"
    using assms(1) by (auto simp: heap_ok_def add_ac)
  note R = regionD [OF r]
  let ?m = "wr32 (adr (?b + 4)) (adr (t + 4096)) (wr32 (adr (?e + 4092)) (adr ?b)
    (wr16 (adr (?e + 4088)) HEAP_FOOTER_MAGIC m'))"
  have o': "outside ?b (?b + t + 4116) m m'" using outside_mono [OF assms(3)] by simp
  have o: "outside ?b (?b + t + 4116) m ?m"
    using o' R assms(4) by (intro outside_wr) (simp_all add: add_ac)
  have m': "chain m' a (xs @ [(t, False)])"
    using chain_outside [OF m assms(3)] R by simp
  have m'': "chain ?m a xs"
    using chain_outside [OF _ o, of a xs] m R by simp
  have new: "(adr (t + 4096), adr (?b + 12)) \<notin> avl_holes (avl h) - {(adr t, adr (?b + 12))}"
    using index_of_outside [of _ "?b + 12" a xs] R by (auto simp: H)
  have old: "(adr t, adr (?b + 12)) \<in> avl_holes (avl h)" by (simp add: H)
  obtain t1 t2 where tr: "kalloc_avl_remove g (avl h) (adr t) (adr (?b + 12)) = Inr (t1, 0)"
    "kalloc_avl_insert g t1 (adr (t + 4096)) (adr (?b + 12)) = Inr (t2, 0)" "avl_ok t2"
    "avl_holes t2 = insert (adr (t + 4096), adr (?b + 12)) (avl_holes (avl h) - {(adr t, adr (?b + 12))})"
    "avl_spare t2 = avl_spare (avl h)"
    using avl.replace_ok [OF ok old new] by blast
  have fresh: "(adr t, adr (?b + 12)) \<notin> index_of a xs"
    using index_of_outside [of _ "?b + 12" a xs] R by auto
  let ?h = "h\<lparr>heap_size := adr (ext xs + t + 4116), avl := t2\<rparr>"
  have "expand_heap g pager h m p = Inr (?h, ?m, p')"
    using R m' assms(2,4) tr(1,2)
    by (simp add: expand_heap_def adr_page adr_sub_numeral block_at_def rd_wr Let_def add_ac)
  moreover have "block_at ?m ?b (t + 4096) False"
    using assms(4) m' by (simp add: block_at_def rd_wr add_ac)
  moreover have "region ?h a (ext xs + t + 4116)"
    using r assms(4) dvd_add [of 4096 "ext xs + t + 20" 4096] by (simp add: region_def add_ac)
  ultimately show ?thesis
    using m'' o na tr(3-5) H fresh
    by (intro exI [of _ ?h] exI [of _ ?m]) (simp add: heap_ok_def no_adjacent_append no_adjacent_Cons add_ac)
qed

lemma expand_step:
  assumes "heap_ok h m a bs" "tail bs \<noteq> 0 \<or> avl_spare (avl h) \<noteq> 0"
    "pager (adr ((a + ext bs) div 4096)) m p = Inr (m', p')"
    "outside (a + ext bs) (a + ext bs + 4096) m m'" "a + ext bs + 4096 \<le> 3212840960"
  shows "\<exists>h' m'' bs'. expand_heap g pager h m p = Inr (h', m'', p') \<and> heap_ok h' m'' a bs' \<and>
           used_blocks a bs' = used_blocks a bs \<and> ext bs' = ext bs + 4096 \<and> tail bs' = tail bs + 4096 \<and>
           avl_spare (avl h) \<le> avl_spare (avl h') + (if tail bs = 0 then 1 else 0) \<and>
           kept (used_blocks a bs) m m'' \<and> outside a (a + ext bs') m m''"
proof (cases "tail bs = 0")
  case True
  have "bs \<noteq> []" using assms(1) by (simp add: heap_ok_def)
  then obtain xs t where bs: "bs = xs @ [(t, True)]"
    using True by (cases bs rule: rev_cases) (auto simp: tail_def split: if_splits)
  have R: "a + ext bs \<le> 3212840960" using assms(1) by (simp add: heap_ok_def region_def)
  obtain h' m'' where e: "expand_heap g pager h m p = Inr (h', m'', p')"
    "heap_ok h' m'' a (xs @ [(t, True), (4076, False)])" "avl_spare (avl h) = Suc (avl_spare (avl h'))"
    "outside (a + ext xs + t + 20) (a + ext xs + t + 4116) m m''"
    using expand_after_block [of h m a xs t pager p m' p' g] assms True unfolding bs by (auto simp: add_ac)
  then show ?thesis
    using e kept_outside [OF e(4), of a bs] R outside_mono [OF e(4), of a "a + ext xs + t + 4116"]
    by (intro exI [of _ h'] exI [of _ m''] exI [of _ "xs @ [(t, True), (4076, False)]"])
      (simp add: bs tail_def add_ac)
next
  case False
  moreover have "bs \<noteq> []" using assms(1) by (simp add: heap_ok_def)
  ultimately obtain xs t where bs: "bs = xs @ [(t, False)]" by (rule tail_hole)
  have R: "a + ext bs \<le> 3212840960" using assms(1) by (simp add: heap_ok_def region_def)
  obtain h' m'' where e: "expand_heap g pager h m p = Inr (h', m'', p')"
    "heap_ok h' m'' a (xs @ [(t + 4096, False)])" "avl_spare (avl h') = avl_spare (avl h)"
    "outside (a + ext xs) (a + ext xs + t + 4116) m m''"
    using expand_after_hole [of h m a xs t pager p m' p' g] assms unfolding bs by (auto simp: add_ac)
  then show ?thesis
    using e kept_outside [OF e(4), of a xs] R outside_mono [OF e(4), of a "a + ext xs + t + 4116"]
    by (intro exI [of _ h'] exI [of _ m''] exI [of _ "xs @ [(t + 4096, False)]"])
      (simp add: bs tail_def add_ac)
qed

section \<open>Allocation that may grow the heap\<close>

text \<open>
  What the heap asks of the paging code: creating the next page, while \<open>ready n k\<close>
  promises \<open>k\<close> pages from number \<open>n\<close> on below the kernel stack, succeeds, changes no
  byte outside the new page, and leaves one page less to create.
\<close>

locale page_source =
  fixes pager :: "'p pager" and ready :: "nat \<Rightarrow> nat \<Rightarrow> 'p \<Rightarrow> bool"
  assumes page: "ready n (Suc k) p \<Longrightarrow> \<exists>m' p'. pager (adr n) m p = Inr (m', p') \<and> ready (Suc n) k p' \<and>
      outside (n * 4096) (n * 4096 + 4096) m m'"
    and below_stack: "ready n k p \<Longrightarrow> n + k \<le> 784385"
begin

lemma alloc_found:
  assumes "heap_ok h m a bs" "alignment_ok al" "al = 0 \<or> anchored a bs" "n < 4294967296"
    "kalloc_avl_find_hole (avl h) (adr n) (adr al) \<noteq> 0"
  shows "\<exists>q h' m' bs'. kalloc_heap_alloc g pager (adr n) (adr al) h m p = Some (Inr (adr q, h', m', p)) \<and>
           heap_ok h' m' a bs' \<and> allocated a bs bs' n q \<and> (al = 0 \<or> al dvd q) \<and>
           (\<exists>s b. (s, b) \<in> free_blocks a bs \<and> q = align_up b al) \<and> avl_spare (avl h) \<le> avl_spare (avl h') \<and>
           kept (used_blocks a bs) m m' \<and> ext bs' = ext bs \<and> outside a (a + ext bs) m m'"
proof -
  obtain s b where sb: "(s, b) \<in> free_blocks a bs" "kalloc_avl_find_hole (avl h) (adr n) (adr al) = adr b"
    "align_up b al - b + n \<le> s"
    using heap_find [OF assms(1,2,4,5)] by blast
  obtain t m' bs' where "take_hole g h (adr b) (adr n) (adr al) m = Inr (adr (align_up b al), h\<lparr>avl := t\<rparr>, m')"
    "heap_ok (h\<lparr>avl := t\<rparr>) m' a bs'" "allocated a bs bs' n (align_up b al)" "kept (used_blocks a bs) m m'"
    "ext bs' = ext bs" "avl_spare (avl h) \<le> avl_spare t" "outside a (a + ext bs) m m'"
    using heap_take_step [OF assms(1) sb(1) assms(2,3) sb(3)] by blast
  with assms(5) sb(1,2) align_up_dvd [of al b] show ?thesis
    by (intro exI [of _ "align_up b al"] exI [of _ "h\<lparr>avl := t\<rparr>"] exI [of _ m'] exI [of _ bs'])
      (auto simp: kalloc_heap_alloc.simps [of g pager "adr n" "adr al" h m p] Let_def)
qed

lemma alloc_ok:
  "heap_ok h m a bs \<Longrightarrow> alignment_ok al \<Longrightarrow> al = 0 \<or> anchored a bs \<Longrightarrow> n < 4294967296 \<Longrightarrow>
   ready ((a + ext bs) div 4096) k p \<Longrightarrow> tail bs \<noteq> 0 \<or> avl_spare (avl h) \<noteq> 0 \<Longrightarrow>
   n + al + 20 \<le> tail bs + k * 4096 \<Longrightarrow>
   \<exists>q h' m' p' bs' j. kalloc_heap_alloc g pager (adr n) (adr al) h m p = Some (Inr (adr q, h', m', p')) \<and>
     heap_ok h' m' a bs' \<and> allocated a bs bs' n q \<and> (al = 0 \<or> al dvd q) \<and> kept (used_blocks a bs) m m' \<and>
     ext bs \<le> ext bs' \<and> avl_spare (avl h) \<le> avl_spare (avl h') + (if tail bs = 0 then 1 else 0) \<and>
     outside a (a + ext bs') m m' \<and> j \<le> k \<and> ready ((a + ext bs') div 4096) (k - j) p'"
proof (induction k arbitrary: h m p bs)
  case 0
  then have "kalloc_avl_find_hole (avl h) (adr n) (adr al) \<noteq> 0"
    by (intro heap_find_room) simp_all
  from alloc_found [OF 0(1,2,3,4) this, of g p] 0(5) show ?case by fastforce
next
  case (Suc k)
  show ?case
  proof (cases "kalloc_avl_find_hole (avl h) (adr n) (adr al) = 0")
    case False
    from alloc_found [OF Suc.prems(1-4) False, of g p] Suc.prems(5) show ?thesis by fastforce
  next
    case True
    let ?n = "(a + ext bs) div 4096"
    have "4096 dvd a" "4096 dvd ext bs" using Suc.prems(1) by (simp_all add: heap_ok_def region_def)
    then have n: "?n * 4096 = a + ext bs" by simp
    obtain m1 p1 where 1: "pager (adr ?n) m p = Inr (m1, p1)" "ready (Suc ?n) k p1"
      "outside (?n * 4096) (?n * 4096 + 4096) m m1"
      using page [OF Suc.prems(5)] by blast
    have "?n + Suc k \<le> 784385" by (rule below_stack [OF Suc.prems(5)])
    then have lim: "a + ext bs + 4096 \<le> 3212840960" using n by linarith
    obtain h2 m2 bs2 where 2: "expand_heap g pager h m p = Inr (h2, m2, p1)" "heap_ok h2 m2 a bs2"
      "used_blocks a bs2 = used_blocks a bs" "ext bs2 = ext bs + 4096" "tail bs2 = tail bs + 4096"
      "kept (used_blocks a bs) m m2" "outside a (a + ext bs2) m m2"
      "avl_spare (avl h) \<le> avl_spare (avl h2) + (if tail bs = 0 then 1 else 0)"
      using expand_step [where pager = pager and p = p and m' = m1, OF Suc.prems(1,6) 1(1) 1(3) [unfolded n] lim] by blast
    have "(a + ext bs2) div 4096 = Suc ?n" using 2(4) by simp
    moreover have "al = 0 \<or> anchored a bs2" using Suc.prems(3) 2(3) by (simp add: anchored_def)
    ultimately obtain q h' m' p' bs' j where
      3: "kalloc_heap_alloc g pager (adr n) (adr al) h2 m2 p1 = Some (Inr (adr q, h', m', p'))"
      "heap_ok h' m' a bs'" "allocated a bs2 bs' n q" "al = 0 \<or> al dvd q" "kept (used_blocks a bs2) m2 m'"
      "ext bs2 \<le> ext bs'" "outside a (a + ext bs') m2 m'" "j \<le> k"
      "avl_spare (avl h2) \<le> avl_spare (avl h')" "ready ((a + ext bs') div 4096) (k - j) p'"
      using Suc.IH [OF 2(2) Suc.prems(2) _ Suc.prems(4), of p1] 1(2) 2(5) Suc.prems(7) by auto
    have "kalloc_heap_alloc g pager (adr n) (adr al) h m p = Some (Inr (adr q, h', m', p'))"
      using True 2(1) 3(1) by (simp add: kalloc_heap_alloc.simps [of g pager "adr n" "adr al" h m p])
    moreover have "allocated a bs bs' n q" using 3(3) 2(3) by (simp add: allocated_def)
    moreover have "outside a (a + ext bs') m m'"
      using outside_trans [OF outside_mono [OF 2(7), of a "a + ext bs'"] 3(7)] 3(6) by simp
    moreover have "kept (used_blocks a bs) m m'" using kept_trans [OF 2(6)] 3(5) 2(3) by simp
    moreover have "avl_spare (avl h) \<le> avl_spare (avl h') + (if tail bs = 0 then 1 else 0)"
      using 2(8) 3(9) by linarith
    moreover have "Suc j \<le> Suc k" "ready ((a + ext bs') div 4096) (Suc k - Suc j) p'" "ext bs \<le> ext bs'"
      using 3(6,8,10) 2(4) by simp_all
    ultimately show ?thesis using 3(2,4) by blast
  qed
qed

lemma create_pages_ok:
  "ready n (j + k) p \<Longrightarrow> \<exists>m' p'. create_pages pager j (adr n) m p = Inr (m', p') \<and> ready (n + j) k p' \<and>
     outside (n * 4096) ((n + j) * 4096) m m'"
proof (induction j arbitrary: n m p)
  case (Suc j)
  obtain m1 p1 where 1: "pager (adr n) m p = Inr (m1, p1)" "ready (Suc n) (j + k) p1"
    "outside (n * 4096) (n * 4096 + 4096) m m1"
    using page [of n "j + k" p m] Suc.prems by auto
  obtain m' p' where 2: "create_pages pager j (adr (Suc n)) m1 p1 = Inr (m', p')" "ready (Suc n + j) k p'"
    "outside (Suc n * 4096) ((Suc n + j) * 4096) m1 m'"
    using Suc.IH [OF 1(2)] by blast
  have "outside (n * 4096) ((n + Suc j) * 4096) m m'"
    using outside_trans [OF outside_mono [OF 1(3)] outside_mono [OF 2(3)]] by simp
  then show ?case using 1(1) 2(1,2) by (intro exI [of _ m'] exI [of _ p']) simp
qed simp

lemma create_ok:
  assumes "4096 dvd c" "c \<noteq> 0" "n \<noteq> 0" "ready (c div 4096) (16 + n + k) p"
  shows "\<exists>h m' p'. kalloc_heap_create g pager (adr c) (adr n) m p = Inr (h, m', p') \<and>
           heap_ok h m' (c + 65536) [(n * 4096 - 20, False)] \<and> avl_spare (avl h) = 3275 \<and>
           ready (c div 4096 + 16 + n) k p' \<and> outside c (c + 65536 + n * 4096) m m'"
proof -
  define s where "s = n * 4096 - 20"
  then have s: "n * 4096 = s + 20" using assms(3) by (cases n) simp_all
  have c: "c div 4096 * 4096 = c" using assms(1) by simp
  have "c div 4096 + (16 + n + k) \<le> 784385" by (rule below_stack [OF assms(4)])
  then have lim: "c + 65536 + (s + 20) \<le> 3212840960" using c s by linarith
  have c0: "4096 \<le> c" using assms(1,2) by (simp add: dvd_imp_le)
  obtain m1 p1 where 1: "create_pages pager (16 + n) (adr (c div 4096)) m p = Inr (m1, p1)"
    "ready (c div 4096 + (16 + n)) k p1" "outside (c div 4096 * 4096) ((c div 4096 + (16 + n)) * 4096) m m1"
    using create_pages_ok [OF assms(4)] by blast
  have o1: "outside c (c + 65536 + (s + 20)) m m1"
    using outside_mono [OF 1(3), of c "c + 65536 + (s + 20)"] c s by (simp add: add_mult_distrib)
  obtain t where t: "kalloc_avl_init (adr c) 65536 = Inr t" "avl_ok t" "avl_holes t = {}" "avl_spare t = 3276"
    using kalloc_avl_init_cells [of 65536 "adr c"] lim c0
    by (auto simp: sizeof_Kalloc_AVL_Node_def adr_eq_0)
  obtain t2 where t2: "kalloc_avl_insert g t (adr s) (adr (c + 65548)) = Inr (t2, 0)" "avl_ok t2"
    "avl_holes t2 = {(adr s, adr (c + 65548))}" "avl_spare t2 = 3275"
    using avl.ins_ok [OF t(2), of "adr s" "adr (c + 65548)" g] t(3,4) by auto
  let ?b = "c + 65536"
  let ?m = "wr16 (adr (?b + s + 12)) HEAP_FOOTER_MAGIC (wr32 (adr (?b + s + 16)) (adr ?b)
    (wr32 (adr (?b + 8)) 0 (wr32 (adr (?b + 4)) (adr s) (wr16 (adr ?b) HEAP_HEADER_MAGIC m1))))"
  let ?h = "\<lparr>avl_initial_addr = adr c, initial_addr = adr ?b, heap_size = adr (s + 20), avl = t2\<rparr>"
  have o2: "outside c (c + 65536 + (s + 20)) m ?m"
    using lim o1 by (intro outside_wr) simp_all
  have "adr n * 4096 = adr (n * 4096)" by (simp add: adr_def)
  then have sz: "adr n * 4096 = adr (s + 20)" by (simp only: s)
  have "16 + n < 4294967296" using lim s by linarith
  then have np: "unat (adr (n + 16)) = n + 16" by simp
  have al: "adr c mod 4096 = 0" using assms(1) lim
    by (intro word_eq_unatI) (simp add: word_nat dvd_eq_mod_eq_0)
  have "(20 :: u32) \<le> adr (s + 20)" using lim by (simp add: word_le_nat_alt)
  then have "kalloc_heap_create g pager (adr c) (adr n) m p = Inr (?h, ?m, p1)"
    using lim 1(1) t(1) t2(1)
    by (simp add: kalloc_heap_create_def sz np al adr_page NUM_PAGES_RESERVED_FOR_AVL_def
        adr_sub adr_sub_numeral rd_wr Let_def add_ac)
  moreover have "block_at ?m ?b s False" using lim by (simp add: block_at_def rd_wr add_ac)
  moreover have "region ?h ?b (s + 20)"
    using lim assms(1) c0 dvd_add [OF assms(1), of 65536] dvd_triv_right [of 4096 n] unfolding s [symmetric]
    by (simp add: region_def)
  moreover have "n * 4096 - 20 = s" using s by simp
  ultimately show ?thesis
    using t2 1(2) o2 s by (intro exI [of _ ?h] exI [of _ ?m] exI [of _ p1]) (simp add: heap_ok_def add_ac)
qed

end

end
