(* ===== verification/Kalloc_Correct.thy ===== *)
theory Kalloc_Correct
  imports Kalloc_Heap_Correct
begin

text \<open>
  The front end src/src/alloc/kalloc.c on a correct heap: initialisation leaves a
  heap whose first block is in use, users may write their blocks, and reallocation
  moves the bytes.
\<close>

section \<open>Blocks in use\<close>

lemma used_disjoint:
  "(s, p) \<in> used_blocks a bs \<Longrightarrow> (t, q) \<in> used_blocks a bs \<Longrightarrow> p \<noteq> q \<Longrightarrow> p + s + 20 \<le> q \<or> q + t + 20 \<le> p"
proof (induction bs arbitrary: a rule: ext.induct)
  case (2 r u bs)
  then consider "(s, p) = (r, a + 12)" "(t, q) \<in> used_blocks (a + r + 20) bs"
    | "(t, q) = (r, a + 12)" "(s, p) \<in> used_blocks (a + r + 20) bs"
    | "(s, p) \<in> used_blocks (a + r + 20) bs" "(t, q) \<in> used_blocks (a + r + 20) bs"
    by (auto split: if_splits)
  then show ?case
  proof cases
    case 1
    then show ?thesis using used_blocks_range [OF 1(2)] by simp
  next
    case 2
    then show ?thesis using used_blocks_range [OF 2(2)] by simp
  next
    case 3
    then show ?thesis using "2.IH" "2.prems"(3) by blast
  qed
qed simp

lemma used_unique:
  "(s, p) \<in> used_blocks a bs \<Longrightarrow> (t, p) \<in> used_blocks a bs \<Longrightarrow> s = t"
proof (induction bs arbitrary: a rule: ext.induct)
  case (2 r u bs)
  then show ?case
    using used_blocks_range [of s p "a + r + 20" bs] used_blocks_range [of t p "a + r + 20" bs]
    by (auto split: if_splits)
qed simp

text \<open>Writing the user bytes of a block in use does not touch the heap.\<close>

lemma heap_ok_user_write:
  assumes "heap_ok h m a bs" "(s, p) \<in> used_blocks a bs" "outside p (p + s) m m'"
  shows "heap_ok h m' a bs"
proof -
  obtain xs ys where bs: "bs = xs @ (s, True) # ys" and p: "p = a + ext xs + 12"
    using assms(2) by (rule used_blocksE)
  have R: "a + ext bs \<le> 3212840960" using assms(1) by (simp add: heap_ok_def region_def)
  have m: "chain m a xs" "block_at m (a + ext xs) s True" "chain m (a + ext xs + s + 20) ys"
    using assms(1) by (simp_all add: heap_ok_def bs)
  have "chain m' a xs" using chain_outside [OF m(1) assms(3)] R by (simp add: bs p)
  moreover have "chain m' (a + ext xs + s + 20) ys" using chain_outside [OF m(3) assms(3)] R by (simp add: bs p)
  moreover have "block_at m' (a + ext xs) s True"
    using block_at_outside [OF m(2) assms(3)] R by (simp add: bs p)
  ultimately show ?thesis using assms(1) by (simp add: heap_ok_def bs)
qed

lemma kept_user_write:
  assumes "U \<subseteq> used_blocks a bs" "(s, p) \<in> used_blocks a bs" "p \<notin> snd ` U"
    "outside p (p + s) m m'" "a + ext bs \<le> 4294967296"
  shows "kept U m m'"
  unfolding kept_def
proof (intro ballI allI impI, clarify)
  fix t q i assume tq: "(t, q) \<in> U" "i < t"
  then have "(t, q) \<in> used_blocks a bs" "q \<noteq> p" using assms(1,3) by force+
  then have "q + t + 20 \<le> p \<or> p + s + 20 \<le> q" "q + t + 8 \<le> a + ext bs"
    using used_disjoint [OF _ assms(2)] used_blocks_range by blast+
  then show "m' (adr (q + i)) = m (adr (q + i))"
    using tq(2) assms(5) by (intro outsideD [OF assms(4)]) linarith+
qed

text \<open>The bytes that \<open>memcpy\<close> moves between two disjoint areas.\<close>

lemma memcpy_outside:
  assumes "p + n \<le> q \<or> q + n \<le> p" "p + n \<le> 4294967296" "q + n \<le> 4294967296"
  shows "outside q (q + n) m (memcpy (adr q) (adr p) (adr n) m)"
    and "i < n \<Longrightarrow> memcpy (adr q) (adr p) (adr n) m (adr (q + i)) = m (adr (p + i))"
proof -
  have "n < 4294967296" using assms by linarith
  then have n: "unat (adr n) = n" by simp
  have "copies_forward (adr q) (adr p) (unat (adr n))"
    unfolding copies_forward_def n
  proof (intro allI impI)
    fix j k assume "j < n" "k < j"
    moreover have "adr q + of_nat k = adr (q + k)" "adr p + of_nat j = adr (p + j)"
      by (simp_all add: adr_def)
    ultimately show "adr q + of_nat k \<noteq> adr p + of_nat j" using assms by (auto simp: adr_inject)
  qed
  note spec = memcpy_spec [OF this, unfolded n]
  have off: "offset_of (adr q) (adr x) = (if q \<le> x then x - q else x + 4294967296 - q)"
    if "x < 4294967296" for x
  proof (cases "q \<le> x")
    case True
    then show ?thesis using that by (simp add: offset_of_def adr_sub)
  next
    case False
    have "adr x - adr q = adr (x + 4294967296 - q)"
      using False assms by (simp add: adr_def of_nat_diff)
    then show ?thesis using False assms by (simp add: offset_of_def)
  qed
  show "outside q (q + n) m (memcpy (adr q) (adr p) (adr n) m)"
    unfolding outside_def using assms off by (auto simp: spec)
  show "memcpy (adr q) (adr p) (adr n) m (adr (q + i)) = m (adr (p + i))" if "i < n"
    using that assms off [of "q + i"] by (simp add: spec adr_sub)
qed

section \<open>kalloc.c on top of the page source\<close>

context page_source
begin

lemma init_ok:
  assumes "ready 1280 (16 + n + k) p" "n \<noteq> 0"
  shows "\<exists>h m' p' bs. kalloc_init g pager (adr n) m p = Some (Inr (adr 5308428, h, m', p')) \<and>
           heap_ok h m' 5308416 bs \<and> anchored 5308416 bs \<and> ext bs = n * 4096 \<and> 3275 \<le> avl_spare (avl h) \<and>
           ready (1296 + n) k p' \<and> outside 5242880 (5308416 + n * 4096) m m'"
proof -
  obtain s where s: "n * 4096 = s + 20" using assms(2) by (cases n) simp_all
  have s1: "Suc 0 \<le> s" using s assms(2) by linarith
  obtain h m1 p1 where 1: "kalloc_heap_create g pager (adr 5242880) (adr n) m p = Inr (h, m1, p1)"
    "heap_ok h m1 5308416 [(s, False)]" "avl_spare (avl h) = 3275" "ready (1296 + n) k p1"
    "outside 5242880 (5308416 + n * 4096) m m1"
    using create_ok [of 5242880 n k p g m] assms by (auto simp: s)
  have "kalloc_avl_find_hole (avl h) (adr 1) (adr 0) \<noteq> 0"
    using s1 by (intro heap_find_room [OF 1(2)]) (simp_all add: alignment_ok_def tail_def)
  from alloc_found [OF 1(2) _ _ _ this, of g p1] obtain q h' m' bs' where
    2: "kalloc_heap_alloc g pager (adr 1) (adr 0) h m1 p1 = Some (Inr (adr q, h', m', p1))"
    "heap_ok h' m' 5308416 bs'" "allocated 5308416 [(s, False)] bs' 1 q"
    "\<exists>s' b. (s', b) \<in> free_blocks 5308416 [(s, False)] \<and> q = align_up b 0" "avl_spare (avl h) \<le> avl_spare (avl h')"
    "ext bs' = ext [(s, False)]" "outside 5308416 (5308416 + ext [(s, False)]) m1 m'"
    by (auto simp: alignment_ok_def)
  have q: "q = 5308428" using 2(4) by (simp add: align_up_def)
  have "anchored 5308416 bs'" using 2(3) by (simp add: allocated_def anchored_def q)
  moreover have "outside 5242880 (5308416 + n * 4096) m m'"
    using outside_trans [OF 1(5) outside_mono [OF 2(7)]] s by simp
  moreover have "kalloc_init g pager (adr n) m p = Some (Inr (adr 5308428, h', m', p1))"
    using 1(1) 2(1) by (simp add: kalloc_init_def KERNEL_HEAP_ADDRESS_def adr_numeral q)
  ultimately show ?thesis
    using 1(3,4) 2(2,5,6) s by (intro exI [of _ h'] exI [of _ m'] exI [of _ p1] exI [of _ bs']) simp
qed

lemma realloc_ok:
  assumes "heap_ok h m a bs" "(s, b) \<in> used_blocks a bs" "old \<le> s" "old < n" "n < 4294967296"
    "ready ((a + ext bs) div 4096) k p" "2 \<le> avl_spare (avl h)" "n + 20 \<le> tail bs + k * 4096"
  shows "\<exists>q h' m' p' bs'. kalloc_realloc g pager (adr b) (adr old) (adr n) h m p = Some (Inr (adr q, h', m', p')) \<and>
           heap_ok h' m' a bs' \<and> (\<exists>n'. n \<le> n' \<and> (n', q) \<in> used_blocks a bs') \<and>
           (\<forall>i < old. m' (adr (q + i)) = m (adr (b + i))) \<and> b \<notin> snd ` used_blocks a bs' \<and>
           kept (used_blocks a bs - {(s, b)}) m m'"
proof -
  obtain q h1 m1 p1 bs1 where 1: "kalloc_heap_alloc g pager (adr n) (adr 0) h m p = Some (Inr (adr q, h1, m1, p1))"
    "heap_ok h1 m1 a bs1" "allocated a bs bs1 n q" "kept (used_blocks a bs) m m1"
    "avl_spare (avl h) \<le> avl_spare (avl h1) + (if tail bs = 0 then 1 else 0)"
    using alloc_ok [OF assms(1) _ _ assms(5,6), where al = 0 and g = g] assms(7,8) by (auto simp: alignment_ok_def)
  obtain n' where n': "n \<le> n'" "(n', q) \<in> used_blocks a bs1" using 1(3) by (auto simp: allocated_def)
  obtain s' where s': "s \<le> s'" "(s', b) \<in> used_blocks a bs1" using 1(3) assms(2) by (fastforce simp: allocated_def)
  have "q \<noteq> b" using 1(3) assms(2) by (force simp: allocated_def)
  then have apart: "b + old \<le> q \<or> q + old \<le> b"
    using used_disjoint [OF s'(2) n'(2)] s'(1) n'(1) assms(3,4) by linarith
  have R: "a + ext bs1 \<le> 3212840960" using 1(2) by (simp add: heap_ok_def region_def)
  have lim: "b + old \<le> 4294967296" "q + old \<le> 4294967296"
    using used_blocks_range [OF s'(2)] used_blocks_range [OF n'(2)] R s'(1) n'(1) assms(3,4) by linarith+
  let ?m = "memcpy (adr q) (adr b) (adr old) m1"
  have o: "outside q (q + n') m1 ?m"
    using outside_mono [OF memcpy_outside(1) [OF apart lim]] n'(1) assms(4) by simp
  have 2: "heap_ok h1 ?m a bs1" by (rule heap_ok_user_write [OF 1(2) n'(2) o])
  have "avl_spare (avl h1) \<noteq> 0" using 1(5) assms(7) by (auto split: if_splits)
  then obtain t m' bs' where 3: "kalloc_heap_free g h1 (adr b) ?m = Inr (h1\<lparr>avl := t\<rparr>, m')"
    "heap_ok (h1\<lparr>avl := t\<rparr>) m' a bs'" "used_blocks a bs' = used_blocks a bs1 - {(s', b)}"
    "kept (used_blocks a bs') ?m m'"
    using heap_free_step [OF 2 s'(2)] by blast
  have q: "(n', q) \<in> used_blocks a bs'" using n'(2) 3(3) \<open>q \<noteq> b\<close> by simp
  have "m' (adr (q + i)) = m (adr (b + i))" if "i < old" for i
  proof -
    have "m' (adr (q + i)) = ?m (adr (q + i))" using 3(4) q that n'(1) assms(4) by (force simp: kept_def)
    also have "\<dots> = m1 (adr (b + i))" by (rule memcpy_outside(2) [OF apart lim that])
    also have "\<dots> = m (adr (b + i))" using 1(4) assms(2,3) that by (force simp: kept_def)
    finally show ?thesis .
  qed
  moreover have "b \<notin> snd ` used_blocks a bs'" using 3(3) used_unique [OF s'(2)] by auto
  moreover have "kept (used_blocks a bs - {(s, b)}) m m'"
  proof -
    have "m' (adr (c + i)) = m (adr (c + i))" if c: "(r, c) \<in> used_blocks a bs" "(r, c) \<noteq> (s, b)" "i < r" for r c i
    proof -
      obtain r' where r': "r \<le> r'" "(r', c) \<in> used_blocks a bs1" using 1(3) c(1) by (fastforce simp: allocated_def)
      have "c \<noteq> b" using used_unique [OF c(1)] assms(2) c(2) by auto
      moreover have "c \<noteq> q" using 1(3) c(1) by (force simp: allocated_def)
      ultimately have "(r', c) \<in> used_blocks a bs'" "kept {(r', c)} m1 ?m"
        using r' 3(3) kept_user_write [OF _ n'(2) _ o, of "{(r', c)}"] R by auto
      then show ?thesis using 3(4) 1(4) c(1,3) r'(1) by (force simp: kept_def)
    qed
    then show ?thesis by (auto simp: kept_def)
  qed
  moreover have "kalloc_realloc g pager (adr b) (adr old) (adr n) h m p = Some (Inr (adr q, h1\<lparr>avl := t\<rparr>, m', p1))"
  proof -
    have "old < 4294967296" using assms(4,5) by linarith
    then have "\<not> adr n \<le> adr old" using assms(4,5) by (simp add: adr_le)
    then show ?thesis using 1(1) 3(1) by (simp add: kalloc_realloc_def kalloc_free_def adr_numeral)
  qed
  ultimately show ?thesis using 3(2) q n'(1) by blast
qed

end

end
