(* ===== verification/Paging_Correct.thy ===== *)
theory Paging_Correct
  imports Paging Kalloc_Correct
begin

text \<open>
  Creating kernel pages: the invariant of the kernel's address space, and the proof
  that the paging code is the page source the heap asks for.
\<close>

section \<open>Reading back what was stored\<close>

lemma low_byte_set_low_byte [simp]: "low_byte (set_low_byte b e) = b"
proof (rule bit_word_eqI)
  fix n assume "n < LENGTH(8)"
  then have "n = 0 \<or> n = 1 \<or> n = 2 \<or> n = 3 \<or> n = 4 \<or> n = 5 \<or> n = 6 \<or> n = 7"
    by (simp only: len_num1 len_bit0) linarith
  then show "bit (low_byte (set_low_byte b e)) n = bit b n"
    by (elim disjE) (simp_all add: low_byte_def set_low_byte_def bit_simps bit_1_iff)
qed

lemma translate_phys [simp]: "translate a (k\<lparr>phys := p\<rparr>) = translate a k"
  by (simp add: translate_def directory_def)

lemma read_write_byte: "write_byte a v m k = Inr (m', k') \<Longrightarrow> read_byte a m' k' = Inr v"
  by (auto simp: write_byte_def read_byte_def split: if_splits)

lemma test_read_write: "test_write a m k = Inr (m', k') \<Longrightarrow> test_read a m' k' = Inr 0xAB"
  by (auto simp: test_write_def test_read_def set_entry_def intro: read_write_byte split: if_splits)

lemma kernel_updates [simp]:
  "kernel_page_directory (set_table pd i v k) = kernel_page_directory k"
  "kernel_page_directory (set_x86 pd i v k) = kernel_page_directory k"
  "kernel_page_directory (clear_table t k) = kernel_page_directory k"
  "kernel_page_directory (set_entry t j e k) = kernel_page_directory k"
  "available_frames (set_table pd i v k) = available_frames k"
  "available_frames (set_x86 pd i v k) = available_frames k"
  "available_frames (clear_table t k) = available_frames k"
  "available_frames (set_entry t j e k) = available_frames k"
  "active_process (set_table pd i v k) = active_process k"
  "active_process (set_x86 pd i v k) = active_process k"
  "active_process (clear_table t k) = active_process k"
  "active_process (set_entry t j e k) = active_process k"
  "processes (set_table pd i v k) = processes k"
  "processes (set_x86 pd i v k) = processes k"
  "processes (clear_table t k) = processes k"
  "processes (set_entry t j e k) = processes k"
  "page_tables (set_table pd i v k) = page_tables k"
  "page_tables (set_x86 pd i v k) = page_tables k"
  "page_tables (clear_table t k) = (page_tables k)(t := \<lambda>j. zero_entry)"
  "page_tables (set_entry t j e k) = (page_tables k)(t := (page_tables k t)(j := e))"
  "page_directories (clear_table t k) = page_directories k"
  "page_directories (set_entry t j e k) = page_directories k"
  by (simp_all add: store_defs)

lemma directory_updates [simp]:
  "tables (directory (set_table pd i v k) pd') =
     (if pd' = pd then (tables (directory k pd))(i := v) else tables (directory k pd'))"
  "tables (directory (set_x86 pd i v k) pd') = tables (directory k pd')"
  "directory (clear_table t k) pd' = directory k pd'"
  "directory (set_entry t j e k) pd' = directory k pd'"
  "directory (k\<lparr>available_frames := bm\<rparr>) pd' = directory k pd'"
  by (simp_all add: store_defs)

section \<open>The ring of processes\<close>

text \<open>
  \<open>path k x ps y\<close>: following the \<open>next\<close> pointers from \<open>x\<close> visits the processes
  \<open>ps\<close> and ends at \<open>y\<close>.  The processes form a ring through \<open>active_process\<close>.
\<close>

fun path :: "Kernel \<Rightarrow> u32 \<Rightarrow> u32 list \<Rightarrow> u32 \<Rightarrow> bool" where
  "path k x [] y \<longleftrightarrow> x = y"
| "path k x (p # ps) y \<longleftrightarrow> p = x \<and> x \<noteq> 0 \<and> path k (next_process (processes k x)) ps y"

definition ring :: "Kernel \<Rightarrow> u32 list \<Rightarrow> bool" where
  "ring k ps \<longleftrightarrow> distinct ps \<and> ps \<noteq> [] \<and> path k (active_process k) ps (active_process k)"

lemma path_cong: "processes k' = processes k \<Longrightarrow> path k' x ps y = path k x ps y"
  by (induction ps arbitrary: x) auto

lemma length_distinct_u32: "distinct (ps :: u32 list) \<Longrightarrow> length ps \<le> 4294967296"
proof -
  assume "distinct ps"
  then have "length ps = card (set ps)" by (simp add: distinct_card)
  also have "\<dots> \<le> card (UNIV :: u32 set)" by (rule card_mono) simp_all
  finally show ?thesis by (simp add: card_word)
qed

text \<open>What linking a table does: the same entry in the directory of every process.\<close>

definition linked :: "Kernel \<Rightarrow> u32 list \<Rightarrow> u32 \<Rightarrow> nat \<Rightarrow> u32 \<Rightarrow> Kernel" where
  "linked k ps vaddr i x86 =
     fold (\<lambda>p k. set_x86 (page_directory (processes k p)) i x86 (set_table (page_directory (processes k p)) i vaddr k)) ps k"

lemma linked_simps [simp]:
  "linked k [] vaddr i x86 = k"
  "linked k (p # ps) vaddr i x86 =
     linked (set_x86 (page_directory (processes k p)) i x86 (set_table (page_directory (processes k p)) i vaddr k)) ps vaddr i x86"
  by (simp_all add: linked_def)

lemma linked_fields [simp]:
  "kernel_page_directory (linked k ps vaddr i x86) = kernel_page_directory k"
  "available_frames (linked k ps vaddr i x86) = available_frames k"
  "active_process (linked k ps vaddr i x86) = active_process k"
  "processes (linked k ps vaddr i x86) = processes k"
  "page_tables (linked k ps vaddr i x86) = page_tables k"
  by (induction ps arbitrary: k) simp_all

lemma linked_tables:
  "tables (directory (linked k ps vaddr i x86) pd) =
     (if pd \<in> (\<lambda>p. page_directory (processes k p)) ` set ps then (tables (directory k pd))(i := vaddr)
      else tables (directory k pd))"
  by (induction ps arbitrary: k) (auto simp: fun_upd_idem_iff)

lemma link_loop_ring:
  assumes "path k x ps (active_process k)" "active_process k \<notin> set (tl ps)" "length ps \<le> fuel" "ps \<noteq> []"
  shows "link_loop fuel x vaddr i x86 k = Inr (linked k ps vaddr i x86)"
  using assms
proof (induction ps arbitrary: x k fuel)
  case (Cons p ps)
  let ?k = "set_x86 (page_directory (processes k x)) i x86 (set_table (page_directory (processes k x)) i vaddr k)"
  have p: "p = x" "x \<noteq> 0" "path k (next_process (processes k x)) ps (active_process k)" using Cons.prems by auto
  have step: "link_loop fuel x vaddr i x86 k =
      (if next_process (processes k x) \<noteq> active_process k
       then link_loop (fuel - 1) (next_process (processes k x)) vaddr i x86 ?k else Inr ?k)"
    using Cons.prems p by (subst link_loop.simps) (simp add: Let_def)
  show ?case
  proof (cases ps)
    case Nil
    then show ?thesis using step p by simp
  next
    case (Cons q qs)
    then have q: "q = next_process (processes k x)" "q \<noteq> active_process k" using p Cons.prems(2) by auto
    have "path ?k q ps (active_process ?k)" using p(3) q by (simp add: path_cong [of ?k k])
    moreover have "active_process ?k \<notin> set (tl ps)" using Cons.prems(2) Cons by simp
    ultimately have "link_loop (fuel - 1) q vaddr i x86 ?k = Inr (linked ?k ps vaddr i x86)"
      using Cons.IH Cons.prems(3) Cons by fastforce
    then show ?thesis using step q p(1) by simp
  qed
qed simp

lemma process_link_ring:
  assumes "ring k ps"
  shows "process_link_kernel_table_to_all_address_spaces vaddr i x86 k = Inr (linked k ps vaddr i x86)"
proof -
  obtain p qs where ps: "ps = p # qs" using assms by (cases ps) (auto simp: ring_def)
  then have p: "p = active_process k" "p \<noteq> 0" "p \<notin> set qs" using assms by (auto simp: ring_def)
  have "link_loop 4294967296 (active_process k) vaddr i x86 k = Inr (linked k ps vaddr i x86)"
    using assms p ps length_distinct_u32 [of ps] by (intro link_loop_ring) (auto simp: ring_def)
  then show ?thesis using p by (simp add: process_link_kernel_table_to_all_address_spaces_def)
qed

section \<open>The kernel's address space\<close>

definition mapped :: "Kernel \<Rightarrow> nat \<Rightarrow> bool" where
  "mapped k x \<longleftrightarrow> tables (kernel_dir k) (x div 1024) \<noteq> 0 \<and>
     present (page_tables k (tables (kernel_dir k) (x div 1024)) (x mod 1024))"

definition frame_of :: "Kernel \<Rightarrow> nat \<Rightarrow> nat" where
  "frame_of k x = unat (frame_address_20_bits (page_tables k (tables (kernel_dir k) (x div 1024)) (x mod 1024)))"

definition frames_ok :: "Kernel \<Rightarrow> bool" where
  "frames_ok k \<longleftrightarrow> bm_wf (available_frames k) \<and> bm_count (available_frames k) = 786432"

definition free_frames :: "Kernel \<Rightarrow> nat" where
  "free_frames k = card {f. f < 786432 \<and> \<not> bm_bit (available_frames k) f}"

text \<open>
  The kernel's page tables are at their reserved addresses, the pages that hold them
  are mapped, the first two tables exist, and every mapped page has a frame of its
  own that is marked as used.
\<close>

definition paging_ok :: "Kernel \<Rightarrow> bool" where
  "paging_ok k \<longleftrightarrow> frames_ok k \<and>
     (\<forall>i < 1024. tables (kernel_dir k) i \<noteq> 0 \<longrightarrow>
        tables (kernel_dir k) i = table_address i) \<and>
     (\<forall>i < 1024. mapped k (256 + i) \<longleftrightarrow> tables (kernel_dir k) i \<noteq> 0) \<and>
     tables (kernel_dir k) 0 \<noteq> 0 \<and> tables (kernel_dir k) 1 \<noteq> 0 \<and>
     (\<forall>x < 1048576. mapped k x \<longrightarrow> bm_bit (available_frames k) (frame_of k x)) \<and>
     (\<forall>x < 1048576. \<forall>y < 1048576. mapped k x \<longrightarrow> mapped k y \<longrightarrow> frame_of k x = frame_of k y \<longrightarrow> x = y)"

lemma table_address_adr: "table_address i = adr (1048576 + i * 4096)"
  by (simp add: table_address_def KERNEL_PAGE_TABLES_ADDRESS_def adr_def)

lemma table_address_inject: "i < 1024 \<Longrightarrow> j < 1024 \<Longrightarrow> table_address i = table_address j \<longleftrightarrow> i = j"
  by (auto simp: table_address_adr adr_inject)

lemma table_address_page: "i < 1024 \<Longrightarrow> table_address i div 4096 = adr (256 + i)"
  by (simp add: table_address_adr adr_page)

lemma adr_index: "x < 1048576 \<Longrightarrow> unat (adr x div 1024) = x div 1024" "x < 1048576 \<Longrightarrow> unat (adr x mod 1024) = x mod 1024"
  by (simp_all add: word_nat)

lemma adr_times_page: "adr x * 4096 = adr (x * 4096)"
  by (simp add: adr_def)

lemma is_table_page_adr: "x < 1048576 \<Longrightarrow> is_table_page (adr (x * 4096)) \<longleftrightarrow> 256 \<le> x \<and> x < 1280"
  by (simp add: is_table_page_def KERNEL_PAGE_TABLES_ADDRESS_def word_le_nat_alt word_less_nat_alt)

text \<open>The first clear frame is taken.\<close>

lemma take_frame:
  assumes "frames_ok k" "free_frames k \<noteq> 0"
  shows "\<exists>f bm. bitmap_get_first_clear (available_frames k) = Inr (adr f) \<and>
           bitmap_set (available_frames k) (adr f) = Inr bm \<and> f < 786432 \<and>
           \<not> bm_bit (available_frames k) f \<and> frames_ok (k\<lparr>available_frames := bm\<rparr>) \<and>
           (\<forall>n. bm_bit bm n \<longleftrightarrow> n = f \<or> bm_bit (available_frames k) n) \<and>
           free_frames k = Suc (free_frames (k\<lparr>available_frames := bm\<rparr>))"
proof -
  let ?bm = "available_frames k"
  have wf: "bm_wf ?bm" "bm_count ?bm = 786432" using assms(1) by (simp_all add: frames_ok_def)
  obtain f0 where "f0 < 786432" "\<not> bm_bit ?bm f0"
    using assms(2) unfolding free_frames_def by (metis (mono_tags, lifting) card.empty empty_Collect_eq)
  then obtain w where w: "bitmap_get_first_clear ?bm = Inr w" "unat w < 786432" "\<not> bm_bit ?bm (unat w)"
    using bitmap_get_first_clear_spec [OF wf(1)] wf(2)
    by (auto simp: first_clear_result_def split: sum.splits)
  obtain bm where bm: "bitmap_set ?bm w = Inr bm" "bm_wf bm" "bm_count bm = bm_count ?bm"
    "\<And>n. bm_bit bm n \<longleftrightarrow> n = unat w \<or> bm_bit ?bm n"
    using bitmap_set_ok [of ?bm w] wf w(2) by auto
  have "{f. f < 786432 \<and> \<not> bm_bit ?bm f} = insert (unat w) {f. f < 786432 \<and> \<not> bm_bit bm f}"
    using w(2,3) bm(4) by auto
  moreover have "unat w \<notin> {f. f < 786432 \<and> \<not> bm_bit bm f}" using bm(4) by simp
  ultimately have "free_frames k = Suc (free_frames (k\<lparr>available_frames := bm\<rparr>))"
    by (simp add: free_frames_def)
  then show ?thesis
    using w bm wf by (intro exI [of _ "unat w"] exI [of _ bm]) (simp add: frames_ok_def)
qed

definition fresh_entry :: "Page_Entry \<Rightarrow> bool \<Rightarrow> nat \<Rightarrow> Page_Entry" where
  "fresh_entry e user f = e\<lparr>present := True, user_mode := user, writable := True, frame_address_20_bits := ucast (adr f)\<rparr>"

lemma fresh_entry_present [simp]: "present (fresh_entry e user f)"
  by (simp add: fresh_entry_def)

lemma fresh_entry_frame: "f < 1048576 \<Longrightarrow> unat (frame_address_20_bits (fresh_entry e user f)) = f"
  by (simp add: fresh_entry_def unsigned_ucast_eq adr_def unat_of_nat32 take_bit_nat_eq_self)

lemma allocate_frame_ok:
  assumes "frames_ok k" "free_frames k \<noteq> 0" "\<not> present (page_tables k t j)"
  shows "\<exists>f bm. allocate_frame t j page_num user m k =
             rbind (test_write (page_num * 4096) m (set_entry t j (fresh_entry (page_tables k t j) user f)
               (k\<lparr>available_frames := bm\<rparr>))) (\<lambda>(m, k). Inr (adr f, m, k)) \<and> f < 786432 \<and>
           \<not> bm_bit (available_frames k) f \<and> frames_ok (k\<lparr>available_frames := bm\<rparr>) \<and>
           (\<forall>n. bm_bit bm n \<longleftrightarrow> n = f \<or> bm_bit (available_frames k) n) \<and>
           free_frames k = Suc (free_frames (k\<lparr>available_frames := bm\<rparr>))"
proof -
  obtain f bm where f: "bitmap_get_first_clear (available_frames k) = Inr (adr f)"
    "bitmap_set (available_frames k) (adr f) = Inr bm" "f < 786432" "\<not> bm_bit (available_frames k) f"
    "frames_ok (k\<lparr>available_frames := bm\<rparr>)" "\<forall>n. bm_bit bm n \<longleftrightarrow> n = f \<or> bm_bit (available_frames k) n"
    "free_frames k = Suc (free_frames (k\<lparr>available_frames := bm\<rparr>))"
    using take_frame [OF assms(1,2)] by blast
  let ?w = "test_write (page_num * 4096) m (set_entry t j (fresh_entry (page_tables k t j) user f)
      (k\<lparr>available_frames := bm\<rparr>))"
  have "allocate_frame t j page_num user m k = rbind ?w (\<lambda>(m, k). Inr (adr f, m, k))"
    using assms(3) f(1,2)
    by (cases ?w) (auto simp: allocate_frame_def fresh_entry_def Let_def dest: test_read_write)
  with f show ?thesis by blast
qed

lemma paging_okD:
  assumes "paging_ok k"
  shows "frames_ok k"
    and "i < 1024 \<Longrightarrow> tables (kernel_dir k) i \<noteq> 0 \<Longrightarrow> tables (kernel_dir k) i = table_address i"
    and "i < 1024 \<Longrightarrow> mapped k (256 + i) \<longleftrightarrow> tables (kernel_dir k) i \<noteq> 0"
    and "i < 2 \<Longrightarrow> tables (kernel_dir k) i \<noteq> 0"
    and "x < 1048576 \<Longrightarrow> mapped k x \<Longrightarrow> bm_bit (available_frames k) (frame_of k x)"
    and "x < 1048576 \<Longrightarrow> y < 1048576 \<Longrightarrow> mapped k x \<Longrightarrow> mapped k y \<Longrightarrow> frame_of k x = frame_of k y \<Longrightarrow> x = y"
  using assms by (auto simp: paging_ok_def less_2_cases_iff)

lemma same_slot:
  assumes "paging_ok k" "x < 1048576" "y < 1048576" "tables (kernel_dir k) (x div 1024) \<noteq> 0"
    "tables (kernel_dir k) (y div 1024) = tables (kernel_dir k) (x div 1024)"
  shows "y div 1024 = x div 1024"
proof -
  have "x div 1024 < 1024" "y div 1024 < 1024" using assms(2,3) by simp_all
  then show ?thesis
    using paging_okD(2) [OF assms(1), of "x div 1024"] paging_okD(2) [OF assms(1), of "y div 1024"] assms(4,5)
      table_address_inject [of "y div 1024" "x div 1024"] by metis
qed

lemma slot_iff:
  assumes "paging_ok k" "x < 1048576" "y < 1048576" "tables (kernel_dir k) (x div 1024) \<noteq> 0"
  shows "tables (kernel_dir k) (y div 1024) = tables (kernel_dir k) (x div 1024) \<and> y mod 1024 = x mod 1024 \<longleftrightarrow> y = x"
  using same_slot [OF assms(1-4)] by (metis div_mult_mod_eq)

lemma paging_ok_add:
  assumes "paging_ok k" "x < 1048576" "frames_ok k'" "\<not> bm_bit (available_frames k) f"
    "\<And>n. bm_bit (available_frames k') n \<longleftrightarrow> n = f \<or> bm_bit (available_frames k) n"
    "\<And>y. y < 1048576 \<Longrightarrow> mapped k' y \<longleftrightarrow> y = x \<or> mapped k y"
    "\<And>y. y < 1048576 \<Longrightarrow> mapped k' y \<Longrightarrow> frame_of k' y = (if y = x then f else frame_of k y)"
    "\<And>i. i < 1024 \<Longrightarrow> tables (kernel_dir k') i = (if x = 256 + i then table_address i else tables (kernel_dir k) i)"
  shows "paging_ok k'"
proof -
  have T: "tables (kernel_dir k') i \<noteq> 0 \<longrightarrow> tables (kernel_dir k') i = table_address i" if "i < 1024" for i
    using assms(8) [OF that] paging_okD(2) [OF assms(1) that] by (cases "x = 256 + i") simp_all
  have M: "mapped k' (256 + i) \<longleftrightarrow> tables (kernel_dir k') i \<noteq> 0" if "i < 1024" for i
    using assms(6) [of "256 + i"] assms(8) [OF that] paging_okD(3) [OF assms(1) that] table_address_nonzero [OF that] that
    by auto
  have Z: "tables (kernel_dir k') 0 \<noteq> 0" "tables (kernel_dir k') 1 \<noteq> 0"
    using assms(8) [of 0] assms(8) [of 1] paging_okD(4) [OF assms(1), of 0] paging_okD(4) [OF assms(1), of 1]
      table_address_nonzero [of 0] table_address_nonzero [of 1] by (simp_all split: if_splits)
  have U: "bm_bit (available_frames k') (frame_of k' y)" if "y < 1048576" "mapped k' y" for y
    using assms(5) assms(6) [OF that(1)] assms(7) [OF that] paging_okD(5) [OF assms(1) that(1)] that(2) by auto
  have I: "y = z" if "y < 1048576" "z < 1048576" "mapped k' y" "mapped k' z" "frame_of k' y = frame_of k' z" for y z
  proof -
    have *: "frame_of k w \<noteq> f" if "w < 1048576" "mapped k w" for w
      using paging_okD(5) [OF assms(1) that] assms(4) by auto
    consider "y = x" "z = x" | "y = x" "z \<noteq> x" | "y \<noteq> x" "z = x" | "y \<noteq> x" "z \<noteq> x" by blast
    then show ?thesis
    proof cases
      case 2
      then have "mapped k z" "frame_of k z = f"
        using assms(6) [OF that(2)] assms(7) [OF that(1,3)] assms(7) [OF that(2,4)] that(4,5) by simp_all
      then show ?thesis using * [OF that(2)] by simp
    next
      case 3
      then have "mapped k y" "frame_of k y = f"
        using assms(6) [OF that(1)] assms(7) [OF that(1,3)] assms(7) [OF that(2,4)] that(3,5) by simp_all
      then show ?thesis using * [OF that(1)] by simp
    next
      case 4
      then have "mapped k y" "mapped k z" "frame_of k y = frame_of k z"
        using assms(6) [OF that(1)] assms(6) [OF that(2)] assms(7) [OF that(1,3)] assms(7) [OF that(2,4)] that(3-5)
        by simp_all
      then show ?thesis by (rule paging_okD(6) [OF assms(1) that(1,2)])
    qed simp
  qed
  show ?thesis unfolding paging_ok_def using assms(3) T M Z U I by blast
qed

text \<open>A page in a table that exists.\<close>

lemma kernel_dir_fresh [simp]:
  "kernel_dir (set_entry t j e k) = kernel_dir k"
  "kernel_dir (k\<lparr>available_frames := bm\<rparr>) = kernel_dir k"
  by (simp_all add: kernel_dir_def)

lemma create_in_table:
  assumes "paging_ok k" "1280 \<le> x" "x < 262144" "tables (kernel_dir k) (x div 1024) \<noteq> 0" "\<not> mapped k x"
    "free_frames k \<noteq> 0"
  shows "\<exists>f m' k'. allocate_frame (tables (kernel_dir k) (x div 1024)) (x mod 1024) (adr x) False m k = Inr (adr f, m', k') \<and>
           paging_ok k' \<and> (\<forall>y < 1048576. mapped k' y \<longleftrightarrow> y = x \<or> mapped k y) \<and>
           (\<forall>y < 1048576. frame_of k' y = (if y = x then f else frame_of k y)) \<and>
           f < 786432 \<and> \<not> bm_bit (available_frames k) f \<and>
           page_directories k' = page_directories k \<and> kernel_page_directory k' = kernel_page_directory k \<and>
           processes k' = processes k \<and> active_process k' = active_process k \<and>
           free_frames k = Suc (free_frames k') \<and> m' = m(adr (x * 4096) := 0xAB)"
proof -
  let ?t = "tables (kernel_dir k) (x div 1024)" and ?j = "x mod 1024"
  obtain f bm where a: "allocate_frame ?t ?j (adr x) False m k =
      rbind (test_write (adr x * 4096) m (set_entry ?t ?j (fresh_entry (page_tables k ?t ?j) False f)
       (k\<lparr>available_frames := bm\<rparr>))) (\<lambda>(m, k). Inr (adr f, m, k))" "f < 786432"
    "\<not> bm_bit (available_frames k) f" "frames_ok (k\<lparr>available_frames := bm\<rparr>)"
    "\<forall>n. bm_bit bm n \<longleftrightarrow> n = f \<or> bm_bit (available_frames k) n"
    "free_frames k = Suc (free_frames (k\<lparr>available_frames := bm\<rparr>))"
    using allocate_frame_ok [of k ?t ?j "adr x" False m] paging_okD(1) [OF assms(1)] assms(4-6)
    by (auto simp: mapped_def)
  let ?m = "m(adr (x * 4096) := 0xAB)"
  define k' where k': "k' = set_entry ?t ?j (fresh_entry (page_tables k ?t ?j) False f) (k\<lparr>available_frames := bm\<rparr>)"
  have low: "adr (x * 4096) < 0x40000000" using assms(3) by (simp add: word_less_nat_alt)
  have c: "allocate_frame ?t ?j (adr x) False m k = Inr (adr f, ?m, k')"
    using a(1) assms(2,3) low is_table_page_adr [of x]
    by (simp add: test_write_def write_byte_def adr_times_page k')
  have dir: "kernel_dir k' = kernel_dir k" by (simp add: k')
  have slot: "tables (kernel_dir k) (y div 1024) = ?t \<and> y mod 1024 = ?j \<longleftrightarrow> y = x" if "y < 1048576" for y
    using assms(3) by (intro slot_iff [OF assms(1) _ that assms(4)]) simp
  have mapped': "mapped k' y \<longleftrightarrow> y = x \<or> mapped k y" if "y < 1048576" for y
    using slot [OF that] assms(4) by (auto simp: mapped_def dir) (auto simp: k' fresh_entry_def split: if_splits)
  have frame': "frame_of k' y = (if y = x then f else frame_of k y)" if "y < 1048576" for y
    using slot [OF that] a(2) by (auto simp: frame_of_def dir) (auto simp: k' fresh_entry_frame split: if_splits)
  have "paging_ok k'"
  proof (rule paging_ok_add [OF assms(1) _ _ a(3) _ mapped'])
    show "frame_of k' y = (if y = x then f else frame_of k y)" if "y < 1048576" for y by (rule frame' [OF that])
    show "frames_ok k'" using a(4) by (simp add: k' frames_ok_def)
    show "bm_bit (available_frames k') n \<longleftrightarrow> n = f \<or> bm_bit (available_frames k) n" for n
      using a(5) by (simp add: k')
    show "tables (kernel_dir k') i = (if x = 256 + i then table_address i else tables (kernel_dir k) i)" if "i < 1024" for i
      using that assms(2) by (simp add: dir)
  qed (use assms(3) in simp_all)
  moreover have "free_frames k = Suc (free_frames k')" using a(6) by (simp add: k' free_frames_def)
  ultimately show ?thesis
    using c a(2,3) mapped' frame' by (intro exI [of _ f] exI [of _ ?m] exI [of _ k']) (simp add: k')
qed

lemma create_existing:
  assumes "x < 1048576" "tables (kernel_dir k) (x div 1024) \<noteq> 0"
  shows "paging_create_kernel_page_with_any_frame (adr x) m k =
    allocate_frame (tables (kernel_dir k) (x div 1024)) (x mod 1024) (adr x) False m k"
proof -
  have "x div 1024 < 1024" using assms(1) by simp
  then show ?thesis using assms
    by (subst paging_create_kernel_page_with_any_frame.simps) (simp add: Let_def adr_index kernel_dir_def)
qed

text \<open>The page that holds a new table, and the table itself.\<close>

lemma nulls_fun_upd:
  assumes "i < 1024" "tables (kernel_dir k) i = 0" "tables (kernel_dir k') = (tables (kernel_dir k))(i := table_address i)"
  shows "nulls k = Suc (nulls k')"
  using nulls_set_table [of i k k' "table_address i"] assms table_address_nonzero [OF assms(1)] by simp

definition new_table :: "nat \<Rightarrow> u32 list \<Rightarrow> u32 \<Rightarrow> Kernel \<Rightarrow> Kernel" where
  "new_table i ps x86 k = linked (clear_table (table_address i) (set_x86 (kernel_page_directory k) i x86 k)) ps (table_address i) i x86"

lemma create_table:
  assumes "paging_ok k" "i < 1024" "tables (kernel_dir k) i = 0" "2 \<le> free_frames k" "ring k ps"
  shows "\<exists>x86 k'. (\<forall>m. \<exists>f k1. paging_create_kernel_page_with_any_frame (adr (256 + i)) m
              (set_table (kernel_page_directory k) i (table_address i) k) = Inr (adr f, m, k1) \<and>
              x86 = (adr f * 4096) OR 7 \<and> k' = new_table i ps x86 k1 \<and>
              active_process k1 = active_process k \<and> processes k1 = processes k \<and>
              kernel_page_directory k1 = kernel_page_directory k) \<and>
           paging_ok k' \<and> (\<forall>y < 1048576. mapped k' y \<longleftrightarrow> y = 256 + i \<or> mapped k y) \<and>
           (\<forall>y < 1048576. mapped k y \<longrightarrow> frame_of k' y = frame_of k y) \<and>
           \<not> bm_bit (available_frames k) (frame_of k' (256 + i)) \<and>
           (\<forall>n. bm_bit (available_frames k) n \<longrightarrow> bm_bit (available_frames k') n) \<and>
           tables (kernel_dir k') = (tables (kernel_dir k))(i := table_address i) \<and>
           kernel_page_directory k' = kernel_page_directory k \<and> processes k' = processes k \<and>
           active_process k' = active_process k \<and> free_frames k = Suc (free_frames k') \<and> nulls k = Suc (nulls k')"
proof -
  let ?x = "256 + i" and ?a = "table_address i"
  let ?k0 = "set_table (kernel_page_directory k) i ?a k"
  let ?t = "tables (kernel_dir k) (?x div 1024)" and ?j = "?x mod 1024"
  have i2: "2 \<le> i" using paging_okD(4) [OF assms(1), of i] assms(3) by (cases "i < 2") simp_all
  have x2: "?x div 1024 < 2" using assms(2) by simp
  then have t0: "?t \<noteq> 0" by (rule paging_okD(4) [OF assms(1)])
  have ta: "?t = table_address (?x div 1024)" using paging_okD(2) [OF assms(1) _ t0] x2 by simp
  have tne: "?t \<noteq> ?a" using table_address_inject [of "?x div 1024" i] x2 i2 assms(2) unfolding ta by simp
  have td: "tables (kernel_dir ?k0) = (tables (kernel_dir k))(i := ?a)" by (simp add: kernel_dir_def)
  have t1: "tables (kernel_dir ?k0) (?x div 1024) = ?t" using x2 i2 by (simp add: td)
  have nm: "\<not> mapped k ?x" using paging_okD(3) [OF assms(1,2)] assms(3) by simp
  then have np: "\<not> present (page_tables ?k0 ?t ?j)" using t0 by (simp add: mapped_def)
  have fr: "frames_ok ?k0" "free_frames ?k0 = free_frames k"
    using paging_okD(1) [OF assms(1)] by (simp_all add: frames_ok_def free_frames_def)
  obtain f bm where a: "f < 786432" "\<not> bm_bit (available_frames k) f" "frames_ok (?k0\<lparr>available_frames := bm\<rparr>)"
    "\<forall>n. bm_bit bm n \<longleftrightarrow> n = f \<or> bm_bit (available_frames k) n"
    "free_frames k = Suc (free_frames (?k0\<lparr>available_frames := bm\<rparr>))"
    "bitmap_get_first_clear (available_frames k) = Inr (adr f)" "bitmap_set (available_frames k) (adr f) = Inr bm"
    using take_frame [of ?k0] fr assms(4) by auto
  let ?e = "fresh_entry (page_tables k ?t ?j) False f"
  let ?k1 = "set_entry ?a 0 (set_low_byte 0xAB (page_tables k ?a 0)) (set_entry ?t ?j ?e (?k0\<lparr>available_frames := bm\<rparr>))"
  let ?x86 = "(adr f * 4096) OR 7"
  let ?k' = "new_table i ps ?x86 ?k1"
  have create: "paging_create_kernel_page_with_any_frame (adr ?x) m ?k0 = Inr (adr f, m, ?k1)" for m
  proof -
    have "allocate_frame ?t ?j (adr ?x) False m ?k0 = Inr (adr f, m, ?k1)"
      using np a(6,7) is_table_page_adr [of ?x] assms(2) tne
      by (simp add: allocate_frame_def fresh_entry_def Let_def adr_times_page test_write_def test_read_def
          table_address_adr add_ac)
    then show ?thesis using create_existing [of ?x ?k0 m] t0 t1 assms(2) by simp
  qed
  have pd: "tables (kernel_dir ?k') = (tables (kernel_dir k))(i := ?a)"
    by (simp add: new_table_def kernel_dir_def linked_tables fun_upd_idem_iff)
  have pt: "page_tables ?k' = (page_tables k)(?t := (page_tables k ?t)(?j := ?e), ?a := \<lambda>j. zero_entry)"
    using tne by (auto simp: new_table_def fun_eq_iff)
  have slot: "tables (kernel_dir k) (y div 1024) \<noteq> ?a"
    "tables (kernel_dir k) (y div 1024) = ?t \<and> y mod 1024 = ?j \<longleftrightarrow> y = ?x" if "y < 1048576" for y
  proof -
    show "tables (kernel_dir k) (y div 1024) \<noteq> ?a"
    proof
      assume *: "tables (kernel_dir k) (y div 1024) = ?a"
      have lt: "y div 1024 < 1024" using that by simp
      have "table_address (y div 1024) = ?a"
        using paging_okD(2) [OF assms(1) lt] * table_address_nonzero [OF assms(2)] by simp
      then have "y div 1024 = i" using table_address_inject [OF lt assms(2)] by simp
      then show False using * assms(3) table_address_nonzero [OF assms(2)] by simp
    qed
    show "tables (kernel_dir k) (y div 1024) = ?t \<and> y mod 1024 = ?j \<longleftrightarrow> y = ?x"
      using assms(2) by (intro slot_iff [OF assms(1) _ that t0]) simp
  qed
  have gone: "y \<noteq> ?x" "\<not> mapped k y" "\<not> mapped ?k' y" if "y div 1024 = i" for y
    using that x2 i2 assms(3) by (auto simp: mapped_def pd pt zero_entry_def)
  have other: "mapped ?k' y \<longleftrightarrow> y = ?x \<or> mapped k y" if "y < 1048576" for y
    using gone [of y] slot [OF that] t0
    by (cases "y div 1024 = i") (auto simp: mapped_def pd pt)
  have frame: "frame_of ?k' y = (if y = ?x then f else frame_of k y)" if "y < 1048576" "mapped ?k' y" for y
    using gone [of y] slot [OF that(1)] that(2) a(1)
    by (cases "y div 1024 = i") (auto simp: frame_of_def pd pt fresh_entry_frame)
  have af: "available_frames ?k' = bm" by (simp add: new_table_def)
  have "paging_ok ?k'"
  proof (rule paging_ok_add [OF assms(1) _ _ a(2) _ other frame])
    show "frames_ok ?k'" using a(3) by (simp add: frames_ok_def af)
    show "bm_bit (available_frames ?k') n \<longleftrightarrow> n = f \<or> bm_bit (available_frames k) n" for n
      using a(4) by (simp add: af)
    show "tables (kernel_dir ?k') j = (if ?x = 256 + j then table_address j else tables (kernel_dir k) j)" for j
      by (simp add: pd)
  qed (use assms(2) in simp_all)
  moreover have "free_frames k = Suc (free_frames ?k')" using a(5) by (simp add: free_frames_def new_table_def)
  moreover have "nulls k = Suc (nulls ?k')" by (rule nulls_fun_upd [OF assms(2,3) pd])
  moreover have "\<forall>y < 1048576. mapped k y \<longrightarrow> frame_of ?k' y = frame_of k y"
    using frame other nm by metis
  moreover have "\<forall>n. bm_bit (available_frames k) n \<longrightarrow> bm_bit (available_frames ?k') n" using a(4) af by simp
  moreover have "\<not> bm_bit (available_frames k) (frame_of ?k' (256 + i))"
    using frame [of ?x] other [of ?x] a(2) assms(2) by simp
  ultimately show ?thesis
    using create other pd by (intro exI [of _ ?x86] exI [of _ ?k']) (auto simp: new_table_def)
qed

section \<open>Creating a kernel page\<close>

text \<open>\<open>created k x f k'\<close>: \<open>k'\<close> has the page \<open>x\<close> on the frame \<open>f\<close> that \<open>k\<close> did not use.\<close>

definition created :: "Kernel \<Rightarrow> nat \<Rightarrow> nat \<Rightarrow> Kernel \<Rightarrow> bool" where
  "created k x f k' \<longleftrightarrow> paging_ok k' \<and> mapped k' x \<and> frame_of k' x = f \<and> f < 786432 \<and>
     \<not> bm_bit (available_frames k) f \<and>
     (\<forall>y < 1048576. mapped k y \<longrightarrow> mapped k' y \<and> frame_of k' y = frame_of k y) \<and>
     (\<forall>y < 1048576. mapped k' y \<longrightarrow> y = x \<or> mapped k y \<or>
        y = 256 + x div 1024 \<and> tables (kernel_dir k) (x div 1024) = 0) \<and>
     (\<forall>y < 1048576. mapped k' y \<longrightarrow> \<not> mapped k y \<longrightarrow> \<not> bm_bit (available_frames k) (frame_of k' y))"

lemma create_kernel_page_ok:
  assumes "paging_ok k" "1280 \<le> x" "x < 262144" "\<not> mapped k x" "nulls k < free_frames k"
    "tables (kernel_dir k) (x div 1024) \<noteq> 0 \<or> ring k ps"
  shows "\<exists>f k'. paging_create_kernel_page_with_any_frame (adr x) m k = Inr (adr f, m(adr (x * 4096) := 0xAB), k') \<and>
           created k x f k' \<and> processes k' = processes k \<and> active_process k' = active_process k \<and>
           (\<forall>i < 1024. tables (kernel_dir k) i \<noteq> 0 \<longrightarrow> tables (kernel_dir k') i \<noteq> 0) \<and>
           free_frames k + nulls k' = Suc (free_frames k' + nulls k)"
proof (cases "tables (kernel_dir k) (x div 1024) = 0")
  case False
  then obtain f k' where c: "allocate_frame (tables (kernel_dir k) (x div 1024)) (x mod 1024) (adr x) False m k =
      Inr (adr f, m(adr (x * 4096) := 0xAB), k')" "paging_ok k'" "\<forall>y < 1048576. mapped k' y \<longleftrightarrow> y = x \<or> mapped k y"
    "\<forall>y < 1048576. frame_of k' y = (if y = x then f else frame_of k y)" "f < 786432"
    "\<not> bm_bit (available_frames k) f" "page_directories k' = page_directories k"
    "kernel_page_directory k' = kernel_page_directory k" "processes k' = processes k"
    "active_process k' = active_process k" "free_frames k = Suc (free_frames k')"
    using create_in_table [OF assms(1-3) _ assms(4), of m] assms(5) by auto
  have "kernel_dir k' = kernel_dir k" using c(7,8) by (simp add: kernel_dir_def directory_def)
  moreover have "created k x f k'" using c assms(3,4) by (auto simp: created_def)
  ultimately show ?thesis
    using c create_existing [OF _ False, of m] assms(3) by (intro exI [of _ f] exI [of _ k']) (simp add: nulls_def)
next
  case True
  let ?i = "x div 1024"
  have i: "?i < 1024" using assms(3) by simp
  have ring: "ring k ps" using True assms(6) by simp
  have "nulls k \<noteq> 0" using i True by (auto simp: nulls_def)
  then have two: "2 \<le> free_frames k" using assms(5) by simp
  obtain x86 k1 where 1: "\<forall>m. \<exists>f k0. paging_create_kernel_page_with_any_frame (adr (256 + ?i)) m
              (set_table (kernel_page_directory k) ?i (table_address ?i) k) = Inr (adr f, m, k0) \<and>
              x86 = (adr f * 4096) OR 7 \<and> k1 = new_table ?i ps x86 k0 \<and>
              active_process k0 = active_process k \<and> processes k0 = processes k \<and>
              kernel_page_directory k0 = kernel_page_directory k"
    "paging_ok k1" "\<forall>y < 1048576. mapped k1 y \<longleftrightarrow> y = 256 + ?i \<or> mapped k y"
    "\<forall>y < 1048576. mapped k y \<longrightarrow> frame_of k1 y = frame_of k y"
    "\<forall>n. bm_bit (available_frames k) n \<longrightarrow> bm_bit (available_frames k1) n"
    "tables (kernel_dir k1) = (tables (kernel_dir k))(?i := table_address ?i)"
    "kernel_page_directory k1 = kernel_page_directory k" "processes k1 = processes k"
    "active_process k1 = active_process k" "free_frames k = Suc (free_frames k1)" "nulls k = Suc (nulls k1)"
    "\<not> bm_bit (available_frames k) (frame_of k1 (256 + ?i))"
    using create_table [OF assms(1) i True two ring] by blast
  obtain f0 k0 where 0: "paging_create_kernel_page_with_any_frame (adr (256 + ?i)) m
      (set_table (kernel_page_directory k) ?i (table_address ?i) k) = Inr (adr f0, m, k0)"
    "x86 = (adr f0 * 4096) OR 7" "k1 = new_table ?i ps x86 k0" "active_process k0 = active_process k"
    "processes k0 = processes k" "kernel_page_directory k0 = kernel_page_directory k"
    using 1(1) by blast
  have t1: "tables (kernel_dir k1) ?i = table_address ?i" "table_address ?i \<noteq> 0"
    using 1(6) table_address_nonzero [OF i] by simp_all
  have nm: "\<not> mapped k1 x" using 1(3) assms(2-4) i by auto
  obtain f k' where c: "allocate_frame (tables (kernel_dir k1) ?i) (x mod 1024) (adr x) False m k1 =
      Inr (adr f, m(adr (x * 4096) := 0xAB), k')" "paging_ok k'" "\<forall>y < 1048576. mapped k' y \<longleftrightarrow> y = x \<or> mapped k1 y"
    "\<forall>y < 1048576. frame_of k' y = (if y = x then f else frame_of k1 y)" "f < 786432"
    "\<not> bm_bit (available_frames k1) f" "page_directories k' = page_directories k1"
    "kernel_page_directory k' = kernel_page_directory k1" "processes k' = processes k1"
    "active_process k' = active_process k1" "free_frames k1 = Suc (free_frames k')"
    using create_in_table [OF 1(2) assms(2,3) _ nm, of m] t1 two 1(10) by auto
  have dir: "kernel_dir k' = kernel_dir k1" using c(7,8) by (simp add: kernel_dir_def directory_def)
  let ?K = "clear_table (table_address ?i) (set_x86 (kernel_page_directory k0) ?i x86 k0)"
  have "ring ?K ps" using ring path_cong [of ?K k] 0(4,5) by (simp add: ring_def)
  from process_link_ring [OF this]
  have "process_link_kernel_table_to_all_address_spaces (table_address ?i) ?i x86 ?K = Inr k1"
    by (simp only: 0(3) new_table_def)
  then have "paging_create_kernel_page_with_any_frame (adr x) m k = Inr (adr f, m(adr (x * 4096) := 0xAB), k')"
    using 0(1,2,6) 1(7) c(1) True i adr_index [of x] assms(3) table_address_page [OF i]
    by (subst paging_create_kernel_page_with_any_frame.simps) (simp add: Let_def kernel_dir_def)
  moreover have "created k x f k'"
    using c(2-6) 1(3-5,12) nm assms(3,4) True by (auto simp: created_def)
  moreover have "\<forall>j < 1024. tables (kernel_dir k) j \<noteq> 0 \<longrightarrow> tables (kernel_dir k') j \<noteq> 0"
    using t1 by (simp add: dir 1(6))
  ultimately show ?thesis
    using c(9-11) 1(8-11) dir by (intro exI [of _ f] exI [of _ k']) (simp add: nulls_def)
qed

section \<open>The kernel as the page source of its heap\<close>

text \<open>
  \<open>kernel_ready n c k\<close>: the \<open>c\<close> pages from number \<open>n\<close> on, above the page tables and in
  the kernel's gigabyte, are not mapped; there is a frame for each of them and for each
  missing table; and there is a process to link a missing table to, or none is missing.
\<close>

definition kernel_ready :: "nat \<Rightarrow> nat \<Rightarrow> Kernel \<Rightarrow> bool" where
  "kernel_ready n c k \<longleftrightarrow> paging_ok k \<and> 1280 \<le> n \<and> n + c \<le> 262144 \<and>
     (\<forall>x. n \<le> x \<and> x < n + c \<longrightarrow> \<not> mapped k x) \<and> c + nulls k \<le> free_frames k \<and>
     ((\<exists>ps. ring k ps) \<or> (\<forall>x. n \<le> x \<and> x < n + c \<longrightarrow> tables (kernel_dir k) (x div 1024) \<noteq> 0))"

lemma kernel_pager_step:
  assumes "kernel_ready n (Suc c) k"
  shows "\<exists>m' k'. kernel_pager (adr n) m k = Inr (m', k') \<and> kernel_ready (Suc n) c k' \<and>
           outside (n * 4096) (n * 4096 + 4096) m m'"
proof -
  have r: "paging_ok k" "1280 \<le> n" "n + Suc c \<le> 262144" "Suc c + nulls k \<le> free_frames k"
    and free: "\<And>x. n \<le> x \<Longrightarrow> x < n + Suc c \<Longrightarrow> \<not> mapped k x"
    and link: "(\<exists>ps. ring k ps) \<or> (\<forall>x. n \<le> x \<and> x < n + Suc c \<longrightarrow> tables (kernel_dir k) (x div 1024) \<noteq> 0)"
    using assms by (auto simp: kernel_ready_def)
  have nm: "\<not> mapped k n" using free by simp
  obtain ps where ps: "tables (kernel_dir k) (n div 1024) \<noteq> 0 \<or> ring k ps" using link by auto
  obtain f k' where c: "paging_create_kernel_page_with_any_frame (adr n) m k = Inr (adr f, m(adr (n * 4096) := 0xAB), k')"
    "created k n f k'" "processes k' = processes k" "active_process k' = active_process k"
    "\<forall>i < 1024. tables (kernel_dir k) i \<noteq> 0 \<longrightarrow> tables (kernel_dir k') i \<noteq> 0"
    "free_frames k + nulls k' = Suc (free_frames k' + nulls k)"
    using create_kernel_page_ok [OF r(1,2) _ nm _ ps, of m] r(3,4) by auto
  have "\<not> mapped k' x" if x: "Suc n \<le> x" "x < Suc n + c" for x
  proof
    assume "mapped k' x"
    moreover have "x < 1048576" using x r(3) by simp
    ultimately have "x = n \<or> mapped k x \<or> x = 256 + n div 1024" using c(2) unfolding created_def by blast
    then show False using free [of x] x r(2,3) by auto
  qed
  moreover have "(\<exists>ps. ring k' ps) \<or> (\<forall>x. Suc n \<le> x \<and> x < Suc n + c \<longrightarrow> tables (kernel_dir k') (x div 1024) \<noteq> 0)"
    using link
  proof
    assume "\<exists>ps. ring k ps"
    then show ?thesis using path_cong [OF c(3)] c(4) by (auto simp: ring_def)
  next
    assume a: "\<forall>x. n \<le> x \<and> x < n + Suc c \<longrightarrow> tables (kernel_dir k) (x div 1024) \<noteq> 0"
    have "tables (kernel_dir k') (x div 1024) \<noteq> 0" if "Suc n \<le> x" "x < Suc n + c" for x
    proof -
      have "x div 1024 < 1024" using that r(3) by simp
      then show ?thesis using c(5) a that by simp
    qed
    then show ?thesis by blast
  qed
  ultimately have "kernel_ready (Suc n) c k'"
    using c(2,6) r by (auto simp: kernel_ready_def created_def)
  moreover have "outside (n * 4096) (n * 4096 + 4096) m (m(adr (n * 4096) := 0xAB))"
    using r(3) by (auto simp: outside_def adr_inject)
  ultimately show ?thesis
    using c(1) by (intro exI [of _ "m(adr (n * 4096) := 0xAB)"] exI [of _ k']) (simp add: kernel_pager_def)
qed

interpretation kernel_pages: page_source kernel_pager kernel_ready
proof
  show "\<exists>m' k'. kernel_pager (adr n) m k = Inr (m', k') \<and> kernel_ready (Suc n) c k' \<and>
      outside (n * 4096) (n * 4096 + 4096) m m'" if "kernel_ready n (Suc c) k" for n c k m
    by (rule kernel_pager_step [OF that])
  show "n + c \<le> 784385" if "kernel_ready n c k" for n c k
    using that by (simp add: kernel_ready_def)
qed

end
