(* ===== verification/Kernel_Memory.thy ===== *)
theory Kernel_Memory
  imports Paging_Correct
begin

text \<open>
  The kernel's memory as a whole: the heap of Kalloc\_Heap on the pages of Paging.
  A sample heap and a sample kernel, and the properties that join both components.
\<close>

section \<open>A sample heap and a sample kernel\<close>

definition put_block :: "nat \<Rightarrow> nat \<Rightarrow> bool \<Rightarrow> mem \<Rightarrow> mem" where
  "put_block a s u m = wr32 (adr (a + s + 16)) (adr a) (wr16 (adr (a + s + 12)) HEAP_FOOTER_MAGIC
     (wr32 (adr (a + 8)) (if u then 1 else 0) (wr32 (adr (a + 4)) (adr s) (wr16 (adr a) HEAP_HEADER_MAGIC m))))"

fun put_blocks :: "nat \<Rightarrow> layout \<Rightarrow> mem \<Rightarrow> mem" where
  "put_blocks a [] m = m"
| "put_blocks a ((s, u) # bs) m = put_block a s u (put_blocks (a + s + 20) bs m)"

lemma put_block_at:
  assumes "a + s + 20 \<le> 4294967296"
  shows "block_at (put_block a s u m) a s u" and "outside a (a + s + 20) m (put_block a s u m)"
  using assms by (simp add: put_block_def block_at_def rd_wr)
    (unfold put_block_def, intro outside_wr outside_refl, use assms in simp_all)

lemma put_blocks_chain: "a + ext bs \<le> 4294967296 \<Longrightarrow> chain (put_blocks a bs m) a bs"
proof (induction bs arbitrary: a rule: ext.induct)
  case (2 s u bs)
  then have lim: "a + s + 20 \<le> 4294967296" by simp
  have "chain (put_blocks (a + s + 20) bs m) (a + s + 20) bs" using 2 by simp
  then show ?case
    using put_block_at [OF lim] chain_outside [OF _ put_block_at(2) [OF lim], where a = "a + s + 20" and bs = bs] 2 by simp
qed simp

text \<open>Four blocks in the first page: used, hole, used, hole.\<close>

definition sample_layout :: layout where
  "sample_layout = [(16, True), (40, False), (96, True), (3864, False)]"

definition sample_heap :: Kalloc_Heap where
  "sample_heap = \<lparr>avl_initial_addr = 0x500000, initial_addr = adr 5308416, heap_size = adr 4096,
     avl = \<lparr>free = [5242920, 5242940], root = Node 5242880 Null (Node 5242900 Null Null 1 (adr 3864) (adr 5308640)) 2 (adr 40) (adr 5308464)\<rparr>\<rparr>"

definition sample_ram :: mem where
  "sample_ram = put_blocks 5308416 sample_layout (\<lambda>x. 0)"

lemma sample_heap_ok: "heap_ok sample_heap sample_ram 5308416 sample_layout"
proof -
  have "chain sample_ram 5308416 sample_layout"
    unfolding sample_ram_def by (rule put_blocks_chain) (simp add: sample_layout_def)
  moreover have "avl_ok (avl sample_heap)"
    by (simp add: sample_heap_def avl_ok_def arena_ok_def cells_def less_prod_def adr_def)
  ultimately show ?thesis
    by (auto simp: heap_ok_def region_def sample_layout_def sample_heap_def avl_holes_def)
qed

text \<open>
  A kernel with two page tables, whose pages 256 and 257 have the frames of the same
  number, and a single process.
\<close>

definition sample_entry :: "nat \<Rightarrow> nat \<Rightarrow> Page_Entry" where
  "sample_entry i j = (if i = 0 \<and> j = 256 then fresh_entry zero_entry False 256
     else if i = 0 \<and> j = 257 then fresh_entry zero_entry False 257 else zero_entry)"

definition sample_kernel :: Kernel where
  "sample_kernel =
    \<lparr>available_frames = bitmap_init ((replicate 98304 0)[32 := 3]) 98304,
     kernel_page_directory = 0x20000,
     page_directories = (\<lambda>pd. \<lparr>tables = \<lambda>i. if i < 2 then table_address i else 0,
                                tables_x86_representation = \<lambda>i. 0\<rparr>),
     page_tables = (\<lambda>t. if t = table_address 0 then sample_entry 0 else sample_entry 1),
     phys = (\<lambda>a. 0), loaded_directory = 0x20000, cr3 = 0x21000, final_kernel_code_data_addr = 0x22000,
     active_process = 64,
     processes = (\<lambda>p. \<lparr>pid = 1, esp = 0, ebp = 0, eip = 0, page_directory = 0x30000,
       file_descriptors = \<lparr>fd_capacity = 16, fd_num_elements = 0, fd_data = 0x40000\<rparr>, fd_next = 0,
       previous_process = 64, next_process = 64\<rparr>),
     current_pid = 2, fd_blocks = (\<lambda>p. [])\<rparr>"

lemma sample_dir: "tables (kernel_dir sample_kernel) = (\<lambda>i. if i < 2 then table_address i else 0)"
  by (simp add: kernel_dir_def directory_def sample_kernel_def)

lemma sample_tables: "page_tables sample_kernel t = (if t = table_address 0 then sample_entry 0 else sample_entry 1)"
  by (simp add: sample_kernel_def)

lemma sample_mapped: "mapped sample_kernel x \<longleftrightarrow> x = 256 \<or> x = 257"
proof -
  consider "x < 1024" | "1024 \<le> x" "x < 2048" | "2048 \<le> x" by linarith
  then show ?thesis
  proof cases
    case 1
    then show ?thesis
      using table_address_nonzero [of 0]
      by (auto simp: mapped_def sample_dir sample_tables sample_entry_def zero_entry_def)
  next
    case 2
    then have "x div 1024 = 1" by simp
    then show ?thesis
      using table_address_inject [of 1 0] 2
      by (auto simp: mapped_def sample_dir sample_tables sample_entry_def zero_entry_def)
  next
    case 3
    then have "2 \<le> x div 1024" by simp
    then show ?thesis using 3 by (auto simp: mapped_def sample_dir)
  qed
qed

lemma sample_frame: "x = 256 \<or> x = 257 \<Longrightarrow> frame_of sample_kernel x = x"
  by (auto simp: frame_of_def sample_dir sample_tables sample_entry_def fresh_entry_frame)

lemma sample_bits: "x < 786432 \<Longrightarrow> bm_bit (available_frames sample_kernel) x \<longleftrightarrow> x = 256 \<or> x = 257"
proof -
  assume x: "x < 786432"
  have "(3 :: u8) = mask 2" by (simp add: mask_eq_exp_minus_1)
  then have b: "bit (3 :: u8) n \<longleftrightarrow> n < 2" if "n < 8" for n
    using that by (simp only: bit_mask_iff) (simp add: min_def)
  show ?thesis
  proof (cases "x div 8 = 32")
    case True
    then have *: "x = 256 + x mod 8" by presburger
    have "bm_bit (available_frames sample_kernel) x \<longleftrightarrow> bit (3 :: u8) (x mod 8)"
      using True by (simp add: bm_bit_def sample_kernel_def bitmap_init_def)
    also have "\<dots> \<longleftrightarrow> x mod 8 < 2" by (rule b) simp
    also have "\<dots> \<longleftrightarrow> x = 256 \<or> x = 257" using * by presburger
    finally show ?thesis .
  next
    case False
    then have "x \<noteq> 256" "x \<noteq> 257" by auto
    then show ?thesis using False x by (simp add: bm_bit_def sample_kernel_def bitmap_init_def)
  qed
qed

lemma sample_paging_ok: "paging_ok sample_kernel"
proof -
  have "frames_ok sample_kernel"
    by (simp add: frames_ok_def sample_kernel_def bitmap_init_def bm_wf_def bm_count_def)
  moreover have "mapped sample_kernel (256 + i) \<longleftrightarrow> tables (kernel_dir sample_kernel) i \<noteq> 0" if "i < 1024" for i
    using table_address_nonzero [OF that] that by (auto simp: sample_mapped sample_dir)
  moreover have "bm_bit (available_frames sample_kernel) (frame_of sample_kernel x)" if "mapped sample_kernel x" for x
    using that by (auto simp: sample_mapped sample_frame sample_bits)
  moreover have "x = y" if "mapped sample_kernel x" "mapped sample_kernel y" "frame_of sample_kernel x = frame_of sample_kernel y" for x y
    using that by (simp add: sample_mapped sample_frame)
  ultimately show ?thesis
    using table_address_nonzero [of 0] table_address_nonzero [of 1]
    by (auto simp: paging_ok_def sample_dir)
qed

lemma sample_ring: "ring sample_kernel [64]"
  by (simp add: ring_def sample_kernel_def)

lemma sample_ready:
  assumes "1280 \<le> n" "n + c \<le> 262144"
  shows "kernel_ready n c sample_kernel"
proof -
  have sub: "{258..<786432} \<subseteq> {f. f < 786432 \<and> \<not> bm_bit (available_frames sample_kernel) f}"
    by (auto simp: sample_bits)
  have "card {258..<786432 :: nat} \<le> free_frames sample_kernel"
    unfolding free_frames_def by (rule card_mono [OF _ sub]) simp
  moreover have "nulls sample_kernel \<le> card {i :: nat. i < 1024}"
    unfolding nulls_def by (rule card_mono) auto
  ultimately have "c + nulls sample_kernel \<le> free_frames sample_kernel" using assms by simp
  moreover have "\<not> mapped sample_kernel x" if "n \<le> x" for x using that assms(1) by (auto simp: sample_mapped)
  ultimately show ?thesis
    using assms sample_paging_ok sample_ring unfolding kernel_ready_def by blast
qed

section \<open>Properties of the heap\<close>

text \<open>
  C29: releasing a block in use never fails an assertion.  It removes exactly that block:
  it is merged with the free neighbours, the chain of blocks and the tree of holes
  stay consistent and without adjacent holes, every other block keeps its place, its
  size and its bytes, and nothing outside the heap is written.
\<close>

theorem heap_free_correct:
  assumes "heap_ok h m a bs" "(s, p) \<in> used_blocks a bs" "avl_spare (avl h) \<noteq> 0"
  shows "\<exists>h' m' bs'. kalloc_free garbage (adr p) h m = Inr (h', m') \<and> heap_ok h' m' a bs' \<and>
           used_blocks a bs' = used_blocks a bs - {(s, p)} \<and> ext bs' = ext bs \<and>
           kept (used_blocks a bs') m m' \<and> outside a (a + ext bs) m m'"
  using heap_free_step [OF assms, of garbage] unfolding kalloc_free_def by metis

theorem heap_free_correct_witness:
  "\<exists>h' m' bs'. kalloc_free True (adr 5308524) sample_heap sample_ram = Inr (h', m') \<and>
     heap_ok h' m' 5308416 bs' \<and> used_blocks 5308416 bs' = {(16, 5308428)} \<and> ext bs' = 4096"
proof -
  have "(96, 5308524) \<in> used_blocks 5308416 sample_layout" "avl_spare (avl sample_heap) \<noteq> 0"
    by (simp_all add: sample_layout_def avl_spare_def sample_heap_def)
  from heap_free_correct [OF sample_heap_ok this, of True]
  show ?thesis by (auto simp: sample_layout_def insert_Diff_if)
qed

text \<open>
  C28: an allocation returns, and does not fail, whenever the pages that can still be
  created are enough for the request: it yields an aligned block of at least the
  requested size that no block in use overlaps, the heap stays consistent, the blocks
  in use keep their place and their bytes, and only bytes of the heap are written.
  With an alignment the heap must be anchored, as \<open>kalloc_init\<close> leaves it.
\<close>

theorem heap_alloc_correct:
  assumes "heap_ok h m a bs" "alignment_ok al" "al = 0 \<or> anchored a bs" "n < 4294967296"
    "kernel_ready ((a + ext bs) div 4096) c k" "tail bs \<noteq> 0 \<or> avl_spare (avl h) \<noteq> 0"
    "n + al + 20 \<le> tail bs + c * 4096"
  shows "\<exists>q h' m' k' bs'. kalloc_alloc_aligned garbage kernel_pager (adr n) (adr al) h m k = Some (Inr (adr q, h', m', k')) \<and>
           heap_ok h' m' a bs' \<and> allocated a bs bs' n q \<and> (al = 0 \<or> al dvd q) \<and>
           kept (used_blocks a bs) m m' \<and> outside a (a + ext bs') m m'"
  using kernel_pages.alloc_ok [OF assms, of garbage] unfolding kalloc_alloc_aligned_def by blast

theorem heap_alloc_correct_witness:
  "\<exists>q h' m' k' bs'. kalloc_alloc_aligned True kernel_pager (adr 8192) (adr 4096) sample_heap sample_ram sample_kernel =
       Some (Inr (adr q, h', m', k')) \<and> heap_ok h' m' 5308416 bs' \<and>
     allocated 5308416 sample_layout bs' 8192 q \<and> 4096 dvd q \<and>
     kept (used_blocks 5308416 sample_layout) sample_ram m'"
proof -
  have al: "alignment_ok 4096" unfolding alignment_ok_def by (intro disjI2 exI [of _ 12]) simp
  have anch: "anchored 5308416 sample_layout" by (simp add: anchored_def sample_layout_def)
  have ready: "kernel_ready ((5308416 + ext sample_layout) div 4096) 4 sample_kernel"
    by (rule sample_ready) (simp_all add: sample_layout_def)
  have room: "tail sample_layout \<noteq> 0" "8192 + 4096 + 20 \<le> tail sample_layout + 4 * 4096"
    by (simp_all add: tail_def sample_layout_def)
  show ?thesis
    using heap_alloc_correct [OF sample_heap_ok al disjI2 [OF anch] _ ready disjI1 [OF room(1)] room(2), of True]
    by auto
qed

text \<open>
  C30: \<open>kalloc_init\<close> builds a heap of the wanted pages behind the arena of the hole tree,
  and its one-byte allocation anchors it: the first block is in use, at 12 bytes after
  the start.  No assertion fails while the pages can be created.
\<close>

theorem heap_init_correct:
  assumes "kernel_ready 1280 (16 + n + c) k" "n \<noteq> 0"
  shows "\<exists>h m' k' bs. kalloc_init garbage kernel_pager (adr n) m k = Some (Inr (adr 5308428, h, m', k')) \<and>
           heap_ok h m' 5308416 bs \<and> anchored 5308416 bs \<and> ext bs = n * 4096 \<and>
           kernel_ready (1296 + n) c k' \<and> outside 5242880 (5308416 + n * 4096) m m'"
  using kernel_pages.init_ok [OF assms, of garbage m] by blast

theorem heap_init_correct_witness:
  "\<exists>h m' k' bs. kalloc_init True kernel_pager (adr 1) (\<lambda>x. 0) sample_kernel = Some (Inr (adr 5308428, h, m', k')) \<and>
     heap_ok h m' 5308416 bs \<and> anchored 5308416 bs \<and> kernel_ready 1297 1000 k'"
  using heap_init_correct [of 1 1000 sample_kernel True "\<lambda>x. 0"] sample_ready [of 1280 1017] by auto

text \<open>
  C31: \<open>kalloc_realloc\<close> to a larger size moves the block: the new one has room for the
  new size and the bytes of the old one, which is released, and every other block in
  use keeps its bytes.
\<close>

theorem heap_realloc_correct:
  assumes "heap_ok h m a bs" "(s, b) \<in> used_blocks a bs" "old \<le> s" "old < n" "n < 4294967296"
    "kernel_ready ((a + ext bs) div 4096) c k" "2 \<le> avl_spare (avl h)" "n + 20 \<le> tail bs + c * 4096"
  shows "\<exists>q h' m' k' bs'. kalloc_realloc garbage kernel_pager (adr b) (adr old) (adr n) h m k = Some (Inr (adr q, h', m', k')) \<and>
           heap_ok h' m' a bs' \<and> (\<exists>n'. n \<le> n' \<and> (n', q) \<in> used_blocks a bs') \<and>
           (\<forall>i < old. m' (adr (q + i)) = m (adr (b + i))) \<and> b \<notin> snd ` used_blocks a bs' \<and>
           kept (used_blocks a bs - {(s, b)}) m m'"
  using kernel_pages.realloc_ok [OF assms] .

theorem heap_realloc_correct_witness:
  "\<exists>q h' m' k' bs'. kalloc_realloc True kernel_pager (adr 5308524) (adr 96) (adr 6000) sample_heap sample_ram sample_kernel =
       Some (Inr (adr q, h', m', k')) \<and> heap_ok h' m' 5308416 bs' \<and> m' (adr (q + 95)) = sample_ram (adr 5308619)"
proof -
  have u: "(96, 5308524) \<in> used_blocks 5308416 sample_layout" by (simp add: sample_layout_def)
  have ready: "kernel_ready ((5308416 + ext sample_layout) div 4096) 4 sample_kernel"
    by (rule sample_ready) (simp_all add: sample_layout_def)
  have room: "2 \<le> avl_spare (avl sample_heap)" "6000 + 20 \<le> tail sample_layout + 4 * 4096"
    by (simp_all add: avl_spare_def sample_heap_def tail_def sample_layout_def)
  obtain q h' m' k' bs' where "kalloc_realloc True kernel_pager (adr 5308524) (adr 96) (adr 6000) sample_heap sample_ram sample_kernel =
       Some (Inr (adr q, h', m', k'))" "heap_ok h' m' 5308416 bs'"
    "\<forall>i < 96. m' (adr (q + i)) = sample_ram (adr (5308524 + i))"
    using heap_realloc_correct [OF sample_heap_ok u _ _ _ ready room, of 96 True] by auto
  then show ?thesis by (intro exI conjI) (assumption, assumption, simp)
qed

text \<open>
  An aligned allocation needs an anchored heap: when the hole that is found is the
  first block and its address must be moved, the assertion of the code fails.
\<close>

theorem heap_unanchored_fails:
  assumes "heap_ok h m a ((s, False) # bs)" "get_aligned_address (adr (a + 12)) al > adr (a + 12)"
    "kalloc_avl_find_hole (avl h) n al = adr (a + 12)"
  shows "kalloc_alloc_aligned garbage kernel_pager n al h m k =
    Some (Inl (Assert_failed ''kalloc: aligned-alloc is not supported when heap is empty''))"
proof -
  have o: "heap_ok h m a ([] @ (s, False) # bs)" using assms(1) by simp
  obtain t where t: "kalloc_avl_remove garbage (avl h) (adr s) (adr (a + 12)) = Inr (t, 0)"
    using open_hole [OF o, of garbage] by auto
  have b: "block_at m a s False" and R: "initial_addr h = adr a" "4096 \<le> a" "a + s + 20 \<le> 3212840960"
    using assms(1) by (auto simp: heap_ok_def region_def)
  have "take_hole garbage h (adr (a + 12)) n al m =
      Inl (Assert_failed ''kalloc: aligned-alloc is not supported when heap is empty'')"
    using b R t assms(2)
    by (simp add: take_hole_def merge_slack_def block_at_def adr_sub_numeral Let_def add_ac less_imp_le)
  then show ?thesis
    using assms(3) R by (simp add: kalloc_alloc_aligned_def adr_eq_0
      kalloc_heap_alloc.simps [of garbage kernel_pager n al h m k])
qed

definition bare_heap :: Kalloc_Heap where
  "bare_heap = \<lparr>avl_initial_addr = 0x500000, initial_addr = adr 5308416, heap_size = adr 4096,
     avl = \<lparr>free = [5242900], root = Node 5242880 Null Null 1 (adr 4076) (adr 5308428)\<rparr>\<rparr>"

lemma bare_heap_ok: "heap_ok bare_heap (put_blocks 5308416 [(4076, False)] (\<lambda>x. 0)) 5308416 [(4076, False)]"
proof -
  have "chain (put_blocks 5308416 [(4076, False)] (\<lambda>x. 0)) 5308416 [(4076, False)]"
    by (rule put_blocks_chain) simp
  then show ?thesis
    by (simp add: heap_ok_def region_def bare_heap_def avl_holes_def avl_ok_def arena_ok_def cells_def)
qed

theorem heap_unanchored_fails_witness:
  "kalloc_alloc_aligned True kernel_pager 4 16 bare_heap (put_blocks 5308416 [(4076, False)] (\<lambda>x. 0)) sample_kernel =
    Some (Inl (Assert_failed ''kalloc: aligned-alloc is not supported when heap is empty''))"
proof (rule heap_unanchored_fails [OF bare_heap_ok])
  show "adr (5308416 + 12) < get_aligned_address (adr (5308416 + 12)) 16"
    by (simp add: get_aligned_address_def adr_def)
  show "kalloc_avl_find_hole (avl bare_heap) 4 16 = adr (5308416 + 12)"
    by (simp add: bare_heap_def kalloc_avl_find_hole_def compare_hole_size_def
        hole_has_alignment_space_def aligned_hole_addr_def adr_def)
qed

section \<open>Properties of kernel pages\<close>

text \<open>
  C32: creating an unmapped kernel page succeeds while frames are left and a process, or
  the table, exists: the page gets a frame that no page had, every mapped page keeps its
  frame, the only other page that may appear is the one that holds a missing page table,
  and no two pages share a frame (\<open>paging_ok\<close>).
\<close>

theorem kernel_page_created:
  assumes "paging_ok k" "1280 \<le> x" "x < 262144" "\<not> mapped k x" "nulls k < free_frames k"
    "tables (kernel_dir k) (x div 1024) \<noteq> 0 \<or> ring k ps"
  shows "\<exists>f k'. paging_create_kernel_page_with_any_frame (adr x) m k = Inr (adr f, m(adr (x * 4096) := 0xAB), k') \<and>
           created k x f k'"
  using create_kernel_page_ok [OF assms, of m] by blast

theorem kernel_page_created_witness:
  "\<exists>f k'. paging_create_kernel_page_with_any_frame (adr 2048) (\<lambda>x. 0) sample_kernel =
       Inr (adr f, (\<lambda>x. 0)(adr 8388608 := 0xAB), k') \<and> created sample_kernel 2048 f k'"
proof -
  have "kernel_ready 2048 1 sample_kernel" by (rule sample_ready) simp_all
  then have "nulls sample_kernel < free_frames sample_kernel" by (simp add: kernel_ready_def)
  then show ?thesis
    using kernel_page_created [OF sample_paging_ok _ _ _ _ disjI2 [OF sample_ring], of 2048 "\<lambda>x. 0"]
    by (simp add: sample_mapped)
qed



end
