(* ===== verification/Paging_Init.thy ===== *)
theory Paging_Init
  imports Kernel_Memory
begin

text \<open>
  The identity mapping that \<open>paging_init\<close> builds before paging is enabled: it satisfies
  the invariant of the kernel's address space and leaves pages for the heap, at the
  price of one write behind the frame bitmap.
\<close>

section \<open>Invariant of the identity mapping\<close>

definition bitmap_room :: "nat \<Rightarrow> Kernel \<Rightarrow> bool" where
  "bitmap_room l k \<longleftrightarrow> bm_size (available_frames k) = 98304 \<and> length (data (available_frames k)) = l"

definition identity :: "nat \<Rightarrow> Kernel \<Rightarrow> bool" where
  "identity l k \<longleftrightarrow> bitmap_room l k \<and>
     (\<forall>i < 1024. tables (kernel_dir k) i \<noteq> 0 \<longrightarrow> tables (kernel_dir k) i = table_address i) \<and>
     (\<forall>x < 1048576. mapped k x \<longrightarrow> frame_of k x = x \<and> bm_bit (available_frames k) x) \<and>
     (\<forall>x. 1280 \<le> x \<and> x < 784385 \<longrightarrow> \<not> mapped k x \<and> \<not> bm_bit (available_frames k) x)"

definition table_pages :: "Kernel \<Rightarrow> bool" where
  "table_pages k \<longleftrightarrow> (\<forall>i < 1024. mapped k (256 + i) \<longleftrightarrow> tables (kernel_dir k) i \<noteq> 0)"

lemma bitmap_set_room:
  assumes "bitmap_room l k" "98304 \<le> l" "f div 8 < l" "f < 786440"
  shows "\<exists>bm. bitmap_set (available_frames k) (adr f) = Inr bm \<and> bitmap_room l (k\<lparr>available_frames := bm\<rparr>) \<and>
           (\<forall>n. bm_bit bm n \<longleftrightarrow> n = f \<or> bm_bit (available_frames k) n)"
proof -
  let ?bm = "available_frames k"
  have u: "unat (adr f div 8) = f div 8" "unat (adr f mod 8) = f mod 8" using assms(4) by (simp_all add: word_nat)
  have l: "f div 8 < length (data ?bm)" using assms(1,3) by (simp add: bitmap_room_def)
  have "adr f div 8 < 786432" using assms(4) by (simp add: word_less_nat_alt u)
  then have 1: "bitmap_set ?bm (adr f) = Inr (?bm\<lparr>data := (data ?bm)[f div 8 := data ?bm ! (f div 8) OR bit_mask (f mod 8)]\<rparr>)"
    using l assms(1) by (simp add: bitmap_set_def Let_def u bitmap_room_def)
  have "bm_bit (?bm\<lparr>data := (data ?bm)[f div 8 := data ?bm ! (f div 8) OR bit_mask (f mod 8)]\<rparr>) n \<longleftrightarrow>
      n = f \<or> bm_bit ?bm n" for n
    unfolding bm_bit_update [OF l] index_split [of n f]
    by (auto simp: bm_bit_def bit_or_iff bit_bit_mask)
  with 1 assms(1) show ?thesis
    by (intro exI [of _ "?bm\<lparr>data := (data ?bm)[f div 8 := data ?bm ! (f div 8) OR bit_mask (f mod 8)]\<rparr>"])
      (simp add: bitmap_room_def)
qed

lemma map_existing:
  assumes "p < 1048576" "tables (kernel_dir k) (p div 1024) \<noteq> 0"
  shows "create_pre_paging_mapping (adr p) (adr f) k =
    rbind (bitmap_set (available_frames k) (adr f)) (\<lambda>bm.
      Inr (set_entry (tables (kernel_dir k) (p div 1024)) (p mod 1024) (kernel_entry (adr f)) (k\<lparr>available_frames := bm\<rparr>)))"
proof -
  have "p div 1024 < 1024" using assms(1) by simp
  then show ?thesis using assms
    by (subst create_pre_paging_mapping.simps) (simp add: Let_def adr_index)
qed

lemma kernel_entry_fields [simp]:
  "present (kernel_entry w)" "f < 1048576 \<Longrightarrow> unat (frame_address_20_bits (kernel_entry (adr f))) = f"
  by (simp_all add: kernel_entry_def unsigned_ucast_eq adr_def unat_of_nat32 take_bit_nat_eq_self)

lemma identity_slot:
  assumes "identity l k" "p < 1048576" "y < 1048576" "tables (kernel_dir k) (p div 1024) \<noteq> 0"
  shows "tables (kernel_dir k) (y div 1024) = tables (kernel_dir k) (p div 1024) \<and> y mod 1024 = p mod 1024 \<longleftrightarrow> y = p"
proof -
  have lt: "p div 1024 < 1024" "y div 1024 < 1024" using assms(2,3) by simp_all
  have "y div 1024 = p div 1024" if "tables (kernel_dir k) (y div 1024) = tables (kernel_dir k) (p div 1024)"
    using assms(1,4) lt that table_address_inject [OF lt(2,1)] unfolding identity_def by metis
  then show ?thesis by (metis div_mult_mod_eq)
qed

text \<open>One more page in a table that exists.\<close>

lemma map_existing_ok:
  assumes "identity l k" "p < 1048576" "tables (kernel_dir k) (p div 1024) \<noteq> 0" "98304 \<le> l" "p div 8 < l"
    "p < 1280 \<or> 784385 \<le> p \<and> p \<le> 786432"
  shows "\<exists>k'. create_pre_paging_mapping (adr p) (adr p) k = Inr k' \<and> identity l k' \<and>
           (\<forall>y < 1048576. mapped k' y \<longleftrightarrow> y = p \<or> mapped k y) \<and>
           page_directories k' = page_directories k \<and> kernel_page_directory k' = kernel_page_directory k \<and>
           final_kernel_code_data_addr k' = final_kernel_code_data_addr k \<and>
           (\<forall>n. bm_bit (available_frames k') n \<longleftrightarrow> n = p \<or> bm_bit (available_frames k) n)"
proof -
  have room: "bitmap_room l k" using assms(1) by (simp add: identity_def)
  obtain bm where bm: "bitmap_set (available_frames k) (adr p) = Inr bm" "bitmap_room l (k\<lparr>available_frames := bm\<rparr>)"
    "\<forall>n. bm_bit bm n \<longleftrightarrow> n = p \<or> bm_bit (available_frames k) n"
    using bitmap_set_room [OF room assms(4,5)] assms(6) by auto
  let ?t = "tables (kernel_dir k) (p div 1024)"
  let ?k = "set_entry ?t (p mod 1024) (kernel_entry (adr p)) (k\<lparr>available_frames := bm\<rparr>)"
  have dir: "kernel_dir ?k = kernel_dir k" by simp
  note slot = identity_slot [OF assms(1,2) _ assms(3)]
  have mapped': "mapped ?k y \<longleftrightarrow> y = p \<or> mapped k y" if "y < 1048576" for y
    using slot [OF that] assms(3) by (auto simp: mapped_def)
  have frame': "frame_of ?k y = (if y = p then p else frame_of k y)" if "y < 1048576" for y
    using slot [OF that] assms(2) by (auto simp: frame_of_def)
  have "identity l ?k"
    using assms(1,6) bm(2,3) mapped' frame' unfolding identity_def bitmap_room_def by auto
  then show ?thesis
    using map_existing [OF assms(2,3), of p] bm mapped' by (intro exI [of _ ?k]) (auto simp: set_entry_def)
qed

text \<open>A new table: entered, and the page that holds it mapped.\<close>

lemma enter_ok:
  assumes "identity l k" "i < 1024" "tables (kernel_dir k) i = 0"
  shows "identity l (enter_pre_paging_table i k)"
    and "y < 1048576 \<Longrightarrow> mapped (enter_pre_paging_table i k) y \<longleftrightarrow> mapped k y"
    and "available_frames (enter_pre_paging_table i k) = available_frames k"
    and "kernel_page_directory (enter_pre_paging_table i k) = kernel_page_directory k"
    and "final_kernel_code_data_addr (enter_pre_paging_table i k) = final_kernel_code_data_addr k"
proof -
  let ?k = "enter_pre_paging_table i k" and ?a = "table_address i"
  have pt: "page_tables ?k = (page_tables k)(?a := \<lambda>j. zero_entry)"
    by (simp add: enter_pre_paging_table_def Let_def)
  have T: "tables (kernel_dir ?k) = (tables (kernel_dir k))(i := ?a)" by (rule kernel_dir_enter)
  show af: "available_frames ?k = available_frames k" "kernel_page_directory ?k = kernel_page_directory k"
    by (simp_all add: enter_pre_paging_table_def Let_def)
  show "final_kernel_code_data_addr ?k = final_kernel_code_data_addr k"
    by (simp add: enter_pre_paging_table_def Let_def store_defs)
  have other: "tables (kernel_dir k) (y div 1024) \<noteq> ?a" if "y < 1048576" "tables (kernel_dir k) (y div 1024) \<noteq> 0" for y
  proof
    assume *: "tables (kernel_dir k) (y div 1024) = ?a"
    have lt: "y div 1024 < 1024" using that(1) by simp
    have "table_address (y div 1024) = ?a" using assms(1) lt that(2) * by (simp add: identity_def)
    then have "y div 1024 = i" using table_address_inject [OF lt assms(2)] by simp
    then show False using that(2) assms(3) by simp
  qed
  show mapped': "mapped ?k y \<longleftrightarrow> mapped k y" if "y < 1048576" for y
    using other [OF that] assms(3) by (auto simp: mapped_def T pt zero_entry_def)
  have frame': "frame_of ?k y = frame_of k y" if "y < 1048576" "mapped k y" for y
    using other [OF that(1)] that(2) assms(3) by (auto simp: frame_of_def mapped_def T pt)
  show "identity l ?k"
    using assms(1) mapped' frame' unfolding identity_def by (auto simp: bitmap_room_def af T)
qed

definition step_ok :: "nat \<Rightarrow> nat set \<Rightarrow> Kernel \<Rightarrow> Kernel \<Rightarrow> bool" where
  "step_ok l P k k' \<longleftrightarrow> identity l k' \<and> table_pages k' \<and> kernel_page_directory k' = kernel_page_directory k \<and>
     final_kernel_code_data_addr k' = final_kernel_code_data_addr k \<and>
     (\<forall>i < 1024. tables (kernel_dir k) i \<noteq> 0 \<longrightarrow> tables (kernel_dir k') i \<noteq> 0) \<and>
     (\<forall>n. bm_bit (available_frames k) n \<or> n \<in> P \<longrightarrow> bm_bit (available_frames k') n)"

lemma create_table_ok:
  assumes "identity l k" "i < 1024" "tables (kernel_dir k) i = 0" "98304 \<le> l"
    "(256 + i) div 1024 = i \<or> tables (kernel_dir k) ((256 + i) div 1024) \<noteq> 0"
  shows "\<exists>k'. create_pre_paging_mapping (adr (256 + i)) (adr (256 + i)) (enter_pre_paging_table i k) = Inr k' \<and>
           identity l k' \<and> (\<forall>y < 1048576. mapped k' y \<longleftrightarrow> y = 256 + i \<or> mapped k y) \<and>
           tables (kernel_dir k') = (tables (kernel_dir k))(i := table_address i) \<and>
           kernel_page_directory k' = kernel_page_directory k \<and>
           final_kernel_code_data_addr k' = final_kernel_code_data_addr k \<and>
           (\<forall>n. bm_bit (available_frames k') n \<longleftrightarrow> n = 256 + i \<or> bm_bit (available_frames k) n)"
proof -
  note e = enter_ok [OF assms(1-3)]
  have "tables (kernel_dir (enter_pre_paging_table i k)) ((256 + i) div 1024) \<noteq> 0"
    using assms(5) table_address_nonzero [OF assms(2)] by (auto simp: kernel_dir_enter)
  moreover have "(256 + i) div 8 < l" using assms(2,4) by linarith
  ultimately obtain k' where k': "create_pre_paging_mapping (adr (256 + i)) (adr (256 + i)) (enter_pre_paging_table i k) = Inr k'"
    "identity l k'" "\<forall>y < 1048576. mapped k' y \<longleftrightarrow> y = 256 + i \<or> mapped (enter_pre_paging_table i k) y"
    "page_directories k' = page_directories (enter_pre_paging_table i k)"
    "kernel_page_directory k' = kernel_page_directory (enter_pre_paging_table i k)"
    "final_kernel_code_data_addr k' = final_kernel_code_data_addr (enter_pre_paging_table i k)"
    "\<forall>n. bm_bit (available_frames k') n \<longleftrightarrow> n = 256 + i \<or> bm_bit (available_frames (enter_pre_paging_table i k)) n"
    using map_existing_ok [OF e(1), of "256 + i"] assms(2,4) by auto
  have "tables (kernel_dir k') = tables (kernel_dir (enter_pre_paging_table i k))"
    using k'(4,5) by (simp add: kernel_dir_def directory_def)
  then show ?thesis using k' e(2-5) by (intro exI [of _ k']) (simp add: kernel_dir_enter)
qed

text \<open>Mapping a page below the page tables or in the stack, its table included.\<close>

lemma map_ok:
  assumes "identity l k" "table_pages k" "98304 \<le> l" "p div 8 < l" "p < 256 \<or> 784385 \<le> p \<and> p \<le> 786432"
    "tables (kernel_dir k) 0 \<noteq> 0" "tables (kernel_dir k) 1 \<noteq> 0"
  shows "\<exists>k'. create_pre_paging_mapping (adr p) (adr p) k = Inr k' \<and> step_ok l {p} k k'"
proof (cases "tables (kernel_dir k) (p div 1024) = 0")
  case False
  have p: "p < 1048576" using assms(5) by auto
  obtain k' where k': "create_pre_paging_mapping (adr p) (adr p) k = Inr k'" "identity l k'"
    "\<forall>y < 1048576. mapped k' y \<longleftrightarrow> y = p \<or> mapped k y" "page_directories k' = page_directories k"
    "kernel_page_directory k' = kernel_page_directory k"
    "final_kernel_code_data_addr k' = final_kernel_code_data_addr k"
    "\<forall>n. bm_bit (available_frames k') n \<longleftrightarrow> n = p \<or> bm_bit (available_frames k) n"
    using map_existing_ok [OF assms(1) p False assms(3,4)] assms(5) by auto
  have "kernel_dir k' = kernel_dir k" using k'(4,5) by (simp add: kernel_dir_def directory_def)
  then show ?thesis
    using k' assms(2,5) by (intro exI [of _ k']) (auto simp: step_ok_def table_pages_def)
next
  case True
  have p: "p < 1048576" using assms(5) by auto
  let ?i = "p div 1024"
  have i: "?i < 1024" using p by simp
  have "(256 + ?i) div 1024 < 2" using i by simp
  then have t: "tables (kernel_dir k) ((256 + ?i) div 1024) \<noteq> 0" using assms(6,7) by (auto simp: less_2_cases_iff)
  obtain k1 where k1: "create_pre_paging_mapping (adr (256 + ?i)) (adr (256 + ?i)) (enter_pre_paging_table ?i k) = Inr k1"
    "identity l k1" "\<forall>y < 1048576. mapped k1 y \<longleftrightarrow> y = 256 + ?i \<or> mapped k y"
    "tables (kernel_dir k1) = (tables (kernel_dir k))(?i := table_address ?i)"
    "kernel_page_directory k1 = kernel_page_directory k"
    "final_kernel_code_data_addr k1 = final_kernel_code_data_addr k"
    "\<forall>n. bm_bit (available_frames k1) n \<longleftrightarrow> n = 256 + ?i \<or> bm_bit (available_frames k) n"
    using create_table_ok [OF assms(1) i True assms(3) disjI2 [OF t]] by blast
  have t1: "tables (kernel_dir k1) ?i \<noteq> 0" using k1(4) table_address_nonzero [OF i] by simp
  obtain k' where k': "create_pre_paging_mapping (adr p) (adr p) k1 = Inr k'" "identity l k'"
    "\<forall>y < 1048576. mapped k' y \<longleftrightarrow> y = p \<or> mapped k1 y" "page_directories k' = page_directories k1"
    "kernel_page_directory k' = kernel_page_directory k1"
    "final_kernel_code_data_addr k' = final_kernel_code_data_addr k1"
    "\<forall>n. bm_bit (available_frames k') n \<longleftrightarrow> n = p \<or> bm_bit (available_frames k1) n"
    using map_existing_ok [OF k1(2) p t1 assms(3,4)] assms(5) by auto
  have dir: "kernel_dir k' = kernel_dir k1" using k'(4,5) by (simp add: kernel_dir_def directory_def)
  have "create_pre_paging_mapping (adr p) (adr p) k = create_pre_paging_mapping (adr p) (adr p) k1"
    using k1(1) True i t1 table_address_page [OF i]
    by (subst (1 2) create_pre_paging_mapping.simps) (simp add: Let_def adr_index [OF p])
  moreover have "mapped k' (256 + j) \<longleftrightarrow> tables (kernel_dir k') j \<noteq> 0" if "j < 1024" for j
    using k'(3) k1(3) assms(2,5) that table_address_nonzero [OF i]
    by (auto simp: dir k1(4) table_pages_def)
  moreover have "tables (kernel_dir k') j \<noteq> 0" if "tables (kernel_dir k) j \<noteq> 0" for j
    using that table_address_nonzero [OF i] by (simp add: dir k1(4))
  ultimately show ?thesis
    using k' k1 by (intro exI [of _ k']) (auto simp: step_ok_def table_pages_def)
qed

section \<open>The loops\<close>

lemma step_ok_trans: "step_ok l P k k' \<Longrightarrow> step_ok l Q k' k'' \<Longrightarrow> step_ok l (P \<union> Q) k k''"
  by (auto simp: step_ok_def)

lemma step_ok_refl: "identity l k \<Longrightarrow> table_pages k \<Longrightarrow> step_ok l {} k k"
  by (simp add: step_ok_def)

definition low_tables :: "Kernel \<Rightarrow> bool" where
  "low_tables k \<longleftrightarrow> tables (kernel_dir k) 0 \<noteq> 0 \<and> tables (kernel_dir k) 1 \<noteq> 0"

lemma step_ok_low: "step_ok l P k k' \<Longrightarrow> low_tables k \<Longrightarrow> low_tables k'"
  by (simp add: step_ok_def low_tables_def)

lemma identity_map_ok:
  assumes "98304 \<le> l" "\<forall>p \<in> set ns. p div 8 < l \<and> (p < 256 \<or> 784385 \<le> p \<and> p \<le> 786432)"
  shows "identity l k \<Longrightarrow> table_pages k \<Longrightarrow> low_tables k \<Longrightarrow>
    \<exists>k'. identity_map (map adr ns) k = Inr k' \<and> step_ok l (set ns) k k'"
  using assms(2)
proof (induction ns arbitrary: k)
  case Nil
  then show ?case by (simp add: step_ok_refl)
next
  case (Cons p ns)
  obtain k1 where 1: "create_pre_paging_mapping (adr p) (adr p) k = Inr k1" "step_ok l {p} k k1"
    using map_ok [OF Cons.prems(1,2) assms(1), of p] Cons.prems(3,4) by (auto simp: low_tables_def)
  obtain k2 where "identity_map (map adr ns) k1 = Inr k2" "step_ok l (set ns) k1 k2"
    using Cons.IH [of k1] 1(2) step_ok_low [OF 1(2) Cons.prems(3)] Cons.prems(4) by (auto simp: step_ok_def)
  then show ?case using 1 step_ok_trans [OF 1(2), of "set ns" k2] by (intro exI [of _ k2]) simp
qed

lemma mark_frames_ok:
  assumes "98304 \<le> l" "\<forall>f \<in> set fs. f < 256"
  shows "identity l k \<Longrightarrow> table_pages k \<Longrightarrow>
    \<exists>k'. mark_frames (map adr fs) k = Inr k' \<and> step_ok l (set fs) k k'"
  using assms(2)
proof (induction fs arbitrary: k)
  case Nil
  then show ?case by (simp add: step_ok_refl)
next
  case (Cons f fs)
  have room: "bitmap_room l k" using Cons.prems(1) by (simp add: identity_def)
  have "f div 8 < l" "f < 786440" using Cons.prems(3) assms(1) by (simp, linarith, simp)
  then obtain bm where bm: "bitmap_set (available_frames k) (adr f) = Inr bm" "bitmap_room l (k\<lparr>available_frames := bm\<rparr>)"
    "\<forall>n. bm_bit bm n \<longleftrightarrow> n = f \<or> bm_bit (available_frames k) n"
    using bitmap_set_room [OF room assms(1)] by blast
  let ?k = "k\<lparr>available_frames := bm\<rparr>"
  have same: "mapped ?k = mapped k" "frame_of ?k = frame_of k" by (simp_all add: mapped_def frame_of_def fun_eq_iff)
  have "identity l ?k" using Cons.prems(1,3) bm(2,3) by (auto simp: identity_def same)
  moreover have "table_pages ?k" using Cons.prems(2) by (simp add: table_pages_def same)
  ultimately have 1: "step_ok l {f} k ?k" using bm(3) by (simp add: step_ok_def)
  obtain k2 where "mark_frames (map adr fs) ?k = Inr k2" "step_ok l (set fs) ?k k2"
    using Cons.IH [OF \<open>identity l ?k\<close> \<open>table_pages ?k\<close>] Cons.prems(3) by auto
  then show ?case using bm(1) step_ok_trans [OF 1, of "set fs" k2] by (intro exI [of _ k2]) simp
qed

lemma create_page_tables_ok:
  assumes "identity l k" "98304 \<le> l" "\<And>i. tables (kernel_dir k) i = 0"
  shows "\<exists>k'. create_page_tables [0..<2] k = Inr k' \<and> identity l k' \<and> table_pages k' \<and> low_tables k' \<and>
           kernel_page_directory k' = kernel_page_directory k \<and>
           final_kernel_code_data_addr k' = final_kernel_code_data_addr k"
proof -
  have none: "\<not> mapped k y" for y using assms(3) by (simp add: mapped_def)
  have page: "table_address i div 4096 = adr (256 + i)" if "i < 2" for i using that by (simp add: table_address_page)
  obtain k1 where 1: "create_pre_paging_mapping (adr 256) (adr 256) (enter_pre_paging_table 0 k) = Inr k1" "identity l k1"
    "\<forall>y < 1048576. mapped k1 y \<longleftrightarrow> y = 256 \<or> mapped k y"
    "tables (kernel_dir k1) = (tables (kernel_dir k))(0 := table_address 0)"
    "kernel_page_directory k1 = kernel_page_directory k"
    "final_kernel_code_data_addr k1 = final_kernel_code_data_addr k"
    using create_table_ok [OF assms(1) _ _ assms(2), of 0] assms(3) by auto
  have t1: "tables (kernel_dir k1) 1 = 0" "tables (kernel_dir k1) 0 \<noteq> 0"
    using assms(3) table_address_nonzero [of 0] by (simp_all add: 1(4))
  obtain k2 where 2: "create_pre_paging_mapping (adr 257) (adr 257) (enter_pre_paging_table 1 k1) = Inr k2" "identity l k2"
    "\<forall>y < 1048576. mapped k2 y \<longleftrightarrow> y = 257 \<or> mapped k1 y"
    "tables (kernel_dir k2) = (tables (kernel_dir k1))(1 := table_address 1)"
    "kernel_page_directory k2 = kernel_page_directory k1"
    "final_kernel_code_data_addr k2 = final_kernel_code_data_addr k1"
    using create_table_ok [OF 1(2) _ t1(1) assms(2)] t1(2) by auto
  have T: "tables (kernel_dir k2) i = (if i < 2 then table_address i else 0)" for i
    using assms(3) by (auto simp: 1(4) 2(4) less_2_cases_iff)
  have "mapped k2 (256 + i) \<longleftrightarrow> tables (kernel_dir k2) i \<noteq> 0" if "i < 1024" for i
    using 1(3) 2(3) none that table_address_nonzero [OF that] by (auto simp: T)
  moreover have "create_page_tables [0..<2] k = Inr k2"
    using 1(1) 2(1) page [of 0] page [of 1]
    by (simp add: create_pre_paging_page_table_def upt_conv_Cons numeral_2_eq_2 Let_def)
  ultimately show ?thesis
    using 1(5,6) 2 t1 table_address_nonzero [of 0] table_address_nonzero [of 1]
    by (intro exI [of _ k2]) (auto simp: table_pages_def low_tables_def T)
qed

section \<open>After the initialisation\<close>

lemma page_lists:
  "stack_pages = map adr (map (\<lambda>i. 786432 - i) [0..<2048])"
  "video_pages = map adr [160..<192]"
  "code_pages final = map adr [0..<(unat final + 4095) div 4096]"
  "low_frames = map adr [0..<256]"
proof -
  have "(0xC0000 :: u32) - of_nat i = adr (786432 - i)" if "i < 2048" for i
    using that by (simp add: adr_def of_nat_diff)
  then show "stack_pages = map adr (map (\<lambda>i. 786432 - i) [0..<2048])"
    by (simp add: stack_pages_def KERNEL_STACK_ADDRESS_def KERNEL_STACK_RESERVED_PAGES_def)
qed (simp_all add: video_pages_def code_pages_def low_frames_def adr_def)

lemma identity_paging_ok:
  assumes "identity l k" "table_pages k" "low_tables k" "98304 \<le> l"
  shows "paging_ok k" and "1280 \<le> n \<Longrightarrow> n + c \<le> 2048 \<Longrightarrow> kernel_ready n c k"
proof -
  have fr: "frames_ok k" using assms(1,4) by (simp add: identity_def bitmap_room_def frames_ok_def bm_wf_def bm_count_def)
  have own: "frame_of k x = x" "bm_bit (available_frames k) x" if "x < 1048576" "mapped k x" for x
    using assms(1) that by (simp_all add: identity_def)
  have tab: "tables (kernel_dir k) i = table_address i" if "i < 1024" "tables (kernel_dir k) i \<noteq> 0" for i
    using assms(1) that by (simp add: identity_def)
  show ok: "paging_ok k"
    using assms(2,3) unfolding paging_ok_def table_pages_def low_tables_def by (auto simp: fr own intro: tab)
  assume n: "1280 \<le> n" "n + c \<le> 2048"
  have sub: "{1280..<784385} \<subseteq> {f. f < 786432 \<and> \<not> bm_bit (available_frames k) f}"
    using assms(1) by (auto simp: identity_def)
  have "card {1280..<784385 :: nat} \<le> free_frames k"
    unfolding free_frames_def by (rule card_mono [OF _ sub]) simp
  moreover have "nulls k \<le> card {i :: nat. i < 1024}"
    unfolding nulls_def by (rule card_mono) auto
  ultimately have "c + nulls k \<le> free_frames k" using n by simp
  moreover have "\<not> mapped k x" if "n \<le> x" "x < n + c" for x using that n assms(1) by (simp add: identity_def)
  moreover have "tables (kernel_dir k) (x div 1024) \<noteq> 0" if "n \<le> x" "x < n + c" for x
  proof -
    have "x div 1024 = 1" using that n by simp
    then show ?thesis using assms(3) by (simp add: low_tables_def)
  qed
  ultimately show "kernel_ready n c k" using n ok by (simp add: kernel_ready_def)
qed

lemma identity_start:
  assumes "l = 98304 + length behind"
  shows "identity l (k\<lparr>available_frames := bitmap_init (replicate 98304 0 @ behind) 98304, final_kernel_code_data_addr := e,
      kernel_page_directory := pd, page_directories := (page_directories k)(pd := zero_directory)\<rparr>)" (is "identity l ?k")
    and "tables (kernel_dir (k\<lparr>available_frames := bm, final_kernel_code_data_addr := e,
      kernel_page_directory := pd, page_directories := (page_directories k)(pd := zero_directory)\<rparr>)) i = 0"
proof -
  have T: "tables (kernel_dir ?k) i = 0" for i by (simp add: kernel_dir_def directory_def zero_directory_def)
  have "\<not> bm_bit (available_frames ?k) x" if "x < 784385" for x
  proof -
    have "x div 8 < 98304" using that by linarith
    then show ?thesis by (simp add: bm_bit_def bitmap_init_def nth_append)
  qed
  then show "identity l ?k"
    using assms by (simp add: identity_def bitmap_room_def mapped_def T) (simp add: bitmap_init_def)
qed (simp add: kernel_dir_def directory_def zero_directory_def)

text \<open>The end of the kernel's code and data once the page directory is reserved.\<close>

definition directory_addr :: "u32 \<Rightarrow> u32" where
  "directory_addr a = (if a AND 0xFFFFF000 \<noteq> 0 then (a AND 0xFFFFF000) + 0x1000 else a)"

text \<open>The state when the loops begin, with the constants of the code computed.\<close>

definition boot_kernel :: "u8 list \<Rightarrow> Kernel \<Rightarrow> Kernel" where
  "boot_kernel behind k = (let pd = directory_addr (final_kernel_code_data_addr k) in
     k\<lparr>available_frames := bitmap_init (replicate 98304 0 @ behind) 98304, final_kernel_code_data_addr := pd + 8192,
       kernel_page_directory := pd, page_directories := (page_directories k)(pd := zero_directory)\<rparr>)"

lemma boot_kernel_fields [simp]:
  "kernel_page_directory (boot_kernel behind k) = directory_addr (final_kernel_code_data_addr k)"
  "final_kernel_code_data_addr (boot_kernel behind k) = directory_addr (final_kernel_code_data_addr k) + 8192"
  by (simp_all add: boot_kernel_def Let_def)

lemma table_range: "unat (KERNEL_PAGE_TABLES_ADDRESS div 0x1000 div 1024) = 0"
  "Suc (unat ((KERNEL_PAGE_TABLES_ADDRESS + 0x400000) div 0x1000 div 1024)) = 2"
  "AVAILABLE_FRAMES_NUM div 8 = 98304"
  by code_simp+

lemma paging_init_steps:
  "paging_init behind m k =
     rbind (create_page_tables [0..<2] (boot_kernel behind k)) (\<lambda>k1.
     rbind (identity_map stack_pages k1) (\<lambda>k1.
     rbind (identity_map video_pages k1) (\<lambda>k1.
     rbind (identity_map (code_pages (final_kernel_code_data_addr k1)) k1) (\<lambda>k1.
     rbind (mark_frames low_frames k1) (\<lambda>k1.
     Inr (memset (directory_addr (final_kernel_code_data_addr k)) 0 8192 m,
       paging_switch_page_directory (kernel_page_directory k1) (kernel_page_directory k1 + 4096) k1))))))"
  unfolding paging_init_def boot_kernel_def reserve_pre_paging_aligned_space_def directory_addr_def Let_def split
    table_range by simp

lemma paging_init_ok:
  assumes "behind \<noteq> []" "unat (directory_addr (final_kernel_code_data_addr k) + 8192) \<le> 655360"
  shows "\<exists>m' k'. paging_init behind m k = Inr (m', k') \<and> paging_ok k' \<and> kernel_ready 1280 768 k' \<and>
           kernel_page_directory k' = directory_addr (final_kernel_code_data_addr k) \<and>
           bm_bit (available_frames k') 786432"
proof -
  let ?pd = "directory_addr (final_kernel_code_data_addr k)" and ?l = "98304 + length behind"
  let ?k0 = "boot_kernel behind k"
  have l: "98304 \<le> ?l" "98304 < ?l" using assms(1) by simp_all
  have "identity ?l ?k0" and T: "tables (kernel_dir ?k0) i = 0" for i
    unfolding boot_kernel_def Let_def by (rule identity_start, simp, rule identity_start, simp)
  then obtain k1 where 1: "create_page_tables [0..<2] ?k0 = Inr k1" "identity ?l k1" "table_pages k1" "low_tables k1"
    "kernel_page_directory k1 = ?pd" "final_kernel_code_data_addr k1 = ?pd + 8192"
    using create_page_tables_ok [OF _ l(1) T] by auto
  have "\<forall>p \<in> set (map (\<lambda>i. 786432 - i) [0..<2048]). p div 8 < ?l \<and> (p < 256 \<or> 784385 \<le> p \<and> p \<le> 786432)"
  proof -
    have "(786432 - i) div 8 < ?l" for i :: nat
      by (rule le_less_trans [OF _ l(2)]) (use div_le_mono [of "786432 - i" 786432 8] in simp)
    then show ?thesis by auto
  qed
  then obtain k2 where 2: "identity_map stack_pages k1 = Inr k2" "step_ok ?l (set (map (\<lambda>i. 786432 - i) [0..<2048])) k1 k2"
    using identity_map_ok [OF l(1) _ 1(2-4)] unfolding page_lists by blast
  have "\<forall>p \<in> set [160..<192]. p div 8 < ?l \<and> (p < 256 \<or> 784385 \<le> p \<and> p \<le> 786432)" by auto
  then obtain k3 where 3: "identity_map video_pages k2 = Inr k3" "step_ok ?l (set [160..<192]) k2 k3"
    using identity_map_ok [OF l(1), of "[160..<192]" k2] 2(2) step_ok_low [OF 2(2) 1(4)]
    unfolding page_lists step_ok_def by blast
  let ?c = "[0..<(unat (?pd + 8192) + 4095) div 4096]"
  have "\<forall>p \<in> set ?c. p div 8 < ?l \<and> (p < 256 \<or> 784385 \<le> p \<and> p \<le> 786432)" using assms(2) by auto
  then obtain k4 where 4: "identity_map (code_pages (?pd + 8192)) k3 = Inr k4" "step_ok ?l (set ?c) k3 k4"
    using identity_map_ok [OF l(1), of ?c k3] 3(2) step_ok_low [OF 3(2)] step_ok_low [OF 2(2) 1(4)]
    unfolding page_lists step_ok_def by blast
  obtain k5 where 5: "mark_frames low_frames k4 = Inr k5" "step_ok ?l (set [0..<256]) k4 k5"
    using mark_frames_ok [OF l(1), of "[0..<256]" k4] 4(2) unfolding page_lists step_ok_def by auto
  have low: "low_tables k5"
    using step_ok_low [OF 5(2)] step_ok_low [OF 4(2)] step_ok_low [OF 3(2)] step_ok_low [OF 2(2) 1(4)] by blast
  have fin: "final_kernel_code_data_addr k3 = ?pd + 8192" "kernel_page_directory k5 = ?pd"
    using 1(5,6) 2(2) 3(2) 4(2) 5(2) by (simp_all add: step_ok_def)
  let ?k' = "paging_switch_page_directory ?pd (?pd + 4096) k5"
  have same: "available_frames ?k' = available_frames k5" "kernel_dir ?k' = kernel_dir k5" "page_tables ?k' = page_tables k5"
    "kernel_page_directory ?k' = kernel_page_directory k5"
    by (simp_all add: paging_switch_page_directory_def kernel_dir_def directory_def)
  have i5: "identity ?l ?k'" "table_pages ?k'" "low_tables ?k'"
    using 5(2) low by (simp_all add: step_ok_def identity_def table_pages_def low_tables_def bitmap_room_def
        mapped_def frame_of_def same)
  have "bm_bit (available_frames k2) 786432"
  proof -
    have "786432 \<in> set (map (\<lambda>i. 786432 - i) [0..<2048 :: nat])" by (auto intro: image_eqI [of _ _ 0])
    then show ?thesis using 2(2) unfolding step_ok_def by blast
  qed
  then have "bm_bit (available_frames k5) 786432" using 3(2) 4(2) 5(2) by (simp add: step_ok_def)
  moreover have "paging_init behind m k = Inr (memset ?pd 0 8192 m, ?k')"
    using 1(1) 2(1) 3(1) 4(1) 5(1) fin
    by (simp add: paging_init_steps)
  ultimately show ?thesis
    using identity_paging_ok [OF i5 l(1)] fin(2) by (intro exI conjI) (assumption, simp_all add: same)
qed

section \<open>The write behind the bitmap\<close>

lemma bitmap_set_end: "bitmap_room 98304 k \<Longrightarrow> bitmap_set (available_frames k) (adr 786432) = Inl Out_of_bounds"
  by (simp add: bitmap_set_def bitmap_room_def Let_def adr_def)

lemma map_end:
  assumes "identity 98304 k" "low_tables k"
  shows "create_pre_paging_mapping (adr 786432) (adr 786432) k = Inl Out_of_bounds"
proof (cases "tables (kernel_dir k) 768 = 0")
  case False
  then show ?thesis using map_existing [of 786432 k 786432] bitmap_set_end assms(1) by (simp add: identity_def)
next
  case True
  have "(256 + 768 :: nat) div 1024 = 1" by simp
  then have t: "tables (kernel_dir k) ((256 + 768) div 1024) \<noteq> 0" using assms(2) by (simp add: low_tables_def)
  obtain k1 where k1: "create_pre_paging_mapping (adr (256 + 768)) (adr (256 + 768)) (enter_pre_paging_table 768 k) = Inr k1"
    "identity 98304 k1"
    using create_table_ok [OF assms(1) _ True _ disjI2 [OF t]] by auto
  have i: "unat (adr 786432 div 1024) = 768" "table_address 768 div 4096 = adr (256 + 768)"
    using table_address_page [of 768] by (simp_all add: adr_def)
  have "bitmap_room 98304 k1" using k1(2) by (simp add: identity_def)
  then show ?thesis
    using k1(1) True i by (subst create_pre_paging_mapping.simps) (simp add: Let_def bitmap_set_end del: adr_index)
qed

text \<open>
  C35: \<open>paging_init\<close> writes behind the array of the frame bitmap: the loop over the stack's
  pages begins with the page at 0xC0000000 itself, whose frame number is the number of
  frames the bitmap has.  With no memory behind the array the initialisation fails.
\<close>

theorem paging_init_overruns_bitmap: "paging_init [] m k = Inl Out_of_bounds"
proof -
  have "identity 98304 (boot_kernel [] k)" and T: "tables (kernel_dir (boot_kernel [] k)) i = 0" for i
    unfolding boot_kernel_def Let_def by (rule identity_start, simp, rule identity_start, simp)
  then obtain k1 where 1: "create_page_tables [0..<2] (boot_kernel [] k) = Inr k1" "identity 98304 k1" "low_tables k1"
    using create_page_tables_ok [OF _ _ T] by auto
  have first: "stack_pages = adr 786432 # map adr (map (\<lambda>i. 786432 - i) [1..<2048])"
    unfolding page_lists by (simp only: upt_conv_Cons [of 0 2048] list.map) simp
  then have "identity_map stack_pages k1 = Inl Out_of_bounds"
    unfolding first identity_map.simps map_end [OF 1(2,3)] by simp
  then show ?thesis using 1(1) by (simp add: paging_init_steps)
qed


definition raw_kernel :: Kernel where
  "raw_kernel = sample_kernel\<lparr>active_process := 0, final_kernel_code_data_addr := 0x12345\<rparr>"


end
