(* ===== verification/Address_Space.thy ===== *)
theory Address_Space
  imports Paging
begin

text \<open>
  The address spaces of processes in src/src/paging.c: creating a page of a process,
  copying an address space for a new process, and releasing its pages.

  These operations allocate page tables and directories from the kernel heap, so they
  work on the whole machine: the heap, the byte memory and the paging state.  A
  structure in a block of the heap is at the block's address in the stores of
  Paging_State.
\<close>

section \<open>The running kernel\<close>

record Machine =
  heap :: Kalloc_Heap
  ram :: mem
  kern :: Kernel

abbreviation with_kern :: "Machine \<Rightarrow> Kernel \<Rightarrow> Machine" where
  "with_kern s k \<equiv> s\<lparr>kern := k\<rparr>"

text \<open>Calls of the heap and of the paging code on the machine.\<close>

definition m_alloc :: "bool \<Rightarrow> u32 \<Rightarrow> Machine \<Rightarrow> (u32 \<times> Machine) res option" where
  "m_alloc g n s = obind (kalloc_alloc g kernel_pager n (heap s) (ram s) (kern s))
     (\<lambda>(p, h, m, k). Some (Inr (p, \<lparr>heap = h, ram = m, kern = k\<rparr>)))"

definition m_alloc_aligned :: "bool \<Rightarrow> u32 \<Rightarrow> u32 \<Rightarrow> Machine \<Rightarrow> (u32 \<times> Machine) res option" where
  "m_alloc_aligned g n al s = obind (kalloc_alloc_aligned g kernel_pager n al (heap s) (ram s) (kern s))
     (\<lambda>(p, h, m, k). Some (Inr (p, \<lparr>heap = h, ram = m, kern = k\<rparr>)))"

definition m_free :: "bool \<Rightarrow> u32 \<Rightarrow> Machine \<Rightarrow> Machine res" where
  "m_free g p s = rbind (kalloc_free g p (heap s) (ram s)) (\<lambda>(h, m). Inr (s\<lparr>heap := h, ram := m\<rparr>))"

definition paging_copy_frame :: "u32 \<Rightarrow> u32 \<Rightarrow> Kernel \<Rightarrow> Kernel" where
  "paging_copy_frame dst src k = k\<lparr>phys := memcpy dst src 4096 (phys k)\<rparr>"

section \<open>A page of a process\<close>

text \<open>The table that holds the page is made first when the directory has none.\<close>

definition process_table :: "bool \<Rightarrow> u32 \<Rightarrow> nat \<Rightarrow> Machine \<Rightarrow> Machine res option" where
  "process_table g pd i s =
    (if tables (directory (kern s) pd) i \<noteq> 0 then Some (Inr s)
     else obind (m_alloc_aligned g 4096 0x1000 s) (\<lambda>(table, s).
       let k = clear_table table (kern s) in
       obind (Some (paging_get_page_frame_address (kernel_page_directory k) (table div 0x1000) k)) (\<lambda>frame_address.
       let k = set_x86 pd i (frame_address OR 0x7) (set_table pd i table k);
           k = clear_table table k in
       Some (Inr (with_kern s k)))))"

definition paging_create_process_page_with_any_frame ::
  "bool \<Rightarrow> u32 \<Rightarrow> u32 \<Rightarrow> bool \<Rightarrow> Machine \<Rightarrow> (u32 \<times> Machine) res option" where
  "paging_create_process_page_with_any_frame g pd page_num user s =
    obind (Some (table_index page_num)) (\<lambda>i.
    obind (process_table g pd i s) (\<lambda>s.
    obind (Some (allocate_frame (tables (directory (kern s) pd) i) (unat (page_num mod 1024)) page_num user (ram s) (kern s)))
      (\<lambda>(frame, m, k). Some (Inr (frame, s\<lparr>ram := m, kern := k\<rparr>)))))"

section \<open>Releasing the pages of a process\<close>

text \<open>The inner loop over the entries \<open>js\<close> of table \<open>i\<close>; the flag is \<open>should_table_be_destroyed\<close>.\<close>

fun clean_entries :: "u32 \<Rightarrow> nat \<Rightarrow> nat list \<Rightarrow> bool \<Rightarrow> Kernel \<Rightarrow> (bool \<times> Kernel) res" where
  "clean_entries table i [] destroy k = Inr (destroy, k)"
| "clean_entries table i (j # js) destroy k =
    (let entry = page_tables k table j; page_num = of_nat (i * 1024 + j);
         frame = ucast (frame_address_20_bits entry) in
     if present entry then
       rbind (bitmap_get (available_frames k) frame) (\<lambda>used.
       rbind (kassert (used \<noteq> 0) ''Page is present, but its frame is not allocd!'') (\<lambda>_.
       if \<not> is_page_part_of_kernel_stack_in_process_address_space page_num then
         rbind (bitmap_clear (available_frames k) frame) (\<lambda>bm.
         clean_entries table i js destroy (set_entry table j zero_entry (k\<lparr>available_frames := bm\<rparr>)))
       else clean_entries table i js False k))
     else clean_entries table i js destroy k)"

fun clean_tables :: "bool \<Rightarrow> u32 \<Rightarrow> nat list \<Rightarrow> Machine \<Rightarrow> Machine res" where
  "clean_tables g pd [] s = Inr s"
| "clean_tables g pd (i # is) s =
    (let table = tables (directory (kern s) pd) i in
     if table \<noteq> 0 then
       rbind (clean_entries table i [0..<1024] True (kern s)) (\<lambda>(destroy, k).
       if destroy then
         rbind (m_free g table (with_kern s k)) (\<lambda>s.
         clean_tables g pd is (with_kern s (set_x86 pd i 0 (set_table pd i 0 (kern s)))))
       else clean_tables g pd is (with_kern s k))
     else clean_tables g pd is s)"

definition paging_clean_all_non_kernel_pages_from_page_directory :: "bool \<Rightarrow> u32 \<Rightarrow> Machine \<Rightarrow> Machine res" where
  "paging_clean_all_non_kernel_pages_from_page_directory g pd s = clean_tables g pd [256..<1024] s"

section \<open>Copying an address space\<close>

fun copy_entries :: "u32 \<Rightarrow> u32 \<Rightarrow> nat list \<Rightarrow> Kernel \<Rightarrow> Kernel res" where
  "copy_entries source copied [] k = Inr k"
| "copy_entries source copied (j # js) k =
    (let entry = page_tables k source j in
     if present entry then
       let k = set_entry copied j entry k in
       rbind (bitmap_get_first_clear (available_frames k)) (\<lambda>frame.
       rbind (bitmap_set (available_frames k) frame) (\<lambda>bm.
       let k = paging_copy_frame (frame * 0x1000) (push_bit 12 (ucast (frame_address_20_bits entry)))
                 (k\<lparr>available_frames := bm\<rparr>);
           k = set_entry copied j ((page_tables k copied j)\<lparr>frame_address_20_bits := ucast frame, user_mode := True\<rparr>) k in
       copy_entries source copied js k))
     else copy_entries source copied js k)"

fun copy_tables :: "bool \<Rightarrow> u32 \<Rightarrow> u32 \<Rightarrow> nat list \<Rightarrow> Machine \<Rightarrow> Machine res option" where
  "copy_tables g pd cloned [] s = Some (Inr s)"
| "copy_tables g pd cloned (i # is) s =
    (if tables (directory (kern s) pd) i \<noteq> 0 then
       obind (m_alloc_aligned g 4096 0x1000 s) (\<lambda>(copied, s).
       let k = clear_table copied (kern s) in
       obind (Some (copy_entries (tables (directory k pd) i) copied [0..<1024] k)) (\<lambda>k.
       let k = set_table cloned i copied k in
       obind (Some (get_physical_address_of_virtual_address (kernel_page_directory k) copied k)) (\<lambda>address.
       copy_tables g pd cloned is (with_kern s (set_x86 cloned i (address OR 0x7) k)))))
     else copy_tables g pd cloned is s)"

fun link_tables :: "u32 \<Rightarrow> u32 \<Rightarrow> nat list \<Rightarrow> Kernel \<Rightarrow> Kernel" where
  "link_tables pd cloned [] k = k"
| "link_tables pd cloned (i # is) k =
    (if tables (directory k pd) i \<noteq> 0 then
       link_tables pd cloned is (set_x86 cloned i (tables_x86_representation (directory k pd) i)
         (set_table cloned i (tables (directory k pd) i) k))
     else link_tables pd cloned is k)"

definition clear_directory :: "u32 \<Rightarrow> Kernel \<Rightarrow> Kernel" where
  "clear_directory pd k = k\<lparr>page_directories := (page_directories k)(pd := zero_directory)\<rparr>"

definition paging_clone_page_directory_for_new_process ::
  "bool \<Rightarrow> u32 \<Rightarrow> Machine \<Rightarrow> (u32 \<times> Machine) res option" where
  "paging_clone_page_directory_for_new_process g pd s =
    obind (m_alloc_aligned g 8192 0x1000 s) (\<lambda>(cloned, s).
    obind (copy_tables g pd cloned [256..<1024] (with_kern s (clear_directory cloned (kern s)))) (\<lambda>s.
    Some (Inr (cloned, with_kern s (link_tables pd cloned [0..<256] (kern s))))))"

end
