(* ===== verification/Vfs_Nodes.thy ===== *)
theory Vfs_Nodes
  imports Address_Space Screen Keyboard
begin

text \<open>
  The data of the file system (src/src/fs/vfs.h and the static variables of vfs.c,
  initrd.c and dev.c) and the state of the whole system the file operations work on.

  A node is in a store at its address.  A pointer to a function is one of the
  functions of the source that are stored in a field of that type, or none.  A name is
  the list of its characters, without the 0 that ends it; \<open>copy_name\<close> is the
  \<open>strcpy\<close> to a field of 256 characters.
\<close>

section \<open>Nodes\<close>

definition VFS_FILE_NAME_MAX_LENGTH :: nat where "VFS_FILE_NAME_MAX_LENGTH = 256"
definition VFS_FILE :: u32 where "VFS_FILE = 0x01"
definition VFS_DIRECTORY :: u32 where "VFS_DIRECTORY = 0x02"

datatype Vfs_Read = No_read | Initrd_read | Dev_read
datatype Vfs_Write = No_write | Dev_write
datatype Vfs_Open = No_open
datatype Vfs_Close = No_close
datatype Vfs_Readdir = No_readdir | Vfs_root_readdir | Initrd_readdir | Dev_readdir
datatype Vfs_Lookup = No_lookup | Vfs_root_lookup | Initrd_lookup | Dev_lookup

record Vfs_Dirent =
  dirent_name :: "u8 list"
  dirent_inode :: u32

record Vfs_Node =
  node_name :: "u8 list"
  flags :: u32
  inode :: u32
  node_size :: u32
  read_fn :: Vfs_Read
  write_fn :: Vfs_Write
  open_fn :: Vfs_Open
  close_fn :: Vfs_Close
  readdir_fn :: Vfs_Readdir
  lookup_fn :: Vfs_Lookup

definition sizeof_Vfs_Node :: u32 where "sizeof_Vfs_Node = 292"

text \<open>\<open>initrd_data\<close> is the address of the image, set by the linker.\<close>

record Fs =
  nodes :: "u32 \<Rightarrow> Vfs_Node"
  vfs_root :: u32
  root_nodes :: "u32 list"
  initrd_data :: u32
  num_files :: u32
  initrd_files_data :: "u32 list"
  initrd_root_node :: u32
  initrd_files_nodes :: u32
  dev_root_node :: u32
  screen_node :: u32
  keyboard_node :: u32

record Os =
  machine :: Machine
  fs :: Fs
  screen :: Screen
  keyboard :: Keyboard_State
  receivers :: kerbs

definition node_at :: "Os \<Rightarrow> u32 \<Rightarrow> Vfs_Node" where
  "node_at s a = nodes (fs s) a"

definition put_node :: "u32 \<Rightarrow> Vfs_Node \<Rightarrow> Os \<Rightarrow> Os" where
  "put_node a n s = s\<lparr>fs := (fs s)\<lparr>nodes := (nodes (fs s))(a := n)\<rparr>\<rparr>"

definition on_fs :: "(Fs \<Rightarrow> Fs) \<Rightarrow> Os \<Rightarrow> Os" where
  "on_fs f s = s\<lparr>fs := f (fs s)\<rparr>"

section \<open>Strings\<close>

definition chars_of :: "string \<Rightarrow> u8 list" where
  "chars_of = map of_char"

definition copy_name :: "u8 list \<Rightarrow> u8 list res" where
  "copy_name src = (if length src < VFS_FILE_NAME_MAX_LENGTH then Inr src else Inl Out_of_bounds)"

definition same_name :: "u8 list \<Rightarrow> u8 list \<Rightarrow> bool" where
  "same_name a b \<longleftrightarrow> strcmp (cstr a) (cstr b) = Some 0"

lemma same_name_iff [simp]: "0 \<notin> set a \<Longrightarrow> 0 \<notin> set b \<Longrightarrow> same_name a b \<longleftrightarrow> a = b"
  by (simp add: same_name_def strcmp_cstr)

section \<open>Bytes of the loaded address space\<close>

definition get_byte :: "u32 \<Rightarrow> Os \<Rightarrow> u8 res" where
  "get_byte a s = read_byte a (ram (machine s)) (kern (machine s))"

definition put_byte :: "u32 \<Rightarrow> u8 \<Rightarrow> Os \<Rightarrow> Os res" where
  "put_byte a v s = rbind (write_byte a v (ram (machine s)) (kern (machine s)))
     (\<lambda>(m, k). Inr (s\<lparr>machine := (machine s)\<lparr>ram := m, kern := k\<rparr>\<rparr>))"

text \<open>\<open>memcpy\<close> of util.c between virtual addresses.\<close>

fun copy_bytes :: "nat \<Rightarrow> u32 \<Rightarrow> u32 \<Rightarrow> u32 \<Rightarrow> Os \<Rightarrow> Os res" where
  "copy_bytes 0 i dst src s = Inr s"
| "copy_bytes (Suc n) i dst src s =
    rbind (get_byte (src + i) s) (\<lambda>v. rbind (put_byte (dst + i) v s) (\<lambda>s. copy_bytes n (i + 1) dst src s))"

definition copy_memory :: "u32 \<Rightarrow> u32 \<Rightarrow> u32 \<Rightarrow> Os \<Rightarrow> Os res" where
  "copy_memory dst src n s = copy_bytes (unat n) 0 dst src s"

fun get_bytes :: "nat \<Rightarrow> u32 \<Rightarrow> Os \<Rightarrow> u8 list res" where
  "get_bytes 0 a s = Inr []"
| "get_bytes (Suc n) a s = rbind (get_byte a s) (\<lambda>v. rbind (get_bytes n (a + 1) s) (\<lambda>vs. Inr (v # vs)))"

text \<open>The string at an address: its bytes up to the first 0.\<close>

fun get_string :: "nat \<Rightarrow> u32 \<Rightarrow> Os \<Rightarrow> u8 list res" where
  "get_string 0 a s = Inl Spins"
| "get_string (Suc n) a s =
    rbind (get_byte a s) (\<lambda>v. if v = 0 then Inr [] else rbind (get_string n (a + 1) s) (\<lambda>vs. Inr (v # vs)))"

definition string_at :: "u32 \<Rightarrow> Os \<Rightarrow> u8 list res" where
  "string_at a s = get_string 4294967296 a s"

text \<open>An allocation from the kernel heap.\<close>

definition os_alloc :: "bool \<Rightarrow> u32 \<Rightarrow> Os \<Rightarrow> (u32 \<times> Os) res option" where
  "os_alloc g n s = obind (m_alloc g n (machine s)) (\<lambda>(p, m). Some (Inr (p, s\<lparr>machine := m\<rparr>)))"

end
