(* ===== verification/Initrd.thy ===== *)
theory Initrd
  imports Vfs_Nodes
begin

text \<open>
  The initial RAM disk: src/src/fs/initrd.c.  The image is in memory at
  \<open>initrd_data\<close>: the number of files, a header for each, their contents.
\<close>

definition sizeof_Ramdisk_Header :: u32 where "sizeof_Ramdisk_Header = 260"

definition initrd_read :: "u32 \<Rightarrow> u32 \<Rightarrow> u32 \<Rightarrow> u32 \<Rightarrow> Os \<Rightarrow> (u32 \<times> Os) res" where
  "initrd_read vfs_node offset sz buf s =
    (let n = node_at s vfs_node in
     if node_size n \<le> offset then Inr (0, s)
     else let size_to_read = (if sz < node_size n - offset then sz else node_size n - offset);
              i = unat (inode n - 1) in
       if i < length (initrd_files_data (fs s))
       then rbind (copy_memory buf (initrd_files_data (fs s) ! i + offset) size_to_read s) (\<lambda>s. Inr (size_to_read, s))
       else Inl Out_of_bounds)"

definition file_node :: "Fs \<Rightarrow> u32 \<Rightarrow> u32" where
  "file_node f i = initrd_files_nodes f + i * sizeof_Vfs_Node"

definition initrd_readdir :: "u32 \<Rightarrow> u32 \<Rightarrow> Vfs_Dirent \<Rightarrow> Os \<Rightarrow> (s32 \<times> Vfs_Dirent) res" where
  "initrd_readdir vfs_node index dirent s =
    rbind (kassert (vfs_node = initrd_root_node (fs s)) ''initrd_readdir called for node that is not the root node'') (\<lambda>_.
    if num_files (fs s) \<le> index then Inr (- 1, dirent)
    else let n = node_at s (file_node (fs s) index) in
      rbind (copy_name (node_name n)) (\<lambda>name.
      Inr (0, dirent\<lparr>dirent_name := name, dirent_inode := inode n\<rparr>)))"

fun lookup_loop :: "Os \<Rightarrow> u8 list \<Rightarrow> nat \<Rightarrow> u32 \<Rightarrow> u32" where
  "lookup_loop s path 0 i = 0"
| "lookup_loop s path (Suc n) i =
    (let node = file_node (fs s) i in
     if same_name path (node_name (node_at s node)) then node else lookup_loop s path n (i + 1))"

definition initrd_lookup :: "u32 \<Rightarrow> u8 list \<Rightarrow> Os \<Rightarrow> u32 res" where
  "initrd_lookup vfs_node path s =
    rbind (kassert (vfs_node = initrd_root_node (fs s)) ''initrd_lookup called for node that is not the root node'') (\<lambda>_.
    Inr (lookup_loop s path (unat (num_files (fs s))) 0))"

text \<open>The name of a header: its characters up to the first 0; a field without one makes \<open>strcpy\<close> run over the end of the node's.\<close>

definition header_name :: "mem \<Rightarrow> u32 \<Rightarrow> u8 list" where
  "header_name m h = takeWhile (\<lambda>c. c \<noteq> 0) (map (\<lambda>i. m (h + of_nat i)) [0..<256])"

definition header_file_size :: "mem \<Rightarrow> u32 \<Rightarrow> u32" where
  "header_file_size m h = rd32 m (h + 256)"

fun init_files :: "mem \<Rightarrow> u32 \<Rightarrow> nat \<Rightarrow> u32 \<Rightarrow> u32 \<Rightarrow> Fs \<Rightarrow> Fs res" where
  "init_files m headers 0 i data_address f = Inr f"
| "init_files m headers (Suc n) i data_address f =
    (let h = headers + i * sizeof_Ramdisk_Header in
     rbind (copy_name (header_name m h)) (\<lambda>name.
     let node = \<lparr>node_name = name, flags = VFS_FILE, inode = i + 1, node_size = header_file_size m h,
                 read_fn = Initrd_read, write_fn = No_write, open_fn = No_open, close_fn = No_close,
                 readdir_fn = No_readdir, lookup_fn = No_lookup\<rparr>;
         f = f\<lparr>nodes := (nodes f)(file_node f i := node),
               initrd_files_data := initrd_files_data f @ [data_address]\<rparr> in
     init_files m headers n (i + 1) (data_address + header_file_size m h) f))"

definition directory_node :: "u8 list \<Rightarrow> Vfs_Readdir \<Rightarrow> Vfs_Lookup \<Rightarrow> Vfs_Node" where
  "directory_node name rd lk = \<lparr>node_name = name, flags = VFS_DIRECTORY, inode = 0, node_size = 0,
     read_fn = No_read, write_fn = No_write, open_fn = No_open, close_fn = No_close,
     readdir_fn = rd, lookup_fn = lk\<rparr>"

definition initrd_init :: "bool \<Rightarrow> Os \<Rightarrow> (u32 \<times> Os) res option" where
  "initrd_init g s =
    (let n = rd32 (ram (machine s)) (initrd_data (fs s));
         headers = initrd_data (fs s) + 4;
         contents = headers + n * sizeof_Ramdisk_Header;
         s = on_fs (\<lambda>f. f\<lparr>num_files := n\<rparr>) s in
     obind (os_alloc g (sizeof_Vfs_Node * n) s) (\<lambda>(p, s).
     let s = on_fs (\<lambda>f. f\<lparr>initrd_files_nodes := p\<rparr>) s in
     obind (os_alloc g (4 * n) s) (\<lambda>(p, s).
     obind (Some (init_files (ram (machine s)) headers (unat n) 0 contents ((fs s)\<lparr>initrd_files_data := []\<rparr>))) (\<lambda>f.
     let s = s\<lparr>fs := f\<rparr> in
     obind (os_alloc g sizeof_Vfs_Node s) (\<lambda>(p, s).
     let s = on_fs (\<lambda>f. f\<lparr>initrd_root_node := p\<rparr>) s;
         s = put_node p (directory_node (chars_of ''initrd'') Initrd_readdir Initrd_lookup) s in
     Some (Inr (p, s)))))))"

end
