(* ===== verification/Dev.thy ===== *)
theory Dev
  imports Vfs_Nodes
begin

text \<open>
  The device files: src/src/fs/dev.c.  Reading the keyboard waits for an interrupt:
  \<open>events\<close> are the answers of the two ports at the keyboard interrupts that arrive
  while \<open>dev_read\<close> spins, and \<open>kerb\<close> is the address of its local receiver buffer.
  The bytes of the receiver's buffer are those of the reader's memory at \<open>buf\<close>.
\<close>

definition SCREEN_FILE_NAME :: "u8 list" where "SCREEN_FILE_NAME = chars_of ''screen''"
definition KEYBOARD_FILE_NAME :: "u8 list" where "KEYBOARD_FILE_NAME = chars_of ''keyboard''"

text \<open>The loop \<open>while (!kerb.event_received)\<close>; it never ends when no event fills the buffer.\<close>

fun wait_event :: "u32 \<Rightarrow> (u8 \<times> u8) list \<Rightarrow> Os \<Rightarrow> Os res" where
  "wait_event kerb events s =
    (if event_received (receivers s kerb) \<noteq> 0 then Inr s
     else case events of
       [] \<Rightarrow> Inl Spins
     | (status, code) # es \<Rightarrow>
         rbind (keyboard_interrupt_handler status code (keyboard s) (receivers s)) (\<lambda>(complains, kb, rs).
         wait_event kerb es (s\<lparr>keyboard := kb, receivers := rs\<rparr>)))"

declare wait_event.simps [simp del]

fun put_bytes :: "u8 list \<Rightarrow> u32 \<Rightarrow> Os \<Rightarrow> Os res" where
  "put_bytes [] a s = Inr s"
| "put_bytes (v # vs) a s = rbind (put_byte a v s) (put_bytes vs (a + 1))"

definition dev_read :: "u32 \<Rightarrow> (u8 \<times> u8) list \<Rightarrow> u32 \<Rightarrow> u32 \<Rightarrow> u32 \<Rightarrow> u32 \<Rightarrow> Os \<Rightarrow> (u32 \<times> Os) res" where
  "dev_read kerb events vfs_node offset sz buf s =
    (if vfs_node = keyboard_node (fs s) then
       rbind (get_bytes (unat sz) buf s) (\<lambda>bytes.
       let r = \<lparr>buffer = bytes, buffer_capacity = sz, buffer_filled = 0, event_received = 0\<rparr> in
       rbind (keyboard_register_event_buffer kerb (keyboard s) ((receivers s)(kerb := r))) (\<lambda>(kb, rs).
       rbind (wait_event kerb events (s\<lparr>keyboard := kb, receivers := rs\<rparr>)) (\<lambda>s.
       let n = buffer_filled (receivers s kerb) in
       rbind (put_bytes (take (unat n) (buffer (receivers s kerb))) buf s) (\<lambda>s. Inr (n, s)))))
     else Inr (0, s))"

definition dev_write :: "u32 \<Rightarrow> u32 \<Rightarrow> u32 \<Rightarrow> u32 \<Rightarrow> Os \<Rightarrow> (u32 \<times> Os) res" where
  "dev_write vfs_node offset sz buf s =
    (if vfs_node = screen_node (fs s)
     then rbind (get_bytes (unat sz) buf s) (\<lambda>bytes. Inr (0, s\<lparr>screen := screen_print_with_len bytes (screen s)\<rparr>))
     else Inr (0, s))"

definition dev_readdir :: "u32 \<Rightarrow> u32 \<Rightarrow> Vfs_Dirent \<Rightarrow> Os \<Rightarrow> (s32 \<times> Vfs_Dirent) res" where
  "dev_readdir vfs_node index dirent s =
    rbind (kassert (vfs_node = dev_root_node (fs s)) ''dev_readdir called for node that is not the root node'') (\<lambda>_.
    if index = 0 then Inr (0, dirent\<lparr>dirent_name := SCREEN_FILE_NAME, dirent_inode := 1\<rparr>)
    else if index = 1 then Inr (0, dirent\<lparr>dirent_name := KEYBOARD_FILE_NAME, dirent_inode := 2\<rparr>)
    else Inr (- 1, dirent))"

definition dev_lookup :: "u32 \<Rightarrow> u8 list \<Rightarrow> Os \<Rightarrow> u32 res" where
  "dev_lookup vfs_node path s =
    (if vfs_node = dev_root_node (fs s)
     then if same_name path SCREEN_FILE_NAME then Inr (screen_node (fs s))
       else if same_name path KEYBOARD_FILE_NAME then Inr (keyboard_node (fs s))
       else Inr 0
     else Inr 0)"

definition device_node :: "u8 list \<Rightarrow> Vfs_Read \<Rightarrow> Vfs_Write \<Rightarrow> Vfs_Node" where
  "device_node name rd wr = \<lparr>node_name = name, flags = VFS_FILE, inode = 0, node_size = 0,
     read_fn = rd, write_fn = wr, open_fn = No_open, close_fn = No_close,
     readdir_fn = No_readdir, lookup_fn = No_lookup\<rparr>"

definition dev_init :: "bool \<Rightarrow> Os \<Rightarrow> (u32 \<times> Os) res option" where
  "dev_init g s =
    obind (os_alloc g sizeof_Vfs_Node s) (\<lambda>(p, s).
    let s = on_fs (\<lambda>f. f\<lparr>dev_root_node := p\<rparr>) s;
        s = put_node p \<lparr>node_name = chars_of ''dev'', flags = VFS_DIRECTORY, inode = 0, node_size = 0,
              read_fn = No_read, write_fn = No_write, open_fn = No_open, close_fn = No_close,
              readdir_fn = Dev_readdir, lookup_fn = Dev_lookup\<rparr> s in
    obind (os_alloc g sizeof_Vfs_Node s) (\<lambda>(p, s).
    let s = on_fs (\<lambda>f. f\<lparr>screen_node := p\<rparr>) s;
        s = put_node p (device_node SCREEN_FILE_NAME No_read Dev_write) s in
    obind (os_alloc g sizeof_Vfs_Node s) (\<lambda>(p, s).
    let s = on_fs (\<lambda>f. f\<lparr>keyboard_node := p\<rparr>) s;
        s = put_node p (device_node KEYBOARD_FILE_NAME Dev_read No_write) s in
    Some (Inr (dev_root_node (fs s), s)))))"

end
