(* ===== verification/Vfs.thy ===== *)
theory Vfs
  imports Initrd Dev
begin

text \<open>
  The virtual file system: src/src/fs/vfs.c, the dispatch through the functions of a
  node, and the look-up of a path of src/src/fs/util.c.
\<close>

definition NUM_ROOT_NODES :: nat where "NUM_ROOT_NODES = 2"

section \<open>The root\<close>

definition vfs_root_readdir :: "u32 \<Rightarrow> u32 \<Rightarrow> Vfs_Dirent \<Rightarrow> Os \<Rightarrow> (s32 \<times> Vfs_Dirent) res" where
  "vfs_root_readdir vfs_node index dirent s =
    rbind (kassert (vfs_node = vfs_root (fs s)) ''vfs_root_readdir called for node that is not the root node'') (\<lambda>_.
    if NUM_ROOT_NODES \<le> unat index then Inr (- 1, dirent)
    else let n = node_at s (root_nodes (fs s) ! unat index) in
      rbind (copy_name (node_name n)) (\<lambda>name. Inr (0, dirent\<lparr>dirent_name := name, dirent_inode := inode n\<rparr>)))"

fun root_loop :: "Os \<Rightarrow> u8 list \<Rightarrow> u32 list \<Rightarrow> u32" where
  "root_loop s path [] = 0"
| "root_loop s path (node # ns) = (if same_name path (node_name (node_at s node)) then node else root_loop s path ns)"

definition vfs_root_lookup :: "u32 \<Rightarrow> u8 list \<Rightarrow> Os \<Rightarrow> u32 res" where
  "vfs_root_lookup vfs_node path s =
    rbind (kassert (vfs_node = vfs_root (fs s)) ''vfs_root_lookup called for node that is not the root node'') (\<lambda>_.
    Inr (root_loop s path (root_nodes (fs s))))"

definition vfs_init :: "bool \<Rightarrow> Os \<Rightarrow> Os res option" where
  "vfs_init g s =
    obind (os_alloc g sizeof_Vfs_Node s) (\<lambda>(p, s).
    let s = on_fs (\<lambda>f. f\<lparr>vfs_root := p\<rparr>) s;
        s = put_node p \<lparr>node_name = [], flags = VFS_DIRECTORY, inode = 0, node_size = 0,
              read_fn = No_read, write_fn = No_write, open_fn = No_open, close_fn = No_close,
              readdir_fn = Vfs_root_readdir, lookup_fn = Vfs_root_lookup\<rparr> s in
    obind (initrd_init g s) (\<lambda>(initrd, s).
    let s = on_fs (\<lambda>f. f\<lparr>root_nodes := (root_nodes f)[0 := initrd]\<rparr>) s in
    obind (dev_init g s) (\<lambda>(dev, s).
    Some (Inr (on_fs (\<lambda>f. f\<lparr>root_nodes := (root_nodes f)[1 := dev]\<rparr>) s)))))"

section \<open>Dispatch\<close>

definition vfs_close :: "u32 \<Rightarrow> Os \<Rightarrow> Os res" where
  "vfs_close vfs_node s =
    (if vfs_node = 0 then Inl Null_deref else case close_fn (node_at s vfs_node) of No_close \<Rightarrow> Inr s)"

definition vfs_open :: "u32 \<Rightarrow> u32 \<Rightarrow> Os \<Rightarrow> Os res" where
  "vfs_open vfs_node open_flags s =
    (if vfs_node = 0 then Inl Null_deref else case open_fn (node_at s vfs_node) of No_open \<Rightarrow> Inr s)"

definition vfs_read :: "u32 \<Rightarrow> (u8 \<times> u8) list \<Rightarrow> u32 \<Rightarrow> u32 \<Rightarrow> u32 \<Rightarrow> u32 \<Rightarrow> Os \<Rightarrow> (u32 \<times> Os) res" where
  "vfs_read kerb events vfs_node offset sz buf s =
    (if vfs_node = 0 then Inl Null_deref else case read_fn (node_at s vfs_node) of
       No_read \<Rightarrow> Inr (0, s)
     | Initrd_read \<Rightarrow> initrd_read vfs_node offset sz buf s
     | Dev_read \<Rightarrow> dev_read kerb events vfs_node offset sz buf s)"

definition vfs_write :: "u32 \<Rightarrow> u32 \<Rightarrow> u32 \<Rightarrow> u32 \<Rightarrow> Os \<Rightarrow> (u32 \<times> Os) res" where
  "vfs_write vfs_node offset sz buf s =
    (if vfs_node = 0 then Inl Null_deref else case write_fn (node_at s vfs_node) of
       No_write \<Rightarrow> Inr (0, s)
     | Dev_write \<Rightarrow> dev_write vfs_node offset sz buf s)"

definition vfs_readdir :: "u32 \<Rightarrow> u32 \<Rightarrow> Vfs_Dirent \<Rightarrow> Os \<Rightarrow> (s32 \<times> Vfs_Dirent) res" where
  "vfs_readdir vfs_node index dirent s =
    (if vfs_node = 0 then Inl Null_deref else case readdir_fn (node_at s vfs_node) of
       No_readdir \<Rightarrow> Inr (0, dirent)
     | Vfs_root_readdir \<Rightarrow> vfs_root_readdir vfs_node index dirent s
     | Initrd_readdir \<Rightarrow> initrd_readdir vfs_node index dirent s
     | Dev_readdir \<Rightarrow> dev_readdir vfs_node index dirent s)"

definition vfs_lookup :: "u32 \<Rightarrow> u8 list \<Rightarrow> Os \<Rightarrow> u32 res" where
  "vfs_lookup vfs_node path s =
    (if vfs_node = 0 then Inl Null_deref else case lookup_fn (node_at s vfs_node) of
       No_lookup \<Rightarrow> Inr 0
     | Vfs_root_lookup \<Rightarrow> vfs_root_lookup vfs_node path s
     | Initrd_lookup \<Rightarrow> initrd_lookup vfs_node path s
     | Dev_lookup \<Rightarrow> dev_lookup vfs_node path s)"

section \<open>Paths\<close>

text \<open>
  The loop over the characters behind the first slash; \<open>filename\<close> is the part of
  \<open>filename_buffer\<close> filled so far.  A write behind the buffer, of a character or of
  the 0 that ends the name, is an error.
\<close>

fun path_loop :: "u8 list \<Rightarrow> u8 list \<Rightarrow> u32 \<Rightarrow> Os \<Rightarrow> u32 res" where
  "path_loop [] filename result s =
    (if filename \<noteq> [] then
       if length filename < VFS_FILE_NAME_MAX_LENGTH then vfs_lookup result filename s else Inl Out_of_bounds
     else Inr result)"
| "path_loop (c # cs) filename result s =
    (if c = 47 then
       if length filename < VFS_FILE_NAME_MAX_LENGTH
       then rbind (vfs_lookup result filename s) (\<lambda>result. if result = 0 then Inr 0 else path_loop cs [] result s)
       else Inl Out_of_bounds
     else if length filename < VFS_FILE_NAME_MAX_LENGTH then path_loop cs (filename @ [c]) result s
     else Inl Out_of_bounds)"

definition fs_util_get_node_by_path :: "u8 list \<Rightarrow> Os \<Rightarrow> u32 res" where
  "fs_util_get_node_by_path path s =
    (case path of
       [] \<Rightarrow> Inr 0
     | c # cs \<Rightarrow> if c \<noteq> 47 then Inr 0 else path_loop cs [] (vfs_root (fs s)) s)"

section \<open>The path look-up against its specification\<close>

text \<open>A path without its first slash is the list of names between the slashes; after the last slash there may be none.\<close>

fun components :: "u8 list \<Rightarrow> u8 list \<Rightarrow> u8 list list" where
  "components acc [] = (if acc = [] then [] else [acc])"
| "components acc (c # cs) = (if c = 47 then acc # components [] cs else components (acc @ [c]) cs)"

text \<open>Names are looked up one after the other, until there is no such node.\<close>

fun walk :: "u32 \<Rightarrow> u8 list list \<Rightarrow> Os \<Rightarrow> u32 res" where
  "walk node [] s = Inr node"
| "walk node (name # names) s =
    (if node = 0 then Inr 0
     else if VFS_FILE_NAME_MAX_LENGTH \<le> length name then Inl Out_of_bounds
     else rbind (vfs_lookup node name s) (\<lambda>node'. walk node' names s))"

lemma walk_0 [simp]: "walk 0 names s = Inr 0"
  by (cases names) simp_all

lemma components_acc: "acc \<noteq> [] \<Longrightarrow> \<exists>name names. components acc cs = name # names \<and> length acc \<le> length name"
proof (induction cs arbitrary: acc)
  case (Cons c cs)
  then show ?case using Cons.IH [of "acc @ [c]"] by fastforce
qed simp

lemma path_loop_walk:
  assumes "node \<noteq> 0" "length acc < 256"
  shows "path_loop cs acc node s = walk node (components acc cs) s"
  using assms
proof (induction cs arbitrary: acc node)
  case Nil
  then show ?case by (cases "vfs_lookup node acc s") (auto simp: VFS_FILE_NAME_MAX_LENGTH_def)
next
  case (Cons c cs)
  show ?case
  proof (cases "c = 47")
    case True
    have "(if r = 0 then Inr 0 else path_loop cs [] r s) = walk r (components [] cs) s" for r
      using Cons.IH [of r "[]"] by simp
    then show ?thesis using Cons.prems True by (simp add: VFS_FILE_NAME_MAX_LENGTH_def)
  next
    case False
    show ?thesis
    proof (cases "length acc < 255")
      case True
      then show ?thesis using False Cons.IH [of node "acc @ [c]"] Cons.prems by (simp add: VFS_FILE_NAME_MAX_LENGTH_def)
    next
      case long: False
      have "path_loop cs (acc @ [c]) node s = Inl Out_of_bounds"
        using long by (cases cs) (simp_all add: VFS_FILE_NAME_MAX_LENGTH_def)
      moreover obtain name names where "components (acc @ [c]) cs = name # names" "length (acc @ [c]) \<le> length name"
        using components_acc [of "acc @ [c]" cs] by auto
      ultimately show ?thesis using long False Cons.prems by (simp add: VFS_FILE_NAME_MAX_LENGTH_def)
    qed
  qed
qed

end
