(* ===== verification/Ramdisk.thy ===== *)
theory Ramdisk
  imports Initrd
begin

text \<open>
  The host programs that write and print the RAM disk: src/ramdisk/writer.c and
  src/ramdisk/reader.c.

  \<open>files\<close> gives the contents of the files of the host, by their path; a memory
  allocation of the host succeeds.  The writer keeps each header in a local variable
  that is not initialised: \<open>junk i k\<close> is what byte \<open>k\<close> of header \<open>i\<close> holds before.
  A program's result is its exit status with what it has written.
\<close>

type_synonym files = "u8 list \<Rightarrow> u8 list option"

section \<open>writer.c\<close>

text \<open>The last component of a path (\<open>basename\<close> of libgen.h).\<close>

definition basename :: "u8 list \<Rightarrow> u8 list" where
  "basename path =
    (let p = rev (dropWhile (\<lambda>c. c = 47) (rev path)) in
     if path = [] then [46] else if p = [] then [47] else rev (takeWhile (\<lambda>c. c \<noteq> 47) (rev p)))"

definition file_is_not_in_root_folder :: "u8 list \<Rightarrow> bool" where
  "file_is_not_in_root_folder name \<longleftrightarrow> (\<exists>c \<in> set name. c = 47 \<or> c = 92)"

definition le32 :: "u32 \<Rightarrow> u8 list" where
  "le32 w = [ucast w, ucast (drop_bit 8 w), ucast (drop_bit 16 w), ucast (drop_bit 24 w)]"

text \<open>A \<open>Ramdisk_Header\<close>: the name, its 0 and what was there before, then the size.\<close>

definition header_bytes :: "(nat \<Rightarrow> u8) \<Rightarrow> u8 list \<Rightarrow> u32 \<Rightarrow> u8 list" where
  "header_bytes old name file_size = name @ 0 # map old [length name + 1..<256] @ le32 file_size"

text \<open>The headers of the files from the \<open>i\<close>-th on; \<open>None\<close> when the program gives up.\<close>

fun make_headers :: "(nat \<Rightarrow> nat \<Rightarrow> u8) \<Rightarrow> files \<Rightarrow> nat \<Rightarrow> u8 list list \<Rightarrow> (u8 list \<times> u32) list option res" where
  "make_headers junk files i [] = Inr (Some [])"
| "make_headers junk files i (path # paths) =
    (case files path of
       None \<Rightarrow> Inr None
     | Some content \<Rightarrow>
         rbind (copy_name (basename path)) (\<lambda>name.
         if file_is_not_in_root_folder name then Inr None
         else rbind (make_headers junk files (i + 1) paths) (\<lambda>rest.
           Inr (map_option (\<lambda>hs. (header_bytes (junk i) name (of_nat (length content)), of_nat (length content)) # hs) rest))))"

fun write_contents :: "files \<Rightarrow> (u8 list \<times> u32) list \<Rightarrow> u8 list \<Rightarrow> s32 \<times> u8 list" where
  "write_contents files [] out = (0, out)"
| "write_contents files ((path, sz) # rest) out =
    (case files path of
       None \<Rightarrow> (1, out)
     | Some content \<Rightarrow> write_contents files rest (out @ take (unat sz) content))"

text \<open>\<open>argv\<close> without the program's name; no output file is opened when the count is wrong.\<close>

definition writer_main :: "(nat \<Rightarrow> nat \<Rightarrow> u8) \<Rightarrow> files \<Rightarrow> u8 list list \<Rightarrow> (s32 \<times> u8 list option) res" where
  "writer_main junk files args =
    (let argc = length args + 1 in
     if argc mod 2 = 0 \<or> argc = 1 then Inr (1, None)
     else let out = le32 (of_nat (length args)) in
       rbind (make_headers junk files 0 args) (\<lambda>hs.
       case hs of
         None \<Rightarrow> Inr (1, Some out)
       | Some headers \<Rightarrow>
           let (status, out) = write_contents files (zip args (map snd headers)) (out @ concat (map fst headers)) in
           Inr (status, Some out)))"

section \<open>reader.c\<close>

definition word_at :: "u8 list \<Rightarrow> nat \<Rightarrow> u32" where
  "word_at img k = ucast (img ! k) OR push_bit 8 (ucast (img ! (k + 1))) OR push_bit 16 (ucast (img ! (k + 2))) OR
     push_bit 24 (ucast (img ! (k + 3)))"

record Printed_File =
  printed_name :: "u8 list"
  printed_size :: u32
  printed_content :: "u8 list option"

text \<open>What \<open>%s\<close> prints of a buffer; without a 0 it reads past the end.\<close>

definition printed_string :: "u8 list \<Rightarrow> u8 list res" where
  "printed_string bytes = (if 0 \<in> set bytes then Inr (takeWhile (\<lambda>c. c \<noteq> 0) bytes) else Inl Out_of_bounds)"

text \<open>
  The loop over the headers; \<open>p\<close> is the position in the input file.  An image that
  is too short leaves the buffers uninitialised: the model ends with an error there.
\<close>

fun print_files :: "bool \<Rightarrow> u8 list \<Rightarrow> nat \<Rightarrow> nat \<Rightarrow> nat \<Rightarrow> Printed_File list res" where
  "print_files contents img 0 i p = Inr []"
| "print_files contents img (Suc n) i p =
    (let h = 4 + 260 * i; sz = word_at img (h + 256) in
     rbind (printed_string (take 260 (drop h img))) (\<lambda>name.
     if contents then
       if length img < p + unat sz then Inl Out_of_bounds
       else rbind (printed_string (take (unat sz) (drop p img))) (\<lambda>text.
         rbind (print_files contents img n (i + 1) (p + unat sz)) (\<lambda>rest.
         Inr (\<lparr>printed_name = name, printed_size = sz, printed_content = Some text\<rparr> # rest)))
     else rbind (print_files contents img n (i + 1) p) (\<lambda>rest.
       Inr (\<lparr>printed_name = name, printed_size = sz, printed_content = None\<rparr> # rest))))"

definition reader_main :: "u8 list option \<Rightarrow> u8 list list \<Rightarrow> (s32 \<times> Printed_File list) res" where
  "reader_main input args =
    (let print_file_contents = (length args = 1 \<and> args ! 0 = chars_of ''true'') in
     case input of
       None \<Rightarrow> Inr (1, [])
     | Some img \<Rightarrow>
         if length img < 4 then Inl Out_of_bounds
         else let n = unat (word_at img 0) in
           if length img < 4 + 260 * n then Inl Out_of_bounds
           else rbind (print_files print_file_contents img n 0 (4 + 260 * n)) (\<lambda>fs. Inr (0, fs)))"

section \<open>The image\<close>

text \<open>A file of the image: its name and its contents.\<close>

type_synonym entry = "u8 list \<times> u8 list"

definition entry_ok :: "entry \<Rightarrow> bool" where
  "entry_ok e \<longleftrightarrow> length (fst e) < 256 \<and> 0 \<notin> set (fst e) \<and> length (snd e) < 4294967296"

definition headers_of :: "(nat \<Rightarrow> nat \<Rightarrow> u8) \<Rightarrow> nat \<Rightarrow> entry list \<Rightarrow> u8 list" where
  "headers_of junk i es =
    concat (map (\<lambda>(k, e). header_bytes (junk k) (fst e) (of_nat (length (snd e)))) (zip [i..<i + length es] es))"

definition image_of :: "(nat \<Rightarrow> nat \<Rightarrow> u8) \<Rightarrow> entry list \<Rightarrow> u8 list" where
  "image_of junk es = le32 (of_nat (length es)) @ headers_of junk 0 es @ concat (map snd es)"

definition entries :: "files \<Rightarrow> u8 list list \<Rightarrow> entry list" where
  "entries files args = map (\<lambda>a. (basename a, the (files a))) args"

lemma length_header [simp]: "length name < 256 \<Longrightarrow> length (header_bytes old name sz) = 260"
  by (simp add: header_bytes_def le32_def)

lemma headers_of_Cons:
  "headers_of junk i (e # es) = header_bytes (junk i) (fst e) (of_nat (length (snd e))) @ headers_of junk (Suc i) es"
  by (simp add: headers_of_def upt_rec)

lemma headers_of_Nil [simp]: "headers_of junk i [] = []"
  by (simp add: headers_of_def)

lemma make_headers_image:
  assumes "make_headers junk files i args = Inr (Some hs)"
  shows "concat (map fst hs) = headers_of junk i (entries files args) \<and>
    map snd hs = map (\<lambda>e. of_nat (length (snd e))) (entries files args) \<and>
    (\<forall>a \<in> set args. files a \<noteq> None \<and> length (basename a) < 256 \<and> \<not> file_is_not_in_root_folder (basename a))"
  using assms
proof (induction args arbitrary: i hs)
  case (Cons a args)
  then show ?case
    by (auto simp: entries_def headers_of_Cons copy_name_def VFS_FILE_NAME_MAX_LENGTH_def
        split: option.splits if_splits)
qed (simp add: entries_def)

lemma write_contents_image:
  assumes "\<forall>a \<in> set args. files a \<noteq> None \<and> length (the (files a)) < 4294967296"
  shows "write_contents files (zip args (map (\<lambda>e. of_nat (length (snd e))) (entries files args))) out =
    (0, out @ concat (map snd (entries files args)))"
  using assms
proof (induction args arbitrary: out)
  case (Cons a args)
  then show ?case by (auto simp: entries_def unat_of_nat32)
qed (simp add: entries_def)

lemma writer_image:
  assumes "writer_main junk files args = Inr (status, Some img)" "status = 0" "\<forall>a. case files a of None \<Rightarrow> True | Some c \<Rightarrow> length c < 4294967296"
  shows "img = image_of junk (entries files args)" "even (length args)"
    "\<forall>a \<in> set args. length (basename a) < 256 \<and> files a \<noteq> None"
proof -
  have odd: "length args mod 2 = 0"
    using assms(1) by (auto simp: writer_main_def Let_def split: if_splits) presburger+
  then show "even (length args)" by presburger
  have c: "\<not> ((length args + 1) mod 2 = 0 \<or> length args + 1 = 1)"
    using assms(1) by (auto simp: writer_main_def Let_def split: if_splits)
  obtain hs where hs: "make_headers junk files 0 args = Inr (Some hs)"
    using assms(1,2) c by (auto simp: writer_main_def Let_def split: option.splits)
  note h = make_headers_image [OF hs]
  then have "\<forall>a \<in> set args. files a \<noteq> None \<and> length (the (files a)) < 4294967296"
    using assms(3) by (metis option.case_eq_if)
  then show "img = image_of junk (entries files args)"
    using assms(1) c hs h write_contents_image [of args files]
    by (simp add: writer_main_def Let_def image_of_def) (simp add: entries_def)
  show "\<forall>a \<in> set args. length (basename a) < 256 \<and> files a \<noteq> None" using h by blast
qed

end
