(* ===== verification/Address_Space_Correct.thy ===== *)
theory Address_Space_Correct
  imports Address_Space Paging_Correct
begin

text \<open>
  Process address spaces: what a growing heap leaves alone, frames owned by the
  processes, and the correctness of copying and releasing an address space.
\<close>

section \<open>What creating kernel pages leaves alone\<close>

definition low_table :: "u32 \<Rightarrow> bool" where
  "low_table t \<longleftrightarrow> (\<exists>i < 256. t = table_address i)"

definition reachable :: "Kernel \<Rightarrow> u32 \<Rightarrow> bool" where
  "reachable k p \<longleftrightarrow> (\<exists>n. p = ((\<lambda>q. next_process (processes k q)) ^^ n) (active_process k))"

definition shares_kernel :: "Kernel \<Rightarrow> u32 \<Rightarrow> bool" where
  "shares_kernel k pd \<longleftrightarrow> pd = kernel_page_directory k \<or> (\<exists>p. reachable k p \<and> page_directory (processes k p) = pd)"

text \<open>
  Of the directories only the entries of the kernel's gigabyte may change, and only
  in those that share the kernel; of the tables only the kernel's own.
\<close>

definition grown :: "Kernel \<Rightarrow> Kernel \<Rightarrow> bool" where
  "grown k k' \<longleftrightarrow> kernel_page_directory k' = kernel_page_directory k \<and> phys k' = phys k \<and>
     loaded_directory k' = loaded_directory k \<and> cr3 k' = cr3 k \<and> active_process k' = active_process k \<and>
     processes k' = processes k \<and> current_pid k' = current_pid k \<and> fd_blocks k' = fd_blocks k \<and>
     (\<forall>pd i. 256 \<le> i \<or> \<not> shares_kernel k pd \<longrightarrow> tables (directory k' pd) i = tables (directory k pd) i \<and>
        tables_x86_representation (directory k' pd) i = tables_x86_representation (directory k pd) i) \<and>
     (\<forall>t. \<not> low_table t \<longrightarrow> page_tables k' t = page_tables k t) \<and>
     (\<forall>f. bm_bit (available_frames k) f \<longrightarrow> bm_bit (available_frames k') f)"

lemma grown_refl [simp]: "grown k k"
  by (simp add: grown_def)

lemma grown_same:
  assumes "grown k k'"
  shows "kernel_page_directory k' = kernel_page_directory k" "processes k' = processes k"
    "active_process k' = active_process k" "phys k' = phys k" "loaded_directory k' = loaded_directory k"
    "reachable k' = reachable k" "shares_kernel k' = shares_kernel k"
  using assms by (auto simp: grown_def reachable_def shares_kernel_def fun_eq_iff)

lemma grown_trans: "grown k k' \<Longrightarrow> grown k' k'' \<Longrightarrow> grown k k''"
  using grown_same(7) [of k k'] by (auto simp: grown_def)

lemma grown_bitmap:
  assumes "bitmap_set (available_frames k) w = Inr bm"
  shows "grown k (k\<lparr>available_frames := bm\<rparr>)"
proof -
  let ?b = "available_frames k" and ?i = "unat (w div 8)"
  have l: "?i < length (data ?b)" and bm: "bm = ?b\<lparr>data := (data ?b)[?i := data ?b ! ?i OR bit_mask (unat (w mod 8))]\<rparr>"
    using assms by (auto simp: bitmap_set_def Let_def split: if_splits)
  have "bm_bit bm f" if "bm_bit ?b f" for f
    using that unfolding bm bm_bit_update [OF l] by (auto simp: bm_bit_def bit_or_iff)
  then show ?thesis by (auto simp: grown_def directory_def)
qed

lemma grown_set_entry: "low_table t \<Longrightarrow> grown k (set_entry t j e k)"
  by (auto simp: grown_def store_defs)

lemma grown_clear_table: "low_table t \<Longrightarrow> grown k (clear_table t k)"
  by (auto simp: grown_def store_defs)

lemma grown_set_table: "i < 256 \<Longrightarrow> shares_kernel k pd \<Longrightarrow> grown k (set_table pd i v k)"
  by (auto simp: grown_def store_defs)

lemma grown_set_x86: "i < 256 \<Longrightarrow> shares_kernel k pd \<Longrightarrow> grown k (set_x86 pd i v k)"
  by (auto simp: grown_def store_defs)

lemmas grownI = grown_bitmap grown_set_entry grown_clear_table grown_set_table grown_set_x86

lemma reachable_next: "reachable k p \<Longrightarrow> reachable k (next_process (processes k p))"
proof -
  assume "reachable k p"
  then obtain n where "p = ((\<lambda>q. next_process (processes k q)) ^^ n) (active_process k)" by (auto simp: reachable_def)
  then have "next_process (processes k p) = ((\<lambda>q. next_process (processes k q)) ^^ Suc n) (active_process k)" by simp
  then show ?thesis unfolding reachable_def by blast
qed

lemma grown_link_loop:
  "link_loop fuel p v i x86 k = Inr k' \<Longrightarrow> i < 256 \<Longrightarrow> reachable k p \<Longrightarrow> grown k k'"
proof (induction fuel p v i x86 k rule: link_loop.induct)
  case (1 fuel p v i x86 k)
  let ?pd = "page_directory (processes k p)"
  let ?k = "set_x86 ?pd i x86 (set_table ?pd i v k)" and ?n = "next_process (processes k p)"
  have s: "shares_kernel k ?pd" using "1.prems"(3) by (auto simp: shares_kernel_def)
  have t: "grown k (set_table ?pd i v k)" by (rule grown_set_table [OF "1.prems"(2) s])
  have g: "grown k ?k"
    using grown_trans [OF t grown_set_x86 [OF "1.prems"(2)]] s grown_same(7) [OF t] by simp
  have c: "fuel \<noteq> 0" "p \<noteq> 0" using "1.prems"(1) by (auto simp: link_loop.simps [of fuel] split: if_splits)
  show ?case
  proof (cases "?n = active_process k")
    case True
    then have "k' = ?k" using c "1.prems"(1) by (simp add: link_loop.simps [of fuel] Let_def)
    then show ?thesis using g by simp
  next
    case False
    then have "link_loop (fuel - 1) ?n v i x86 ?k = Inr k'"
      using c "1.prems"(1) by (simp add: link_loop.simps [of fuel] Let_def)
    moreover have "reachable ?k ?n" using reachable_next [OF "1.prems"(3)] grown_same(6) [OF g] by simp
    ultimately have "grown ?k k'" using "1.IH" [OF c refl refl refl False] "1.prems"(2) by simp
    then show ?thesis using grown_trans [OF g] by blast
  qed
qed

lemma grown_link:
  assumes "process_link_kernel_table_to_all_address_spaces v i x86 k = Inr k'" "i < 256"
  shows "grown k k'"
proof -
  have "reachable k (active_process k)" unfolding reachable_def by (intro exI [of _ 0]) simp
  then show ?thesis
    using grown_link_loop assms unfolding process_link_kernel_table_to_all_address_spaces_def by fastforce
qed

definition kernel_tables :: "Kernel \<Rightarrow> bool" where
  "kernel_tables k \<longleftrightarrow> (\<forall>i < 1024. tables (kernel_dir k) i \<noteq> 0 \<longrightarrow> tables (kernel_dir k) i = table_address i)"

lemma link_loop_tables:
  "link_loop fuel p v i x86 k = Inr k' \<Longrightarrow>
   tables (directory k' pd) j = tables (directory k pd) j \<or> j = i \<and> tables (directory k' pd) j = v"
proof (induction fuel p v i x86 k rule: link_loop.induct)
  case (1 fuel p v i x86 k)
  let ?pd = "page_directory (processes k p)"
  let ?k = "set_x86 ?pd i x86 (set_table ?pd i v k)" and ?n = "next_process (processes k p)"
  have c: "fuel \<noteq> 0" "p \<noteq> 0" using "1.prems" by (auto simp: link_loop.simps [of fuel] split: if_splits)
  have k: "tables (directory ?k pd) j = tables (directory k pd) j \<or> j = i \<and> tables (directory ?k pd) j = v" by auto
  show ?case
  proof (cases "?n = active_process k")
    case True
    then have "k' = ?k" using c "1.prems" by (simp add: link_loop.simps [of fuel] Let_def)
    then show ?thesis using k by simp
  next
    case False
    then have "link_loop (fuel - 1) ?n v i x86 ?k = Inr k'"
      using c "1.prems" by (simp add: link_loop.simps [of fuel] Let_def)
    then show ?thesis using "1.IH" [OF c refl refl refl False] k by auto
  qed
qed

lemma grown_test_write:
  assumes "test_write a m k = Inr (m', k')" "a < 0x40000000" "is_table_page a \<Longrightarrow> low_table a"
  shows "grown k k'"
  using assms grown_set_entry by (auto simp: test_write_def write_byte_def split: if_splits)

lemma grown_allocate_frame:
  assumes "allocate_frame t j page user m k = Inr (f, m', k')" "low_table t" "page * 4096 < 0x40000000"
    "is_table_page (page * 4096) \<Longrightarrow> low_table (page * 4096)"
  shows "grown k k'" and "page_directories k' = page_directories k"
proof -
  obtain w bm e where w: "bitmap_set (available_frames k) w = Inr bm"
    "test_write (page * 4096) m (set_entry t j e (k\<lparr>available_frames := bm\<rparr>)) = Inr (m', k')"
    using assms(1) by (auto simp: allocate_frame_def Let_def)
  show "grown k k'"
    using grown_trans [OF grown_trans [OF grown_bitmap [OF w(1)] grown_set_entry [OF assms(2)]]
      grown_test_write [OF w(2) assms(3,4)]] by simp
  show "page_directories k' = page_directories k"
    using w(2) by (auto simp: test_write_def write_byte_def store_defs split: if_splits)
qed

lemma grown_create_kernel_page:
  "paging_create_kernel_page_with_any_frame p m k = Inr (f, m', k') \<Longrightarrow>
   p < 512 \<or> 1280 \<le> p \<and> p < 262144 \<Longrightarrow> kernel_tables k \<Longrightarrow> grown k k' \<and> kernel_tables k' \<and>
   (\<forall>i < 1024. tables (kernel_dir k) i \<noteq> 0 \<longrightarrow> tables (kernel_dir k') i \<noteq> 0)"
proof (induction p m k arbitrary: f m' k' rule: paging_create_kernel_page_with_any_frame.induct)
  case (1 p m k)
  let ?i = "unat (p div 1024)" and ?j = "unat (p mod 1024)" and ?pd = "kernel_page_directory k"
  let ?a = "table_address ?i"
  have p: "unat p < 512 \<or> 1280 \<le> unat p \<and> unat p < 262144"
    using "1.prems"(2) by (simp add: word_less_nat_alt word_le_nat_alt)
  have i: "?i < 256" using p by (auto simp: word_nat)
  have addr: "p * 4096 < 0x40000000" "is_table_page (p * 4096) \<Longrightarrow> low_table (p * 4096)"
  proof -
    have u: "unat (p * 4096) = unat p * 4096" using p by (intro trans [OF unat_mult32]) auto
    show "p * 4096 < 0x40000000" using p by (auto simp: word_less_nat_alt u)
    assume "is_table_page (p * 4096)"
    then have r: "256 \<le> unat p" "unat p < 1280"
      by (auto simp: is_table_page_def KERNEL_PAGE_TABLES_ADDRESS_def word_less_nat_alt word_le_nat_alt u)
    then have "p * 4096 = table_address (unat p - 256)"
      by (intro word_eq_unatI) (simp add: table_address_adr u algebra_simps)
    then show "low_table (p * 4096)" unfolding low_table_def by (intro exI [of _ "unat p - 256"]) (use r p in auto)
  qed
  have s: "shares_kernel k ?pd" by (simp add: shares_kernel_def)
  have last: "grown k2 k' \<and> kernel_tables k' \<and> kernel_dir k' = kernel_dir k2"
    if "allocate_frame (tables (directory k2 ?pd) ?i) ?j p False m2 k2 = Inr (f, m', k')"
      "tables (directory k2 ?pd) ?i = ?a" "kernel_tables k2" "kernel_page_directory k2 = ?pd" for m2 k2
  proof -
    have t: "low_table (tables (directory k2 ?pd) ?i)" using that(2) i by (auto simp: low_table_def)
    note a = grown_allocate_frame [OF that(1) t addr]
    then have "kernel_dir k' = kernel_dir k2" using grown_same(1) [OF a(1)] by (simp add: kernel_dir_def directory_def)
    then show ?thesis using a that(3) by (simp add: kernel_tables_def)
  qed
  show ?case
  proof (cases "tables (kernel_dir k) ?i = 0")
    case False
    have "allocate_frame (tables (directory k ?pd) ?i) ?j p False m k = Inr (f, m', k')"
      using "1.prems"(1) False i by (simp add: paging_create_kernel_page_with_any_frame.simps [of p] Let_def)
    moreover have "tables (directory k ?pd) ?i = ?a" using False "1.prems"(3) i by (simp add: kernel_tables_def kernel_dir_def)
    ultimately show ?thesis using last "1.prems"(3) by simp
  next
    case True
    let ?k0 = "set_table ?pd ?i ?a k"
    obtain f0 m1 k1 k2 where r: "paging_create_kernel_page_with_any_frame (?a div 4096) m ?k0 = Inr (f0, m1, k1)"
      "process_link_kernel_table_to_all_address_spaces ?a ?i ((f0 * 4096) OR 7)
        (clear_table ?a (set_x86 ?pd ?i ((f0 * 4096) OR 7) k1)) = Inr k2"
      "allocate_frame (tables (directory k2 ?pd) ?i) ?j p False m1 k2 = Inr (f, m', k')"
      using "1.prems"(1) True i by (auto simp: paging_create_kernel_page_with_any_frame.simps [of p] Let_def)
    have low: "low_table ?a" using i by (auto simp: low_table_def)
    have g0: "grown k ?k0" by (rule grown_set_table [OF i s])
    have kt0: "kernel_tables ?k0" using "1.prems"(3) by (auto simp: kernel_tables_def kernel_dir_def)
    have "?a div 4096 < 512" using i by (simp add: table_address_page word_less_nat_alt)
    then have g1: "grown ?k0 k1" "kernel_tables k1"
      "\<forall>j < 1024. tables (kernel_dir ?k0) j \<noteq> 0 \<longrightarrow> tables (kernel_dir k1) j \<noteq> 0"
      using "1.IH" [OF refl refl refl _ True refl r(1)] kt0 i by auto
    let ?x = "set_x86 ?pd ?i ((f0 * 4096) OR 7) k1"
    have s1: "shares_kernel k1 ?pd" using s grown_same(7) [OF g0] grown_same(7) [OF g1(1)] by simp
    have g2: "grown k1 ?x" by (rule grown_set_x86 [OF i s1])
    have g3: "grown ?x (clear_table ?a ?x)" by (rule grown_clear_table [OF low])
    note g4 = grown_link [OF r(2) i]
    have g: "grown k k2" by (rule grown_trans [OF grown_trans [OF grown_trans [OF grown_trans [OF g0 g1(1)] g2] g3] g4])
    have pd: "kernel_page_directory k1 = ?pd" "kernel_page_directory k2 = ?pd"
      using grown_same(1) [OF g] grown_same(1) [OF g1(1)] by simp_all
    have "tables (kernel_dir k2) j = tables (kernel_dir k1) j \<or> j = ?i \<and> tables (kernel_dir k2) j = ?a" for j
      using r(2) link_loop_tables [where pd = ?pd and j = j]
      by (fastforce simp: process_link_kernel_table_to_all_address_spaces_def kernel_dir_def pd)
    then have t2: "tables (kernel_dir k2) j = tables (kernel_dir k1) j \<or> j = ?i \<and> tables (kernel_dir k2) j = ?a" for j .
    have a: "?a \<noteq> 0" using i table_address_nonzero [of ?i] by simp
    have T0: "tables (kernel_dir ?k0) = (tables (kernel_dir k))(?i := ?a)" by (simp add: kernel_dir_def)
    have keep: "tables (kernel_dir k2) j \<noteq> 0" if "j < 1024" "tables (kernel_dir ?k0) j \<noteq> 0" for j
      using t2 [of j] g1(3) that a by auto
    have kt2: "kernel_tables k2" using t2 g1(2) a unfolding kernel_tables_def by metis
    have "tables (directory k2 ?pd) ?i = ?a"
      using keep [of ?i] kt2 i a by (simp add: T0 kernel_tables_def) (simp add: kernel_dir_def pd)
    from last [OF r(3) this kt2 pd(2)] have "grown k2 k'" "kernel_tables k'" "kernel_dir k' = kernel_dir k2" by blast+
    then show ?thesis using grown_trans [OF g] keep a by (auto simp: T0)
  qed
qed

section \<open>Frames of process pages\<close>

text \<open>
  A slot is a page table's address and an index in it.  \<open>owned k S\<close>: the slots \<open>S\<close>
  hold present pages, each with a frame marked as used that no other slot of \<open>S\<close> and
  no page of the kernel has.
\<close>

type_synonym slot = "u32 \<times> nat"

definition entry_at :: "Kernel \<Rightarrow> slot \<Rightarrow> Page_Entry" where
  "entry_at k s = page_tables k (fst s) (snd s)"

definition slot_frame :: "Kernel \<Rightarrow> slot \<Rightarrow> nat" where
  "slot_frame k s = unat (frame_address_20_bits (entry_at k s))"

definition owned :: "Kernel \<Rightarrow> slot set \<Rightarrow> bool" where
  "owned k S \<longleftrightarrow> inj_on (slot_frame k) S \<and>
     (\<forall>s \<in> S. \<not> low_table (fst s) \<and> slot_frame k s < 786432 \<and> present (entry_at k s) \<and> bm_bit (available_frames k) (slot_frame k s) \<and>
        (\<forall>x < 1048576. mapped k x \<longrightarrow> frame_of k x \<noteq> slot_frame k s))"

lemma owned_empty [simp]: "owned k {}"
  by (simp add: owned_def)

lemma owned_subset: "owned k S \<Longrightarrow> R \<subseteq> S \<Longrightarrow> owned k R"
  unfolding owned_def by (meson inj_on_subset subset_eq)

lemma owned_created:
  assumes "owned k S" "created k x f k'" "grown k k'"
  shows "owned k' S"
proof -
  have e: "entry_at k' s = entry_at k s" if "s \<in> S" for s
    using assms(1,3) that by (simp add: owned_def grown_def entry_at_def)
  then have f: "slot_frame k' s = slot_frame k s" if "s \<in> S" for s using that by (simp add: slot_frame_def)
  have "frame_of k' y \<noteq> slot_frame k s" if "s \<in> S" "y < 1048576" "mapped k' y" for s y
  proof (cases "mapped k y")
    case True
    then have "frame_of k' y = frame_of k y" using assms(2) that(2) by (simp add: created_def)
    then show ?thesis using assms(1) that(1,2) True by (simp add: owned_def)
  next
    case False
    then have "\<not> bm_bit (available_frames k) (frame_of k' y)" using assms(2) that(2,3) by (simp add: created_def)
    then show ?thesis using assms(1) that(1) by (auto simp: owned_def)
  qed
  moreover have "inj_on (slot_frame k') S" using assms(1) f by (simp add: owned_def cong: inj_on_cong)
  ultimately show ?thesis using assms(1,3) e f by (simp add: owned_def grown_def)
qed

section \<open>The heap grows without touching process pages\<close>

text \<open>The pages of the kernel stay, on their frames.\<close>

definition keeps_pages :: "Kernel \<Rightarrow> Kernel \<Rightarrow> bool" where
  "keeps_pages k k' \<longleftrightarrow> (\<forall>x < 1048576. mapped k x \<longrightarrow> mapped k' x \<and> frame_of k' x = frame_of k x)"

lemma keeps_pages_refl [simp]: "keeps_pages k k"
  by (simp add: keeps_pages_def)

lemma keeps_pages_trans: "keeps_pages k k' \<Longrightarrow> keeps_pages k' k'' \<Longrightarrow> keeps_pages k k''"
  by (simp add: keeps_pages_def)

text \<open>
  \<open>space_ready k0 S d n c k\<close>: since \<open>k0\<close> only kernel pages were created, the slots \<open>S\<close>
  still own their frames, the pages from the arena of the hole tree to \<open>n\<close> are mapped,
  and beyond the \<open>c\<close> pages the heap may create and the missing tables there are \<open>d\<close>
  frames.
\<close>

definition space_ready :: "Kernel \<Rightarrow> slot set \<Rightarrow> nat \<Rightarrow> nat \<Rightarrow> nat \<Rightarrow> Kernel \<Rightarrow> bool" where
  "space_ready k0 S d n c k \<longleftrightarrow> kernel_ready n c k \<and> c + d + nulls k \<le> free_frames k \<and> grown k0 k \<and> keeps_pages k0 k \<and> owned k S \<and>
     (\<forall>x. 1280 \<le> x \<and> x < n \<longrightarrow> mapped k x)"

lemma paging_ok_kernel_tables: "paging_ok k \<Longrightarrow> kernel_tables k"
  by (simp add: paging_ok_def kernel_tables_def)

lemma space_step:
  assumes "space_ready k0 S d n (Suc c) k"
  shows "\<exists>m' k'. kernel_pager (adr n) m k = Inr (m', k') \<and> space_ready k0 S d (Suc n) c k' \<and>
           outside (n * 4096) (n * 4096 + 4096) m m'"
proof -
  have r: "kernel_ready n (Suc c) k" "Suc c + d + nulls k \<le> free_frames k" "grown k0 k" "owned k S"
    "\<forall>x. 1280 \<le> x \<and> x < n \<longrightarrow> mapped k x" "keeps_pages k0 k"
    using assms by (simp_all add: space_ready_def)
  have kr: "paging_ok k" "1280 \<le> n" "n + Suc c \<le> 262144" "Suc c + nulls k \<le> free_frames k"
    and nm: "\<not> mapped k n"
    and link: "(\<exists>ps. ring k ps) \<or> (\<forall>x. n \<le> x \<and> x < n + Suc c \<longrightarrow> tables (kernel_dir k) (x div 1024) \<noteq> 0)"
    using r(1) by (simp_all add: kernel_ready_def)
  obtain ps where ps: "tables (kernel_dir k) (n div 1024) \<noteq> 0 \<or> ring k ps" using link by auto
  obtain m' k' where 1: "kernel_pager (adr n) m k = Inr (m', k')" "kernel_ready (Suc n) c k'"
    "outside (n * 4096) (n * 4096 + 4096) m m'"
    using kernel_pager_step [OF r(1), of m] by blast
  obtain f k2 where 2: "paging_create_kernel_page_with_any_frame (adr n) m k = Inr (adr f, m(adr (n * 4096) := 0xAB), k2)"
    "created k n f k2" "free_frames k + nulls k2 = Suc (free_frames k2 + nulls k)"
    using create_kernel_page_ok [OF kr(1,2) _ nm _ ps, of m] kr(3,4) by auto
  have k2: "k2 = k'" using 1(1) 2(1) by (simp add: kernel_pager_def)
  have "grown k k'"
    using grown_create_kernel_page [OF 2(1)] paging_ok_kernel_tables [OF kr(1)] kr(2,3) k2
    by (simp add: word_less_nat_alt word_le_nat_alt)
  moreover have "\<forall>x. 1280 \<le> x \<and> x < Suc n \<longrightarrow> mapped k' x"
    using r(5) 2(2) kr(3) unfolding k2 created_def by (auto simp: less_Suc_eq)
  moreover have "keeps_pages k k'" using 2(2) by (simp add: k2 created_def keeps_pages_def)
  then have "keeps_pages k0 k'" using r(6) keeps_pages_trans by blast
  ultimately have "space_ready k0 S d (Suc n) c k'"
    using 1(2) 2(2,3) k2 r(2-4) grown_trans [of k0 k k'] owned_created [of k S n f k']
    by (simp add: space_ready_def)
  then show ?thesis using 1 by blast
qed

interpretation spaces: page_source kernel_pager "\<lambda>n c k. space_ready k0 S d n (c + c0) k" for k0 S d c0
proof
  show "\<exists>m' k'. kernel_pager (adr n) m k = Inr (m', k') \<and> space_ready k0 S d (Suc n) (c + c0) k' \<and>
      outside (n * 4096) (n * 4096 + 4096) m m'" if "space_ready k0 S d n (Suc c + c0) k" for n c k m
    using space_step [of k0 S d n "c + c0" k m] that by simp
  show "n + c \<le> 784385" if "space_ready k0 S d n (c + c0) k" for n c k
    using that by (simp add: space_ready_def kernel_ready_def)
qed

section \<open>The machine\<close>

abbreviation heap_start :: nat where "heap_start \<equiv> 5308416"

abbreviation heap_end :: "layout \<Rightarrow> nat" where "heap_end bs \<equiv> (heap_start + ext bs) div 4096"

abbreviation blocks_at :: "layout \<Rightarrow> nat set" where "blocks_at bs \<equiv> snd ` used_blocks heap_start bs"

text \<open>
  \<open>machine_ok bs S c d j s\<close>: the heap has the blocks \<open>bs\<close>, on mapped pages, and its
  first block is in use; the slots \<open>S\<close> lie in blocks in use and own their frames; \<open>c\<close>
  more heap pages and \<open>d\<close> frames are available, and \<open>j\<close> cells of the hole tree.
\<close>

definition machine_ok :: "layout \<Rightarrow> slot set \<Rightarrow> nat \<Rightarrow> nat \<Rightarrow> nat \<Rightarrow> Machine \<Rightarrow> bool" where
  "machine_ok bs S c d j s \<longleftrightarrow> heap_ok (heap s) (ram s) heap_start bs \<and> anchored heap_start bs \<and>
     space_ready (kern s) S d (heap_end bs) c (kern s) \<and> j \<le> avl_spare (avl (heap s)) \<and>
     fst ` S \<subseteq> adr ` blocks_at bs"

lemma kernel_ready_less: "kernel_ready n (c + e) k \<Longrightarrow> kernel_ready n c k"
  by (auto simp: kernel_ready_def)

lemma space_ready_less: "space_ready k0 S d n (c + e) k \<Longrightarrow> space_ready k S d n c k"
  by (auto simp: space_ready_def dest: kernel_ready_less)

lemma heap_range:
  assumes "machine_ok bs S c d j s" "q \<in> blocks_at bs"
  shows "5308428 \<le> q" "q < 1073741824" "\<not> low_table (adr q)" "adr q \<noteq> 0" "mapped (kern s) (q div 4096)"
proof -
  have h: "heap_ok (heap s) (ram s) heap_start bs" and r: "space_ready (kern s) S d (heap_end bs) c (kern s)"
    using assms(1) by (simp_all add: machine_ok_def)
  have b: "heap_start + 12 \<le> q" "q + 8 \<le> heap_start + ext bs" using used_below [OF assms(2)] by simp_all
  have "4096 dvd ext bs" using h by (simp add: heap_ok_def region_def)
  then have e: "heap_end bs * 4096 = heap_start + ext bs" by (auto elim!: dvdE)
  have l: "heap_end bs \<le> 262144" using r by (simp add: space_ready_def kernel_ready_def)
  show 1: "5308428 \<le> q" "q < 1073741824" using b e l by linarith+
  show "\<not> low_table (adr q)"
    using 1 by (auto simp: low_table_def table_address_adr adr_inject)
  show "adr q \<noteq> 0" using 1 adr_eq_0 [of q] by simp
  have "1280 \<le> q div 4096" "q div 4096 < heap_end bs" using 1 b e by linarith+
  then show "mapped (kern s) (q div 4096)" using r by (simp add: space_ready_def)
qed

lemma machine_alloc:
  assumes "machine_ok bs S (c + p) d (Suc j) s" "alignment_ok al" "n + al + 20 \<le> p * 4096" "n < 4294967296"
  shows "\<exists>q s' bs'. m_alloc_aligned g (adr n) (adr al) s = Some (Inr (adr q, s')) \<and>
           machine_ok bs' S c d j s' \<and> (al = 0 \<or> al dvd q) \<and> q \<notin> blocks_at bs \<and>
           blocks_at bs' = insert q (blocks_at bs) \<and> grown (kern s) (kern s') \<and> keeps_pages (kern s) (kern s') \<and>
           (\<exists>n'. n \<le> n' \<and> (n', q) \<in> used_blocks heap_start bs') \<and>
           kept (used_blocks heap_start bs) (ram s) (ram s')"
proof -
  have h: "heap_ok (heap s) (ram s) heap_start bs" "anchored heap_start bs"
    "space_ready (kern s) S d (heap_end bs) (p + c) (kern s)" "Suc j \<le> avl_spare (avl (heap s))"
    "fst ` S \<subseteq> adr ` blocks_at bs"
    using assms(1) by (simp_all add: machine_ok_def add.commute)
  have room: "tail bs \<noteq> 0 \<or> avl_spare (avl (heap s)) \<noteq> 0" "n + al + 20 \<le> tail bs + p * 4096"
    using h(4) assms(3) by linarith+
  obtain q h' m' k' bs' i where 1:
    "kalloc_heap_alloc g kernel_pager (adr n) (adr al) (heap s) (ram s) (kern s) = Some (Inr (adr q, h', m', k'))"
    "heap_ok h' m' heap_start bs'" "allocated heap_start bs bs' n q" "al = 0 \<or> al dvd q"
    "kept (used_blocks heap_start bs) (ram s) m'"
    "avl_spare (avl (heap s)) \<le> avl_spare (avl h') + (if tail bs = 0 then 1 else 0)"
    "space_ready (kern s) S d (heap_end bs') (p - i + c) k'"
    using spaces.alloc_ok [OF h(1) assms(2) disjI2 [OF h(2)] assms(4) h(3) room, of g] by blast
  let ?s = "\<lparr>heap = h', ram = m', kern = k'\<rparr>"
  have b: "blocks_at bs' = insert q (blocks_at bs)" "q \<notin> blocks_at bs"
    "\<exists>n'. n \<le> n' \<and> (n', q) \<in> used_blocks heap_start bs'" using 1(3) by (simp_all add: allocated_def)
  have "space_ready k' S d (heap_end bs') c k'" using 1(7) by (intro space_ready_less [of _ S d _ c "p - i"]) (simp add: add.commute)
  then have "machine_ok bs' S c d j ?s"
    using 1(2,6) anchored_allocated [OF 1(3) h(2)] h(4,5) b(1) by (auto simp: machine_ok_def split: if_splits)
  moreover have "grown (kern s) k'" "keeps_pages (kern s) k'" using 1(7) by (simp_all add: space_ready_def)
  ultimately show ?thesis
    using 1(1,4,5) b by (intro exI [of _ q] exI [of _ ?s] exI [of _ bs'])
      (simp add: m_alloc_aligned_def kalloc_alloc_aligned_def)
qed

section \<open>Copying the entries of a table\<close>

definition frame_bytes :: "Kernel \<Rightarrow> nat \<Rightarrow> nat \<Rightarrow> u8" where
  "frame_bytes k f i = phys k (adr (f * 4096 + i))"

lemma copy_frame_bytes:
  assumes "f \<noteq> g" "f < 1048576" "g < 1048576" "h < 1048576" "i < 4096"
  shows "frame_bytes (paging_copy_frame (adr (f * 4096)) (adr (g * 4096)) k) h i = frame_bytes k (if h = f then g else h) i"
proof -
  have apart: "g * 4096 + 4096 \<le> f * 4096 \<or> f * 4096 + 4096 \<le> g * 4096" using assms(1) by linarith
  have lim: "g * 4096 + 4096 \<le> 4294967296" "f * 4096 + 4096 \<le> 4294967296" using assms(2,3) by linarith+
  have n: "(4096 :: u32) = adr 4096" by (simp add: adr_def)
  have p: "phys (paging_copy_frame (adr (f * 4096)) (adr (g * 4096)) k) = memcpy (adr (f * 4096)) (adr (g * 4096)) (adr 4096) (phys k)"
    by (simp add: paging_copy_frame_def n)
  show ?thesis
  proof (cases "h = f")
    case True
    then show ?thesis using memcpy_outside(2) [OF apart lim assms(5)] by (simp add: frame_bytes_def p)
  next
    case False
    have "h * 4096 + i < f * 4096 \<or> f * 4096 + 4096 \<le> h * 4096 + i" using False assms(5) by linarith
    moreover have "h * 4096 + i < 4294967296" using assms(4,5) by linarith
    ultimately show ?thesis
      using outsideD [OF memcpy_outside(1) [OF apart lim]] False by (simp add: frame_bytes_def p)
  qed
qed

definition frames_only :: "Kernel \<Rightarrow> Kernel \<Rightarrow> bool" where
  "frames_only k k' \<longleftrightarrow> k' = k\<lparr>available_frames := available_frames k', page_tables := page_tables k', phys := phys k'\<rparr>"

lemma frames_only_refl [simp]: "frames_only k k"
  by (simp add: frames_only_def)

lemma frames_only_trans: "frames_only k k' \<Longrightarrow> frames_only k' k'' \<Longrightarrow> frames_only k k''"
  by (cases k; cases k'; cases k'') (simp add: frames_only_def)

lemma frames_only_same:
  assumes "frames_only k k'"
  shows "page_directories k' = page_directories k" "kernel_page_directory k' = kernel_page_directory k"
    "processes k' = processes k" "active_process k' = active_process k" "loaded_directory k' = loaded_directory k"
    "directory k' = directory k" "kernel_dir k' = kernel_dir k" "current_pid k' = current_pid k" "fd_blocks k' = fd_blocks k"
proof -
  show "current_pid k' = current_pid k" "fd_blocks k' = fd_blocks k"
    using assms by (cases k; cases k'; simp add: frames_only_def)+
  show *: "page_directories k' = page_directories k" "kernel_page_directory k' = kernel_page_directory k"
    using assms by (cases k; cases k'; simp add: frames_only_def)+
  show "processes k' = processes k" "active_process k' = active_process k" "loaded_directory k' = loaded_directory k"
    using assms by (cases k; cases k'; simp add: frames_only_def)+
  show "directory k' = directory k" "kernel_dir k' = kernel_dir k"
    using * by (simp_all add: fun_eq_iff directory_def kernel_dir_def)
qed

text \<open>
  \<open>copied k k' src dst N\<close>: the entries \<open>N\<close> of table \<open>dst\<close> are user-mode copies of
  those of table \<open>src\<close>, each on a frame that \<open>k\<close> did not use, with the bytes of the
  original; nothing else changed.
\<close>

definition copied :: "Kernel \<Rightarrow> Kernel \<Rightarrow> u32 \<Rightarrow> u32 \<Rightarrow> nat set \<Rightarrow> bool" where
  "copied k k' src dst N \<longleftrightarrow>
     frames_only k k' \<and> frames_ok k' \<and>
     (\<forall>t j. t \<noteq> dst \<or> j \<notin> N \<longrightarrow> page_tables k' t j = page_tables k t j) \<and>
     (\<forall>j \<in> N. \<exists>f. entry_at k' (dst, j) = (entry_at k (src, j))\<lparr>frame_address_20_bits := f, user_mode := True\<rparr>) \<and>
     inj_on (\<lambda>j. slot_frame k' (dst, j)) N \<and>
     (\<forall>j \<in> N. slot_frame k' (dst, j) < 786432 \<and> \<not> bm_bit (available_frames k) (slot_frame k' (dst, j)) \<and>
        (\<forall>i < 4096. frame_bytes k' (slot_frame k' (dst, j)) i = frame_bytes k (slot_frame k (src, j)) i)) \<and>
     (\<forall>n. bm_bit (available_frames k') n \<longleftrightarrow> bm_bit (available_frames k) n \<or> n \<in> (\<lambda>j. slot_frame k' (dst, j)) ` N) \<and>
     (\<forall>f < 1048576. f \<notin> (\<lambda>j. slot_frame k' (dst, j)) ` N \<longrightarrow> (\<forall>i < 4096. frame_bytes k' f i = frame_bytes k f i)) \<and>
     free_frames k = free_frames k' + card N"

lemma copied_empty: "frames_ok k \<Longrightarrow> copied k k src dst {}"
  by (simp add: copied_def)

lemma slot_frame_less: "slot_frame k s < 1048576"
  using unsigned_less [of "frame_address_20_bits (entry_at k s)"] by (simp add: slot_frame_def)

lemma copied_rest:
  "copied k k' src dst N \<Longrightarrow> f < 1048576 \<Longrightarrow> f \<notin> (\<lambda>j. slot_frame k' (dst, j)) ` N \<Longrightarrow> i < 4096 \<Longrightarrow>
   frame_bytes k' f i = frame_bytes k f i"
  by (simp add: copied_def)

lemma copied_insert:
  assumes "copied k k1 src dst {j}" "copied k1 k' src dst N" "j \<notin> N" "src \<noteq> dst" "finite N"
    "\<forall>i \<in> N. bm_bit (available_frames k) (slot_frame k (src, i))"
  shows "copied k k' src dst (insert j N)"
proof -
  let ?f = "\<lambda>i. slot_frame k' (dst, i)"
  have e: "entry_at k' (dst, j) = entry_at k1 (dst, j)" "entry_at k1 (src, i) = entry_at k (src, i)" for i
    using assms(1-4) by (auto simp: copied_def entry_at_def)
  then have f: "?f j = slot_frame k1 (dst, j)" "slot_frame k1 (src, i) = slot_frame k (src, i)" for i
    by (simp_all add: slot_frame_def)
  have new: "?f i \<noteq> ?f j" "\<not> bm_bit (available_frames k) (?f i)" if "i \<in> N" for i
    using assms(1,2) that f(1) by (auto simp: copied_def)
  have used: "slot_frame k (src, i) \<noteq> ?f j" if "i \<in> N" for i
    using assms(1,6) that f(1) by (auto simp: copied_def)
  have bytes: "frame_bytes k' (?f i) b = frame_bytes k (slot_frame k (src, i)) b" if "i \<in> insert j N" "b < 4096" for i b
  proof (cases "i = j")
    case True
    have "?f j \<notin> ?f ` N"
    proof
      assume "?f j \<in> ?f ` N"
      then obtain i where "?f j = ?f i" "i \<in> N" by (rule imageE)
      then show False using new(1) [of i] by simp
    qed
    then have "frame_bytes k' (?f j) b = frame_bytes k1 (?f j) b"
      by (intro copied_rest [OF assms(2) slot_frame_less]) (use that(2) in simp_all)
    then show ?thesis using assms(1) that(2) True f(1) by (simp add: copied_def)
  next
    case False
    then have i: "i \<in> N" using that(1) by simp
    then have "frame_bytes k' (?f i) b = frame_bytes k1 (slot_frame k (src, i)) b"
      using assms(2) that(2) f(2) by (simp add: copied_def)
    also have "\<dots> = frame_bytes k (slot_frame k (src, i)) b"
      using assms(1) used [OF i] f(1) slot_frame_less [of k "(src, i)"] that(2) by (simp add: copied_def)
    finally show ?thesis .
  qed
  have rest: "frame_bytes k' g b = frame_bytes k g b" if "g < 1048576" "g \<notin> ?f ` insert j N" "b < 4096" for g b
    using assms(1,2) that f(1) by (simp add: copied_def)
  have "\<exists>g. entry_at k' (dst, i) = (entry_at k (src, i))\<lparr>frame_address_20_bits := g, user_mode := True\<rparr>"
    if "i \<in> insert j N" for i
    using assms(1,2) that e by (auto simp: copied_def)
  moreover have "inj_on ?f (insert j N)" using assms(2) new(1) by (auto simp: copied_def)
  moreover have "?f i < 786432 \<and> \<not> bm_bit (available_frames k) (?f i)" if "i \<in> insert j N" for i
    using assms(1,2) that f(1) new(2) by (auto simp: copied_def)
  moreover have "bm_bit (available_frames k') n \<longleftrightarrow> bm_bit (available_frames k) n \<or> n \<in> ?f ` insert j N" for n
    using assms(1,2) f(1) by (auto simp: copied_def)
  moreover have "frames_only k k'"
    using assms(1,2) frames_only_trans [of k k1 k'] by (simp add: copied_def)
  moreover have "page_tables k' t i = page_tables k t i" if "t \<noteq> dst \<or> i \<notin> insert j N" for t i
    using assms(1,2) that by (auto simp: copied_def)
  moreover have "free_frames k = free_frames k' + card (insert j N)" "frames_ok k'"
    using assms(1,2,3,5) by (simp_all add: copied_def)
  ultimately show ?thesis using bytes rest unfolding copied_def by (intro conjI ballI allI impI) simp_all
qed

lemma copy_one:
  assumes "frames_ok k" "free_frames k \<noteq> 0" "src \<noteq> dst" "present (page_tables k src j)"
    "bm_bit (available_frames k) (slot_frame k (src, j))"
  shows "\<exists>k1. copy_entries src dst (j # js) k = copy_entries src dst js k1 \<and> copied k k1 src dst {j}"
proof -
  let ?e = "page_tables k src j" and ?g = "slot_frame k (src, j)"
  obtain f bm where f: "bitmap_get_first_clear (available_frames k) = Inr (adr f)"
    "bitmap_set (available_frames k) (adr f) = Inr bm" "f < 786432" "\<not> bm_bit (available_frames k) f"
    "frames_ok (k\<lparr>available_frames := bm\<rparr>)" "\<forall>n. bm_bit bm n \<longleftrightarrow> n = f \<or> bm_bit (available_frames k) n"
    "free_frames k = Suc (free_frames (k\<lparr>available_frames := bm\<rparr>))"
    using take_frame [OF assms(1,2)] by blast
  let ?k0 = "(set_entry dst j ?e k)\<lparr>available_frames := bm\<rparr>"
  let ?src = "push_bit 12 (ucast (frame_address_20_bits ?e)) :: u32"
  let ?kc = "paging_copy_frame (adr f * 4096) ?src ?k0"
  let ?e' = "?e\<lparr>frame_address_20_bits := ucast (adr f), user_mode := True\<rparr>"
  let ?k1 = "set_entry dst j ?e' ?kc"
  have src: "?src = adr (?g * 4096)"
  proof (rule word_eq_unatI)
    have "unat (ucast (frame_address_20_bits ?e) :: u32) = ?g"
      using slot_frame_less [of k "(src, j)"] by (simp add: slot_frame_def entry_at_def unsigned_ucast_eq take_bit_nat_eq_self)
    then have "ucast (frame_address_20_bits ?e) = adr ?g"
      using slot_frame_less [of k "(src, j)"] by (intro word_eq_unatI) simp
    then show "unat ?src = unat (adr (?g * 4096))"
      by (simp add: push_bit_eq_mult adr_def)
  qed
  have "?g \<noteq> f" using f(4) assms(5) by auto
  then have bytes: "frame_bytes ?k1 h i = frame_bytes k (if h = f then ?g else h) i" if "h < 1048576" "i < 4096" for h i
    using copy_frame_bytes [of f ?g h i ?k0] f(3) slot_frame_less [of k "(src, j)"] that
    by (auto simp: src frame_bytes_def set_entry_def adr_times_page)
  have slot: "slot_frame ?k1 (dst, j) = f"
    using f(3) by (simp add: slot_frame_def entry_at_def set_entry_def paging_copy_frame_def unsigned_ucast_eq
        adr_def unat_of_nat32 take_bit_nat_eq_self)
  have "copied k ?k1 src dst {j}"
    unfolding copied_def
  proof (intro conjI ballI allI impI)
    show "frames_only k ?k1" by (cases k) (simp add: frames_only_def set_entry_def paging_copy_frame_def)
    show "frames_ok ?k1" using f(5) by (simp add: frames_ok_def set_entry_def paging_copy_frame_def)
    show "free_frames k = free_frames ?k1 + card {j}"
      using f(7) by (simp add: free_frames_def set_entry_def paging_copy_frame_def)
    show "bm_bit (available_frames ?k1) n \<longleftrightarrow> bm_bit (available_frames k) n \<or> n \<in> (\<lambda>j. slot_frame ?k1 (dst, j)) ` {j}" for n
      using f(6) slot by (auto simp: set_entry_def paging_copy_frame_def)
  qed (use f(3,4) slot bytes in \<open>auto simp: entry_at_def set_entry_def paging_copy_frame_def\<close>)
  moreover have "copy_entries src dst (j # js) k = copy_entries src dst js ?k1"
    using assms(3,4) f(1,2) by (simp add: Let_def) (simp add: set_entry_def paging_copy_frame_def)
  ultimately show ?thesis by blast
qed

definition present_in :: "Kernel \<Rightarrow> u32 \<Rightarrow> nat list \<Rightarrow> nat set" where
  "present_in k t js = {j \<in> set js. present (page_tables k t j)}"

lemma present_in_simps [simp]:
  "present_in k t [] = {}"
  "present_in k t (j # js) = (if present (page_tables k t j) then insert j (present_in k t js) else present_in k t js)"
  by (auto simp: present_in_def)

lemma finite_present_in [simp]: "finite (present_in k t js)"
  by (simp add: present_in_def)

lemma copy_entries_ok:
  assumes "distinct js" "src \<noteq> dst"
  shows "frames_ok k \<Longrightarrow> card (present_in k src js) \<le> free_frames k \<Longrightarrow>
    \<forall>j \<in> present_in k src js. bm_bit (available_frames k) (slot_frame k (src, j)) \<Longrightarrow>
    \<exists>k'. copy_entries src dst js k = Inr k' \<and> copied k k' src dst (present_in k src js)"
  using assms(1)
proof (induction js arbitrary: k)
  case Nil
  then show ?case by (simp add: copied_empty)
next
  case (Cons j js)
  show ?case
  proof (cases "present (page_tables k src j)")
    case False
    then show ?thesis using Cons by simp
  next
    case True
    have j: "j \<notin> present_in k src js" using Cons.prems(4) by (simp add: present_in_def)
    have free: "free_frames k \<noteq> 0" using Cons.prems(2) True j by simp
    obtain k1 where 1: "copy_entries src dst (j # js) k = copy_entries src dst js k1" "copied k k1 src dst {j}"
      using copy_one [OF Cons.prems(1) free assms(2) True] Cons.prems(3) True by auto
    have src: "page_tables k1 src = page_tables k src" using 1(2) assms(2) by (auto simp: copied_def)
    have p: "present_in k1 src js = present_in k src js" by (simp add: present_in_def src)
    have sf: "slot_frame k1 (src, i) = slot_frame k (src, i)" for i by (simp add: slot_frame_def entry_at_def src)
    have "frames_ok k1" "card (present_in k1 src js) \<le> free_frames k1"
      "\<forall>i \<in> present_in k1 src js. bm_bit (available_frames k1) (slot_frame k1 (src, i))"
      using 1(2) Cons.prems(2,3) True j by (simp_all add: copied_def p sf)
    then obtain k' where "copy_entries src dst js k1 = Inr k'" "copied k1 k' src dst (present_in k src js)"
      using Cons.IH [of k1] Cons.prems(4) p by auto
    moreover have "copied k k' src dst (insert j (present_in k src js))"
      using copied_insert [OF 1(2) _ j assms(2)] calculation(2) Cons.prems(3) True by simp
    ultimately show ?thesis using 1(1) True by simp
  qed
qed

section \<open>Changes outside the kernel's own tables\<close>

definition same_kernel :: "Kernel \<Rightarrow> Kernel \<Rightarrow> bool" where
  "same_kernel k k' \<longleftrightarrow> kernel_page_directory k' = kernel_page_directory k \<and> processes k' = processes k \<and>
     active_process k' = active_process k \<and> loaded_directory k' = loaded_directory k \<and>
     tables (kernel_dir k') = tables (kernel_dir k) \<and>
     (\<forall>i < 1024. tables (kernel_dir k) i \<noteq> 0 \<longrightarrow> page_tables k' (tables (kernel_dir k) i) = page_tables k (tables (kernel_dir k) i)) \<and>
     frames_ok k' \<and> (\<forall>f. bm_bit (available_frames k) f \<longrightarrow> bm_bit (available_frames k') f)"

lemma same_kernel_mapped:
  assumes "same_kernel k k'" "x < 1048576"
  shows "mapped k' x \<longleftrightarrow> mapped k x" "mapped k x \<Longrightarrow> frame_of k' x = frame_of k x"
proof -
  have "x div 1024 < 1024" using assms(2) by simp
  then show "mapped k' x \<longleftrightarrow> mapped k x" "mapped k x \<Longrightarrow> frame_of k' x = frame_of k x"
    using assms(1) by (auto simp: mapped_def frame_of_def same_kernel_def)
qed

lemma same_kernel_keeps: "same_kernel k k' \<Longrightarrow> keeps_pages k k'"
  using same_kernel_mapped by (simp add: keeps_pages_def)

lemma same_kernel_ready:
  assumes "same_kernel k k'" "kernel_ready n c k" "c + nulls k \<le> free_frames k'"
  shows "kernel_ready n c k'"
proof -
  note m = same_kernel_mapped [OF assms(1)]
  have p: "paging_ok k" and n: "n + c \<le> 262144" using assms(2) by (simp_all add: kernel_ready_def)
  have bits: "bm_bit (available_frames k') f" if "bm_bit (available_frames k) f" for f
    using assms(1) that by (simp add: same_kernel_def)
  have T: "tables (kernel_dir k') = tables (kernel_dir k)" using assms(1) by (simp add: same_kernel_def)
  have "x = y" if "x < 1048576" "y < 1048576" "mapped k x" "mapped k y" "frame_of k' x = frame_of k' y" for x y
    using paging_okD(6) [OF p that(1-4)] that m(2) by simp
  then have "paging_ok k'"
    using assms(1) p bits m unfolding paging_ok_def T same_kernel_def by auto
  moreover have "ring k' ps \<longleftrightarrow> ring k ps" for ps
    using assms(1) path_cong [of k' k] by (simp add: ring_def same_kernel_def)
  ultimately show ?thesis
    using assms(2,3) m(1) n by (auto simp: kernel_ready_def nulls_def T)
qed

definition tables_at :: "nat set \<Rightarrow> u32 \<Rightarrow> bool" where
  "tables_at B t \<longleftrightarrow> t \<in> adr ` B \<or> (\<exists>i < 1024. 256 \<le> i \<and> t = table_address i)"

text \<open>
  \<open>extended k k' B cl I\<close>: of the tables in the blocks \<open>B\<close> and the high kernel tables
  nothing changed, of the directories only the entries \<open>I\<close> of \<open>cl\<close> and the kernel's
  part of those that share it, and the bytes of the used frames are the same.
\<close>

definition extended :: "Kernel \<Rightarrow> Kernel \<Rightarrow> nat set \<Rightarrow> u32 \<Rightarrow> nat set \<Rightarrow> bool" where
  "extended k k' B cl I \<longleftrightarrow> kernel_page_directory k' = kernel_page_directory k \<and> processes k' = processes k \<and>
     active_process k' = active_process k \<and> loaded_directory k' = loaded_directory k \<and>
     current_pid k' = current_pid k \<and> fd_blocks k' = fd_blocks k \<and>
     (\<forall>t. tables_at B t \<longrightarrow> page_tables k' t = page_tables k t) \<and>
     (\<forall>pd i. (256 \<le> i \<or> \<not> shares_kernel k pd) \<longrightarrow> (pd \<noteq> cl \<or> i \<notin> I) \<longrightarrow>
        tables (directory k' pd) i = tables (directory k pd) i \<and>
        tables_x86_representation (directory k' pd) i = tables_x86_representation (directory k pd) i) \<and>
     (\<forall>f. bm_bit (available_frames k) f \<longrightarrow> bm_bit (available_frames k') f) \<and>
     (\<forall>f < 1048576. bm_bit (available_frames k) f \<longrightarrow> (\<forall>i < 4096. frame_bytes k' f i = frame_bytes k f i))"

lemma extended_shares: "extended k k' B cl I \<Longrightarrow> shares_kernel k' = shares_kernel k"
  by (simp add: extended_def shares_kernel_def reachable_def fun_eq_iff)

lemma extended_refl [simp]: "extended k k B cl I"
  by (simp add: extended_def)

lemma extended_trans:
  assumes "extended k k1 B cl I" "extended k1 k' B' cl J" "B \<subseteq> B'"
  shows "extended k k' B cl (I \<union> J)"
proof -
  have "tables_at B' t" if "tables_at B t" for t using that assms(3) by (auto simp: tables_at_def)
  then show ?thesis using assms(1,2) extended_shares [OF assms(1)] by (simp add: extended_def)
qed

lemma low_table_range: "i < 1024 \<Longrightarrow> 256 \<le> i \<Longrightarrow> \<not> low_table (table_address i)"
  by (auto simp: low_table_def table_address_inject)

lemma extended_dir:
  "extended k k' B cl I \<Longrightarrow> 256 \<le> i \<Longrightarrow> pd \<noteq> cl \<or> i \<notin> I \<Longrightarrow> tables (directory k' pd) i = tables (directory k pd) i"
  "extended k k' B cl I \<Longrightarrow> 256 \<le> i \<Longrightarrow> pd \<noteq> cl \<or> i \<notin> I \<Longrightarrow>
     tables_x86_representation (directory k' pd) i = tables_x86_representation (directory k pd) i"
  by (auto simp: extended_def)

lemma grown_extended:
  assumes "grown k k'" "\<And>b. b \<in> B \<Longrightarrow> \<not> low_table (adr b)"
  shows "extended k k' B cl I"
  using assms low_table_range by (auto simp: extended_def grown_def tables_at_def frame_bytes_def)

section \<open>Copying a table\<close>

lemma heap_page_address:
  assumes "q < 1073741824" "4096 dvd q" "mapped k (q div 4096)"
  shows "get_physical_address_of_virtual_address (kernel_page_directory k) (adr q) k = Inr (adr (frame_of k (q div 4096) * 4096))"
proof -
  let ?x = "q div 4096"
  have q: "q = ?x * 4096" using assms(2) by simp
  have x: "?x < 1048576" using assms(1) by simp
  have 1: "adr q div 4096 = adr ?x" "adr q mod 4096 = 0"
    using assms(1,2) by (auto intro!: word_eq_unatI simp: word_nat)
  let ?e = "page_tables k (tables (kernel_dir k) (?x div 1024)) (?x mod 1024)"
  have "ucast (frame_address_20_bits ?e) = adr (frame_of k ?x)"
    using slot_frame_less [of k "(tables (kernel_dir k) (?x div 1024), ?x mod 1024)"]
    by (intro word_eq_unatI) (simp add: frame_of_def slot_frame_def entry_at_def unsigned_ucast_eq take_bit_nat_eq_self)
  then show ?thesis
    using assms(3) adr_index [OF x] by (simp add: get_physical_address_of_virtual_address_def Let_def 1 kernel_dir_def
        mapped_def adr_times_page [symmetric])
qed

text \<open>The entries of a copied table: copies of the present ones, and empty ones.\<close>

definition table_copy :: "Kernel \<Rightarrow> Kernel \<Rightarrow> u32 \<Rightarrow> u32 \<Rightarrow> bool" where
  "table_copy k k' src dst \<longleftrightarrow> (\<forall>j < 1024. if present (entry_at k (src, j))
     then (\<exists>f. entry_at k' (dst, j) = (entry_at k (src, j))\<lparr>frame_address_20_bits := f, user_mode := True\<rparr>) \<and>
       (\<forall>i < 4096. frame_bytes k' (slot_frame k' (dst, j)) i = frame_bytes k (slot_frame k (src, j)) i)
     else entry_at k' (dst, j) = zero_entry)"

lemma table_copy_cong:
  assumes "table_copy k k' src dst" "\<And>j. j < 1024 \<Longrightarrow> entry_at l (src, j) = entry_at k (src, j)"
    "\<And>j n. j < 1024 \<Longrightarrow> n < 4096 \<Longrightarrow> present (entry_at k (src, j)) \<Longrightarrow>
       frame_bytes l (slot_frame k (src, j)) n = frame_bytes k (slot_frame k (src, j)) n"
    "\<And>j. j < 1024 \<Longrightarrow> entry_at l' (dst, j) = entry_at k' (dst, j)"
    "\<And>j n. j < 1024 \<Longrightarrow> n < 4096 \<Longrightarrow> present (entry_at k' (dst, j)) \<Longrightarrow>
       frame_bytes l' (slot_frame k' (dst, j)) n = frame_bytes k' (slot_frame k' (dst, j)) n"
  shows "table_copy l l' src dst"
  unfolding table_copy_def
proof (intro allI impI)
  fix j :: nat assume j: "j < 1024"
  have s: "slot_frame l (src, j) = slot_frame k (src, j)" "slot_frame l' (dst, j) = slot_frame k' (dst, j)"
    using assms(2,4) j by (simp_all add: slot_frame_def)
  show "if present (entry_at l (src, j))
     then (\<exists>f. entry_at l' (dst, j) = (entry_at l (src, j))\<lparr>frame_address_20_bits := f, user_mode := True\<rparr>) \<and>
       (\<forall>i < 4096. frame_bytes l' (slot_frame l' (dst, j)) i = frame_bytes l (slot_frame l (src, j)) i)
     else entry_at l' (dst, j) = zero_entry"
  proof (cases "present (entry_at k (src, j))")
    case True
    have c: "\<exists>f. entry_at k' (dst, j) = (entry_at k (src, j))\<lparr>frame_address_20_bits := f, user_mode := True\<rparr>"
      "\<And>i. i < 4096 \<Longrightarrow> frame_bytes k' (slot_frame k' (dst, j)) i = frame_bytes k (slot_frame k (src, j)) i"
      using assms(1) j True by (simp_all add: table_copy_def)
    have "present (entry_at k' (dst, j))" using c(1) True by auto
    then show ?thesis using True c(1) c(2) assms(2-5) j s by simp
  next
    case False
    then show ?thesis using assms(1,2,4) j by (simp add: table_copy_def)
  qed
qed

lemma owned_copied:
  assumes "owned k S" "copied k k' src dst N" "fst ` S \<subseteq> adr ` B" "dst \<notin> adr ` B" "\<not> low_table dst"
    "\<And>x. x < 1048576 \<Longrightarrow> mapped k x \<Longrightarrow> bm_bit (available_frames k) (frame_of k x)"
    "\<And>x. x < 1048576 \<Longrightarrow> mapped k' x \<Longrightarrow> mapped k x \<and> frame_of k' x = frame_of k x"
    "\<forall>j \<in> N. present (entry_at k (src, j))"
  shows "owned k' (S \<union> Pair dst ` N)"
proof -
  have ne: "fst s \<noteq> dst" if "s \<in> S" for s using that assms(3,4) by auto
  have e: "entry_at k' s = entry_at k s" if "s \<in> S" for s
    using assms(2) ne [OF that] by (simp add: copied_def entry_at_def)
  then have f: "slot_frame k' s = slot_frame k s" if "s \<in> S" for s using that by (simp add: slot_frame_def)
  have old: "bm_bit (available_frames k) (slot_frame k' s)" if "s \<in> S" for s
    using assms(1) that f by (simp add: owned_def)
  have new: "\<not> bm_bit (available_frames k) (slot_frame k' (dst, j))" "present (entry_at k' (dst, j))"
    "slot_frame k' (dst, j) < 786432" if "j \<in> N" for j
    using assms(2,8) that by (auto simp: copied_def)
  have bits: "bm_bit (available_frames k') n \<longleftrightarrow> bm_bit (available_frames k) n \<or> n \<in> (\<lambda>j. slot_frame k' (dst, j)) ` N" for n
    using assms(2) by (simp add: copied_def)
  have "inj_on (slot_frame k') S" using assms(1) f by (simp add: owned_def cong: inj_on_cong)
  moreover have "inj_on (slot_frame k') (Pair dst ` N)"
    using assms(2) by (auto simp: copied_def inj_on_def)
  moreover have "slot_frame k' ` S \<inter> slot_frame k' ` (Pair dst ` N) = {}"
  proof -
    have "slot_frame k' s \<noteq> slot_frame k' (dst, j)" if "s \<in> S" "j \<in> N" for s j
      using old [OF that(1)] new(1) [OF that(2)] by auto
    then show ?thesis by auto
  qed
  ultimately have "inj_on (slot_frame k') (S \<union> Pair dst ` N)"
    unfolding inj_on_Un by blast
  moreover have "frame_of k' x \<noteq> slot_frame k' s" if "x < 1048576" "mapped k' x" "s \<in> S \<union> Pair dst ` N" for x s
  proof (cases "s \<in> S")
    case True
    then show ?thesis using assms(1) assms(7) [OF that(1,2)] f [OF True] that(1) by (simp add: owned_def)
  next
    case False
    then have "s \<in> Pair dst ` N" using that(3) by simp
    then obtain j where "j \<in> N" "s = (dst, j)" by auto
    then show ?thesis using new(1) [of j] assms(6) [OF that(1)] assms(7) [OF that(1,2)] by auto
  qed
  ultimately show ?thesis
    using assms(1,5) e f new(2,3) unfolding owned_def by (auto simp: bits)
qed

lemma same_kernel_trans: "same_kernel k k' \<Longrightarrow> same_kernel k' k'' \<Longrightarrow> same_kernel k k''"
  by (auto simp: same_kernel_def)

text \<open>Writes to a block of the heap and to a directory that is not the kernel's.\<close>

lemma not_kernel_table:
  assumes "paging_ok k" "5308428 \<le> q" "q < 1073741824" "i < 1024" "tables (kernel_dir k) i \<noteq> 0"
  shows "tables (kernel_dir k) i \<noteq> adr q"
  using paging_okD(2) [OF assms(1,4,5)] assms(2-4) by (auto simp: table_address_adr adr_inject)

lemma same_kernel_clear_table:
  assumes "paging_ok k" "5308428 \<le> q" "q < 1073741824"
  shows "same_kernel k (clear_table (adr q) k)"
  using not_kernel_table [OF assms] paging_okD(1) [OF assms(1)] by (auto simp: same_kernel_def kernel_dir_def frames_ok_def store_defs)

lemma same_kernel_copied:
  assumes "paging_ok k" "5308428 \<le> q" "q < 1073741824" "copied k k' src (adr q) N"
  shows "same_kernel k k'"
  using not_kernel_table [OF assms(1-3)] assms(4) frames_only_same [of k k']
  by (auto simp: same_kernel_def copied_def fun_eq_iff)

lemma same_kernel_set:
  assumes "frames_ok k" "cl \<noteq> kernel_page_directory k"
  shows "same_kernel k (set_table cl i v k)" "same_kernel k (set_x86 cl i v k)"
  using assms by (auto simp: same_kernel_def kernel_dir_def frames_ok_def store_defs)

lemma adr_fresh:
  assumes "q \<notin> B" "q < 1073741824" "\<And>b. b \<in> B \<Longrightarrow> b < 1073741824"
  shows "adr q \<notin> adr ` B"
proof
  assume "adr q \<in> adr ` B"
  then obtain b where b: "adr q = adr b" "b \<in> B" by (rule imageE)
  then show False using adr_inject [of q b] assms(1,2) assms(3) [OF b(2)] by simp
qed

lemma tables_at_fresh:
  assumes "tables_at B t" "q \<notin> B" "5308428 \<le> q" "q < 1073741824" "\<forall>b \<in> B. b < 1073741824"
  shows "t \<noteq> adr q"
  using assms by (auto simp: tables_at_def adr_inject table_address_adr)

lemma extended_copied:
  assumes "copied k k' src (adr q) N" "q \<notin> B" "5308428 \<le> q" "q < 1073741824" "\<forall>b \<in> B. b < 1073741824"
  shows "extended k k' B cl I"
proof -
  have "t \<noteq> adr q" if "tables_at B t" for t
    by (rule tables_at_fresh [OF that assms(2-5)])
  moreover have "f \<notin> (\<lambda>j. slot_frame k' (adr q, j)) ` N" if "bm_bit (available_frames k) f" for f
    using assms(1) that by (auto simp: copied_def)
  ultimately show ?thesis
    using assms(1) frames_only_same [of k k'] by (auto simp: extended_def copied_def fun_eq_iff)
qed

lemma extended_clear_table:
  assumes "q \<notin> B" "5308428 \<le> q" "q < 1073741824" "\<forall>b \<in> B. b < 1073741824"
  shows "extended k (clear_table (adr q) k) B cl I"
proof -
  have "t \<noteq> adr q" if "tables_at B t" for t
    by (rule tables_at_fresh [OF that assms])
  then show ?thesis by (auto simp: extended_def frame_bytes_def store_defs)
qed

lemma extended_set: "i \<in> I \<Longrightarrow> extended k (set_table cl i v k) B cl I" "i \<in> I \<Longrightarrow> extended k (set_x86 cl i v k) B cl I"
  by (auto simp: extended_def frame_bytes_def store_defs)

lemma owned_cong:
  assumes "owned k S" "\<And>s. s \<in> S \<Longrightarrow> entry_at k' s = entry_at k s" "same_kernel k k'"
  shows "owned k' S"
proof -
  have f: "slot_frame k' s = slot_frame k s" if "s \<in> S" for s using assms(2) that by (simp add: slot_frame_def)
  moreover have "inj_on (slot_frame k') S" using assms(1) f by (simp add: owned_def cong: inj_on_cong)
  ultimately show ?thesis
    using assms same_kernel_mapped [OF assms(3)] by (auto simp: owned_def same_kernel_def)
qed

definition table_pages_of :: "Kernel \<Rightarrow> u32 \<Rightarrow> nat set" where
  "table_pages_of k t = present_in k t [0..<1024]"

text \<open>A table of the source: in place, and its pages on frames marked as used.\<close>

definition source_ok :: "nat set \<Rightarrow> Kernel \<Rightarrow> u32 \<Rightarrow> bool" where
  "source_ok B k t \<longleftrightarrow> tables_at B t \<and>
     (\<forall>j \<in> table_pages_of k t. bm_bit (available_frames k) (slot_frame k (t, j)))"

lemma extended_source:
  assumes "extended k k' B cl I" "B \<subseteq> B'" "tables_at B t"
  shows "page_tables k' t = page_tables k t" "table_pages_of k' t = table_pages_of k t"
    "slot_frame k' (t, j) = slot_frame k (t, j)" "source_ok B k t \<Longrightarrow> source_ok B' k' t"
proof -
  show *: "page_tables k' t = page_tables k t" using assms(1,3) by (simp add: extended_def)
  show p: "table_pages_of k' t = table_pages_of k t" by (simp add: table_pages_of_def present_in_def *)
  show "slot_frame k' (t, j) = slot_frame k (t, j)" for j by (simp add: slot_frame_def entry_at_def *)
  then show "source_ok B k t \<Longrightarrow> source_ok B' k' t"
    using assms(1,2) by (auto simp: source_ok_def tables_at_def p extended_def)
qed

lemma copied_table_copy:
  assumes "copied k k' src dst (table_pages_of k src)" "page_tables k dst = (\<lambda>j. zero_entry)"
  shows "table_copy k k' src dst"
  using assms by (auto simp: table_copy_def copied_def table_pages_of_def present_in_def entry_at_def)

lemma table_step:
  assumes m: "machine_ok bs S (c + 3) (d + card (table_pages_of (kern s) src)) (Suc j) s"
    and src: "src = tables (directory (kern s) pd) i" "src \<noteq> 0" "source_ok (blocks_at bs) (kern s) src"
    and i: "256 \<le> i" "i < 1024" and cl: "pd \<noteq> cl" "\<not> shares_kernel (kern s) cl"
  shows "\<exists>q s' bs'. copy_tables g pd cl (i # is) s = copy_tables g pd cl is s' \<and>
     machine_ok bs' (S \<union> Pair (adr q) ` table_pages_of (kern s) src) c d j s' \<and> q \<notin> blocks_at bs \<and>
     blocks_at bs' = insert q (blocks_at bs) \<and> 4096 dvd q \<and>
     keeps_pages (kern s) (kern s') \<and> extended (kern s) (kern s') (blocks_at bs) cl {i} \<and> table_copy (kern s) (kern s') src (adr q) \<and>
     tables (directory (kern s') cl) i = adr q \<and>
     tables_x86_representation (directory (kern s') cl) i = adr (frame_of (kern s') (q div 4096) * 4096) OR 7"
proof -
  let ?N = "table_pages_of (kern s) src" and ?B = "blocks_at bs"
  have al: "alignment_ok 4096" unfolding alignment_ok_def by (intro disjI2 exI [of _ 12]) simp
  obtain q s1 bs1 where 1: "m_alloc_aligned g (adr 4096) (adr 4096) s = Some (Inr (adr q, s1))"
    "machine_ok bs1 S c (d + card ?N) j s1" "4096 dvd q" "q \<notin> ?B" "blocks_at bs1 = insert q ?B"
    "grown (kern s) (kern s1)" "keeps_pages (kern s) (kern s1)"
    using machine_alloc [OF m al, of 4096 g] by auto
  let ?k1 = "kern s1"
  have qb: "q \<in> blocks_at bs1" using 1(5) by simp
  note q = heap_range [OF 1(2) qb]
  have old: "\<not> low_table (adr b)" "b < 1073741824" if "b \<in> ?B" for b
    using heap_range [OF m that] by simp_all
  have e1: "extended (kern s) ?k1 ?B cl {i}" by (rule grown_extended [OF 1(6) old(1)])
  have k1: "kernel_ready (heap_end bs1) c ?k1" "c + (d + card ?N) + nulls ?k1 \<le> free_frames ?k1" "owned ?k1 S"
    "\<forall>x. 1280 \<le> x \<and> x < heap_end bs1 \<longrightarrow> mapped ?k1 x"
    using 1(2) by (simp_all add: machine_ok_def space_ready_def)
  have p1: "paging_ok ?k1" and end1: "heap_end bs1 \<le> 262144" using k1(1) by (simp_all add: kernel_ready_def)
  have cl1: "cl \<noteq> kernel_page_directory ?k1" "kernel_page_directory ?k1 = kernel_page_directory (kern s)"
    using cl(2) grown_same(1) [OF 1(6)] by (auto simp: shares_kernel_def)
  let ?k2 = "clear_table (adr q) ?k1"
  have e2: "extended ?k1 ?k2 ?B cl {i}" by (rule extended_clear_table [OF 1(4) q(1,2)]) (use old in blast)
  have e12: "extended (kern s) ?k2 ?B cl {i}" using extended_trans [OF e1 e2] by simp
  have t: "tables_at ?B src" using src(3) by (simp add: source_ok_def)
  note src2 = extended_source [OF e12 _ t, of ?B]
  have ne: "src \<noteq> adr q"
    by (rule tables_at_fresh [OF t 1(4) q(1,2)]) (use old in blast)
  have p2: "frames_ok ?k2" using paging_okD(1) [OF p1] by (simp add: frames_ok_def)
  have "source_ok ?B ?k2 src" using src2(4) src(3) by simp
  then obtain k3 where 3: "copy_entries src (adr q) [0..<1024] ?k2 = Inr k3" "copied ?k2 k3 src (adr q) ?N"
    using copy_entries_ok [of "[0..<1024]" src "adr q" ?k2] ne p2 k1(2) src2(2)
    by (auto simp: source_ok_def table_pages_of_def free_frames_def)
  let ?k4 = "set_table cl i (adr q) k3"
  let ?x = "adr (frame_of ?k4 (q div 4096) * 4096) OR 7"
  let ?k5 = "set_x86 cl i ?x ?k4" and ?s = "with_kern s1 (set_x86 cl i (adr (frame_of (set_table cl i (adr q) k3) (q div 4096) * 4096) OR 7) (set_table cl i (adr q) k3))"
  have s2: "same_kernel ?k1 ?k2" by (rule same_kernel_clear_table [OF p1 q(1,2)])
  have "paging_ok ?k2" using same_kernel_ready [OF s2 k1(1)] k1(2) by (simp add: kernel_ready_def free_frames_def)
  then have s3: "same_kernel ?k1 k3" using same_kernel_trans [OF s2 same_kernel_copied [OF _ q(1,2) 3(2)]] by blast
  have f3: "frames_ok k3" "kernel_page_directory k3 = kernel_page_directory ?k1" using s3 by (simp_all add: same_kernel_def)
  have s4: "same_kernel ?k1 ?k4"
    by (rule same_kernel_trans [OF s3 same_kernel_set(1) [OF f3(1)]]) (use f3(2) cl1(1) in simp)
  have f4: "frames_ok ?k4" "kernel_page_directory ?k4 = kernel_page_directory ?k1" using s4 by (simp_all add: same_kernel_def)
  have s5: "same_kernel ?k1 ?k5"
    by (rule same_kernel_trans [OF s4 same_kernel_set(2) [OF f4(1)]]) (use f4(2) cl1(1) in simp)
  have page: "q div 4096 < 1048576" using q(2) by simp
  have "mapped ?k4 (q div 4096)" using same_kernel_mapped(1) [OF s4 page] q(5) by simp
  from heap_page_address [OF q(2) 1(3) this]
  have look: "get_physical_address_of_virtual_address (kernel_page_directory ?k4) (adr q) ?k4 =
      Inr (adr (frame_of ?k4 (q div 4096) * 4096))" .
  have dir1: "tables (directory ?k1 pd) i = src" using e1 src(1) i(1) cl(1) by (simp add: extended_def)
  have run: "copy_tables g pd cl (i # is) s = copy_tables g pd cl is ?s"
    using src(1,2) 1(1) 3(1) look dir1 by (simp add: adr_numeral Let_def)
  have S: "fst ` S \<subseteq> adr ` ?B" using m by (simp add: machine_ok_def)
  have qB: "adr q \<notin> adr ` ?B" by (rule adr_fresh [OF 1(4) q(2) old(2)])
  have own2: "owned ?k2 S"
  proof (rule owned_cong [OF k1(3) _ s2])
    fix x assume "x \<in> S"
    then have "fst x \<noteq> adr q" using S qB by (metis image_eqI subsetD)
    then show "entry_at ?k2 x = entry_at ?k1 x" by (simp add: entry_at_def)
  qed
  have own3: "owned k3 (S \<union> Pair (adr q) ` ?N)"
  proof (rule owned_copied [OF own2 3(2) S qB q(3)])
    show "bm_bit (available_frames ?k2) (frame_of ?k2 x)" if "x < 1048576" "mapped ?k2 x" for x
      using paging_okD(5) [OF p1 that(1)] same_kernel_mapped [OF s2 that(1)] that(2) by simp
    show "mapped ?k2 x \<and> frame_of k3 x = frame_of ?k2 x" if "x < 1048576" "mapped k3 x" for x
      using same_kernel_mapped [OF s3 that(1)] same_kernel_mapped [OF s2 that(1)] that(2) by simp
    show "\<forall>j \<in> ?N. present (entry_at ?k2 (src, j))"
    proof
      fix j assume "j \<in> ?N"
      then have "j \<in> table_pages_of ?k2 src" by (simp only: src2(2))
      then show "present (entry_at ?k2 (src, j))" by (simp only: table_pages_of_def present_in_def entry_at_def) simp
    qed
  qed
  have s35: "same_kernel k3 ?k5"
    using same_kernel_trans [OF same_kernel_set(1) [OF f3(1)] same_kernel_set(2) [OF f4(1)]] f3(2) f4(2) cl1(1) by simp
  have own5: "owned ?k5 (S \<union> Pair (adr q) ` ?N)"
    by (rule owned_cong [OF own3 _ s35]) (simp add: entry_at_def)
  have "free_frames ?k2 = free_frames ?k5 + card ?N" using 3(2) by (simp add: copied_def free_frames_def)
  then have free5: "c + d + nulls ?k1 \<le> free_frames ?k5" using k1(2) by (simp add: free_frames_def)
  have n5: "nulls ?k5 = nulls ?k1" using s5 by (simp add: nulls_def same_kernel_def)
  have map5: "\<forall>x. 1280 \<le> x \<and> x < heap_end bs1 \<longrightarrow> mapped ?k5 x"
    using k1(4) same_kernel_mapped(1) [OF s5] end1 by simp
  have "kernel_ready (heap_end bs1) c ?k5" using same_kernel_ready [OF s5 k1(1)] free5 by simp
  then have r5: "space_ready ?k5 (S \<union> Pair (adr q) ` ?N) d (heap_end bs1) c ?k5"
    using free5 n5 own5 map5 by (simp add: space_ready_def)
  have m5: "machine_ok bs1 (S \<union> Pair (adr q) ` ?N) c d j ?s"
    using 1(2,5) r5 S unfolding machine_ok_def by auto
  have e3: "extended ?k2 k3 ?B cl {i}" by (rule extended_copied [OF 3(2) 1(4) q(1,2)]) (use old in blast)
  have e5: "extended (kern s) ?k5 ?B cl {i}"
    using extended_trans [OF extended_trans [OF extended_trans [OF e12 e3 order_refl]
        extended_set(1) [where I = "{i}", OF singletonI] order_refl]
        extended_set(2) [where I = "{i}", OF singletonI] order_refl] by simp
  have c3: "table_copy ?k2 k3 src (adr q)" using copied_table_copy [of ?k2 k3 src "adr q"] 3(2) src2(2) by simp
  have c5: "table_copy (kern s) ?k5 src (adr q)"
  proof (rule table_copy_cong [OF c3])
    show "entry_at (kern s) (src, b) = entry_at ?k2 (src, b)" for b using src2(1) by (simp add: entry_at_def)
    show "entry_at ?k5 (adr q, b) = entry_at k3 (adr q, b)" for b by (simp add: entry_at_def)
    show "frame_bytes ?k5 (slot_frame k3 (adr q, b)) n = frame_bytes k3 (slot_frame k3 (adr q, b)) n" for b n
      by (simp add: frame_bytes_def store_defs)
    fix b n :: nat assume b: "b < 1024" "n < 4096" "present (entry_at ?k2 (src, b))"
    have "bm_bit (available_frames (kern s)) (slot_frame (kern s) (src, b))"
      using src(3) b(1,3) src2(1) by (simp add: source_ok_def table_pages_of_def present_in_def entry_at_def)
    then show "frame_bytes (kern s) (slot_frame ?k2 (src, b)) n = frame_bytes ?k2 (slot_frame ?k2 (src, b)) n"
      using e12 b(2) slot_frame_less [of "kern s" "(src, b)"] src2(3) by (simp add: extended_def)
  qed
  have d5: "tables (directory ?k5 cl) i = adr q" "tables_x86_representation (directory ?k5 cl) i = ?x"
    by simp (simp add: store_defs)
  have f45: "frame_of ?k5 (q div 4096) = frame_of ?k4 (q div 4096)"
    using same_kernel_mapped(2) [OF s5 page] same_kernel_mapped(2) [OF s4 page] q(5) by simp
  have "keeps_pages (kern s) ?k5" by (rule keeps_pages_trans [OF 1(7) same_kernel_keeps [OF s5]])
  then show ?thesis
    using run m5 1(3-5) e5 c5 d5 f45 by (intro exI [of _ q] exI [of _ ?s] exI [of _ bs1]) simp
qed

section \<open>Copying the tables of a directory\<close>

lemma table_copy_later:
  assumes "table_copy k k1 src dst" "extended k1 k2 B cl I" "tables_at B dst"
    "\<And>j. j \<in> table_pages_of k1 dst \<Longrightarrow> bm_bit (available_frames k1) (slot_frame k1 (dst, j))"
  shows "table_copy k k2 src dst"
proof (rule table_copy_cong [OF assms(1)])
  note e = extended_source(1) [OF assms(2) order_refl assms(3)]
  show "entry_at k2 (dst, j) = entry_at k1 (dst, j)" for j by (simp add: entry_at_def e)
  fix j n :: nat assume j: "j < 1024" "n < 4096" "present (entry_at k1 (dst, j))"
  then have "bm_bit (available_frames k1) (slot_frame k1 (dst, j))"
    using assms(4) by (simp add: table_pages_of_def present_in_def entry_at_def)
  then show "frame_bytes k2 (slot_frame k1 (dst, j)) n = frame_bytes k1 (slot_frame k1 (dst, j)) n"
    using assms(2) j(2) slot_frame_less [of k1 "(dst, j)"] by (simp add: extended_def)
qed simp_all

lemma table_copy_earlier:
  assumes "table_copy k1 k2 src dst" "extended k k1 B cl I" "source_ok B k src"
  shows "table_copy k k2 src dst"
proof (rule table_copy_cong [OF assms(1)])
  have t: "tables_at B src" using assms(3) by (simp add: source_ok_def)
  note e = extended_source [OF assms(2) order_refl t]
  show "entry_at k (src, j) = entry_at k1 (src, j)" for j by (simp add: entry_at_def e(1))
  fix j n :: nat assume j: "j < 1024" "n < 4096" "present (entry_at k1 (src, j))"
  then have "bm_bit (available_frames k) (slot_frame k (src, j))"
    using assms(3) e(1) by (simp add: source_ok_def table_pages_of_def present_in_def entry_at_def)
  then show "frame_bytes k (slot_frame k1 (src, j)) n = frame_bytes k1 (slot_frame k1 (src, j)) n"
    using assms(2) j(2) e(3) slot_frame_less [of k "(src, j)"] by (simp add: extended_def)
qed simp_all

lemma table_copy_pages: "table_copy k k' src dst \<Longrightarrow> table_pages_of k' dst = table_pages_of k src"
  unfolding table_copy_def table_pages_of_def present_in_def
  by (auto simp: entry_at_def zero_entry_def split: if_splits)

definition dir_tables :: "Kernel \<Rightarrow> u32 \<Rightarrow> nat list \<Rightarrow> nat list" where
  "dir_tables k pd is = filter (\<lambda>i. tables (directory k pd) i \<noteq> 0) is"

definition dir_pages :: "Kernel \<Rightarrow> u32 \<Rightarrow> nat list \<Rightarrow> nat" where
  "dir_pages k pd is = sum_list (map (\<lambda>i. card (table_pages_of k (tables (directory k pd) i))) (dir_tables k pd is))"

definition dir_slots :: "Kernel \<Rightarrow> u32 \<Rightarrow> nat set \<Rightarrow> slot set" where
  "dir_slots k pd I = (\<Union>i \<in> {i \<in> I. tables (directory k pd) i \<noteq> 0}.
     Pair (tables (directory k pd) i) ` table_pages_of k (tables (directory k pd) i))"

text \<open>Entry \<open>i\<close> of the new directory: none, or a copy of the table in a page of its own.\<close>

definition entry_copy :: "Kernel \<Rightarrow> Kernel \<Rightarrow> u32 \<Rightarrow> u32 \<Rightarrow> nat \<Rightarrow> bool" where
  "entry_copy k k' src cl i \<longleftrightarrow> (if src = 0 then tables (directory k' cl) i = 0
     else \<exists>q. q < 1073741824 \<and> 4096 dvd q \<and> mapped k' (q div 4096) \<and> tables (directory k' cl) i = adr q \<and> adr q \<noteq> 0 \<and>
       tables_x86_representation (directory k' cl) i = adr (frame_of k' (q div 4096) * 4096) OR 7 \<and>
       table_copy k k' src (adr q))"

lemma copy_tables_ok:
  assumes "distinct is" "\<forall>i \<in> set is. 256 \<le> i \<and> i < 1024" "pd \<noteq> cl"
    "machine_ok bs S (c + 3 * length (dir_tables (kern s) pd is)) (d + dir_pages (kern s) pd is)
       (j + length (dir_tables (kern s) pd is)) s"
    "\<not> shares_kernel (kern s) cl" "\<forall>i \<in> set is. tables (directory (kern s) cl) i = 0"
    "\<forall>i \<in> set is. tables (directory (kern s) pd) i \<noteq> 0 \<longrightarrow>
       source_ok (blocks_at bs) (kern s) (tables (directory (kern s) pd) i)"
  shows "\<exists>s' bs'. copy_tables g pd cl is s = Some (Inr s') \<and>
    machine_ok bs' (S \<union> dir_slots (kern s') cl (set is)) c d j s' \<and> blocks_at bs \<subseteq> blocks_at bs' \<and>
    extended (kern s) (kern s') (blocks_at bs) cl (set is) \<and> keeps_pages (kern s) (kern s') \<and>
    (\<forall>i \<in> set is. entry_copy (kern s) (kern s') (tables (directory (kern s) pd) i) cl i) \<and>
    (\<forall>i \<in> set is. tables (directory (kern s') cl) i \<noteq> 0 \<longrightarrow>
       tables (directory (kern s') cl) i \<in> adr ` (blocks_at bs' - blocks_at bs)) \<and>
    inj_on (tables (directory (kern s') cl)) (set (dir_tables (kern s) pd is))"
  using assms
proof (induction "is" arbitrary: s bs S)
  case Nil
  then show ?case by (auto simp: dir_tables_def dir_pages_def dir_slots_def)
next
  case (Cons i "is")
  let ?k = "kern s" and ?B = "blocks_at bs"
  let ?src = "tables (directory ?k pd) i"
  have i: "256 \<le> i" "i < 1024" "i \<notin> set is" using Cons.prems(1,2) by auto
  show ?case
  proof (cases "?src = 0")
    case True
    then have "dir_tables ?k pd (i # is) = dir_tables ?k pd is" "dir_pages ?k pd (i # is) = dir_pages ?k pd is"
      by (simp_all add: dir_tables_def dir_pages_def)
    then obtain s' bs' where 1: "copy_tables g pd cl is s = Some (Inr s')"
      "machine_ok bs' (S \<union> dir_slots (kern s') cl (set is)) c d j s'" "?B \<subseteq> blocks_at bs'"
      "extended ?k (kern s') ?B cl (set is)" "keeps_pages ?k (kern s')"
      "\<forall>i \<in> set is. entry_copy ?k (kern s') (tables (directory ?k pd) i) cl i"
      "\<forall>i \<in> set is. tables (directory (kern s') cl) i \<noteq> 0 \<longrightarrow> tables (directory (kern s') cl) i \<in> adr ` (blocks_at bs' - ?B)"
      "inj_on (tables (directory (kern s') cl)) (set (dir_tables ?k pd is))"
      using Cons.IH [of bs S s] Cons.prems by auto
    have z: "tables (directory (kern s') cl) i = 0"
      using extended_dir(1) [OF 1(4) i(1)] i(3) Cons.prems(6) by simp
    then have "dir_slots (kern s') cl (set (i # is)) = dir_slots (kern s') cl (set is)" by (auto simp: dir_slots_def)
    moreover have "extended ?k (kern s') ?B cl (set (i # is))" using extended_trans [OF 1(4) extended_refl [where I = "{i}"] order_refl] by simp
    ultimately show ?thesis
      using 1 True z by (intro exI [of _ s'] exI [of _ bs']) (auto simp: entry_copy_def dir_tables_def)
  next
    case False
    define n where "n = length (dir_tables ?k pd is)"
    define p where "p = dir_pages ?k pd is"
    let ?N = "table_pages_of ?k ?src"
    have src: "source_ok ?B ?k ?src" using Cons.prems(7) False by simp
    have "machine_ok bs S ((c + 3 * n) + 3) ((d + p) + card ?N) (Suc (j + n)) s"
      using Cons.prems(4) False by (simp add: dir_tables_def dir_pages_def n_def p_def add_ac)
    from table_step [OF this refl False src i(1,2) Cons.prems(3,5), of g "is"]
    obtain q s1 bs1 where 1: "copy_tables g pd cl (i # is) s = copy_tables g pd cl is s1"
      "machine_ok bs1 (S \<union> Pair (adr q) ` ?N) (c + 3 * n) (d + p) (j + n) s1" "q \<notin> ?B"
      "blocks_at bs1 = insert q ?B" "4096 dvd q" "keeps_pages ?k (kern s1)" "extended ?k (kern s1) ?B cl {i}"
      "table_copy ?k (kern s1) ?src (adr q)" "tables (directory (kern s1) cl) i = adr q"
      "tables_x86_representation (directory (kern s1) cl) i = adr (frame_of (kern s1) (q div 4096) * 4096) OR 7"
      by blast
    let ?k1 = "kern s1"
    have sub: "?B \<subseteq> blocks_at bs1" using 1(4) by auto
    have T: "tables (directory ?k1 pd) l = tables (directory ?k pd) l" if "l \<in> set is" for l
      using extended_dir(1) [OF 1(7)] Cons.prems(2,3) that by simp
    have src': "source_ok ?B ?k (tables (directory ?k pd) l)" if "l \<in> set is" "tables (directory ?k pd) l \<noteq> 0" for l
      using Cons.prems(7) that by simp
    have P: "table_pages_of ?k1 (tables (directory ?k pd) l) = table_pages_of ?k (tables (directory ?k pd) l)"
      if "l \<in> set is" "tables (directory ?k pd) l \<noteq> 0" for l
      using extended_source(2) [OF 1(7) order_refl] src' [OF that] by (simp add: source_ok_def)
    have dt: "dir_tables ?k1 pd is = dir_tables ?k pd is" unfolding dir_tables_def by (rule filter_cong) (simp_all add: T)
    have "map (\<lambda>l. card (table_pages_of ?k1 (tables (directory ?k1 pd) l))) (dir_tables ?k pd is) =
        map (\<lambda>l. card (table_pages_of ?k (tables (directory ?k pd) l))) (dir_tables ?k pd is)"
      by (rule map_cong) (auto simp: dir_tables_def T P)
    then have dp: "dir_pages ?k1 pd is = p" unfolding dir_pages_def dt p_def by (rule arg_cong)
    have "\<forall>l \<in> set is. tables (directory ?k1 pd) l \<noteq> 0 \<longrightarrow> source_ok (blocks_at bs1) ?k1 (tables (directory ?k1 pd) l)"
      using extended_source(4) [OF 1(7) sub] src' by (auto simp: T source_ok_def)
    moreover have "tables (directory ?k1 cl) l = 0" if "l \<in> set is" for l
    proof -
      have "256 \<le> l" "l \<noteq> i" using that Cons.prems(2) i(3) by auto
      then show ?thesis using extended_dir(1) [OF 1(7)] Cons.prems(6) that by simp
    qed
    moreover have "\<not> shares_kernel ?k1 cl" using Cons.prems(5) extended_shares [OF 1(7)] by simp
    ultimately obtain s' bs' where 2: "copy_tables g pd cl is s1 = Some (Inr s')"
      "machine_ok bs' (S \<union> Pair (adr q) ` ?N \<union> dir_slots (kern s') cl (set is)) c d j s'" "blocks_at bs1 \<subseteq> blocks_at bs'"
      "extended ?k1 (kern s') (blocks_at bs1) cl (set is)" "keeps_pages ?k1 (kern s')"
      "\<forall>l \<in> set is. entry_copy ?k1 (kern s') (tables (directory ?k1 pd) l) cl l"
      "\<forall>l \<in> set is. tables (directory (kern s') cl) l \<noteq> 0 \<longrightarrow>
         tables (directory (kern s') cl) l \<in> adr ` (blocks_at bs' - blocks_at bs1)"
      "inj_on (tables (directory (kern s') cl)) (set (dir_tables ?k pd is))"
      using Cons.IH [of bs1 "S \<union> Pair (adr q) ` ?N" s1] Cons.prems(1-3) 1(2) dt dp by (simp add: n_def) blast
    let ?k' = "kern s'"
    have qb: "q \<in> blocks_at bs1" using 1(4) by simp
    note qr = heap_range [OF 1(2) qb]
    have Ti: "tables (directory ?k' cl) i = adr q"
      "tables_x86_representation (directory ?k' cl) i = tables_x86_representation (directory ?k1 cl) i"
      using extended_dir [OF 2(4) i(1)] i(3) 1(9) by simp_all
    have at: "tables_at (blocks_at bs1) (adr q)" using qb by (simp add: tables_at_def)
    have pages: "table_pages_of ?k1 (adr q) = ?N" by (rule table_copy_pages [OF 1(8)])
    have own: "owned ?k1 (S \<union> Pair (adr q) ` ?N)" using 1(2) by (simp add: machine_ok_def space_ready_def)
    have later: "table_copy ?k ?k' ?src (adr q)"
      by (rule table_copy_later [OF 1(8) 2(4) at]) (use own in \<open>auto simp: pages owned_def\<close>)
    have pages': "table_pages_of ?k' (adr q) = ?N" by (rule table_copy_pages [OF later])
    have fr: "mapped ?k' (q div 4096)" "frame_of ?k' (q div 4096) = frame_of ?k1 (q div 4096)"
      using 2(5) qr(2,5) by (simp_all add: keeps_pages_def)
    have first: "entry_copy ?k ?k' ?src cl i"
      using False Ti 1(5,10) qr(2,4) later fr unfolding entry_copy_def by auto
    have rest: "entry_copy ?k ?k' (tables (directory ?k pd) l) cl l" if "l \<in> set is" for l
    proof -
      have c: "entry_copy ?k1 ?k' (tables (directory ?k pd) l) cl l" using 2(6) that T by simp
      show ?thesis
      proof (cases "tables (directory ?k pd) l = 0")
        case z: False
        have "table_copy ?k ?k' (tables (directory ?k pd) l) t"
          if "table_copy ?k1 ?k' (tables (directory ?k pd) l) t" for t
          by (rule table_copy_earlier [OF that 1(7) src' [OF \<open>l \<in> set is\<close> z]])
        then show ?thesis using c z by (auto simp: entry_copy_def)
      qed (use c in \<open>simp add: entry_copy_def\<close>)
    qed
    have slots: "dir_slots ?k' cl (set (i # is)) = Pair (adr q) ` ?N \<union> dir_slots ?k' cl (set is)"
      using Ti(1) qr(4) pages' by (auto simp: dir_slots_def)
    have m: "machine_ok bs' (S \<union> dir_slots ?k' cl (set (i # is))) c d j s'" using 2(2) unfolding slots Un_assoc .
    have q': "adr q \<noteq> tables (directory ?k' cl) l" if l: "l \<in> set (dir_tables ?k pd is)" for l
    proof
      assume a: "adr q = tables (directory ?k' cl) l"
      have "l \<in> set is" using l by (simp add: dir_tables_def)
      then have "adr q \<in> adr ` (blocks_at bs' - blocks_at bs1)" using 2(7) a qr(4) by metis
      then obtain b where b: "adr q = adr b" "b \<in> blocks_at bs'" "b \<notin> blocks_at bs1" by blast
      have "b < 1073741824" using heap_range(2) [OF 2(2) b(2)] .
      then show False using b qb adr_inject [of q b] qr(2) by auto
    qed
    have inj: "inj_on (tables (directory ?k' cl)) (set (dir_tables ?k pd (i # is)))"
      using 2(8) q' Ti(1) by (auto simp: dir_tables_def)
    have "extended ?k ?k' ?B cl (set (i # is))" using extended_trans [OF 1(7) 2(4) sub] by simp
    moreover have "keeps_pages ?k ?k'" by (rule keeps_pages_trans [OF 1(6) 2(5)])
    moreover have "?B \<subseteq> blocks_at bs'" using sub 2(3) by (rule subset_trans)
    moreover have "tables (directory ?k' cl) l \<in> adr ` (blocks_at bs' - ?B)"
      if "l \<in> set (i # is)" "tables (directory ?k' cl) l \<noteq> 0" for l
    proof (cases "l = i")
      case True
      have "q \<in> blocks_at bs' - ?B" using 1(3) qb 2(3) by (simp only: Diff_iff subsetD) simp
      then show ?thesis using Ti(1) True by (metis imageI)
    next
      case False
      then have "tables (directory ?k' cl) l \<in> adr ` (blocks_at bs' - blocks_at bs1)" using 2(7) that by simp
      moreover have "adr ` (blocks_at bs' - blocks_at bs1) \<subseteq> adr ` (blocks_at bs' - ?B)" 
        by (rule image_mono [OF Diff_mono [OF order_refl sub]])
      ultimately show ?thesis by (rule rev_subsetD)
    qed
    ultimately show ?thesis
      using 1(1) 2(1) m first rest inj by (intro exI [of _ s'] exI [of _ bs']) simp
  qed
qed

section \<open>Cloning a directory\<close>

definition dirs_ok :: "nat set \<Rightarrow> Kernel \<Rightarrow> bool" where
  "dirs_ok B k \<longleftrightarrow> (\<forall>pd. shares_kernel k pd \<longrightarrow> pd \<in> adr ` B \<or> unat pd < heap_start)"

lemma link_tables_fields [simp]:
  "page_tables (link_tables pd cl is k) = page_tables k" "kernel_page_directory (link_tables pd cl is k) = kernel_page_directory k"
  "processes (link_tables pd cl is k) = processes k" "active_process (link_tables pd cl is k) = active_process k"
  "available_frames (link_tables pd cl is k) = available_frames k" "phys (link_tables pd cl is k) = phys k"
  "loaded_directory (link_tables pd cl is k) = loaded_directory k" "current_pid (link_tables pd cl is k) = current_pid k"
  "fd_blocks (link_tables pd cl is k) = fd_blocks k"
  by (induction "is" arbitrary: k; simp add: store_defs)+

lemma link_tables_dir:
  assumes "pd \<noteq> cl"
  shows "tables (directory (link_tables pd cl is k) cl) i =
      (if i \<in> set is \<and> tables (directory k pd) i \<noteq> 0 then tables (directory k pd) i else tables (directory k cl) i)"
    "tables_x86_representation (directory (link_tables pd cl is k) cl) i =
      (if i \<in> set is \<and> tables (directory k pd) i \<noteq> 0 then tables_x86_representation (directory k pd) i
       else tables_x86_representation (directory k cl) i)"
    "pd' \<noteq> cl \<Longrightarrow> directory (link_tables pd cl is k) pd' = directory k pd'"
  using assms by (induction "is" arbitrary: k; auto simp: store_defs)+

lemma same_kernel_link:
  assumes "frames_ok k" "pd \<noteq> cl" "cl \<noteq> kernel_page_directory k"
  shows "same_kernel k (link_tables pd cl is k)"
  using assms link_tables_dir(3) [of pd cl "kernel_page_directory k" "is" k]
  by (simp add: same_kernel_def kernel_dir_def frames_ok_def)

lemma same_kernel_clear_directory:
  assumes "frames_ok k" "cl \<noteq> kernel_page_directory k"
  shows "same_kernel k (clear_directory cl k)"
  using assms by (simp add: same_kernel_def kernel_dir_def frames_ok_def clear_directory_def directory_def)

lemma extended_link: "pd \<noteq> cl \<Longrightarrow> extended k (link_tables pd cl is k) B cl UNIV"
  using link_tables_dir(3) [of pd cl _ "is" k] by (auto simp: extended_def frame_bytes_def)

lemma extended_clear_directory: "extended k (clear_directory cl k) B cl UNIV"
  by (auto simp: extended_def frame_bytes_def clear_directory_def directory_def)

text \<open>A change of the paging state that leaves the heap's pages and the owned frames alone.\<close>

lemma machine_ok_same_kernel:
  assumes "machine_ok bs S c d j s" "same_kernel (kern s) k'" "\<And>x. x \<in> S \<Longrightarrow> entry_at k' x = entry_at (kern s) x"
    "free_frames k' = free_frames (kern s)"
  shows "machine_ok bs S c d j (with_kern s k')"
proof -
  have r: "space_ready (kern s) S d (heap_end bs) c (kern s)" using assms(1) by (simp add: machine_ok_def)
  then have kr: "kernel_ready (heap_end bs) c (kern s)" "c + d + nulls (kern s) \<le> free_frames (kern s)" "owned (kern s) S"
    "\<forall>x. 1280 \<le> x \<and> x < heap_end bs \<longrightarrow> mapped (kern s) x"
    by (simp_all add: space_ready_def)
  have e: "heap_end bs \<le> 262144" using kr(1) by (simp add: kernel_ready_def)
  have n: "nulls k' = nulls (kern s)" using assms(2) by (simp add: nulls_def same_kernel_def)
  have "kernel_ready (heap_end bs) c k'" using same_kernel_ready [OF assms(2) kr(1)] kr(2) assms(4) by simp
  moreover have "owned k' S" by (rule owned_cong [OF kr(3) assms(3,2)])
  moreover have "mapped k' x" if "1280 \<le> x" "x < heap_end bs" for x
    using same_kernel_mapped(1) [OF assms(2), of x] kr(4) that e by simp
  ultimately show ?thesis using assms(1,4) kr(2) n by (simp add: machine_ok_def space_ready_def)
qed

lemma extended_mono: "extended k k' B cl I \<Longrightarrow> I \<subseteq> J \<Longrightarrow> extended k k' B cl J"
  unfolding extended_def by (meson subsetD)

lemma entry_copy_cong:
  assumes "entry_copy k k' src cl i" "keeps_pages k' k''" "page_tables k'' = page_tables k'" "phys k'' = phys k'"
    "tables (directory k'' cl) i = tables (directory k' cl) i"
    "tables_x86_representation (directory k'' cl) i = tables_x86_representation (directory k' cl) i"
  shows "entry_copy k k'' src cl i"
proof (cases "src = 0")
  case False
  then obtain q where q: "q < 1073741824" "4096 dvd q" "mapped k' (q div 4096)" "tables (directory k' cl) i = adr q" "adr q \<noteq> 0"
    "tables_x86_representation (directory k' cl) i = adr (frame_of k' (q div 4096) * 4096) OR 7" "table_copy k k' src (adr q)"
    using assms(1) by (auto simp: entry_copy_def)
  have "q div 4096 < 1048576" using q(1) by simp
  then have "mapped k'' (q div 4096)" "frame_of k'' (q div 4096) = frame_of k' (q div 4096)"
    using assms(2) q(3) by (simp_all add: keeps_pages_def)
  moreover have "table_copy k k'' src (adr q)"
    by (rule table_copy_cong [OF q(7)]) (simp_all add: entry_at_def frame_bytes_def assms(3,4))
  ultimately show ?thesis using q False assms(5,6) unfolding entry_copy_def by auto
qed (use assms in \<open>simp add: entry_copy_def\<close>)

definition high :: "nat list" where "high = [256..<1024]"

lemma high_facts [simp]: "l \<in> set high \<longleftrightarrow> 256 \<le> l \<and> l < 1024" "distinct high"
  by (simp_all only: high_def set_upt atLeastLessThan_iff distinct_upt)

lemma clone_ok:
  assumes m: "machine_ok bs S (c + 3 * length (dir_tables (kern s) pd high) + 4) (d + dir_pages (kern s) pd high)
      (Suc (j + length (dir_tables (kern s) pd high))) s"
    and dirs: "dirs_ok (blocks_at bs) (kern s)" "shares_kernel (kern s) pd"
    and src: "\<forall>i \<in> set high. tables (directory (kern s) pd) i \<noteq> 0 \<longrightarrow>
       source_ok (blocks_at bs) (kern s) (tables (directory (kern s) pd) i)"
  shows "\<exists>q s' bs'. paging_clone_page_directory_for_new_process g pd s = Some (Inr (adr q, s')) \<and>
    machine_ok bs' (S \<union> dir_slots (kern s') (adr q) (set high)) c d j s' \<and>
    4096 dvd q \<and> q \<notin> blocks_at bs \<and> q \<in> blocks_at bs' \<and> blocks_at bs \<subseteq> blocks_at bs' \<and>
    extended (kern s) (kern s') (blocks_at bs) (adr q) UNIV \<and> keeps_pages (kern s) (kern s') \<and>
    (\<forall>i < 256. tables (directory (kern s') (adr q)) i = tables (directory (kern s') pd) i) \<and>
    (\<forall>i < 256. tables (directory (kern s') pd) i \<noteq> 0 \<longrightarrow>
       tables_x86_representation (directory (kern s') (adr q)) i = tables_x86_representation (directory (kern s') pd) i) \<and>
    (\<forall>i \<in> set high. entry_copy (kern s) (kern s') (tables (directory (kern s) pd) i) (adr q) i) \<and>
    (\<forall>i \<in> set high. tables (directory (kern s') (adr q)) i \<noteq> 0 \<longrightarrow>
       tables (directory (kern s') (adr q)) i \<in> adr ` (blocks_at bs' - insert q (blocks_at bs)))"
proof -
  let ?k = "kern s" and ?B = "blocks_at bs"
  define n where "n = length (dir_tables ?k pd high)"
  define p where "p = dir_pages ?k pd high"
  have al: "alignment_ok 4096" unfolding alignment_ok_def by (intro disjI2 exI [of _ 12]) simp
  obtain q s1 bs1 where 1: "m_alloc_aligned g (adr 8192) (adr 4096) s = Some (Inr (adr q, s1))"
    "machine_ok bs1 S (c + 3 * n) (d + p) (j + n) s1" "4096 dvd q" "q \<notin> ?B" "blocks_at bs1 = insert q ?B"
    "grown ?k (kern s1)" "keeps_pages ?k (kern s1)"
    using machine_alloc [OF m al, of 8192 g] by (auto simp: n_def p_def)
  let ?cl = "adr q" and ?k1 = "kern s1"
  have qb: "q \<in> blocks_at bs1" and sub: "?B \<subseteq> blocks_at bs1" using 1(5) by auto
  note q = heap_range [OF 1(2) qb]
  have old: "\<not> low_table (adr b)" "b < 1073741824" if "b \<in> ?B" for b
    using heap_range [OF m that] by simp_all
  have ns: "\<not> shares_kernel ?k ?cl"
  proof
    assume "shares_kernel ?k ?cl"
    then have "adr q \<in> adr ` ?B \<or> unat (adr q) < heap_start" using dirs(1) unfolding dirs_ok_def by blast
    then show False using adr_fresh [OF 1(4) q(2) old(2)] q(1,2) by auto
  qed
  have pd: "pd \<noteq> ?cl" using ns dirs(2) by auto
  have kpd: "?cl \<noteq> kernel_page_directory ?k1" using ns grown_same(1) [OF 1(6)] by (auto simp: shares_kernel_def)
  have p1: "frames_ok ?k1" using 1(2) by (simp add: machine_ok_def space_ready_def kernel_ready_def paging_ok_def)
  let ?k2 = "clear_directory ?cl ?k1" and ?s2 = "with_kern s1 (clear_directory (adr q) (kern s1))"
  have s2: "same_kernel ?k1 ?k2" by (rule same_kernel_clear_directory [OF p1 kpd])
  have m2: "machine_ok bs1 S (c + 3 * n) (d + p) (j + n) ?s2"
    by (rule machine_ok_same_kernel [OF 1(2) s2]) (simp_all add: entry_at_def clear_directory_def free_frames_def)
  have e1: "extended ?k ?k1 ?B ?cl UNIV" by (rule grown_extended [OF 1(6) old(1)])
  have e2: "extended ?k ?k2 ?B ?cl UNIV"
    using extended_trans [OF e1 extended_clear_directory order_refl] by simp
  have T: "tables (directory ?k2 pd) l = tables (directory ?k pd) l" if "l \<in> set high" for l
    using extended_dir(1) [OF e2] pd that by simp
  have P: "table_pages_of ?k2 (tables (directory ?k pd) l) = table_pages_of ?k (tables (directory ?k pd) l)"
    if "l \<in> set high" "tables (directory ?k pd) l \<noteq> 0" for l
    using extended_source(2) [OF e2 order_refl] src that by (simp add: source_ok_def)
  have dt: "dir_tables ?k2 pd high = dir_tables ?k pd high" unfolding dir_tables_def by (rule filter_cong) (simp_all add: T)
  have "map (\<lambda>l. card (table_pages_of ?k2 (tables (directory ?k2 pd) l))) (dir_tables ?k pd high) =
      map (\<lambda>l. card (table_pages_of ?k (tables (directory ?k pd) l))) (dir_tables ?k pd high)"
    by (rule map_cong) (auto simp: dir_tables_def T P)
  then have dp: "dir_pages ?k2 pd high = p" unfolding dir_pages_def dt p_def by (rule arg_cong)
  have ns2: "\<not> shares_kernel ?k2 ?cl" using ns extended_shares [OF e2] by simp
  have z2: "tables (directory ?k2 ?cl) l = 0" for l
    by (simp add: clear_directory_def directory_def zero_directory_def)
  have src2: "\<forall>l \<in> set high. tables (directory ?k2 pd) l \<noteq> 0 \<longrightarrow> source_ok (blocks_at bs1) ?k2 (tables (directory ?k2 pd) l)"
    using extended_source(4) [OF e2 sub] src by (auto simp: T source_ok_def)
  obtain s3 bs' where 3: "copy_tables g pd ?cl high ?s2 = Some (Inr s3)"
    "machine_ok bs' (S \<union> dir_slots (kern s3) ?cl (set high)) c d j s3" "blocks_at bs1 \<subseteq> blocks_at bs'"
    "extended ?k2 (kern s3) (blocks_at bs1) ?cl (set high)" "keeps_pages ?k2 (kern s3)"
    "\<forall>l \<in> set high. entry_copy ?k2 (kern s3) (tables (directory ?k2 pd) l) ?cl l"
    "\<forall>l \<in> set high. tables (directory (kern s3) ?cl) l \<noteq> 0 \<longrightarrow> tables (directory (kern s3) ?cl) l \<in> adr ` (blocks_at bs' - blocks_at bs1)"
    using copy_tables_ok [of high pd ?cl bs1 S c ?s2 d j g] m2 pd ns2 z2 src2 by (auto simp: dt dp n_def)
  let ?k3 = "kern s3"
  let ?k' = "link_tables pd ?cl [0..<256] ?k3" and ?s' = "with_kern s3 (link_tables pd (adr q) [0..<256] (kern s3))"
  have p3: "frames_ok ?k3" using 3(2) by (simp add: machine_ok_def space_ready_def kernel_ready_def paging_ok_def)
  have kpd3: "?cl \<noteq> kernel_page_directory ?k3" using 3(4) s2 kpd by (simp add: extended_def same_kernel_def)
  have s': "same_kernel ?k3 ?k'" by (rule same_kernel_link [OF p3 pd kpd3])
  have dir: "tables (directory ?k' ?cl) l = tables (directory ?k3 ?cl) l"
    "tables_x86_representation (directory ?k' ?cl) l = tables_x86_representation (directory ?k3 ?cl) l" if "l \<in> set high" for l
    unfolding link_tables_dir(1,2) [OF pd] using that by auto
  have slots: "dir_slots ?k' ?cl (set high) = dir_slots ?k3 ?cl (set high)"
    unfolding dir_slots_def using dir(1) by (auto simp: table_pages_of_def present_in_def)
  have m': "machine_ok bs' (S \<union> dir_slots ?k' ?cl (set high)) c d j ?s'"
    unfolding slots by (rule machine_ok_same_kernel [OF 3(2) s']) (simp_all add: entry_at_def free_frames_def)
  have e': "extended ?k ?k' ?B ?cl UNIV"
    using extended_trans [OF extended_trans [OF e2 extended_mono [OF 3(4) subset_UNIV] sub] extended_link [OF pd] order_refl] by simp
  have keep: "keeps_pages ?k ?k'"
    by (intro keeps_pages_trans [OF 1(7)] keeps_pages_trans [OF same_kernel_keeps [OF s2]] keeps_pages_trans [OF 3(5)]
        same_kernel_keeps [OF s'])
  have low: "tables (directory ?k3 ?cl) l = 0" if "l < 256" for l
    using 3(4) ns2 z2 that by (simp add: extended_def)
  have copy: "entry_copy ?k ?k' (tables (directory ?k pd) l) ?cl l" if l: "l \<in> set high" for l
  proof -
    have "entry_copy ?k2 ?k3 (tables (directory ?k pd) l) ?cl l" using 3(6) l T by simp
    moreover have "table_copy ?k ?k3 (tables (directory ?k pd) l) t"
      if "table_copy ?k2 ?k3 (tables (directory ?k pd) l) t" "tables (directory ?k pd) l \<noteq> 0" for t
      by (rule table_copy_earlier [OF that(1) e2]) (use src l that(2) in simp)
    ultimately have "entry_copy ?k ?k3 (tables (directory ?k pd) l) ?cl l" by (auto simp: entry_copy_def split: if_splits)
    then show ?thesis by (rule entry_copy_cong [OF _ same_kernel_keeps [OF s']]) (simp_all add: dir [OF l])
  qed
  have run: "paging_clone_page_directory_for_new_process g pd s = Some (Inr (adr q, ?s'))"
    using 1(1) 3(1) by (simp add: paging_clone_page_directory_for_new_process_def adr_numeral high_def)
  have "q \<in> blocks_at bs'" "?B \<subseteq> blocks_at bs'" using qb 3(3) sub by blast+
  moreover have "tables (directory ?k' ?cl) l = tables (directory ?k' pd) l" if "l < 256" for l
    using link_tables_dir [OF pd] pd that low by simp
  moreover have "tables_x86_representation (directory ?k' ?cl) l = tables_x86_representation (directory ?k' pd) l"
    if "l < 256" "tables (directory ?k' pd) l \<noteq> 0" for l
    using link_tables_dir [OF pd] pd that by simp
  moreover have "tables (directory ?k' ?cl) l \<in> adr ` (blocks_at bs' - insert q ?B)"
    if "l \<in> set high" "tables (directory ?k' ?cl) l \<noteq> 0" for l
    using 3(7) that dir(1) 1(5) by simp
  ultimately show ?thesis
    using run m' 1(3,4) e' keep copy by (intro exI [of _ q] exI [of _ ?s'] exI [of _ bs']) simp
qed

end
