(* ===== verification/Process_Memory.thy ===== *)
theory Process_Memory
  imports Address_Space_Correct Kernel_Memory
begin

text \<open>
  Releasing and extending the address space of a process, and the properties of
  process memory: a clone reads like its original, and no process sees what another
  writes.
\<close>

section \<open>Releasing the entries of a table\<close>

definition stack_page :: "nat \<Rightarrow> nat \<Rightarrow> bool" where
  "stack_page i j \<longleftrightarrow> is_page_part_of_kernel_stack_in_process_address_space (of_nat (i * 1024 + j))"

text \<open>\<open>cleaned k k' t N\<close>: the entries \<open>N\<close> of table \<open>t\<close> are empty and their frames free.\<close>

definition cleaned :: "Kernel \<Rightarrow> Kernel \<Rightarrow> u32 \<Rightarrow> nat set \<Rightarrow> bool" where
  "cleaned k k' t N \<longleftrightarrow> frames_only k k' \<and> phys k' = phys k \<and> frames_ok k' \<and>
     (\<forall>u j. page_tables k' u j = (if u = t \<and> j \<in> N then zero_entry else page_tables k u j)) \<and>
     (\<forall>n. bm_bit (available_frames k') n \<longleftrightarrow> bm_bit (available_frames k) n \<and> n \<notin> (\<lambda>j. slot_frame k (t, j)) ` N) \<and>
     free_frames k' = free_frames k + card N"

lemma cleaned_empty: "frames_ok k \<Longrightarrow> cleaned k k t {}"
  by (simp add: cleaned_def)

lemma clean_one:
  assumes "frames_ok k" "slot_frame k (t, j) < 786432" "bm_bit (available_frames k) (slot_frame k (t, j))"
  shows "\<exists>bm. bitmap_get (available_frames k) (ucast (frame_address_20_bits (page_tables k t j))) = Inr 1 \<and>
    bitmap_clear (available_frames k) (ucast (frame_address_20_bits (page_tables k t j))) = Inr bm \<and>
    cleaned k (set_entry t j zero_entry (k\<lparr>available_frames := bm\<rparr>)) t {j}"
proof -
  let ?f = "slot_frame k (t, j)" and ?bm = "available_frames k"
  let ?w = "ucast (frame_address_20_bits (page_tables k t j)) :: u32"
  have w: "unat ?w = ?f"
    using slot_frame_less [of k "(t, j)"] by (simp add: slot_frame_def entry_at_def unsigned_ucast_eq take_bit_nat_eq_self)
  have wf: "bm_wf ?bm" "bm_count ?bm = 786432" using assms(1) by (simp_all add: frames_ok_def)
  obtain bm where bm: "bitmap_clear ?bm ?w = Inr bm" "bm_wf bm" "bm_count bm = bm_count ?bm"
    "\<And>n. bm_bit bm n \<longleftrightarrow> n \<noteq> unat ?w \<and> bm_bit ?bm n"
    using bitmap_clear_ok [of ?bm ?w] wf assms(2) w by auto
  have "{f. f < 786432 \<and> \<not> bm_bit bm f} = insert ?f {f. f < 786432 \<and> \<not> bm_bit ?bm f}"
    using assms(2,3) bm(4) w by auto
  then have "free_frames (k\<lparr>available_frames := bm\<rparr>) = Suc (free_frames k)"
    using assms(3) by (simp add: free_frames_def)
  then have "cleaned k (set_entry t j zero_entry (k\<lparr>available_frames := bm\<rparr>)) t {j}"
    using bm(2-4) wf w unfolding cleaned_def
    by (cases k) (auto simp: frames_only_def set_entry_def frames_ok_def free_frames_def)
  moreover have "bitmap_get ?bm ?w = Inr 1" using bitmap_get_ok [of ?bm ?w] wf assms(2,3) w by simp
  ultimately show ?thesis using bm(1) by blast
qed

lemma cleaned_insert:
  assumes "cleaned k k1 t {j}" "cleaned k1 k' t N" "j \<notin> N" "finite N"
  shows "cleaned k k' t (insert j N)"
proof -
  have "slot_frame k1 (t, i) = slot_frame k (t, i)" if "i \<in> N" for i
    using assms(1,3) that by (auto simp: cleaned_def slot_frame_def entry_at_def)
  then have "(\<lambda>i. slot_frame k1 (t, i)) ` N = (\<lambda>i. slot_frame k (t, i)) ` N" by (rule image_cong [OF refl])
  then show ?thesis
    using assms frames_only_trans [of k k1 k'] by (auto simp: cleaned_def)
qed

definition released :: "Kernel \<Rightarrow> u32 \<Rightarrow> nat \<Rightarrow> nat list \<Rightarrow> nat set" where
  "released k t i js = {j \<in> present_in k t js. \<not> stack_page i j}"

lemma clean_entries_ok:
  assumes "distinct js"
  shows "frames_ok k \<Longrightarrow> inj_on (\<lambda>j. slot_frame k (t, j)) (present_in k t js) \<Longrightarrow>
    \<forall>j \<in> present_in k t js. slot_frame k (t, j) < 786432 \<and> bm_bit (available_frames k) (slot_frame k (t, j)) \<Longrightarrow>
    \<exists>k'. clean_entries t i js b k = Inr (b \<and> (\<forall>j \<in> present_in k t js. \<not> stack_page i j), k') \<and>
      cleaned k k' t (released k t i js)"
  using assms
proof (induction js arbitrary: k b)
  case Nil
  then show ?case by (simp add: cleaned_empty released_def)
next
  case (Cons j js)
  show ?case
  proof (cases "present (page_tables k t j)")
    case False
    then show ?thesis using Cons by (simp add: released_def)
  next
    case True
    have jn: "j \<notin> present_in k t js" using Cons.prems(4) by (simp add: present_in_def)
    obtain bm where 1: "bitmap_get (available_frames k) (ucast (frame_address_20_bits (page_tables k t j))) = Inr 1"
      "bitmap_clear (available_frames k) (ucast (frame_address_20_bits (page_tables k t j))) = Inr bm"
      "cleaned k (set_entry t j zero_entry (k\<lparr>available_frames := bm\<rparr>)) t {j}"
      using clean_one [OF Cons.prems(1), of t j] Cons.prems(3) True by auto
    show ?thesis
    proof (cases "stack_page i j")
      case stack: True
      obtain k' where "clean_entries t i js False k = Inr (False, k')" "cleaned k k' t (released k t i js)"
        using Cons.IH [of k False] Cons.prems True by (auto simp: inj_on_def)
      moreover have "released k t i (j # js) = released k t i js" using stack by (auto simp: released_def)
      ultimately show ?thesis using True stack 1(1) by (auto simp: stack_page_def Let_def)
    next
      case page: False
      let ?k1 = "set_entry t j zero_entry (k\<lparr>available_frames := bm\<rparr>)"
      have e: "page_tables ?k1 t l = page_tables k t l" if "l \<in> set js" for l
        using that Cons.prems(4) by auto
      have p: "present_in ?k1 t js = present_in k t js" using Cons.prems(4) by (auto simp: present_in_def)
      have f: "slot_frame ?k1 (t, l) = slot_frame k (t, l)" if "l \<in> present_in k t js" for l
        using e that by (simp add: slot_frame_def entry_at_def present_in_def)
      have ne: "slot_frame k (t, l) \<noteq> slot_frame k (t, j)" if "l \<in> present_in k t js" for l
        using Cons.prems(2) True that jn by (auto simp: inj_on_def)
      have "frames_ok ?k1" using 1(3) by (simp add: cleaned_def)
      moreover have "inj_on (\<lambda>j. slot_frame ?k1 (t, j)) (present_in ?k1 t js)"
        using Cons.prems(2) True f by (simp add: p inj_on_def)
      moreover have "\<forall>j \<in> present_in ?k1 t js. slot_frame ?k1 (t, j) < 786432 \<and> bm_bit (available_frames ?k1) (slot_frame ?k1 (t, j))"
        using 1(3) Cons.prems(3) True f ne by (auto simp: p cleaned_def)
      ultimately obtain k' where 2: "clean_entries t i js b ?k1 = Inr (b \<and> (\<forall>j \<in> present_in k t js. \<not> stack_page i j), k')"
        "cleaned ?k1 k' t (released ?k1 t i js)"
        using Cons.IH [of ?k1 b] Cons.prems(4) by (auto simp: p)
      have r: "released ?k1 t i js = released k t i js" by (simp add: released_def p)
      have "released k t i (j # js) = insert j (released k t i js)" using True page by (auto simp: released_def)
      moreover have "cleaned k k' t (insert j (released k t i js))"
        using cleaned_insert [OF 1(3)] 2(2) jn by (simp add: r) (simp add: released_def)
      moreover have "clean_entries t i (j # js) b k = clean_entries t i js b ?k1"
        using True page 1(1,2) by (simp add: stack_page_def Let_def)
      ultimately show ?thesis using 2(1) True page by auto
    qed
  qed
qed

section \<open>Releasing a directory\<close>

lemma machine_free:
  assumes "machine_ok bs S c d (Suc j) s" "q \<in> blocks_at bs" "q \<noteq> 5308428" "adr q \<notin> fst ` S"
  shows "\<exists>s' bs'. m_free g (adr q) s = Inr s' \<and> kern s' = kern s \<and> machine_ok bs' S c d j s' \<and>
    blocks_at bs' = blocks_at bs - {q}"
proof -
  obtain n where n: "(n, q) \<in> used_blocks heap_start bs" using assms(2) by auto
  have h: "heap_ok (heap s) (ram s) heap_start bs" "avl_spare (avl (heap s)) \<noteq> 0" "Suc j \<le> avl_spare (avl (heap s))"
    using assms(1) by (simp_all add: machine_ok_def)
  obtain t m' bs' where 1: "kalloc_heap_free g (heap s) (adr q) (ram s) = Inr ((heap s)\<lparr>avl := t\<rparr>, m')"
    "heap_ok ((heap s)\<lparr>avl := t\<rparr>) m' heap_start bs'" "used_blocks heap_start bs' = used_blocks heap_start bs - {(n, q)}"
    "ext bs' = ext bs" "avl_spare (avl (heap s)) \<le> Suc (avl_spare t)"
    using heap_free_step [OF h(1) n h(2), of g] by blast
  have b: "blocks_at bs' = blocks_at bs - {q}"
  proof (rule set_eqI)
    fix p
    have "p \<in> blocks_at bs' \<longleftrightarrow> (\<exists>m. (m, p) \<in> used_blocks heap_start bs \<and> (m, p) \<noteq> (n, q))"
      unfolding 1(3) by force
    also have "\<dots> \<longleftrightarrow> (\<exists>m. (m, p) \<in> used_blocks heap_start bs) \<and> p \<noteq> q" using used_unique [OF n] by auto
    finally show "p \<in> blocks_at bs' \<longleftrightarrow> p \<in> blocks_at bs - {q}" by force
  qed
  have S: "fst ` S \<subseteq> adr ` blocks_at bs" and a: "anchored heap_start bs" using assms(1) by (simp_all only: machine_ok_def)
  have "fst ` S \<subseteq> adr ` blocks_at bs'"
  proof
    fix x assume x: "x \<in> fst ` S"
    then obtain p where p: "x = adr p" "p \<in> blocks_at bs" using S by blast
    have "p \<noteq> q" using x assms(4) p(1) by metis
    then have "p \<in> blocks_at bs'" unfolding b using p(2) by simp
    then show "x \<in> adr ` blocks_at bs'" unfolding p(1) by (rule imageI)
  qed
  moreover have "anchored heap_start bs'"
  proof -
    have e: "heap_start + 12 = (5308428::nat)" by simp
    have "5308428 \<in> blocks_at bs" using a unfolding anchored_def e .
    then have "5308428 \<in> blocks_at bs'" unfolding b using assms(3) by blast
    then show ?thesis unfolding anchored_def e .
  qed
  ultimately have "machine_ok bs' S c d j (s\<lparr>heap := (heap s)\<lparr>avl := t\<rparr>, ram := m'\<rparr>)"
    using assms(1) 1(2,4,5) h(3) by (simp add: machine_ok_def)
  then show ?thesis
    using 1(1) b by (intro exI [of _ "s\<lparr>heap := (heap s)\<lparr>avl := t\<rparr>, ram := m'\<rparr>"] exI [of _ bs'])
      (simp add: m_free_def kalloc_free_def)
qed

lemma machine_ok_released:
  assumes "machine_ok bs S c d j s" "S' \<subseteq> S" "\<And>x. x \<in> S' \<Longrightarrow> entry_at k' x = entry_at (kern s) x"
    "\<And>x. x \<in> S' \<Longrightarrow> bm_bit (available_frames k') (slot_frame (kern s) x)"
    "\<And>x. x < 1048576 \<Longrightarrow> mapped (kern s) x \<Longrightarrow> bm_bit (available_frames k') (frame_of (kern s) x)"
    "kernel_page_directory k' = kernel_page_directory (kern s)" "processes k' = processes (kern s)"
    "active_process k' = active_process (kern s)" "tables (kernel_dir k') = tables (kernel_dir (kern s))"
    "\<And>i. i < 1024 \<Longrightarrow> tables (kernel_dir (kern s)) i \<noteq> 0 \<Longrightarrow>
       page_tables k' (tables (kernel_dir (kern s)) i) = page_tables (kern s) (tables (kernel_dir (kern s)) i)"
    "frames_ok k'" "free_frames k' = free_frames (kern s) + e"
  shows "machine_ok bs S' c (d + e) j (with_kern s k')"
proof -
  let ?k = "kern s"
  have r: "kernel_ready (heap_end bs) c ?k" "c + d + nulls ?k \<le> free_frames ?k" "owned ?k S"
    "\<forall>x. 1280 \<le> x \<and> x < heap_end bs \<longrightarrow> mapped ?k x"
    using assms(1) by (simp_all add: machine_ok_def space_ready_def)
  have p: "paging_ok ?k" and n: "heap_end bs + c \<le> 262144" using r(1) by (simp_all add: kernel_ready_def)
  have m: "mapped k' x \<longleftrightarrow> mapped ?k x" "mapped ?k x \<Longrightarrow> frame_of k' x = frame_of ?k x" if "x < 1048576" for x
  proof -
    have "x div 1024 < 1024" using that by simp
    then show "mapped k' x \<longleftrightarrow> mapped ?k x" "mapped ?k x \<Longrightarrow> frame_of k' x = frame_of ?k x"
      using assms(9,10) by (auto simp: mapped_def frame_of_def)
  qed
  have "x = y" if "x < 1048576" "y < 1048576" "mapped ?k x" "mapped ?k y" "frame_of k' x = frame_of k' y" for x y
    using paging_okD(6) [OF p that(1-4)] that m(2) by simp
  then have "paging_ok k'" using p assms(5,11) m unfolding paging_ok_def assms(9) by auto
  moreover have "ring k' ps \<longleftrightarrow> ring ?k ps" for ps using assms(7,8) path_cong [of k' ?k] by (simp add: ring_def)
  moreover have nl: "nulls k' = nulls ?k" by (simp add: nulls_def assms(9))
  ultimately have "kernel_ready (heap_end bs) c k'"
    using r(1) m(1) n assms(12) by (auto simp: kernel_ready_def assms(9))
  moreover have "owned k' S'"
  proof -
    have f: "slot_frame k' x = slot_frame ?k x" if "x \<in> S'" for x using assms(3) [OF that] by (simp add: slot_frame_def)
    have o: "owned ?k S'" by (rule owned_subset [OF r(3) assms(2)])
    then have "inj_on (slot_frame k') S'" using f by (simp add: owned_def cong: inj_on_cong)
    then show ?thesis using o f assms(3,4) m by (auto simp: owned_def)
  qed
  moreover have "mapped k' x" if "1280 \<le> x" "x < heap_end bs" for x using r(4) that n m(1) by simp
  moreover have "fst ` S' \<subseteq> adr ` blocks_at bs" using assms(1,2) unfolding machine_ok_def by blast
  ultimately show ?thesis
    using assms(1,12) r(2) nl by (simp add: machine_ok_def space_ready_def)
qed

section \<open>A new page of a process\<close>

lemma machine_ok_less: "machine_ok bs S (c + c') d (j + j') s \<Longrightarrow> machine_ok bs S c d j s"
  using space_ready_less [of "kern s" S d "heap_end bs" c c' "kern s"] by (simp add: machine_ok_def)

lemma machine_ok_taken:
  assumes "machine_ok bs S c (d + e) j s" "same_kernel (kern s) k'" "owned k' S'" "fst ` S' \<subseteq> adr ` blocks_at bs"
    "free_frames (kern s) = free_frames k' + e"
  shows "machine_ok bs S' c d j (with_kern s k')"
proof -
  have r: "space_ready (kern s) S (d + e) (heap_end bs) c (kern s)" using assms(1) by (simp add: machine_ok_def)
  then have kr: "kernel_ready (heap_end bs) c (kern s)" "c + (d + e) + nulls (kern s) \<le> free_frames (kern s)"
    "\<forall>x. 1280 \<le> x \<and> x < heap_end bs \<longrightarrow> mapped (kern s) x"
    by (simp_all add: space_ready_def)
  have h: "heap_end bs \<le> 262144" using kr(1) by (simp add: kernel_ready_def)
  have n: "nulls k' = nulls (kern s)" using assms(2) by (simp add: nulls_def same_kernel_def)
  have "kernel_ready (heap_end bs) c k'" using same_kernel_ready [OF assms(2) kr(1)] kr(2) assms(5) by simp
  moreover have "mapped k' x" if "1280 \<le> x" "x < heap_end bs" for x
    using same_kernel_mapped(1) [OF assms(2), of x] kr(3) that h by simp
  ultimately show ?thesis using assms(1,3-5) kr(2) n by (simp add: machine_ok_def space_ready_def)
qed

lemma process_table_ok:
  assumes m: "machine_ok bs S (c + 3) d (Suc j) s" and pd: "pd \<noteq> kernel_page_directory (kern s)"
    and T: "tables (directory (kern s) pd) i = 0 \<or> tables (directory (kern s) pd) i \<in> adr ` blocks_at bs"
    and i: "256 \<le> i"
  shows "\<exists>s' bs' T. process_table g pd i s = Some (Inr s') \<and> machine_ok bs' S c d j s' \<and>
    tables (directory (kern s') pd) i = T \<and> T \<in> adr ` blocks_at bs' \<and> blocks_at bs \<subseteq> blocks_at bs' \<and>
    extended (kern s) (kern s') (blocks_at bs) pd {i} \<and> keeps_pages (kern s) (kern s') \<and>
    (if tables (directory (kern s) pd) i = 0
     then T \<notin> adr ` blocks_at bs \<and> page_tables (kern s') T = (\<lambda>j. zero_entry)
     else s' = s)"
proof (cases "tables (directory (kern s) pd) i = 0")
  case False
  have "machine_ok bs S c d j s" using machine_ok_less [of bs S c 3 d j 1 s] m by simp
  then show ?thesis using False T by (intro exI [of _ s] exI [of _ bs]) (simp add: process_table_def)
next
  case True
  let ?B = "blocks_at bs"
  have al: "alignment_ok 4096" unfolding alignment_ok_def by (intro disjI2 exI [of _ 12]) simp
  obtain q s1 bs1 where 1: "m_alloc_aligned g (adr 4096) (adr 4096) s = Some (Inr (adr q, s1))"
    "machine_ok bs1 S c d j s1" "4096 dvd q" "q \<notin> ?B" "blocks_at bs1 = insert q ?B"
    "grown (kern s) (kern s1)" "keeps_pages (kern s) (kern s1)"
    using machine_alloc [OF m al, of 4096 g] by auto
  let ?k1 = "kern s1"
  have qb: "q \<in> blocks_at bs1" using 1(5) by simp
  note q = heap_range [OF 1(2) qb]
  have old: "\<not> low_table (adr b)" "b < 1073741824" if "b \<in> ?B" for b
    using heap_range [OF m that] by simp_all
  have e1: "extended (kern s) ?k1 ?B pd {i}" by (rule grown_extended [OF 1(6) old(1)])
  have p1: "paging_ok ?k1" using 1(2) by (simp add: machine_ok_def space_ready_def kernel_ready_def)
  have pd1: "pd \<noteq> kernel_page_directory ?k1" using pd grown_same(1) [OF 1(6)] by simp
  let ?k2 = "clear_table (adr q) ?k1"
  have e2: "extended ?k1 ?k2 ?B pd {i}" by (rule extended_clear_table [OF 1(4) q(1,2)]) (use old in blast)
  have s2: "same_kernel ?k1 ?k2" by (rule same_kernel_clear_table [OF p1 q(1,2)])
  have page: "q div 4096 < 1048576" using q(2) by simp
  have a: "adr q div 4096 * 4096 = adr q"
    using q(2) 1(3) by (intro word_eq_unatI) (simp add: word_nat)
  let ?a = "adr (frame_of ?k1 (q div 4096) * 4096)"
  have look: "paging_get_page_frame_address (kernel_page_directory ?k2) (adr q div 4096) ?k2 = Inr ?a"
    using heap_page_address [OF q(2) 1(3), of ?k2] same_kernel_mapped [OF s2 page] q(5)
    by (simp add: paging_get_page_frame_address_def a)
  let ?k3 = "set_table pd i (adr q) ?k2"
  let ?k4 = "set_x86 pd i (?a OR 7) ?k3"
  let ?k5 = "clear_table (adr q) ?k4"
  have f2: "frames_ok ?k2" using s2 by (simp add: same_kernel_def)
  have s3: "same_kernel ?k2 ?k3" by (rule same_kernel_set(1) [OF f2]) (use pd1 in simp)
  have f3: "frames_ok ?k3" using s3 by (simp add: same_kernel_def)
  have s4: "same_kernel ?k3 ?k4" by (rule same_kernel_set(2) [OF f3]) (use pd1 in simp)
  have s14: "same_kernel ?k1 ?k4" by (rule same_kernel_trans [OF same_kernel_trans [OF s2 s3] s4])
  have "paging_ok ?k4" using same_kernel_ready [OF s14] 1(2)
    by (auto simp: machine_ok_def space_ready_def kernel_ready_def free_frames_def)
  then have s15: "same_kernel ?k1 ?k5" using same_kernel_trans [OF s14 same_kernel_clear_table [OF _ q(1,2)]] by simp
  have S: "fst ` S \<subseteq> adr ` ?B" using m by (simp add: machine_ok_def)
  have qB: "adr q \<notin> adr ` ?B" by (rule adr_fresh [OF 1(4) q(2) old(2)])
  have "machine_ok bs1 S c d j (with_kern s1 ?k5)"
  proof (rule machine_ok_same_kernel [OF 1(2) s15])
    fix y assume "y \<in> S"
    then have "fst y \<noteq> adr q" using S qB by (metis image_eqI subsetD)
    then show "entry_at ?k5 y = entry_at ?k1 y" by (simp add: entry_at_def)
  qed (simp add: free_frames_def)
  moreover have "process_table g pd i s = Some (Inr (with_kern s1 ?k5))"
    using True 1(1) look by (simp add: process_table_def Let_def adr_numeral)
  moreover have "extended (kern s) ?k5 ?B pd {i}"
    using extended_trans [OF extended_trans [OF extended_trans [OF extended_trans [OF e1 e2 order_refl]
        extended_set(1) [where I = "{i}", OF singletonI] order_refl]
        extended_set(2) [where I = "{i}", OF singletonI] order_refl]
        extended_clear_table [OF 1(4) q(1,2)] order_refl] old(2) by simp
  moreover have "keeps_pages (kern s) ?k5" by (rule keeps_pages_trans [OF 1(7) same_kernel_keeps [OF s15]])
  moreover have "tables (directory ?k5 pd) i = adr q" "page_tables ?k5 (adr q) = (\<lambda>j. zero_entry)"
    by (simp_all add: store_defs)
  moreover have "adr q \<in> adr ` blocks_at bs1" "?B \<subseteq> blocks_at bs1" unfolding 1(5) by (simp, blast)
  ultimately show ?thesis using True qB by (intro exI [of _ "with_kern s1 ?k5"] exI [of _ bs1] exI [of _ "adr q"]) simp
qed

lemma translate_present:
  assumes "tables (directory k (loaded_directory k)) (n div 1024) = T" "T \<noteq> 0" "present (entry_at k (T, n mod 1024))"
    "n < 1048576" "i < 4096"
  shows "translate (adr (n * 4096 + i)) k = Inr (adr (slot_frame k (T, n mod 1024) * 4096 + i))"
proof -
  have u: "unat (adr (n * 4096 + i)) = n * 4096 + i" using assms(4,5) by simp
  have "adr (n * 4096 + i) div 4096 = adr n" "adr (n * 4096 + i) mod 4096 = adr i"
    using assms(4,5) by (auto intro!: word_eq_unatI simp: word_nat u)
  moreover have "ucast (frame_address_20_bits (entry_at k (T, n mod 1024))) = adr (slot_frame k (T, n mod 1024))"
    using slot_frame_less [of k "(T, n mod 1024)"]
    by (intro word_eq_unatI) (simp add: slot_frame_def unsigned_ucast_eq take_bit_nat_eq_self)
  ultimately show ?thesis
    using assms adr_index [of n] by (simp add: translate_def Let_def entry_at_def adr_times_page adr_add)
qed

text \<open>\<open>page_made k k' x f t j\<close>: the entry \<open>j\<close> of table \<open>t\<close> holds the new frame \<open>f\<close>.\<close>

definition page_made :: "Kernel \<Rightarrow> Kernel \<Rightarrow> nat \<Rightarrow> u32 \<Rightarrow> nat \<Rightarrow> bool \<Rightarrow> bool" where
  "page_made k k' f t j user \<longleftrightarrow> frames_only k k' \<and> frames_ok k' \<and> f < 786432 \<and> \<not> bm_bit (available_frames k) f \<and>
     (\<forall>u l. (u, l) \<noteq> (t, j) \<longrightarrow> page_tables k' u l = page_tables k u l) \<and>
     present (entry_at k' (t, j)) \<and> writable (entry_at k' (t, j)) \<and> user_mode (entry_at k' (t, j)) = user \<and>
     slot_frame k' (t, j) = f \<and> (\<forall>n. bm_bit (available_frames k') n \<longleftrightarrow> bm_bit (available_frames k) n \<or> n = f) \<and>
     free_frames k = Suc (free_frames k') \<and> phys k' = (phys k)(adr (f * 4096) := 0xAB)"

lemma process_frame_ok:
  assumes "frames_ok k" "free_frames k \<noteq> 0" "262144 \<le> x" "x < 1048576" "T \<noteq> 0"
    "tables (directory k (loaded_directory k)) (x div 1024) = T" "\<not> present (entry_at k (T, x mod 1024))"
  shows "\<exists>f k'. allocate_frame T (x mod 1024) (adr x) user m k = Inr (adr f, m, k') \<and> page_made k k' f T (x mod 1024) user"
proof -
  let ?j = "x mod 1024"
  obtain f bm where f: "bitmap_get_first_clear (available_frames k) = Inr (adr f)"
    "bitmap_set (available_frames k) (adr f) = Inr bm" "f < 786432" "\<not> bm_bit (available_frames k) f"
    "frames_ok (k\<lparr>available_frames := bm\<rparr>)" "\<forall>n. bm_bit bm n \<longleftrightarrow> n = f \<or> bm_bit (available_frames k) n"
    "free_frames k = Suc (free_frames (k\<lparr>available_frames := bm\<rparr>))"
    using take_frame [OF assms(1,2)] by blast
  let ?e = "(page_tables k T ?j)\<lparr>present := True, user_mode := user, writable := True, frame_address_20_bits := ucast (adr f)\<rparr>"
  let ?k1 = "set_entry T ?j ?e (k\<lparr>available_frames := bm\<rparr>)"
  let ?k2 = "?k1\<lparr>phys := (phys k)(adr (f * 4096) := 0xAB)\<rparr>"
  have slot: "slot_frame ?k1 (T, ?j) = f"
    using f(3) by (simp add: slot_frame_def entry_at_def set_entry_def unsigned_ucast_eq
        adr_def unat_of_nat32 take_bit_nat_eq_self)
  have x: "adr x * 4096 = adr (x * 4096 + 0)" by (simp add: adr_times_page)
  have high: "\<not> adr x * 4096 < 0x40000000" "\<not> is_table_page (adr x * 4096)"
    using assms(3,4) unfolding x
    by (simp_all add: word_less_nat_alt is_table_page_def KERNEL_PAGE_TABLES_ADDRESS_def word_le_nat_alt)
  have tr: "translate (adr x * 4096) k2 = Inr (adr (f * 4096))" if "k2 = ?k1 \<or> k2 = ?k2" for k2
    unfolding x using translate_present [of k2 x T 0] that assms(4-6) slot
    by (auto simp: set_entry_def directory_def slot_frame_def entry_at_def)
  have ph: "phys ?k1 = phys k" by (simp add: set_entry_def)
  have w: "test_write (adr x * 4096) m ?k1 = Inr (m, ?k2)"
    using high tr [of ?k1] by (simp add: test_write_def write_byte_def ph)
  have r: "test_read (adr x * 4096) m ?k2 = Inr 0xAB"
    using high tr [of ?k2] by (simp add: test_read_def read_byte_def)
  have "allocate_frame T ?j (adr x) user m k = Inr (adr f, m, ?k2)"
    using assms(7) f(1,2) w r by (simp add: allocate_frame_def Let_def entry_at_def)
  moreover have "page_made k ?k2 f T ?j user"
    unfolding page_made_def
  proof (intro conjI allI impI)
    show "frames_only k ?k2" by (cases k) (simp add: frames_only_def set_entry_def)
    show "frames_ok ?k2" using f(5) by (simp add: frames_ok_def set_entry_def)
    show "free_frames k = Suc (free_frames ?k2)" using f(7) by (simp add: free_frames_def set_entry_def)
    show "slot_frame ?k2 (T, ?j) = f" using slot by (simp add: slot_frame_def entry_at_def set_entry_def)
    show "bm_bit (available_frames ?k2) n \<longleftrightarrow> bm_bit (available_frames k) n \<or> n = f" for n
      using f(6) by (auto simp: set_entry_def)
  qed (use f(3,4) in \<open>auto simp: entry_at_def set_entry_def\<close>)
  ultimately show ?thesis by blast
qed

lemma page_made_kernel:
  assumes "paging_ok k" "5308428 \<le> q" "q < 1073741824" "page_made k k' f (adr q) j user"
  shows "same_kernel k k'"
  using not_kernel_table [OF assms(1-3)] assms(4) frames_only_same [of k k']
  by (auto simp: same_kernel_def page_made_def fun_eq_iff)

lemma page_made_owned:
  assumes "owned k S" "page_made k k' f t j user" "(t, j) \<notin> S" "\<not> low_table t" "same_kernel k k'"
    "\<And>x. x < 1048576 \<Longrightarrow> mapped k x \<Longrightarrow> bm_bit (available_frames k) (frame_of k x)"
  shows "owned k' (insert (t, j) S)"
proof -
  have e: "entry_at k' s = entry_at k s" if "s \<in> S" for s
  proof -
    have "s \<noteq> (t, j)" using that assms(3) by blast
    then show ?thesis using assms(2) by (cases s) (simp add: page_made_def entry_at_def)
  qed
  then have o: "owned k' S" using owned_cong [OF assms(1) _ assms(5)] by blast
  have f: "slot_frame k' (t, j) = f" "\<not> bm_bit (available_frames k) f" using assms(2) by (simp_all add: page_made_def)
  have "slot_frame k' s \<noteq> f" if "s \<in> S" for s
    using assms(1) that f(2) e [OF that] by (auto simp: owned_def slot_frame_def)
  then have "slot_frame k' (t, j) \<notin> slot_frame k' ` S" unfolding f(1) by (metis imageE)
  then have "inj_on (slot_frame k') (insert (t, j) S)"
    using o assms(3) by (simp add: owned_def inj_on_insert)
  moreover have "frame_of k' x \<noteq> f" if "x < 1048576" "mapped k' x" for x
    using assms(6) [OF that(1)] same_kernel_mapped [OF assms(5) that(1)] that(2) f(2) by auto
  ultimately show ?thesis using o assms(2,4) f(1) by (auto simp: owned_def page_made_def)
qed

lemma process_page_ok:
  assumes m: "machine_ok bs S (c + 3) (d + 1) (Suc j) s" and pd: "pd \<noteq> kernel_page_directory (kern s)"
    and loaded: "loaded_directory (kern s) = pd" and x: "262144 \<le> x" "x < 1048576"
    and T: "tables (directory (kern s) pd) (x div 1024) = 0 \<or> tables (directory (kern s) pd) (x div 1024) \<in> adr ` blocks_at bs \<and>
      \<not> present (entry_at (kern s) (tables (directory (kern s) pd) (x div 1024), x mod 1024))"
  shows "\<exists>f s' bs' T k1. paging_create_process_page_with_any_frame g pd (adr x) user s = Some (Inr (adr f, s')) \<and>
    machine_ok bs' (insert (T, x mod 1024) S) c d j s' \<and> tables (directory (kern s') pd) (x div 1024) = T \<and>
    T \<in> adr ` blocks_at bs' \<and> blocks_at bs \<subseteq> blocks_at bs' \<and>
    extended (kern s) k1 (blocks_at bs) pd {x div 1024} \<and> keeps_pages (kern s) k1 \<and> same_kernel k1 (kern s') \<and>
    page_made k1 (kern s') f T (x mod 1024) user \<and>
    (if tables (directory (kern s) pd) (x div 1024) = 0
     then T \<notin> adr ` blocks_at bs \<and> page_tables k1 T = (\<lambda>j. zero_entry)
     else T = tables (directory (kern s) pd) (x div 1024))"
proof -
  let ?i = "x div 1024" and ?j = "x mod 1024" and ?T0 = "tables (directory (kern s) pd) (x div 1024)"
  have i: "256 \<le> ?i" "?i < 1024" using x by simp_all
  have "?T0 = 0 \<or> ?T0 \<in> adr ` blocks_at bs" using T by blast
  then obtain s1 bs1 T where 1: "process_table g pd ?i s = Some (Inr s1)" "machine_ok bs1 S c (d + 1) j s1"
    "tables (directory (kern s1) pd) ?i = T" "T \<in> adr ` blocks_at bs1" "blocks_at bs \<subseteq> blocks_at bs1"
    "extended (kern s) (kern s1) (blocks_at bs) pd {?i}" "keeps_pages (kern s) (kern s1)"
    "if ?T0 = 0 then T \<notin> adr ` blocks_at bs \<and> page_tables (kern s1) T = (\<lambda>j. zero_entry) else s1 = s"
    using process_table_ok [OF m pd _ i(1), of g] by blast
  let ?k1 = "kern s1"
  obtain q where q: "T = adr q" "q \<in> blocks_at bs1" using 1(4) by (rule imageE)
  note qr = heap_range [OF 1(2) q(2)]
  have r1: "paging_ok ?k1" "c + (d + 1) + nulls ?k1 \<le> free_frames ?k1" "owned ?k1 S"
    using 1(2) by (simp_all add: machine_ok_def space_ready_def kernel_ready_def)
  have new: "\<not> present (entry_at ?k1 (T, ?j))"
    using 1(3,8) T by (auto simp: entry_at_def zero_entry_def split: if_splits)
  have ld: "tables (directory ?k1 (loaded_directory ?k1)) ?i = T"
    using 1(3,6) loaded by (simp add: extended_def)
  have T0: "T \<noteq> 0" using qr(4) q(1) by simp
  have free: "free_frames ?k1 \<noteq> 0" using r1(2) by linarith
  obtain f k' where 2: "allocate_frame T ?j (adr x) user (ram s1) ?k1 = Inr (adr f, ram s1, k')" "page_made ?k1 k' f T ?j user"
    using process_frame_ok [OF paging_okD(1) [OF r1(1)] free x T0 ld new] by blast
  have sk: "same_kernel ?k1 k'" by (rule page_made_kernel [OF r1(1) qr(1,2) 2(2) [unfolded q(1)]])
  have S: "fst ` S \<subseteq> adr ` blocks_at bs1" using 1(2) by (simp add: machine_ok_def)
  have "(T, ?j) \<notin> S" using new r1(3) by (auto simp: owned_def)
  then have o: "owned k' (insert (T, ?j) S)"
    using page_made_owned [OF r1(3) 2(2) _ _ sk] paging_okD(5) [OF r1(1)] qr(3) q(1) by blast
  have "machine_ok bs1 (insert (T, ?j) S) c d j (with_kern s1 k')"
    by (rule machine_ok_taken [OF 1(2) sk o]) (use S 1(4) 2(2) in \<open>simp_all add: page_made_def\<close>)
  moreover have dir: "directory k' = directory ?k1" using 2(2) frames_only_same by (simp add: page_made_def)
  have ti: "table_index (adr x) = Inr ?i" using x(2) adr_index [OF x(2)] i by (simp add: table_index_def Let_def)
  have "paging_create_process_page_with_any_frame g pd (adr x) user s = Some (Inr (adr f, with_kern s1 k'))"
    using 1(1,3) 2(1) ti adr_index [OF x(2)] by (simp add: paging_create_process_page_with_any_frame_def)
  ultimately show ?thesis
    using 1 2(2) sk by (intro exI [of _ f] exI [of _ "with_kern s1 k'"] exI [of _ bs1] exI [of _ T] exI [of _ ?k1])
      (simp add: dir split: if_splits)
qed

end
