(* ===== verification/Ramdisk_Correct.thy ===== *)
theory Ramdisk_Correct
  imports Ramdisk Process_Memory
begin

text \<open>
  What the kernel finds in memory where the image of the RAM disk is loaded, and the
  round trip: the files that \<open>writer.c\<close> packs are the files that \<open>initrd.c\<close> serves.
\<close>

section \<open>The bytes of the image\<close>

lemma length_headers_of: "\<forall>e \<in> set es. length (fst e) < 256 \<Longrightarrow> length (headers_of junk b es) = 260 * length es"
proof (induction es arbitrary: b)
  case (Cons e es)
  then show ?case using Cons.IH [of "Suc b"] by (simp add: headers_of_Cons)
qed simp

lemma headers_of_nth:
  assumes "i < length es" "k < 260"
  shows "\<forall>e \<in> set es. length (fst e) < 256 \<Longrightarrow>
    headers_of junk b es ! (260 * i + k) = header_bytes (junk (b + i)) (fst (es ! i)) (of_nat (length (snd (es ! i)))) ! k"
  using assms(1)
proof (induction es arbitrary: b i)
  case (Cons e es)
  show ?case
  proof (cases i)
    case 0
    then show ?thesis using Cons.prems assms(2) by (simp add: headers_of_Cons nth_append)
  next
    case (Suc i')
    then show ?thesis using Cons.IH [of i' "Suc b"] Cons.prems by (simp add: headers_of_Cons nth_append)
  qed
qed simp

definition content_offset :: "entry list \<Rightarrow> nat \<Rightarrow> nat" where
  "content_offset es i = (\<Sum>e \<leftarrow> take i es. length (snd e))"

lemma content_offset_0 [simp]: "content_offset es 0 = 0"
  by (simp add: content_offset_def)

lemma content_offset_Suc: "i < length es \<Longrightarrow> content_offset es (Suc i) = content_offset es i + length (snd (es ! i))"
  by (simp add: content_offset_def take_Suc_conv_app_nth)

lemma contents_nth:
  "i < length es \<Longrightarrow> k < length (snd (es ! i)) \<Longrightarrow> concat (map snd es) ! (content_offset es i + k) = snd (es ! i) ! k"
proof (induction es arbitrary: i)
  case (Cons e es)
  then show ?case by (cases i) (simp_all add: content_offset_def nth_append)
qed simp

lemma content_offset_le: "i \<le> length es \<Longrightarrow> content_offset es i \<le> length (concat (map snd es))"
proof -
  have "content_offset es i = length (concat (map snd (take i es)))"
    by (simp add: content_offset_def length_concat comp_def)
  moreover have "concat (map snd es) = concat (map snd (take i es)) @ concat (map snd (drop i es))"
    by (metis append_take_drop_id concat_append map_append)
  ultimately show ?thesis by simp
qed

section \<open>The image in memory\<close>

definition loaded :: "mem \<Rightarrow> nat \<Rightarrow> u8 list \<Rightarrow> bool" where
  "loaded m A img \<longleftrightarrow> A + length img \<le> 4294967296 \<and> (\<forall>x < length img. m (adr (A + x)) = img ! x)"

lemma loadedD: "loaded m A img \<Longrightarrow> x < length img \<Longrightarrow> m (adr (A + x)) = img ! x"
  by (simp add: loaded_def)

lemma loaded_outside: "loaded m A img \<Longrightarrow> outside lo hi m m' \<Longrightarrow> A + length img \<le> lo \<Longrightarrow> loaded m' A img"
  by (auto simp: loaded_def outside_def)

lemma rd32_bytes:
  assumes "\<And>k. k < 4 \<Longrightarrow> m (adr (p + k)) = le32 w ! k"
  shows "rd32 m (adr p) = w"
proof -
  have w: "ucast (ucast w :: u8) OR push_bit 8 (ucast (ucast (drop_bit 8 w) :: u8)) OR
      push_bit 16 (ucast (ucast (drop_bit 16 w) :: u8)) OR push_bit 24 (ucast (ucast (drop_bit 24 w) :: u8)) = w"
    using rd32_wr32 [of 0 w "\<lambda>a. 0"] unfolding rd32_def wr32_def by simp
  have a: "adr p + 1 = adr (p + 1)" "adr p + 2 = adr (p + 2)" "adr p + 3 = adr (p + 3)" by simp_all
  have "m (adr p) = ucast w" "m (adr (p + 1)) = ucast (drop_bit 8 w)" "m (adr (p + 2)) = ucast (drop_bit 16 w)"
    "m (adr (p + 3)) = ucast (drop_bit 24 w)"
    using assms [of 0] assms [of 1] assms [of 2] assms [of 3] by (simp_all add: le32_def)
  then show ?thesis unfolding rd32_def a by (simp only: w)
qed

definition entries_ok :: "entry list \<Rightarrow> bool" where
  "entries_ok es \<longleftrightarrow> (\<forall>e \<in> set es. entry_ok e)"

lemma entries_okD:
  assumes "entries_ok es" "i < length es"
  shows "length (fst (es ! i)) < 256" "0 \<notin> set (fst (es ! i))" "length (snd (es ! i)) < 4294967296"
  using assms by (auto simp: entries_ok_def entry_ok_def dest!: nth_mem)

lemma image_length:
  "entries_ok es \<Longrightarrow> length (image_of junk es) = 4 + 260 * length es + length (concat (map snd es))"
  by (simp add: image_of_def length_headers_of entries_ok_def entry_ok_def le32_def)

lemma image_header:
  assumes "entries_ok es" "i < length es" "k < 260"
  shows "image_of junk es ! (4 + 260 * i + k) =
      header_bytes (junk i) (fst (es ! i)) (of_nat (length (snd (es ! i)))) ! k"
proof -
  have n: "\<forall>e \<in> set es. length (fst e) < 256" using assms(1) by (simp add: entries_ok_def entry_ok_def)
  have "260 * i + 260 \<le> 260 * length es" using assms(2) by simp
  then have "260 * i + k < length (headers_of junk 0 es)" using assms(3) by (simp add: length_headers_of [OF n])
  then show ?thesis
    using headers_of_nth [OF assms(2,3) n, of junk 0] by (simp add: image_of_def le32_def nth_append)
qed

lemma image_content:
  assumes "entries_ok es" "i < length es" "k < length (snd (es ! i))"
  shows "image_of junk es ! (4 + 260 * length es + content_offset es i + k) = snd (es ! i) ! k"
proof -
  have n: "\<forall>e \<in> set es. length (fst e) < 256" using assms(1) by (simp add: entries_ok_def entry_ok_def)
  have "image_of junk es ! (4 + 260 * length es + (content_offset es i + k)) = concat (map snd es) ! (content_offset es i + k)"
    by (simp add: image_of_def le32_def nth_append length_headers_of [OF n] del: add.assoc)
  then show ?thesis using contents_nth [OF assms(2,3)] by (simp add: add.assoc)
qed

lemma header_size_bytes:
  assumes "length name < 256"
  shows "header_bytes old name sz ! (256 + k) = le32 sz ! k"
proof -
  let ?xs = "name @ 0 # map old [length name + 1..<256]"
  have "length ?xs = 256" using assms by simp
  moreover have "header_bytes old name sz = ?xs @ le32 sz" by (simp add: header_bytes_def)
  ultimately show ?thesis using nth_append_length_plus [of ?xs "le32 sz" k] by metis
qed

lemma map_nth_take: "n \<le> length xs \<Longrightarrow> map (\<lambda>k. xs ! k) [0..<n] = take n xs"
  by (rule nth_equalityI) simp_all

lemma header_at:
  assumes l: "loaded m A (image_of junk es)" and es: "entries_ok es" "i < length es"
  shows "header_name m (adr (A + 4 + 260 * i)) = fst (es ! i)"
    and "header_file_size m (adr (A + 4 + 260 * i)) = of_nat (length (snd (es ! i)))"
proof -
  let ?h = "header_bytes (junk i) (fst (es ! i)) (of_nat (length (snd (es ! i))))" and ?n = "fst (es ! i)"
  note e = entries_okD [OF es]
  have b: "m (adr (A + 4 + 260 * i + k)) = ?h ! k" if k: "k < 260" for k
  proof -
    have "260 * i + 260 \<le> 260 * length es" using es(2) by simp
    then have "4 + 260 * i + k < length (image_of junk es)" using k unfolding image_length [OF es(1)] by linarith
    from loadedD [OF l this] show ?thesis using image_header [OF es k, of junk] by (simp add: add.assoc)
  qed
  have "header_name m (adr (A + 4 + 260 * i)) = takeWhile (\<lambda>c. c \<noteq> 0) (map (\<lambda>k. ?h ! k) [0..<256])"
  proof -
    have "map (\<lambda>k. m (adr (A + 4 + 260 * i) + of_nat k)) [0..<256] = map (\<lambda>k. ?h ! k) [0..<256]"
      by (rule map_cong [OF refl]) (use b in \<open>simp add: adr_def [symmetric] del: upt_rec_numeral\<close>)
    then show ?thesis by (simp only: header_name_def)
  qed
  also have "map (\<lambda>k. ?h ! k) [0..<256] = take 256 ?h" by (rule map_nth_take) (simp add: e(1))
  also have "take 256 ?h = ?n @ 0 # map (junk i) [length ?n + 1..<256]"
  proof -
    have "256 - length ?n = Suc (255 - length ?n)" using e(1) by simp
    then show ?thesis by (simp add: header_bytes_def)
  qed
  also have "takeWhile (\<lambda>c. c \<noteq> 0) \<dots> = ?n"
    using e(2) by (subst takeWhile_append2) auto
  finally show "header_name m (adr (A + 4 + 260 * i)) = ?n" .
  have "m (adr (A + 4 + 260 * i + 256 + k)) = le32 (of_nat (length (snd (es ! i)))) ! k" if "k < 4" for k
    using b [of "256 + k"] that header_size_bytes [OF e(1)] by (simp add: add.assoc)
  from rd32_bytes [OF this] show "header_file_size m (adr (A + 4 + 260 * i)) = of_nat (length (snd (es ! i)))"
    by (simp add: header_file_size_def)
qed

section \<open>Reading the image\<close>

definition disk_node :: "entry list \<Rightarrow> nat \<Rightarrow> Vfs_Node" where
  "disk_node es i = \<lparr>node_name = fst (es ! i), flags = VFS_FILE, inode = of_nat i + 1,
     node_size = of_nat (length (snd (es ! i))), read_fn = Initrd_read, write_fn = No_write, open_fn = No_open,
     close_fn = No_close, readdir_fn = No_readdir, lookup_fn = No_lookup\<rparr>"

definition contents_address :: "nat \<Rightarrow> entry list \<Rightarrow> nat \<Rightarrow> nat" where
  "contents_address A es i = A + 4 + 260 * length es + content_offset es i"

lemma init_files_ok:
  assumes l: "loaded m A (image_of junk es)" and es: "entries_ok es"
    and b: "initrd_files_nodes f = adr b" "b + 292 * length es \<le> 4294967296"
    and n: "i + n = length es"
    and f: "length (initrd_files_data f) = i" "\<forall>k < i. nodes f (adr (b + 292 * k)) = disk_node es k"
      "\<forall>k < i. initrd_files_data f ! k = adr (contents_address A es k)"
  shows "\<exists>f'. init_files m (adr (A + 4)) n (of_nat i) (adr (contents_address A es i)) f = Inr f' \<and>
    length (initrd_files_data f') = length es \<and> (\<forall>k < length es. nodes f' (adr (b + 292 * k)) = disk_node es k) \<and>
    (\<forall>k < length es. initrd_files_data f' ! k = adr (contents_address A es k)) \<and>
    f' = f\<lparr>nodes := nodes f', initrd_files_data := initrd_files_data f'\<rparr> \<and>
    (\<forall>a. (\<forall>k < length es. a \<noteq> adr (b + 292 * k)) \<longrightarrow> nodes f' a = nodes f a)"
  using b(1) n f
proof (induction n arbitrary: i f)
  case 0
  then show ?case by simp
next
  case (Suc n)
  have i: "i < length es" using Suc.prems(2) by simp
  have "260 * i + 260 \<le> 260 * length es" using i by simp
  then have "length es < 4294967296" "A + 4 + 260 * i < 4294967296"
    using l image_length [OF es, of junk] by (simp_all add: loaded_def)
  have h: "adr (A + 4) + of_nat i * sizeof_Ramdisk_Header = adr (A + 4 + 260 * i)"
    by (simp add: sizeof_Ramdisk_Header_def adr_def mult.commute)
  have nd: "file_node f (of_nat i) = adr (b + 292 * i)"
    by (simp add: file_node_def Suc.prems(1) sizeof_Vfs_Node_def adr_def mult.commute)
  note e = entries_okD [OF es i]
  note hd = header_at [OF l es i]
  let ?f = "f\<lparr>nodes := (nodes f)(adr (b + 292 * i) := disk_node es i),
    initrd_files_data := initrd_files_data f @ [adr (contents_address A es i)]\<rparr>"
  have next_address: "adr (contents_address A es i) + of_nat (length (snd (es ! i))) = adr (contents_address A es (Suc i))"
    by (simp add: contents_address_def content_offset_Suc [OF i] adr_def)
  have step: "init_files m (adr (A + 4)) (Suc n) (of_nat i) (adr (contents_address A es i)) f =
      init_files m (adr (A + 4)) n (of_nat (Suc i)) (adr (contents_address A es (Suc i))) ?f"
    using e(1) by (simp only: init_files.simps Let_def h hd nd copy_name_def VFS_FILE_NAME_MAX_LENGTH_def if_True rbind_Inr
        next_address disk_node_def of_nat_Suc add.commute [of 1])
  have "\<forall>k < Suc i. nodes ?f (adr (b + 292 * k)) = disk_node es k"
  proof (intro allI impI)
    fix k assume k: "k < Suc i"
    show "nodes ?f (adr (b + 292 * k)) = disk_node es k"
    proof (cases "k = i")
      case False
      then have "k < i" "292 * i + 292 \<le> 292 * length es" using k i by simp_all
      then have "adr (b + 292 * k) \<noteq> adr (b + 292 * i)" using b(2) by (subst adr_inject) auto
      then show ?thesis using Suc.prems(4) \<open>k < i\<close> by simp
    qed simp
  qed
  moreover have "\<forall>k < Suc i. initrd_files_data ?f ! k = adr (contents_address A es k)"
    using Suc.prems(3,5) by (auto simp: nth_append less_Suc_eq)
  ultimately obtain f' where f': "init_files m (adr (A + 4)) n (of_nat (Suc i)) (adr (contents_address A es (Suc i))) ?f = Inr f'"
    "length (initrd_files_data f') = length es" "\<forall>k < length es. nodes f' (adr (b + 292 * k)) = disk_node es k"
    "\<forall>k < length es. initrd_files_data f' ! k = adr (contents_address A es k)"
    "f' = ?f\<lparr>nodes := nodes f', initrd_files_data := initrd_files_data f'\<rparr>"
    "\<forall>a. (\<forall>k < length es. a \<noteq> adr (b + 292 * k)) \<longrightarrow> nodes f' a = nodes ?f a"
    using Suc.IH [of ?f "Suc i"] Suc.prems(1-3) by auto
  have "f' = f\<lparr>nodes := nodes f', initrd_files_data := initrd_files_data f'\<rparr>"
    using f'(5) by simp
  moreover have "nodes f' a = nodes f a" if "\<forall>k < length es. a \<noteq> adr (b + 292 * k)" for a
    using f'(6) that i by simp
  ultimately show ?case using f'(1-4) step by (intro exI [of _ f']) simp
qed

section \<open>Allocations of the file system\<close>

lemma machine_alloc_plain:
  assumes "machine_ok bs S (c + p) d (Suc j) s" "n + 20 \<le> p * 4096" "n < 4294967296"
  shows "\<exists>q n' s' bs'. m_alloc g (adr n) s = Some (Inr (adr q, s')) \<and> machine_ok bs' S c d j s' \<and>
    q \<notin> blocks_at bs \<and> n \<le> n' \<and> (n', q) \<in> used_blocks heap_start bs' \<and>
    (\<forall>(t, r) \<in> used_blocks heap_start bs. \<exists>t'. t \<le> t' \<and> (t', r) \<in> used_blocks heap_start bs') \<and>
    outside heap_start 1073741824 (ram s) (ram s')"
proof -
  have h: "heap_ok (heap s) (ram s) heap_start bs" "anchored heap_start bs"
    "space_ready (kern s) S d (heap_end bs) (p + c) (kern s)" "Suc j \<le> avl_spare (avl (heap s))"
    "fst ` S \<subseteq> adr ` blocks_at bs"
    using assms(1) by (simp_all add: machine_ok_def add.commute)
  have al: "alignment_ok 0" by (simp add: alignment_ok_def)
  have room: "tail bs \<noteq> 0 \<or> avl_spare (avl (heap s)) \<noteq> 0" "n + 0 + 20 \<le> tail bs + p * 4096"
    using h(4) assms(2) by linarith+
  obtain q h' m' k' bs' i where 1:
    "kalloc_heap_alloc g kernel_pager (adr n) (adr 0) (heap s) (ram s) (kern s) = Some (Inr (adr q, h', m', k'))"
    "heap_ok h' m' heap_start bs'" "allocated heap_start bs bs' n q"
    "avl_spare (avl (heap s)) \<le> avl_spare (avl h') + (if tail bs = 0 then 1 else 0)"
    "outside heap_start (heap_start + ext bs') (ram s) m'"
    "space_ready (kern s) S d (heap_end bs') (p - i + c) k'"
    using spaces.alloc_ok [OF h(1) al disjI1 [OF refl] assms(3) h(3) room, of g] by blast
  let ?s = "\<lparr>heap = h', ram = m', kern = k'\<rparr>"
  have b: "blocks_at bs' = insert q (blocks_at bs)" "q \<notin> blocks_at bs"
    "\<exists>n'. n \<le> n' \<and> (n', q) \<in> used_blocks heap_start bs'"
    "\<forall>(t, r) \<in> used_blocks heap_start bs. \<exists>t'. t \<le> t' \<and> (t', r) \<in> used_blocks heap_start bs'"
    using 1(3) by (simp_all add: allocated_def)
  have "space_ready k' S d (heap_end bs') c k'" using 1(6) by (intro space_ready_less [of _ S d _ c "p - i"]) (simp add: add.commute)
  then have m: "machine_ok bs' S c d j ?s"
    using 1(2,4) anchored_allocated [OF 1(3) h(2)] h(4,5) b(1) by (auto simp: machine_ok_def split: if_splits)
  have "heap_start + ext bs' \<le> 1073741824"
  proof -
    have "heap_end bs' \<le> 262144" using m by (simp add: machine_ok_def space_ready_def kernel_ready_def)
    moreover have "4096 dvd ext bs'" using 1(2) by (simp add: heap_ok_def region_def)
    ultimately show ?thesis by (auto elim!: dvdE)
  qed
  then have o: "outside heap_start 1073741824 (ram s) (ram ?s)" using outside_mono [OF 1(5)] by simp
  have a: "m_alloc g (adr n) s = Some (Inr (adr q, ?s))"
    using 1(1) by (simp add: m_alloc_def kalloc_alloc_def adr_numeral)
  obtain n' where n': "n \<le> n'" "(n', q) \<in> used_blocks heap_start bs'" using b(3) by blast
  show ?thesis by (intro exI conjI, fact a, fact m, fact b(2), fact n'(1), fact n'(2), fact b(4), fact o)
qed

lemma os_alloc_plain:
  assumes "machine_ok bs S (c + p) d (Suc j) (machine s)" "n + 20 \<le> p * 4096" "n < 4294967296"
  shows "\<exists>q n' s' bs'. os_alloc g (adr n) s = Some (Inr (adr q, s')) \<and> machine_ok bs' S c d j (machine s') \<and>
    q \<notin> blocks_at bs \<and> n \<le> n' \<and> (n', q) \<in> used_blocks heap_start bs' \<and>
    (\<forall>(t, r) \<in> used_blocks heap_start bs. \<exists>t'. t \<le> t' \<and> (t', r) \<in> used_blocks heap_start bs') \<and>
    outside heap_start 1073741824 (ram (machine s)) (ram (machine s')) \<and> s' = s\<lparr>machine := machine s'\<rparr>"
proof -
  obtain q n' s1 bs' where 1: "m_alloc g (adr n) (machine s) = Some (Inr (adr q, s1))" "machine_ok bs' S c d j s1"
    "q \<notin> blocks_at bs" "n \<le> n'" "(n', q) \<in> used_blocks heap_start bs'"
    "\<forall>(t, r) \<in> used_blocks heap_start bs. \<exists>t'. t \<le> t' \<and> (t', r) \<in> used_blocks heap_start bs'"
    "outside heap_start 1073741824 (ram (machine s)) (ram s1)"
    using machine_alloc_plain [OF assms, of g] by (elim exE conjE) (rule that; assumption)
  let ?s = "s\<lparr>machine := s1\<rparr>"
  have a: "os_alloc g (adr n) s = Some (Inr (adr q, ?s))" using 1(1) by (simp add: os_alloc_def)
  have m: "machine ?s = s1" by simp
  show ?thesis
    by (intro exI [of _ q] exI [of _ n'] exI [of _ ?s] exI [of _ bs'] conjI; (unfold m)?; (fact a | fact 1 | simp))
qed

text \<open>\<open>serves A es b s\<close>: the file system serves the files \<open>es\<close> of the image at \<open>A\<close> with the nodes at \<open>b\<close>.\<close>

definition serves :: "nat \<Rightarrow> (nat \<Rightarrow> nat \<Rightarrow> u8) \<Rightarrow> entry list \<Rightarrow> nat \<Rightarrow> Os \<Rightarrow> bool" where
  "serves A junk es b s \<longleftrightarrow> entries_ok es \<and> loaded (ram (machine s)) A (image_of junk es) \<and>
     A + length (image_of junk es) \<le> heap_start \<and> heap_start \<le> b \<and> b + 292 * length es \<le> 1073741824 \<and>
     num_files (fs s) = of_nat (length es) \<and> initrd_files_nodes (fs s) = adr b \<and>
     length (initrd_files_data (fs s)) = length es \<and>
     (\<forall>k < length es. node_at s (adr (b + 292 * k)) = disk_node es k) \<and>
     (\<forall>k < length es. initrd_files_data (fs s) ! k = adr (contents_address A es k))"

lemma used_mono:
  "\<forall>(t, r) \<in> used_blocks a bs. \<exists>t'. t \<le> t' \<and> (t', r) \<in> used_blocks a bs' \<Longrightarrow> (t, r) \<in> used_blocks a bs \<Longrightarrow>
   \<exists>t'. t \<le> t' \<and> (t', r) \<in> used_blocks a bs'"
  by blast

text \<open>The blocks \<open>ps\<close>, each with the bytes it has at least, are new in the heap; the others are still used.\<close>

definition new_blocks :: "(nat \<times> nat) list \<Rightarrow> layout \<Rightarrow> layout \<Rightarrow> bool" where
  "new_blocks ps bs bs' \<longleftrightarrow>
     (\<forall>(t, q) \<in> used_blocks heap_start bs. \<exists>t'. t \<le> t' \<and> (t', q) \<in> used_blocks heap_start bs') \<and>
     (\<forall>(n, p) \<in> set ps. p \<notin> snd ` used_blocks heap_start bs \<and> (\<exists>n'. n \<le> n' \<and> (n', p) \<in> used_blocks heap_start bs'))"

lemma initrd_init_ok:
  assumes m: "machine_ok bs S (c + p3 + p2 + p1) d (j + 3) (machine s)"
    and p: "292 * length es + 20 \<le> p1 * 4096" "4 * length es + 20 \<le> p2 * 4096" "292 + 20 \<le> p3 * 4096"
    and l: "loaded (ram (machine s)) A (image_of junk es)" "A + length (image_of junk es) \<le> heap_start"
    and es: "entries_ok es" and A: "initrd_data (fs s) = adr A"
  shows "\<exists>r s' b bs'. initrd_init g s = Some (Inr (adr r, s')) \<and> machine_ok bs' S c d j (machine s') \<and>
    serves A junk es b s' \<and> initrd_root_node (fs s') = adr r \<and>
    node_at s' (adr r) = directory_node (chars_of ''initrd'') Initrd_readdir Initrd_lookup \<and> adr r \<noteq> 0 \<and>
    new_blocks [(292 * length es, b), (292, r)] bs bs' \<and> r \<noteq> b \<and>
    (\<forall>q \<in> snd ` used_blocks heap_start bs. node_at s' (adr q) = node_at s (adr q)) \<and>
    vfs_root (fs s') = vfs_root (fs s) \<and> root_nodes (fs s') = root_nodes (fs s)"
proof -
  let ?n = "length es"
  have P: "p1 < 262144" using m by (simp add: machine_ok_def space_ready_def kernel_ready_def)
  have n: "292 * ?n < 1073741824" "?n < 4294967296" using p(1) P by linarith+
  have cnt: "rd32 (ram (machine s)) (adr A) = of_nat ?n"
  proof (rule rd32_bytes)
    fix k :: nat assume k: "k < 4"
    then have "k < length (image_of junk es)" using image_length [OF es, of junk] by simp
    from loadedD [OF l(1) this] show "ram (machine s) (adr (A + k)) = le32 (of_nat ?n) ! k"
    proof -
      have "length (le32 (of_nat ?n)) = 4" by (simp add: le32_def)
      then have "(le32 (of_nat ?n) @ xs) ! k = le32 (of_nat ?n) ! k" for xs using k by (simp only: nth_append if_True)
      then show ?thesis using \<open>ram (machine s) (adr (A + k)) = image_of junk es ! k\<close> by (simp only: image_of_def)
    qed
  qed
  let ?s0 = "on_fs (\<lambda>f. f\<lparr>num_files := of_nat ?n\<rparr>) s"
  have sz: "sizeof_Vfs_Node * of_nat ?n = adr (292 * ?n)" "4 * of_nat ?n = adr (4 * ?n)" "sizeof_Vfs_Node = adr 292"
    by (simp_all add: sizeof_Vfs_Node_def adr_def)
  have m0: "machine_ok bs S (c + p3 + p2 + p1) d (Suc (j + 2)) (machine ?s0)" using m by (simp add: on_fs_def numeral_3_eq_3)
  have "292 * ?n < 4294967296" "4 * ?n < 4294967296" "(292 :: nat) < 4294967296" using n by linarith+
  note lt = this
  obtain b n1 s1 bs1 where 1: "os_alloc g (adr (292 * ?n)) ?s0 = Some (Inr (adr b, s1))"
    "machine_ok bs1 S (c + p3 + p2) d (j + 2) (machine s1)" "b \<notin> blocks_at bs" "292 * ?n \<le> n1" "(n1, b) \<in> used_blocks heap_start bs1"
    "\<forall>(t, r) \<in> used_blocks heap_start bs. \<exists>t'. t \<le> t' \<and> (t', r) \<in> used_blocks heap_start bs1"
    "outside heap_start 1073741824 (ram (machine ?s0)) (ram (machine s1))" "s1 = ?s0\<lparr>machine := machine s1\<rparr>"
    using os_alloc_plain [OF m0 p(1) lt(1), of g] by (elim exE conjE) (rule that; assumption)
  let ?s1 = "on_fs (\<lambda>f. f\<lparr>initrd_files_nodes := adr b\<rparr>) s1"
  have m1: "machine_ok bs1 S (c + p3 + p2) d (Suc (j + 1)) (machine ?s1)" using 1(2) by (simp add: on_fs_def numeral_2_eq_2)
  obtain q2 n2 s2 bs2 where 2: "os_alloc g (adr (4 * ?n)) ?s1 = Some (Inr (adr q2, s2))"
    "machine_ok bs2 S (c + p3) d (j + 1) (machine s2)" "q2 \<notin> blocks_at bs1" "4 * ?n \<le> n2" "(n2, q2) \<in> used_blocks heap_start bs2"
    "\<forall>(t, r) \<in> used_blocks heap_start bs1. \<exists>t'. t \<le> t' \<and> (t', r) \<in> used_blocks heap_start bs2"
    "outside heap_start 1073741824 (ram (machine ?s1)) (ram (machine s2))" "s2 = ?s1\<lparr>machine := machine s2\<rparr>"
    using os_alloc_plain [OF m1 p(2) lt(2), of g] by (elim exE conjE) (rule that; assumption)
  have fs2: "fs s2 = (fs s)\<lparr>num_files := of_nat ?n, initrd_files_nodes := adr b\<rparr>"
    by (subst 2(8), simp add: on_fs_def, subst 1(8), simp add: on_fs_def)
  have l2: "loaded (ram (machine s2)) A (image_of junk es)"
    using loaded_outside [OF loaded_outside [OF l(1) _ l(2)] 2(7) l(2)] 1(7) by (simp add: on_fs_def)
  have bb: "b \<in> blocks_at bs1" using 1(5) by force
  obtain n1' where n1': "n1 \<le> n1'" "(n1', b) \<in> used_blocks heap_start bs2" using used_mono [OF 2(6) 1(5)] by blast
  have ends: "x + 8 + t \<le> 1073741824" if "(t, x) \<in> used_blocks heap_start bs'" "machine_ok bs' S' c' d' j' s'" for x t bs' S' c' d' j' s'
  proof -
    have "x + t + 8 \<le> heap_start + ext bs'" using used_blocks_range [OF that(1)] by simp
    moreover have "heap_end bs' \<le> 262144" using that(2) by (simp add: machine_ok_def space_ready_def kernel_ready_def)
    moreover have "4096 dvd ext bs'" using that(2) by (simp add: machine_ok_def heap_ok_def region_def)
    ultimately show ?thesis by (auto elim!: dvdE)
  qed
  have bend: "b + 292 * ?n \<le> 1073741824" using ends [OF 1(5,2)] 1(4) by linarith
  let ?f2 = "(fs s2)\<lparr>initrd_files_data := []\<rparr>"
  have h4: "initrd_data (fs s) + 4 = adr (A + 4)" by (simp add: A)
  have ca: "adr (A + 4) + of_nat ?n * sizeof_Ramdisk_Header = adr (contents_address A es 0)"
    by (simp add: contents_address_def sizeof_Ramdisk_Header_def adr_def mult.commute)
  have f2: "initrd_files_nodes ?f2 = adr b" by (simp add: fs2)
  have b4: "b + 292 * ?n \<le> 4294967296" using bend by simp
  obtain f' where 3: "init_files (ram (machine s2)) (adr (A + 4)) ?n (of_nat 0) (adr (contents_address A es 0)) ?f2 = Inr f'"
    "length (initrd_files_data f') = ?n" "\<forall>k < ?n. nodes f' (adr (b + 292 * k)) = disk_node es k"
    "\<forall>k < ?n. initrd_files_data f' ! k = adr (contents_address A es k)"
    "f' = ?f2\<lparr>nodes := nodes f', initrd_files_data := initrd_files_data f'\<rparr>"
    "\<forall>a. (\<forall>k < ?n. a \<noteq> adr (b + 292 * k)) \<longrightarrow> nodes f' a = nodes ?f2 a"
    using init_files_ok [OF l2 es f2 b4, of 0 ?n] by auto
  let ?s3 = "s2\<lparr>fs := f'\<rparr>"
  have m3: "machine_ok bs2 S (c + p3) d (Suc j) (machine ?s3)" using 2(2) by simp
  obtain r n4 s4 bs4 where 4: "os_alloc g (adr 292) ?s3 = Some (Inr (adr r, s4))" "machine_ok bs4 S c d j (machine s4)"
    "r \<notin> blocks_at bs2" "292 \<le> n4" "(n4, r) \<in> used_blocks heap_start bs4"
    "\<forall>(t, r) \<in> used_blocks heap_start bs2. \<exists>t'. t \<le> t' \<and> (t', r) \<in> used_blocks heap_start bs4"
    "outside heap_start 1073741824 (ram (machine ?s3)) (ram (machine s4))" "s4 = ?s3\<lparr>machine := machine s4\<rparr>"
    using os_alloc_plain [OF m3 p(3) lt(3), of g] by (elim exE conjE) (rule that; assumption)
  let ?D = "directory_node (chars_of ''initrd'') Initrd_readdir Initrd_lookup"
  let ?s5 = "put_node (adr r) ?D (on_fs (\<lambda>f. f\<lparr>initrd_root_node := adr r\<rparr>) s4)"
  have fs4: "fs s4 = f'" by (subst 4(8)) simp
  have run: "initrd_init g s = Some (Inr (adr r, ?s5))"
    unfolding initrd_init_def Let_def A cnt sz(1)
    using 1(1) 2(1) 3(1) 4(1) n(2) by (simp add: h4 [unfolded A] ca sz unat_of_nat32)
  obtain n1'' where n1'': "n1' \<le> n1''" "(n1'', b) \<in> used_blocks heap_start bs4" using used_mono [OF 4(6) n1'(2)] by blast
  have rb: "r \<noteq> b" using 4(3) n1'(2) by force
  have rr: "r \<in> blocks_at bs4" using 4(5) by force
  have keep: "adr (b + 292 * k) \<noteq> adr r" if k: "k < ?n" for k
  proof -
    have "292 * k + 292 \<le> 292 * ?n" using k by simp
    moreover have "292 * ?n \<le> n1''" using 1(4) n1' n1'' by linarith
    moreover have "b + n1'' + 20 \<le> r \<or> r + n4 + 20 \<le> b" using used_disjoint [OF n1''(2) 4(5)] rb by blast
    ultimately have "b + 292 * k \<noteq> r" by linarith
    moreover have "b + 292 * k < 4294967296" "r < 4294967296"
      using k bend heap_range(2) [OF 4(2) rr] by linarith+
    ultimately show ?thesis by (simp add: adr_inject)
  qed
  have l5: "loaded (ram (machine ?s5)) A (image_of junk es)"
    using loaded_outside [OF l2 _ l(2)] 4(7) by (simp add: put_node_def on_fs_def)
  have "heap_start \<le> b" using heap_range(1) [OF 1(2) bb] by simp
  moreover have "num_files f' = of_nat ?n" "initrd_files_nodes f' = adr b" by (subst 3(5), simp add: fs2)+
  ultimately have "serves A junk es b ?s5"
    using es l5 l(2) bend 3(2-4) keep by (auto simp: serves_def put_node_def on_fs_def node_at_def fs4)
  moreover have "machine_ok bs4 S c d j (machine ?s5)" using 4(2) by (simp add: put_node_def on_fs_def)
  moreover have "initrd_root_node (fs ?s5) = adr r" "node_at ?s5 (adr r) = ?D" by (simp_all add: put_node_def on_fs_def node_at_def)
  moreover have "adr r \<noteq> 0" by (rule heap_range(4) [OF 4(2) rr])
  moreover have used: "\<exists>t'. t \<le> t' \<and> (t', q) \<in> used_blocks heap_start bs4" if "(t, q) \<in> used_blocks heap_start bs" for t q
    using used_mono [OF 1(6) that] used_mono [OF 2(6)] used_mono [OF 4(6)] order_trans by metis
  have new_b: "b \<notin> snd ` used_blocks heap_start bs" and new_r: "r \<notin> snd ` used_blocks heap_start bs"
    using 1(3) 4(3) used_mono [OF 1(6)] used_mono [OF 2(6)] by (force, force)
  have "new_blocks [(292 * ?n, b), (292, r)] bs bs4"
    using used new_b new_r 1(4) n1' n1'' 4(4,5) unfolding new_blocks_def by auto
  moreover have "node_at ?s5 (adr q) = node_at s (adr q)" if q: "q \<in> snd ` used_blocks heap_start bs" for q
  proof -
    obtain t where "(t, q) \<in> used_blocks heap_start bs" using q by auto
    then obtain t' where t': "(t', q) \<in> used_blocks heap_start bs4" using used by blast
    have qq: "q \<noteq> b" "q \<noteq> r" "q < 4294967296" using q new_b new_r heap_range(2) [OF 4(2), of q] t' by force+
    have "adr q \<noteq> adr (b + 292 * k)" if k: "k < ?n" for k
    proof -
      have "292 * k + 292 \<le> 292 * ?n" using k by simp
      moreover have "292 * ?n \<le> n1''" using 1(4) n1' n1'' by linarith
      moreover have "b + n1'' + 20 \<le> q \<or> q + t' + 20 \<le> b" using used_disjoint [OF n1''(2) t'] qq(1) by blast
      ultimately have "b + 292 * k \<noteq> q" by linarith
      moreover have "b + 292 * k < 4294967296" using k bend by linarith
      ultimately show ?thesis using qq(3) by (simp add: adr_inject)
    qed
    then have "nodes f' (adr q) = nodes (fs s) (adr q)" using 3(6) by (simp add: fs2)
    moreover have "adr q \<noteq> adr r" using qq heap_range(2) [OF 4(2) rr] by (simp add: adr_inject)
    ultimately show ?thesis by (simp add: put_node_def on_fs_def node_at_def fs4)
  qed
  moreover have "vfs_root f' = vfs_root (fs s)" "root_nodes f' = root_nodes (fs s)" by (subst 3(5), simp add: fs2)+
  then have "vfs_root (fs ?s5) = vfs_root (fs s)" "root_nodes (fs ?s5) = root_nodes (fs s)"
    by (simp_all add: put_node_def on_fs_def fs4)
  ultimately show ?thesis using run rb by blast
qed

section \<open>Looking up and reading a file\<close>

lemma servesD:
  assumes "serves A junk es b s"
  shows "entries_ok es" "b + 292 * length es \<le> 1073741824" "heap_start \<le> b" "num_files (fs s) = of_nat (length es)"
    "length es < 4294967296" "k < length es \<Longrightarrow> node_at s (adr (b + 292 * k)) = disk_node es k"
    "file_node (fs s) (of_nat k) = adr (b + 292 * k)"
  using assms by (simp_all add: serves_def file_node_def sizeof_Vfs_Node_def adr_def mult.commute)

lemma lookup_loop_found:
  assumes s: "serves A junk es b s" and name: "0 \<notin> set name"
  shows "i + n = length es \<Longrightarrow> i \<le> k \<Longrightarrow> k < length es \<Longrightarrow> fst (es ! k) = name \<Longrightarrow>
    \<forall>l. i \<le> l \<and> l < k \<longrightarrow> fst (es ! l) \<noteq> name \<Longrightarrow> lookup_loop s name n (of_nat i) = adr (b + 292 * k)"
proof (induction n arbitrary: i)
  case (Suc n)
  have i: "i < length es" using Suc.prems(1) by simp
  have same: "same_name name (node_name (disk_node es i)) \<longleftrightarrow> name = fst (es ! i)"
    using name entries_okD(2) [OF servesD(1) [OF s] i] by (simp add: disk_node_def)
  show ?case
  proof (cases "i = k")
    case True
    then show ?thesis using Suc.prems(4) same servesD(6) [OF s i] by (simp add: servesD(7) [OF s] Let_def)
  next
    case False
    then have "lookup_loop s name n (of_nat (Suc i)) = adr (b + 292 * k)"
      using Suc.IH [of "Suc i"] Suc.prems by simp
    moreover have "name \<noteq> fst (es ! i)" using Suc.prems(2,5) False by auto
    ultimately show ?thesis using same servesD(6) [OF s i] by (simp add: servesD(7) [OF s] Let_def add.commute [of 1])
  qed
qed simp

lemma lookup_loop_absent:
  assumes s: "serves A junk es b s" and name: "0 \<notin> set name" "name \<notin> fst ` set es"
  shows "i + n = length es \<Longrightarrow> lookup_loop s name n (of_nat i) = 0"
proof (induction n arbitrary: i)
  case (Suc n)
  have i: "i < length es" using Suc.prems by simp
  have "name \<noteq> fst (es ! i)" using name(2) i by (metis image_eqI nth_mem)
  then have "\<not> same_name name (node_name (disk_node es i))"
    using name(1) entries_okD(2) [OF servesD(1) [OF s] i] by (simp add: disk_node_def)
  then show ?case using Suc.IH [of "Suc i"] Suc.prems servesD(6) [OF s i] by (simp add: servesD(7) [OF s] Let_def add.commute [of 1])
qed simp

lemma copy_bytes_low:
  "unat i + n \<le> 4294967296 \<Longrightarrow> dst + unat i + n \<le> 1073741824 \<Longrightarrow> src + unat i + n \<le> 1073741824 \<Longrightarrow>
   copy_bytes n i (adr dst) (adr src) s =
     Inr (s\<lparr>machine := (machine s)\<lparr>ram := memcpy_loop n i (adr dst) (adr src) (ram (machine s))\<rparr>\<rparr>)"
proof (induction n arbitrary: i s)
  case (Suc n)
  have a: "adr dst + i = adr (dst + unat i)" "adr src + i = adr (src + unat i)" by (simp_all add: adr_def)
  have low: "adr (dst + unat i) < 0x40000000" "adr (src + unat i) < 0x40000000"
    using Suc.prems by (simp_all add: word_less_nat_alt)
  let ?s = "s\<lparr>machine := (machine s)\<lparr>ram := (ram (machine s))(adr dst + i := ram (machine s) (adr src + i))\<rparr>\<rparr>"
  have bytes: "get_byte (adr src + i) s = Inr (ram (machine s) (adr src + i))" "put_byte (adr dst + i) v s =
      Inr (s\<lparr>machine := (machine s)\<lparr>ram := (ram (machine s))(adr dst + i := v)\<rparr>\<rparr>)" for v
    using low by (simp_all add: get_byte_def put_byte_def read_byte_def write_byte_def a)
  have step: "copy_bytes (Suc n) i (adr dst) (adr src) s = copy_bytes n (i + 1) (adr dst) (adr src) ?s"
    by (simp add: bytes)
  show ?case
  proof (cases n)
    case 0
    then show ?thesis by (simp add: bytes fun_upd_def)
  next
    case (Suc n')
    then have "unat (i + 1) = unat i + 1" using Suc.prems(1) by (intro unat_Suc32 [of i n']) simp
    then show ?thesis using step Suc.IH [of "i + 1" ?s] Suc.prems by (simp add: fun_upd_def)
  qed
qed simp

lemma copy_memory_low:
  assumes "dst + n \<le> 1073741824" "src + n \<le> 1073741824" "src + n \<le> dst \<or> dst + n \<le> src"
  shows "\<exists>s'. copy_memory (adr dst) (adr src) (adr n) s = Inr s' \<and>
    (\<forall>k < n. ram (machine s') (adr (dst + k)) = ram (machine s) (adr (src + k)))"
proof -
  have n: "unat (adr n) = n" using assms(1) by simp
  let ?m = "memcpy (adr dst) (adr src) (adr n) (ram (machine s))"
  have "copy_memory (adr dst) (adr src) (adr n) s = Inr (s\<lparr>machine := (machine s)\<lparr>ram := ?m\<rparr>\<rparr>)"
    using copy_bytes_low [of 0 n dst src s] assms(1,2) by (simp add: copy_memory_def memcpy_def n)
  moreover have "?m (adr (dst + k)) = ram (machine s) (adr (src + k))" if "k < n" for k
    using memcpy_outside(2) [of src n dst k] assms that by simp
  ultimately show ?thesis by (intro exI [of _ "s\<lparr>machine := (machine s)\<lparr>ram := ?m\<rparr>\<rparr>"]) simp
qed

lemma initrd_read_ok:
  assumes s: "serves A junk es b s" and i: "i < length es"
    and cnt: "n = min sz (length (snd (es ! i)) - off)" "off < 4294967296" "sz < 4294967296"
    and dst: "A + length (image_of junk es) \<le> dst" "dst + n \<le> 1073741824"
  shows "\<exists>s'. initrd_read (adr (b + 292 * i)) (adr off) (adr sz) (adr dst) s = Inr (adr n, s') \<and>
    (\<forall>k < n. ram (machine s') (adr (dst + k)) = snd (es ! i) ! (off + k))"
proof -
  let ?c = "snd (es ! i)"
  note e = entries_okD [OF servesD(1) [OF s] i]
  have ln: "node_size (node_at s (adr (b + 292 * i))) = adr (length ?c)" "inode (node_at s (adr (b + 292 * i))) = of_nat i + 1"
    using servesD(6) [OF s i] by (simp_all add: disk_node_def adr_def)
  show ?thesis
  proof (cases "length ?c \<le> off")
    case True
    then have "adr (length ?c) \<le> adr off" using e(3) cnt(2) by (simp add: adr_le)
    moreover have "n = 0" "adr 0 = 0" using True cnt(1) by (simp_all add: adr_def)
    ultimately show ?thesis by (simp add: initrd_read_def Let_def ln)
  next
    case False
    then have lt: "\<not> adr (length ?c) \<le> adr off" using e(3) cnt(2) by (simp add: adr_le)
    have d: "adr (length ?c) - adr off = adr (length ?c - off)" using False by (simp add: adr_sub)
    have k: "(if adr sz < adr (length ?c - off) then adr sz else adr (length ?c - off)) = adr n"
      using cnt e(3) by (simp add: adr_less min_def)
    have ix: "unat (of_nat i + 1 - 1 :: u32) = i" using i servesD(5) [OF s] by (simp add: unat_of_nat32)
    have da: "initrd_files_data (fs s) ! i + adr off = adr (contents_address A es i + off)" "i < length (initrd_files_data (fs s))"
      using s i by (simp_all add: serves_def)
    have il: "length (image_of junk es) = 4 + 260 * length es + length (concat (map snd es))"
      using image_length [OF servesD(1) [OF s]] .
    have "content_offset es i + length ?c \<le> length (concat (map snd es))"
      using content_offset_le [of "Suc i" es] content_offset_Suc [OF i] i by simp
    then have r: "contents_address A es i + off + n \<le> A + length (image_of junk es)"
      using cnt(1) False unfolding il contents_address_def by linarith
    have lo: "A + length (image_of junk es) \<le> heap_start" "loaded (ram (machine s)) A (image_of junk es)"
      using s by (simp_all add: serves_def)
    have r2: "contents_address A es i + off + n \<le> 1073741824" using r lo(1) by linarith
    obtain s' where s': "copy_memory (adr dst) (adr (contents_address A es i + off)) (adr n) s = Inr s'"
      "\<forall>k < n. ram (machine s') (adr (dst + k)) = ram (machine s) (adr (contents_address A es i + off + k))"
      using copy_memory_low [OF dst(2) r2 disjI1] r dst(1) by fastforce
    have "ram (machine s) (adr (contents_address A es i + off + k)) = ?c ! (off + k)" if k: "k < n" for k
    proof -
      have "n \<le> length ?c - off" using cnt(1) by simp
      then have l: "off + k < length ?c" using k False by linarith
      have "4 + 260 * length es + content_offset es i + (off + k) < length (image_of junk es)"
        using r k unfolding contents_address_def by linarith
      from loadedD [OF lo(2) this] show ?thesis
        using image_content [OF servesD(1) [OF s] i l, of junk] by (simp add: contents_address_def add.assoc)
    qed
    moreover have "initrd_read (adr (b + 292 * i)) (adr off) (adr sz) (adr dst) s = Inr (adr n, s')"
      unfolding initrd_read_def Let_def ln d k ix using lt da s'(1) by simp
    ultimately show ?thesis using s'(2) by (intro exI [of _ s']) simp
  qed
qed

end
