(* ===== verification/Address_Release.thy ===== *)
theory Address_Release
  imports Process_Memory
begin

text \<open>
  Releasing the address space of a process
  (\<open>paging_clean_all_non_kernel_pages_from_page_directory\<close>): exactly the frames of the
  pages outside the kernel stack become free, and the tables without pages are given
  back to the heap.
\<close>

text \<open>\<open>unmapped k k' N\<close>: the slots \<open>N\<close> are empty in \<open>k'\<close>, their frames free; nothing else changed but directories.\<close>

definition unmapped :: "Kernel \<Rightarrow> Kernel \<Rightarrow> slot set \<Rightarrow> bool" where
  "unmapped k k' N \<longleftrightarrow> phys k' = phys k \<and> kernel_page_directory k' = kernel_page_directory k \<and>
     processes k' = processes k \<and> active_process k' = active_process k \<and> loaded_directory k' = loaded_directory k \<and>
     (\<forall>x. entry_at k' x = (if x \<in> N then zero_entry else entry_at k x)) \<and>
     (\<forall>n. bm_bit (available_frames k') n \<longleftrightarrow> bm_bit (available_frames k) n \<and> n \<notin> slot_frame k ` N) \<and>
     free_frames k' = free_frames k + card N"

lemma unmapped_empty: "unmapped k k {}"
  by (simp add: unmapped_def)

lemma unmapped_trans:
  assumes "unmapped k k1 N" "unmapped k1 k' N'" "N \<inter> N' = {}" "finite N" "finite N'"
  shows "unmapped k k' (N \<union> N')"
proof -
  have "slot_frame k1 x = slot_frame k x" if "x \<in> N'" for x
  proof -
    have "x \<notin> N" using assms(3) that by blast
    then show ?thesis using assms(1) unfolding unmapped_def slot_frame_def by metis
  qed
  then have "slot_frame k1 ` N' = slot_frame k ` N'" by (rule image_cong [OF refl])
  then show ?thesis
    using assms by (auto simp: unmapped_def card_Un_disjoint image_Un)
qed

definition user_pages :: "Kernel \<Rightarrow> u32 \<Rightarrow> nat \<Rightarrow> nat set" where
  "user_pages k t i = {j \<in> table_pages_of k t. \<not> stack_page i j}"

definition user_slots :: "Kernel \<Rightarrow> u32 \<Rightarrow> nat set \<Rightarrow> slot set" where
  "user_slots k pd I = (\<Union>i \<in> {i \<in> I. tables (directory k pd) i \<noteq> 0}.
     Pair (tables (directory k pd) i) ` user_pages k (tables (directory k pd) i) i)"

definition keeps_stack :: "Kernel \<Rightarrow> u32 \<Rightarrow> nat \<Rightarrow> bool" where
  "keeps_stack k pd i \<longleftrightarrow> (\<exists>j \<in> table_pages_of k (tables (directory k pd) i). stack_page i j)"

lemma clean_table_step:
  assumes m: "machine_ok bs S c d (Suc j) s" and pd: "pd \<noteq> kernel_page_directory (kern s)"
    and T: "tables (directory (kern s) pd) i = adr q" "q \<in> blocks_at bs" "q \<noteq> 5308428"
    and S: "{l. (adr q, l) \<in> S} = table_pages_of (kern s) (adr q)"
  shows "\<exists>s1 bs1. clean_tables g pd (i # is) s = clean_tables g pd is s1 \<and>
    machine_ok bs1 (S - Pair (adr q) ` user_pages (kern s) (adr q) i) c (d + card (user_pages (kern s) (adr q) i)) j s1 \<and>
    unmapped (kern s) (kern s1) (Pair (adr q) ` user_pages (kern s) (adr q) i) \<and>
    (\<forall>pd' l. (pd', l) \<noteq> (pd, i) \<longrightarrow> tables (directory (kern s1) pd') l = tables (directory (kern s) pd') l \<and>
       tables_x86_representation (directory (kern s1) pd') l = tables_x86_representation (directory (kern s) pd') l) \<and>
    (if keeps_stack (kern s) pd i
     then blocks_at bs1 = blocks_at bs \<and> tables (directory (kern s1) pd) i = adr q \<and>
       tables_x86_representation (directory (kern s1) pd) i = tables_x86_representation (directory (kern s) pd) i
     else blocks_at bs1 = blocks_at bs - {q} \<and> tables (directory (kern s1) pd) i = 0 \<and>
       tables_x86_representation (directory (kern s1) pd) i = 0)"
proof -
  let ?k = "kern s" and ?t = "adr q"
  let ?P = "table_pages_of ?k ?t" and ?N = "user_pages ?k ?t i"
  note q = heap_range [OF m T(2)]
  have r: "paging_ok ?k" "owned ?k S" using m by (simp_all add: machine_ok_def space_ready_def kernel_ready_def)
  have PS: "Pair ?t ` ?P \<subseteq> S" using S by auto
  have oS: "slot_frame ?k x < 786432" "bm_bit (available_frames ?k) (slot_frame ?k x)" if "x \<in> S" for x
    using r(2) that by (simp_all add: owned_def)
  have inj: "inj_on (slot_frame ?k) S" using r(2) by (simp add: owned_def)
  have "inj_on (\<lambda>l. slot_frame ?k (?t, l)) (present_in ?k ?t [0..<1024])"
    using inj_on_subset [OF inj PS] by (simp add: inj_on_def table_pages_of_def)
  moreover have "\<forall>l \<in> present_in ?k ?t [0..<1024]. slot_frame ?k (?t, l) < 786432 \<and> bm_bit (available_frames ?k) (slot_frame ?k (?t, l))"
    using PS oS by (auto simp: table_pages_of_def)
  ultimately obtain k1 where 1: "clean_entries ?t i [0..<1024] True ?k = Inr (\<forall>l \<in> ?P. \<not> stack_page i l, k1)"
    "cleaned ?k k1 ?t ?N"
    using clean_entries_ok [of "[0..<1024]" ?k ?t i True] paging_okD(1) [OF r(1)]
    by (auto simp: table_pages_of_def user_pages_def released_def)
  have fin: "finite ?N" by (simp add: user_pages_def table_pages_of_def)
  have k1: "frames_only ?k k1" "phys k1 = phys ?k" "frames_ok k1"
    "\<And>u l. page_tables k1 u l = (if u = ?t \<and> l \<in> ?N then zero_entry else page_tables ?k u l)"
    "\<And>n. bm_bit (available_frames k1) n \<longleftrightarrow> bm_bit (available_frames ?k) n \<and> n \<notin> slot_frame ?k ` Pair ?t ` ?N"
    "free_frames k1 = free_frames ?k + card ?N"
    using 1(2) by (auto simp: cleaned_def image_image)
  note fo = frames_only_same [OF k1(1)]
  let ?S' = "S - Pair ?t ` ?N"
  have NS: "Pair ?t ` ?N \<subseteq> S" using PS by (auto simp: user_pages_def)
  have m1: "machine_ok bs ?S' c (d + card ?N) (Suc j) (with_kern s k1)"
  proof (rule machine_ok_released [OF m])
    show "entry_at k1 x = entry_at ?k x" if "x \<in> ?S'" for x
      using that by (cases x) (auto simp: entry_at_def k1(4))
    show "bm_bit (available_frames k1) (slot_frame ?k x)" if x: "x \<in> ?S'" for x
    proof -
      have "slot_frame ?k x \<notin> slot_frame ?k ` Pair ?t ` ?N"
      proof
        assume "slot_frame ?k x \<in> slot_frame ?k ` Pair ?t ` ?N"
        then obtain y where y: "slot_frame ?k x = slot_frame ?k y" "y \<in> Pair ?t ` ?N" by (rule imageE)
        then have "x = y" using inj_onD [OF inj y(1)] x NS by blast
        then show False using x y(2) by simp
      qed
      then show ?thesis using k1(5) oS(2) x by simp
    qed
    show "bm_bit (available_frames k1) (frame_of ?k x)" if x: "x < 1048576" "mapped ?k x" for x
    proof -
      have "frame_of ?k x \<notin> slot_frame ?k ` Pair ?t ` ?N" using r(2) x NS by (auto simp: owned_def)
      then show ?thesis using k1(5) paging_okD(5) [OF r(1) x] by simp
    qed
    show "page_tables k1 (tables (kernel_dir ?k) l) = page_tables ?k (tables (kernel_dir ?k) l)"
      if "l < 1024" "tables (kernel_dir ?k) l \<noteq> 0" for l
      using not_kernel_table [OF r(1) q(1,2) that] by (simp add: k1(4) fun_eq_iff)
  qed (use fo k1(3,6) in simp_all)
  have run: "clean_tables g pd (i # is) s = (if \<not> keeps_stack ?k pd i then
         rbind (m_free g ?t (with_kern s k1)) (\<lambda>s.
         clean_tables g pd is (with_kern s (set_x86 pd i 0 (set_table pd i 0 (kern s)))))
       else clean_tables g pd is (with_kern s k1))"
    using 1(1) T(1) q(4) by (auto simp: keeps_stack_def Let_def)
  have um: "unmapped ?k k1 (Pair ?t ` ?N)"
    using fo k1 fin by (auto simp: unmapped_def entry_at_def card_image inj_on_def)
  show ?thesis
  proof (cases "keeps_stack ?k pd i")
    case True
    have "machine_ok bs ?S' c (d + card ?N) j (with_kern s k1)" using machine_ok_less [of bs ?S' c 0 _ j 1] m1 by simp
    then show ?thesis
      using True um T(1) by (intro exI [of _ "with_kern s k1"] exI [of _ bs]) (simp add: run fo del: clean_tables.simps)
  next
    case False
    then have PN: "?N = ?P" by (auto simp: keeps_stack_def user_pages_def T(1))
    have "?t \<notin> fst ` ?S'"
    proof
      assume "?t \<in> fst ` ?S'"
      then obtain l where "(?t, l) \<in> ?S'" by force
      then show False using S PN by auto
    qed
    then obtain s2 bs2 where 2: "m_free g ?t (with_kern s k1) = Inr s2" "kern s2 = k1" "machine_ok bs2 ?S' c (d + card ?N) j s2"
      "blocks_at bs2 = blocks_at bs - {q}"
      using machine_free [OF m1 T(2,3), of g] by auto
    let ?k3 = "set_table pd i 0 k1"
    let ?k4 = "set_x86 pd i 0 ?k3"
    have s3: "same_kernel k1 ?k3" by (rule same_kernel_set(1) [OF k1(3)]) (simp add: fo(2) pd)
    have f3: "frames_ok ?k3" using s3 by (simp add: same_kernel_def)
    have s4: "same_kernel ?k3 ?k4" by (rule same_kernel_set(2) [OF f3]) (simp add: fo(2) pd)
    have sk: "same_kernel (kern s2) ?k4" using same_kernel_trans [OF s3 s4] 2(2) by simp
    have "machine_ok bs2 ?S' c (d + card ?N) j (with_kern s2 ?k4)"
      by (rule machine_ok_same_kernel [OF 2(3) sk]) (simp_all add: entry_at_def free_frames_def 2(2))
    moreover have "clean_tables g pd (i # is) s = clean_tables g pd is (with_kern s2 ?k4)"
      using False 2(1,2) run by simp
    moreover have "unmapped ?k ?k4 (Pair ?t ` ?N)"
    proof -
      have "free_frames ?k4 = free_frames k1" "phys ?k4 = phys k1" "loaded_directory ?k4 = loaded_directory k1"
        by (simp_all add: free_frames_def store_defs)
      then show ?thesis using um by (simp add: unmapped_def entry_at_def)
    qed
    ultimately show ?thesis using False 2(4)
      by (intro exI [of _ "with_kern s2 ?k4"] exI [of _ bs2]) (auto simp: set_table_def set_x86_def directory_def fo)
  qed
qed

lemma user_slots_Cons:
  "user_slots k pd (set (i # is)) = (if tables (directory k pd) i \<noteq> 0
     then Pair (tables (directory k pd) i) ` user_pages k (tables (directory k pd) i) i \<union> user_slots k pd (set is)
     else user_slots k pd (set is))"
  by (auto simp: user_slots_def)

lemma finite_user_slots [simp]: "finite I \<Longrightarrow> finite (user_slots k pd I)"
  by (auto simp: user_slots_def user_pages_def table_pages_of_def)

lemma table_pages_cong: "(\<And>l. entry_at k' (t, l) = entry_at k (t, l)) \<Longrightarrow> table_pages_of k' t = table_pages_of k t"
  by (simp add: table_pages_of_def present_in_def entry_at_def)

text \<open>What a directory looks like afterwards.\<close>

definition dir_cleaned :: "Kernel \<Rightarrow> Kernel \<Rightarrow> u32 \<Rightarrow> nat set \<Rightarrow> bool" where
  "dir_cleaned k k' pd I \<longleftrightarrow>
     (\<forall>pd' l. pd' \<noteq> pd \<or> l \<notin> I \<longrightarrow> tables (directory k' pd') l = tables (directory k pd') l \<and>
        tables_x86_representation (directory k' pd') l = tables_x86_representation (directory k pd') l) \<and>
     (\<forall>l \<in> I. tables (directory k pd) l \<noteq> 0 \<longrightarrow>
        tables (directory k' pd) l = (if keeps_stack k pd l then tables (directory k pd) l else 0) \<and>
        tables_x86_representation (directory k' pd) l =
          (if keeps_stack k pd l then tables_x86_representation (directory k pd) l else 0)) \<and>
     (\<forall>l \<in> I. tables (directory k pd) l = 0 \<longrightarrow> tables (directory k' pd) l = 0)"

lemma clean_tables_ok:
  assumes "distinct is" "machine_ok bs S c d (j + length (dir_tables (kern s) pd is)) s"
    "pd \<noteq> kernel_page_directory (kern s)"
    "\<forall>i \<in> set is. tables (directory (kern s) pd) i \<noteq> 0 \<longrightarrow> tables (directory (kern s) pd) i \<in> adr ` (blocks_at bs - {5308428})"
    "inj_on (tables (directory (kern s) pd)) {i \<in> set is. tables (directory (kern s) pd) i \<noteq> 0}"
    "\<forall>i \<in> set is. tables (directory (kern s) pd) i \<noteq> 0 \<longrightarrow>
       {l. (tables (directory (kern s) pd) i, l) \<in> S} = table_pages_of (kern s) (tables (directory (kern s) pd) i)"
  shows "\<exists>s' bs'. clean_tables g pd is s = Inr s' \<and>
    machine_ok bs' (S - user_slots (kern s) pd (set is)) c (d + card (user_slots (kern s) pd (set is))) j s' \<and>
    unmapped (kern s) (kern s') (user_slots (kern s) pd (set is)) \<and> dir_cleaned (kern s) (kern s') pd (set is) \<and>
    blocks_at bs' = {b \<in> blocks_at bs. \<forall>i \<in> set is. tables (directory (kern s) pd) i = adr b \<longrightarrow> keeps_stack (kern s) pd i}"
  using assms
proof (induction "is" arbitrary: bs S d s)
  case Nil
  then show ?case
    by (intro exI [of _ s] exI [of _ bs]) (simp add: dir_tables_def user_slots_def unmapped_empty dir_cleaned_def)
next
  case (Cons i "is")
  let ?k = "kern s" and ?T = "tables (directory (kern s) pd)"
  have di: "i \<notin> set is" using Cons.prems(1) by simp
  show ?case
  proof (cases "?T i = 0")
    case True
    have inj: "inj_on ?T {i \<in> set is. ?T i \<noteq> 0}" by (rule inj_on_subset [OF Cons.prems(5)]) auto
    obtain s' bs' where 1: "clean_tables g pd is s = Inr s'"
      "machine_ok bs' (S - user_slots ?k pd (set is)) c (d + card (user_slots ?k pd (set is))) j s'"
      "unmapped ?k (kern s') (user_slots ?k pd (set is))" "dir_cleaned ?k (kern s') pd (set is)"
      "blocks_at bs' = {b \<in> blocks_at bs. \<forall>i \<in> set is. ?T i = adr b \<longrightarrow> keeps_stack ?k pd i}"
      using Cons.IH [of bs S d s] Cons.prems inj True by (auto simp: dir_tables_def)
    have "dir_cleaned ?k (kern s') pd (set (i # is))" using 1(4) True di by (auto simp: dir_cleaned_def)
    moreover have "?T i \<noteq> adr b" if "b \<in> blocks_at bs" for b
      using heap_range(4) [OF Cons.prems(2) that] True by simp
    ultimately show ?thesis
      using 1 True unfolding user_slots_Cons by (intro exI [of _ s'] exI [of _ bs']) auto
  next
    case False
    then obtain q where q: "?T i = adr q" "q \<in> blocks_at bs" "q \<noteq> 5308428" using Cons.prems(4) by auto
    let ?N = "Pair (adr q) ` user_pages ?k (adr q) i"
    have len: "j + length (dir_tables ?k pd (i # is)) = Suc (j + length (dir_tables ?k pd is))"
      using False by (simp add: dir_tables_def)
    have Si: "{l. (adr q, l) \<in> S} = table_pages_of ?k (adr q)" using Cons.prems(6) False q(1) by simp
    obtain s1 bs1 where 1: "clean_tables g pd (i # is) s = clean_tables g pd is s1"
      "machine_ok bs1 (S - ?N) c (d + card (user_pages ?k (adr q) i)) (j + length (dir_tables ?k pd is)) s1"
      "unmapped ?k (kern s1) ?N"
      "\<forall>pd' l. (pd', l) \<noteq> (pd, i) \<longrightarrow> tables (directory (kern s1) pd') l = tables (directory ?k pd') l \<and>
         tables_x86_representation (directory (kern s1) pd') l = tables_x86_representation (directory ?k pd') l"
      "if keeps_stack ?k pd i
       then blocks_at bs1 = blocks_at bs \<and> tables (directory (kern s1) pd) i = adr q \<and>
         tables_x86_representation (directory (kern s1) pd) i = tables_x86_representation (directory ?k pd) i
       else blocks_at bs1 = blocks_at bs - {q} \<and> tables (directory (kern s1) pd) i = 0 \<and>
         tables_x86_representation (directory (kern s1) pd) i = 0"
      using clean_table_step [OF Cons.prems(2) [unfolded len] Cons.prems(3) q Si, of g "is"] by blast
    let ?k1 = "kern s1"
    have T1: "tables (directory ?k1 pd) l = ?T l" if "l \<in> set is" for l using 1(4) that di by auto
    have ne: "?T l \<noteq> adr q" if "l \<in> set is" for l
    proof
      assume l: "?T l = adr q"
      then have "l = i" using inj_onD [OF Cons.prems(5), of l i] False q(1) that by auto
      then show False using di that by simp
    qed
    have e1: "entry_at ?k1 (?T l, x) = entry_at ?k (?T l, x)" if "l \<in> set is" for l x
      using 1(3) ne [OF that] by (auto simp: unmapped_def)
    have p1: "table_pages_of ?k1 (?T l) = table_pages_of ?k (?T l)" if "l \<in> set is" for l
      by (rule table_pages_cong [OF e1 [OF that]])
    have us: "user_slots ?k1 pd (set is) = user_slots ?k pd (set is)"
      by (auto simp: user_slots_def user_pages_def T1 p1)
    have ks: "keeps_stack ?k1 pd l \<longleftrightarrow> keeps_stack ?k pd l" if "l \<in> set is" for l
      by (simp add: keeps_stack_def T1 [OF that] p1 [OF that])
    have dt: "dir_tables ?k1 pd is = dir_tables ?k pd is" unfolding dir_tables_def by (rule filter_cong) (simp_all add: T1)
    have "{i \<in> set is. tables (directory ?k1 pd) i \<noteq> 0} = {i \<in> set is. ?T i \<noteq> 0}" using T1 by auto
    moreover have "inj_on (tables (directory ?k1 pd)) {i \<in> set is. ?T i \<noteq> 0}"
      using Cons.prems(5) T1 by (auto simp: inj_on_def)
    ultimately have inj: "inj_on (tables (directory ?k1 pd)) {i \<in> set is. tables (directory ?k1 pd) i \<noteq> 0}" by simp
    have pd1: "pd \<noteq> kernel_page_directory ?k1" using 1(3) Cons.prems(3) by (simp add: unmapped_def)
    have b1: "\<forall>l \<in> set is. tables (directory ?k1 pd) l \<noteq> 0 \<longrightarrow> tables (directory ?k1 pd) l \<in> adr ` (blocks_at bs1 - {5308428})"
    proof (intro ballI impI)
      fix l assume l: "l \<in> set is" "tables (directory ?k1 pd) l \<noteq> 0"
      then have "?T l \<in> adr ` (blocks_at bs - {5308428})" using Cons.prems(4) T1 by simp
      then obtain b where b: "?T l = adr b" "b \<in> blocks_at bs - {5308428}" by (rule imageE)
      have "b \<noteq> q" using ne [OF l(1)] b(1) by auto
      then have "b \<in> blocks_at bs1 - {5308428}" using 1(5) b(2) by (simp split: if_splits)
      then show "tables (directory ?k1 pd) l \<in> adr ` (blocks_at bs1 - {5308428})" using T1 [OF l(1)] b(1) by simp
    qed
    have S1: "\<forall>l \<in> set is. tables (directory ?k1 pd) l \<noteq> 0 \<longrightarrow>
        {x. (tables (directory ?k1 pd) l, x) \<in> S - ?N} = table_pages_of ?k1 (tables (directory ?k1 pd) l)"
      using Cons.prems(6) ne by (auto simp: T1 p1)
    obtain s' bs' where 2: "clean_tables g pd is s1 = Inr s'"
      "machine_ok bs' (S - ?N - user_slots ?k pd (set is)) c (d + card (user_pages ?k (adr q) i) + card (user_slots ?k pd (set is))) j s'"
      "unmapped ?k1 (kern s') (user_slots ?k pd (set is))" "dir_cleaned ?k1 (kern s') pd (set is)"
      "blocks_at bs' = {b \<in> blocks_at bs1. \<forall>i \<in> set is. tables (directory ?k1 pd) i = adr b \<longrightarrow> keeps_stack ?k1 pd i}"
      using Cons.IH [of bs1 "S - ?N" "d + card (user_pages ?k (adr q) i)" s1] Cons.prems(1) 1(2) pd1 b1 inj S1
      by (auto simp: dt us)
    have un: "user_slots ?k pd (set (i # is)) = ?N \<union> user_slots ?k pd (set is)"
      unfolding user_slots_Cons using False q(1) by simp
    have disj: "?N \<inter> user_slots ?k pd (set is) = {}" using ne by (fastforce simp: user_slots_def)
    have fin: "finite ?N" by (simp add: user_pages_def table_pages_of_def)
    have cN: "card ?N = card (user_pages ?k (adr q) i)" by (rule card_image) (simp add: inj_on_def)
    have cd: "card (user_slots ?k pd (set (i # is))) = card (user_pages ?k (adr q) i) + card (user_slots ?k pd (set is))"
      unfolding un using card_Un_disjoint [OF fin _ disj] cN by simp
    have "unmapped ?k (kern s') (user_slots ?k pd (set (i # is)))"
      unfolding un by (rule unmapped_trans [OF 1(3) 2(3) disj fin]) simp
    moreover have "dir_cleaned ?k (kern s') pd (set (i # is))"
      unfolding dir_cleaned_def
    proof (intro conjI allI ballI impI)
      fix pd' l assume l: "pd' \<noteq> pd \<or> l \<notin> set (i # is)"
      then show "tables (directory (kern s') pd') l = tables (directory ?k pd') l"
        "tables_x86_representation (directory (kern s') pd') l = tables_x86_representation (directory ?k pd') l"
        using 1(4) 2(4) by (auto simp: dir_cleaned_def)
    next
      fix l assume l: "l \<in> set (i # is)"
      { assume z: "?T l = 0"
        then have "l \<in> set is" using l False by auto
        then show "tables (directory (kern s') pd) l = 0" using 2(4) T1 z by (simp add: dir_cleaned_def) }
      assume nz: "?T l \<noteq> 0"
      have "tables (directory (kern s') pd) l = (if keeps_stack ?k pd l then ?T l else 0) \<and>
         tables_x86_representation (directory (kern s') pd) l =
           (if keeps_stack ?k pd l then tables_x86_representation (directory ?k pd) l else 0)"
      proof (cases "l = i")
        case True
        then have "tables (directory (kern s') pd) l = tables (directory ?k1 pd) l"
          "tables_x86_representation (directory (kern s') pd) l = tables_x86_representation (directory ?k1 pd) l"
          using 2(4) di by (simp_all add: dir_cleaned_def)
        then show ?thesis using 1(5) True q(1) by (simp split: if_splits)
      next
        case False
        then have "l \<in> set is" using l by simp
        moreover have "tables_x86_representation (directory ?k1 pd) l = tables_x86_representation (directory ?k pd) l"
          using 1(4) False by simp
        ultimately show ?thesis using 2(4) nz T1 ks by (simp add: dir_cleaned_def)
      qed
      then show "tables (directory (kern s') pd) l = (if keeps_stack ?k pd l then ?T l else 0)"
        "tables_x86_representation (directory (kern s') pd) l =
           (if keeps_stack ?k pd l then tables_x86_representation (directory ?k pd) l else 0)" by simp_all
    qed
    moreover have "blocks_at bs' = {b \<in> blocks_at bs. \<forall>i \<in> set (i # is). ?T i = adr b \<longrightarrow> keeps_stack ?k pd i}"
    proof (rule set_eqI)
      fix b
      have q2: "adr q = adr b \<longleftrightarrow> q = b" if "b \<in> blocks_at bs"
        using adr_inject [of q b] heap_range(2) [OF Cons.prems(2) q(2)] heap_range(2) [OF Cons.prems(2) that] by simp
      have "b \<in> blocks_at bs' \<longleftrightarrow> b \<in> blocks_at bs1 \<and> (\<forall>l \<in> set is. ?T l = adr b \<longrightarrow> keeps_stack ?k pd l)"
        unfolding 2(5) using T1 ks by auto
      also have "b \<in> blocks_at bs1 \<longleftrightarrow> b \<in> blocks_at bs \<and> (q = b \<longrightarrow> keeps_stack ?k pd i)"
        using 1(5) by (auto split: if_splits)
      finally show "b \<in> blocks_at bs' \<longleftrightarrow> b \<in> {b \<in> blocks_at bs. \<forall>i \<in> set (i # is). ?T i = adr b \<longrightarrow> keeps_stack ?k pd i}"
        using q(1) q2 by auto
    qed
    moreover have "machine_ok bs' (S - user_slots ?k pd (set (i # is))) c (d + card (user_slots ?k pd (set (i # is)))) j s'"
    proof -
      have "S - (?N \<union> user_slots ?k pd (set is)) = S - ?N - user_slots ?k pd (set is)" by blast
      then show ?thesis using 2(2) by (simp only: cd, simp only: un add.assoc)
    qed
    ultimately show ?thesis using 1(1) 2(1) by auto
  qed
qed

end
