(* ===== verification/Process_Spaces.thy ===== *)
theory Process_Spaces
  imports Address_Release
begin

text \<open>
  Process memory seen through an address space: a clone reads like its original, a
  write in one space is not seen in another, and releasing a space removes exactly the
  pages outside the kernel stack.
\<close>

section \<open>The view of an address space\<close>

text \<open>The byte at address \<open>a\<close> with the directory \<open>pd\<close> loaded.\<close>

definition view :: "Machine \<Rightarrow> u32 \<Rightarrow> u32 \<Rightarrow> u8 res" where
  "view s pd a = read_byte a (ram s) ((kern s)\<lparr>loaded_directory := pd\<rparr>)"

lemma page_address:
  obtains n i where "a = adr (n * 4096 + i)" "n < 1048576" "i < 4096" "a < 0x40000000 \<longleftrightarrow> n < 262144" "a div 4096 = adr n"
proof -
  have u: "unat a < 4294967296" by (rule unat_lt32)
  have 1: "a = adr (unat a div 4096 * 4096 + unat a mod 4096)" by (simp add: adr_def)
  have 2: "unat a div 4096 < 1048576" using u by (simp add: less_mult_imp_div_less)
  have 3: "a < 0x40000000 \<longleftrightarrow> unat a div 4096 < 262144" by (simp add: word_less_nat_alt) linarith
  have 4: "a div 4096 = adr (unat a div 4096)" using 2 by (intro word_eq_unatI) (simp add: word_nat)
  show ?thesis by (rule that [OF 1 2 _ 3 4]) simp
qed

definition slot_of :: "Kernel \<Rightarrow> u32 \<Rightarrow> nat \<Rightarrow> slot" where
  "slot_of k pd n = (tables (directory k pd) (n div 1024), n mod 1024)"

definition in_use :: "Kernel \<Rightarrow> slot \<Rightarrow> bool" where
  "in_use k x \<longleftrightarrow> fst x \<noteq> 0 \<and> present (entry_at k x)"

lemma translate_page:
  assumes "n < 1048576" "i < 4096"
  shows "translate (adr (n * 4096 + i)) (k\<lparr>loaded_directory := pd\<rparr>) =
    (if in_use k (slot_of k pd n) then Inr (adr (slot_frame k (slot_of k pd n) * 4096 + i)) else Inl Page_fault)"
proof -
  let ?k = "k\<lparr>loaded_directory := pd\<rparr>"
  have same: "directory ?k = directory k" "entry_at ?k = entry_at k" "slot_frame ?k = slot_frame k"
    by (simp_all add: fun_eq_iff directory_def entry_at_def slot_frame_def)
  have u: "unat (adr (n * 4096 + i)) = n * 4096 + i" using assms by simp
  have "adr (n * 4096 + i) div 4096 = adr n" using assms by (intro word_eq_unatI) (simp add: word_nat u)
  then have "translate (adr (n * 4096 + i)) ?k = Inl Page_fault" if "\<not> in_use k (slot_of k pd n)"
    using that adr_index [OF assms(1)] by (simp add: translate_def Let_def in_use_def slot_of_def entry_at_def directory_def)
  then show ?thesis
    using translate_present [of ?k n _ i] assms by (auto simp: same in_use_def slot_of_def)
qed

lemma view_page:
  assumes "262144 \<le> n" "n < 1048576" "i < 4096"
  shows "view s pd (adr (n * 4096 + i)) = (if in_use (kern s) (slot_of (kern s) pd n)
     then Inr (frame_bytes (kern s) (slot_frame (kern s) (slot_of (kern s) pd n)) i) else Inl Page_fault)"
proof -
  have "\<not> adr (n * 4096 + i) < 0x40000000" using assms by (simp add: word_less_nat_alt)
  then show ?thesis
    using translate_page [OF assms(2,3), of pd "kern s"] by (simp add: view_def read_byte_def frame_bytes_def)
qed

lemma view_cong:
  assumes "\<And>n. 262144 \<le> n \<Longrightarrow> n < 1048576 \<Longrightarrow>
     in_use (kern s') (slot_of (kern s') pd' n) \<longleftrightarrow> in_use (kern s) (slot_of (kern s) pd n)"
    "\<And>n i. 262144 \<le> n \<Longrightarrow> n < 1048576 \<Longrightarrow> i < 4096 \<Longrightarrow> in_use (kern s) (slot_of (kern s) pd n) \<Longrightarrow>
     frame_bytes (kern s') (slot_frame (kern s') (slot_of (kern s') pd' n)) i =
     frame_bytes (kern s) (slot_frame (kern s) (slot_of (kern s) pd n)) i"
    "0x40000000 \<le> a"
  shows "view s' pd' a = view s pd a"
proof -
  obtain n i where a: "a = adr (n * 4096 + i)" "n < 1048576" "i < 4096" "a < 0x40000000 \<longleftrightarrow> n < 262144"
    by (rule page_address)
  have n: "262144 \<le> n" using a(4) assms(3) by (simp add: not_less [symmetric])
  show ?thesis unfolding a(1) view_page [OF n a(2,3)] using assms(1) [OF n a(2)] assms(2) [OF n a(2,3)] by simp
qed

section \<open>A clone and its original\<close>

text \<open>Through the clone the same pages are in use as through the original, with the same bytes.\<close>

lemma entry_copy_view:
  assumes "\<forall>i \<in> set high. entry_copy (kern s) (kern s') (tables (directory (kern s) pd) i) cl i" "0x40000000 \<le> a"
  shows "view s' cl a = view s pd a"
proof (rule view_cong [OF _ _ assms(2)])
  fix n :: nat assume n: "262144 \<le> n" "n < 1048576"
  let ?i = "n div 1024" and ?j = "n mod 1024" and ?T = "tables (directory (kern s) pd) (n div 1024)"
  have "256 \<le> ?i" "?i < 1024" using n by (simp_all add: less_eq_div_iff_mult_less_eq less_mult_imp_div_less)
  then have "?i \<in> set high" by simp
  then have e: "entry_copy (kern s) (kern s') ?T cl ?i" using assms(1) by blast
  show "in_use (kern s') (slot_of (kern s') cl n) \<longleftrightarrow> in_use (kern s) (slot_of (kern s) pd n)"
  proof (cases "?T = 0")
    case True
    then show ?thesis using e by (simp add: entry_copy_def in_use_def slot_of_def)
  next
    case False
    then obtain q where q: "tables (directory (kern s') cl) ?i = adr q" "adr q \<noteq> 0" "table_copy (kern s) (kern s') ?T (adr q)"
      using e by (auto simp: entry_copy_def)
    have "?j \<in> table_pages_of (kern s') (adr q) \<longleftrightarrow> ?j \<in> table_pages_of (kern s) ?T"
      using table_copy_pages [OF q(3)] by simp
    then show ?thesis using False q(1,2)
      by (simp add: in_use_def slot_of_def table_pages_of_def present_in_def entry_at_def)
  qed
  fix i :: nat assume i: "i < 4096" "in_use (kern s) (slot_of (kern s) pd n)"
  then have nz: "?T \<noteq> 0" "present (entry_at (kern s) (?T, ?j))" by (simp_all add: in_use_def slot_of_def)
  then obtain q where q: "tables (directory (kern s') cl) ?i = adr q" "table_copy (kern s) (kern s') ?T (adr q)"
    using e by (auto simp: entry_copy_def)
  then show "frame_bytes (kern s') (slot_frame (kern s') (slot_of (kern s') cl n)) i =
      frame_bytes (kern s) (slot_frame (kern s) (slot_of (kern s) pd n)) i"
    using nz(2) i(1) by (auto simp: table_copy_def slot_of_def)
qed

lemma extended_view:
  assumes "extended (kern s) (kern s') B cl UNIV" "pd \<noteq> cl"
    "\<forall>i \<in> set high. tables (directory (kern s) pd) i \<noteq> 0 \<longrightarrow> source_ok B (kern s) (tables (directory (kern s) pd) i)"
    "0x40000000 \<le> a"
  shows "view s' pd a = view s pd a"
proof (rule view_cong [OF _ _ assms(4)])
  fix n :: nat assume n: "262144 \<le> n" "n < 1048576"
  let ?i = "n div 1024" and ?T = "tables (directory (kern s) pd) (n div 1024)"
  have i: "256 \<le> ?i" "?i < 1024" using n by (simp_all add: less_eq_div_iff_mult_less_eq less_mult_imp_div_less)
  have T: "tables (directory (kern s') pd) ?i = ?T" using extended_dir(1) [OF assms(1) i(1)] assms(2) by simp
  have e: "entry_at (kern s') (?T, n mod 1024) = entry_at (kern s) (?T, n mod 1024)" if "?T \<noteq> 0"
    using extended_source(1) [OF assms(1) order_refl] assms(3) i that by (simp add: source_ok_def entry_at_def)
  show "in_use (kern s') (slot_of (kern s') pd n) \<longleftrightarrow> in_use (kern s) (slot_of (kern s) pd n)"
    using e by (auto simp: in_use_def slot_of_def T)
  fix b :: nat assume b: "b < 4096" "in_use (kern s) (slot_of (kern s) pd n)"
  then have nz: "?T \<noteq> 0" "n mod 1024 \<in> table_pages_of (kern s) ?T"
    by (simp_all add: in_use_def slot_of_def table_pages_of_def present_in_def entry_at_def)
  then have "bm_bit (available_frames (kern s)) (slot_frame (kern s) (?T, n mod 1024))"
    using assms(3) i by (simp add: source_ok_def)
  then show "frame_bytes (kern s') (slot_frame (kern s') (slot_of (kern s') pd n)) b =
      frame_bytes (kern s) (slot_frame (kern s) (slot_of (kern s) pd n)) b"
    using assms(1) b(1) slot_frame_less [of "kern s" "(?T, n mod 1024)"] e [OF nz(1)]
    by (simp add: slot_of_def T slot_frame_def extended_def)
qed

section \<open>Isolation\<close>

lemma in_use_dir_slots:
  assumes "262144 \<le> n" "n < 1048576" "in_use k (slot_of k pd n)"
  shows "slot_of k pd n \<in> dir_slots k pd (set high)"
proof -
  have "256 \<le> n div 1024" "n div 1024 < 1024"
    using assms(1,2) by (simp_all add: less_eq_div_iff_mult_less_eq less_mult_imp_div_less)
  then show ?thesis
    using assms(3) by (auto simp: dir_slots_def slot_of_def in_use_def table_pages_of_def present_in_def entry_at_def)
qed

lemma frame_apart: "f \<noteq> g \<Longrightarrow> i < 4096 \<Longrightarrow> c < 4096 \<Longrightarrow> f * 4096 + i \<noteq> g * 4096 + (c::nat)"
proof
  assume a: "f \<noteq> g" "i < 4096" "c < 4096" "f * 4096 + i = g * 4096 + c"
  then have "(f * 4096 + i) div 4096 = (g * 4096 + c) div 4096" by simp
  then show False using a(1-3) by simp
qed

lemma isolated:
  assumes o: "owned (kern s) S" and pd: "dir_slots (kern s) pd (set high) \<subseteq> S" "dir_slots (kern s) pd' (set high) \<subseteq> S"
    "dir_slots (kern s) pd (set high) \<inter> dir_slots (kern s) pd' (set high) = {}"
    and w: "write_byte a v (ram s) ((kern s)\<lparr>loaded_directory := pd\<rparr>) = Inr (m', k')"
    and a: "0x40000000 \<le> a" "0x40000000 \<le> b"
  shows "view (s\<lparr>ram := m', kern := k'\<rparr>) pd' b = view s pd' b"
proof -
  let ?k = "kern s"
  obtain n i where n: "a = adr (n * 4096 + i)" "n < 1048576" "i < 4096" "a < 0x40000000 \<longleftrightarrow> n < 262144"
    by (rule page_address)
  have n1: "262144 \<le> n" using n(4) a(1) by (simp add: not_less [symmetric])
  let ?x = "slot_of ?k pd n"
  have x: "in_use ?k ?x" and k': "m' = ram s"
    "k' = ?k\<lparr>loaded_directory := pd, phys := (phys ?k)(adr (slot_frame ?k ?x * 4096 + i) := v)\<rparr>"
    using w a(1) translate_page [OF n(2,3), of pd ?k] by (auto simp: write_byte_def n(1) not_le split: if_splits)
  have xS: "?x \<in> dir_slots ?k pd (set high)" by (rule in_use_dir_slots [OF n1 n(2) x])
  have same: "directory k' = directory ?k" "entry_at k' = entry_at ?k" "slot_frame k' = slot_frame ?k"
    by (simp_all add: k' fun_eq_iff directory_def entry_at_def slot_frame_def)
  then have so: "slot_of k' pd' l = slot_of ?k pd' l" "in_use k' = in_use ?k" for l
    by (simp_all add: slot_of_def in_use_def fun_eq_iff)
  show ?thesis
  proof (rule view_cong [OF _ _ a(2)])
    fix l :: nat assume l: "262144 \<le> l" "l < 1048576"
    let ?y = "slot_of ?k pd' l"
    show "in_use (kern (s\<lparr>ram := m', kern := k'\<rparr>)) (slot_of (kern (s\<lparr>ram := m', kern := k'\<rparr>)) pd' l) \<longleftrightarrow> in_use ?k ?y"
      by (simp add: so)
    fix c :: nat assume c: "c < 4096" "in_use ?k ?y"
    have yS: "?y \<in> dir_slots ?k pd' (set high)" by (rule in_use_dir_slots [OF l c(2)])
    have "?x \<noteq> ?y"
    proof
      assume "?x = ?y"
      then have "?x \<in> dir_slots ?k pd (set high) \<inter> dir_slots ?k pd' (set high)" using xS yS by (simp only: IntI)
      then show False unfolding pd(3) by (rule emptyE)
    qed
    moreover have "?x \<in> S" "?y \<in> S" by (rule subsetD [OF pd(1) xS], rule subsetD [OF pd(2) yS])
    moreover have "inj_on (slot_frame ?k) S" using o unfolding owned_def by (rule conjunct1)
    ultimately have "slot_frame ?k ?x \<noteq> slot_frame ?k ?y" by (metis inj_onD)
    then have "slot_frame ?k ?x * 4096 + i \<noteq> slot_frame ?k ?y * 4096 + c" by (rule frame_apart [OF _ n(3) c(1)])
    moreover have "slot_frame ?k ?x * 4096 + i < 4294967296" "slot_frame ?k ?y * 4096 + c < 4294967296"
      using slot_frame_less [of ?k ?x] slot_frame_less [of ?k ?y] n(3) c(1) by linarith+
    ultimately show "frame_bytes (kern (s\<lparr>ram := m', kern := k'\<rparr>)) (slot_frame (kern (s\<lparr>ram := m', kern := k'\<rparr>)) (slot_of (kern (s\<lparr>ram := m', kern := k'\<rparr>)) pd' l)) c =
        frame_bytes ?k (slot_frame ?k ?y) c"
      by (simp add: so same frame_bytes_def) (simp add: k' adr_inject)
  qed
qed

text \<open>
  C36: cloning an address space.  The clone is made without a fault or a failed
  assertion while pages, frames and cells are left, the new directory is in a new block
  of the heap, and every address of process memory reads the same byte, or faults,
  through the clone as it did through the original; the original still reads the same,
  and the tables of the kernel's gigabyte are the very same tables.
\<close>

theorem clone_reads_same:
  assumes "machine_ok bs S (c + 3 * length (dir_tables (kern s) pd high) + 4) (d + dir_pages (kern s) pd high)
      (Suc (j + length (dir_tables (kern s) pd high))) s"
    and "dirs_ok (blocks_at bs) (kern s)" "shares_kernel (kern s) pd"
    and "\<forall>i \<in> set high. tables (directory (kern s) pd) i \<noteq> 0 \<longrightarrow>
       source_ok (blocks_at bs) (kern s) (tables (directory (kern s) pd) i)"
  shows "\<exists>q s'. paging_clone_page_directory_for_new_process garbage pd s = Some (Inr (adr q, s')) \<and> q \<notin> blocks_at bs \<and>
    (\<forall>a \<ge> 0x40000000. view s' (adr q) a = view s pd a \<and> view s' pd a = view s pd a) \<and>
    (\<forall>i < 256. tables (directory (kern s') (adr q)) i = tables (directory (kern s') pd) i)"
proof -
  obtain q s' bs' where 1: "paging_clone_page_directory_for_new_process garbage pd s = Some (Inr (adr q, s'))" "q \<notin> blocks_at bs"
    "machine_ok bs' (S \<union> dir_slots (kern s') (adr q) (set high)) c d j s'" "q \<in> blocks_at bs'"
    "extended (kern s) (kern s') (blocks_at bs) (adr q) UNIV"
    "\<forall>i < 256. tables (directory (kern s') (adr q)) i = tables (directory (kern s') pd) i"
    "\<forall>i \<in> set high. entry_copy (kern s) (kern s') (tables (directory (kern s) pd) i) (adr q) i"
    using clone_ok [OF assms, of garbage] by blast
  have "pd \<noteq> adr q"
  proof
    assume "pd = adr q"
    then have "adr q \<in> adr ` blocks_at bs \<or> unat (adr q) < heap_start" using assms(2,3) unfolding dirs_ok_def by blast
    moreover have "adr q \<notin> adr ` blocks_at bs"
      by (rule adr_fresh [OF 1(2) heap_range(2) [OF 1(3,4)]]) (use heap_range(2) [OF assms(1)] in blast)
    moreover have "unat (adr q) = q" "5308428 \<le> q" using heap_range(1,2) [OF 1(3,4)] by simp_all
    ultimately show False by simp
  qed
  then show ?thesis
    using 1 entry_copy_view [OF 1(7)] extended_view [OF 1(5) _ assms(4)] by blast
qed

text \<open>
  C37: a clone is independent of its original.  After the clone was made, no write to
  process memory through one of the two directories changes a byte that is read through
  the other.
\<close>

theorem clone_independent:
  assumes "machine_ok bs S (c + 3 * length (dir_tables (kern s) pd high) + 4) (d + dir_pages (kern s) pd high)
      (Suc (j + length (dir_tables (kern s) pd high))) s"
    and "dirs_ok (blocks_at bs) (kern s)" "shares_kernel (kern s) pd"
    and "\<forall>i \<in> set high. tables (directory (kern s) pd) i \<noteq> 0 \<longrightarrow>
       source_ok (blocks_at bs) (kern s) (tables (directory (kern s) pd) i)"
    and own: "dir_slots (kern s) pd (set high) \<subseteq> S"
  shows "\<exists>q s'. paging_clone_page_directory_for_new_process garbage pd s = Some (Inr (adr q, s')) \<and>
    (\<forall>a b v m' k'. 0x40000000 \<le> a \<and> 0x40000000 \<le> b \<longrightarrow>
       (write_byte a v (ram s') ((kern s')\<lparr>loaded_directory := pd\<rparr>) = Inr (m', k') \<longrightarrow>
          view (s'\<lparr>ram := m', kern := k'\<rparr>) (adr q) b = view s' (adr q) b) \<and>
       (write_byte a v (ram s') ((kern s')\<lparr>loaded_directory := adr q\<rparr>) = Inr (m', k') \<longrightarrow>
          view (s'\<lparr>ram := m', kern := k'\<rparr>) pd b = view s' pd b))"
proof -
  obtain q s' bs' where 1: "paging_clone_page_directory_for_new_process garbage pd s = Some (Inr (adr q, s'))" "q \<notin> blocks_at bs"
    "machine_ok bs' (S \<union> dir_slots (kern s') (adr q) (set high)) c d j s'" "q \<in> blocks_at bs'"
    "extended (kern s) (kern s') (blocks_at bs) (adr q) UNIV" "blocks_at bs \<subseteq> blocks_at bs'"
    "\<forall>i \<in> set high. tables (directory (kern s') (adr q)) i \<noteq> 0 \<longrightarrow>
       tables (directory (kern s') (adr q)) i \<in> adr ` (blocks_at bs' - insert q (blocks_at bs))"
    using clone_ok [OF assms(1-4), of garbage] by blast
  let ?cl = "dir_slots (kern s') (adr q) (set high)" and ?pd = "dir_slots (kern s') pd (set high)"
  have low: "b < 1073741824" if "b \<in> blocks_at bs'" for b using heap_range(2) [OF 1(3) that] .
  have "pd \<noteq> adr q"
  proof
    assume "pd = adr q"
    then have "adr q \<in> adr ` blocks_at bs \<or> unat (adr q) < heap_start" using assms(2,3) unfolding dirs_ok_def by blast
    moreover have "adr q \<notin> adr ` blocks_at bs" by (rule adr_fresh [OF 1(2) low [OF 1(4)]]) (use low 1(6) in blast)
    moreover have "unat (adr q) = q" "5308428 \<le> q" using heap_range(1,2) [OF 1(3,4)] by simp_all
    ultimately show False by simp
  qed
  then have T: "tables (directory (kern s') pd) i = tables (directory (kern s) pd) i" if "i \<in> set high" for i
    using extended_dir(1) [OF 1(5)] that by simp
  have P: "table_pages_of (kern s') (tables (directory (kern s) pd) i) = table_pages_of (kern s) (tables (directory (kern s) pd) i)"
    if "i \<in> set high" "tables (directory (kern s) pd) i \<noteq> 0" for i
    using extended_source(2) [OF 1(5) order_refl] assms(4) that by (simp add: source_ok_def)
  have pdS: "?pd \<subseteq> S"
  proof
    fix x assume "x \<in> ?pd"
    then have "x \<in> dir_slots (kern s) pd (set high)" using T P by (fastforce simp: dir_slots_def)
    then show "x \<in> S" using own by (rule subsetD [rotated])
  qed
  have S: "fst ` S \<subseteq> adr ` blocks_at bs" using assms(1) by (simp add: machine_ok_def)
  have disj: "x \<notin> ?cl" if x: "x \<in> S" for x
  proof
    assume "x \<in> ?cl"
    then obtain i where "i \<in> set high" "tables (directory (kern s') (adr q)) i \<noteq> 0" "fst x = tables (directory (kern s') (adr q)) i"
      by (auto simp: dir_slots_def)
    then have "fst x \<in> adr ` (blocks_at bs' - insert q (blocks_at bs))" using 1(7) by simp
    then obtain b where b: "fst x = adr b" "b \<in> blocks_at bs' - insert q (blocks_at bs)" by (rule imageE)
    have "fst x \<in> adr ` blocks_at bs" using S x by blast
    moreover have "adr b \<notin> adr ` blocks_at bs"
      by (rule adr_fresh) (use b(2) low 1(6) in blast)+
    ultimately show False using b(1) by simp
  qed
  have o: "owned (kern s') (S \<union> ?cl)" using 1(3) by (simp add: machine_ok_def space_ready_def)
  have sub: "?pd \<subseteq> S \<union> ?cl" "?cl \<subseteq> S \<union> ?cl" using pdS by blast+
  have d: "?pd \<inter> ?cl = {}" "?cl \<inter> ?pd = {}" using pdS disj by blast+
  show ?thesis
    using 1(1) isolated [OF o sub d(1)] isolated [OF o sub(2,1) d(2)] by blast
qed

section \<open>Releasing a space\<close>

definition stack_address :: "u32 \<Rightarrow> bool" where
  "stack_address a \<longleftrightarrow> is_page_part_of_kernel_stack_in_process_address_space (a div 4096)"

lemma cleaned_view:
  assumes u: "unmapped (kern s) (kern s') (user_slots (kern s) pd (set high))" "dir_cleaned (kern s) (kern s') pd (set high)"
    and inj: "inj_on (tables (directory (kern s) pd)) {i \<in> set high. tables (directory (kern s) pd) i \<noteq> 0}"
    and a: "0x40000000 \<le> a"
  shows "view s' pd a = (if stack_address a then view s pd a else Inl Page_fault)"
proof -
  obtain n i where n: "a = adr (n * 4096 + i)" "n < 1048576" "i < 4096" "a < 0x40000000 \<longleftrightarrow> n < 262144" "a div 4096 = adr n"
    by (rule page_address)
  have n1: "262144 \<le> n" using n(4) a by (simp add: not_less [symmetric])
  let ?k = "kern s" and ?k' = "kern s'" and ?i = "n div 1024" and ?j = "n mod 1024"
  let ?T = "tables (directory ?k pd) ?i" and ?U = "user_slots ?k pd (set high)"
  have "256 \<le> ?i" "?i < 1024" using n1 n(2) by (simp_all add: less_eq_div_iff_mult_less_eq less_mult_imp_div_less)
  then have ih: "?i \<in> set high" by simp
  have st: "stack_address a \<longleftrightarrow> stack_page ?i ?j" by (simp add: stack_address_def stack_page_def n(5) adr_def)
  have mem: "(?T, ?j) \<in> ?U \<longleftrightarrow> ?j \<in> user_pages ?k ?T ?i" if "?T \<noteq> 0"
  proof
    assume "(?T, ?j) \<in> ?U"
    then obtain l where l: "l \<in> set high" "tables (directory ?k pd) l = ?T" "?j \<in> user_pages ?k ?T l"
      unfolding user_slots_def by auto
    then have "l = ?i" using inj_onD [OF inj l(2)] ih that by simp
    then show "?j \<in> user_pages ?k ?T ?i" using l(3) by simp
  qed (use ih that in \<open>auto simp: user_slots_def\<close>)
  have used: "in_use ?k (slot_of ?k pd n) \<longleftrightarrow> ?T \<noteq> 0 \<and> ?j \<in> table_pages_of ?k ?T"
    by (simp add: in_use_def slot_of_def table_pages_of_def present_in_def entry_at_def)
  show ?thesis
  proof (cases "?T \<noteq> 0 \<and> keeps_stack ?k pd ?i")
    case True
    then have T': "slot_of ?k' pd n = slot_of ?k pd n" using u(2) ih by (simp add: dir_cleaned_def slot_of_def)
    have e: "entry_at ?k' (?T, ?j) = (if ?j \<in> user_pages ?k ?T ?i then zero_entry else entry_at ?k (?T, ?j))"
      using u(1) mem True by (simp add: unmapped_def)
    show ?thesis
    proof (cases "?j \<in> user_pages ?k ?T ?i")
      case user: True
      then have "\<not> in_use ?k' (slot_of ?k' pd n)" using e by (simp add: T' in_use_def) (simp add: slot_of_def zero_entry_def)
      moreover have "\<not> stack_address a" using user st by (simp add: user_pages_def)
      ultimately show ?thesis unfolding n(1) view_page [OF n1 n(2,3)] by simp
    next
      case kept: False
      then have same: "entry_at ?k' (slot_of ?k pd n) = entry_at ?k (slot_of ?k pd n)" using e by (simp add: slot_of_def)
      then have "in_use ?k' (slot_of ?k' pd n) \<longleftrightarrow> in_use ?k (slot_of ?k pd n)"
        "slot_frame ?k' (slot_of ?k' pd n) = slot_frame ?k (slot_of ?k pd n)"
        by (simp_all add: T' in_use_def slot_frame_def)
      moreover have "frame_bytes ?k' = frame_bytes ?k" using u(1) by (simp add: unmapped_def frame_bytes_def fun_eq_iff)
      moreover have "stack_address a \<or> \<not> in_use ?k (slot_of ?k pd n)" using kept used st by (auto simp: user_pages_def)
      ultimately show ?thesis unfolding n(1) view_page [OF n1 n(2,3)] by auto
    qed
  next
    case False
    then have "\<not> in_use ?k' (slot_of ?k' pd n)"
      using u(2) ih by (cases "?T = 0") (simp_all add: dir_cleaned_def slot_of_def in_use_def)
    moreover have "stack_address a \<Longrightarrow> \<not> in_use ?k (slot_of ?k pd n)" using False used st by (auto simp: keeps_stack_def)
    ultimately show ?thesis unfolding n(1) view_page [OF n1 n(2,3)] by simp
  qed
qed

lemma cleaned_other_view:
  assumes u: "unmapped (kern s) (kern s') (user_slots (kern s) pd (set high))" "dir_cleaned (kern s) (kern s') pd (set high)"
    and pd: "pd' \<noteq> pd" "dir_slots (kern s) pd' (set high) \<inter> dir_slots (kern s) pd (set high) = {}" and a: "0x40000000 \<le> a"
  shows "view s' pd' a = view s pd' a"
proof (rule view_cong [OF _ _ a])
  let ?k = "kern s" and ?k' = "kern s'"
  fix n :: nat assume n: "262144 \<le> n" "n < 1048576"
  let ?x = "slot_of ?k pd' n"
  have T: "slot_of ?k' pd' n = ?x" using u(2) pd(1) by (simp add: dir_cleaned_def slot_of_def)
  have sub: "user_slots ?k pd (set high) \<subseteq> dir_slots ?k pd (set high)"
    by (auto simp: user_slots_def dir_slots_def user_pages_def)
  have same: "entry_at ?k' ?x = entry_at ?k ?x" if "in_use ?k ?x"
  proof -
    have "?x \<notin> user_slots ?k pd (set high)" using in_use_dir_slots [OF n that] pd(2) sub by blast
    then show ?thesis using u(1) unfolding unmapped_def by metis
  qed
  have z: "entry_at ?k' ?x = entry_at ?k ?x \<or> entry_at ?k' ?x = zero_entry" using u(1) unfolding unmapped_def by metis
  show "in_use ?k' (slot_of ?k' pd' n) \<longleftrightarrow> in_use ?k ?x"
    using same z by (auto simp: T in_use_def zero_entry_def)
  show "frame_bytes ?k' (slot_frame ?k' (slot_of ?k' pd' n)) i = frame_bytes ?k (slot_frame ?k ?x) i" if "in_use ?k ?x" for i
    using same [OF that] u(1) by (simp add: T slot_frame_def frame_bytes_def unmapped_def)
qed

text \<open>
  C38: releasing a space.  When the tables of the space lie in blocks of the heap and its
  pages own their frames, the release never fails an assertion; afterwards an address
  of process memory still reads as before if it belongs to the kernel stack of the
  process and faults otherwise, exactly the frames of the other pages have become free,
  and what is read through any space with other pages is unchanged.
\<close>

theorem release_exact:
  assumes "machine_ok bs S c d (j + length (dir_tables (kern s) pd high)) s" "pd \<noteq> kernel_page_directory (kern s)"
    and "\<forall>i \<in> set high. tables (directory (kern s) pd) i \<noteq> 0 \<longrightarrow> tables (directory (kern s) pd) i \<in> adr ` (blocks_at bs - {5308428})"
    and "inj_on (tables (directory (kern s) pd)) {i \<in> set high. tables (directory (kern s) pd) i \<noteq> 0}"
    and "\<forall>i \<in> set high. tables (directory (kern s) pd) i \<noteq> 0 \<longrightarrow>
       {l. (tables (directory (kern s) pd) i, l) \<in> S} = table_pages_of (kern s) (tables (directory (kern s) pd) i)"
  shows "\<exists>s'. paging_clean_all_non_kernel_pages_from_page_directory garbage pd s = Inr s' \<and>
    (\<forall>a \<ge> 0x40000000. view s' pd a = (if stack_address a then view s pd a else Inl Page_fault)) \<and>
    (\<forall>n. bm_bit (available_frames (kern s')) n \<longleftrightarrow>
       bm_bit (available_frames (kern s)) n \<and> n \<notin> slot_frame (kern s) ` user_slots (kern s) pd (set high)) \<and>
    free_frames (kern s') = free_frames (kern s) + card (user_slots (kern s) pd (set high)) \<and>
    (\<forall>pd' a. pd' \<noteq> pd \<and> dir_slots (kern s) pd' (set high) \<inter> dir_slots (kern s) pd (set high) = {} \<and> 0x40000000 \<le> a \<longrightarrow>
       view s' pd' a = view s pd' a)"
proof -
  obtain s' bs' where 1: "clean_tables garbage pd high s = Inr s'"
    "unmapped (kern s) (kern s') (user_slots (kern s) pd (set high))" "dir_cleaned (kern s) (kern s') pd (set high)"
    using clean_tables_ok [OF high_facts(2) assms] by blast
  have "paging_clean_all_non_kernel_pages_from_page_directory garbage pd s = Inr s'"
    using 1(1) by (simp only: paging_clean_all_non_kernel_pages_from_page_directory_def high_def)
  then show ?thesis
    using cleaned_view [OF 1(2,3) assms(4)] cleaned_other_view [OF 1(2,3)] 1(2) by (intro exI [of _ s']) (simp add: unmapped_def)
qed

section \<open>A process on a booted machine\<close>

text \<open>The sample kernel with its process's directory loaded, and a heap of one page.\<close>

definition process_kernel :: Kernel where
  "process_kernel = sample_kernel\<lparr>loaded_directory := 0x30000\<rparr>"

lemma loaded_kernel_ready: "kernel_ready n c (k\<lparr>loaded_directory := pd\<rparr>) \<longleftrightarrow> kernel_ready n c k"
proof -
  let ?k = "k\<lparr>loaded_directory := pd\<rparr>"
  have 1: "kernel_dir ?k = kernel_dir k" by (simp add: kernel_dir_def directory_def)
  have 2: "mapped ?k = mapped k" "frame_of ?k = frame_of k" by (simp_all add: fun_eq_iff mapped_def frame_of_def 1)
  have 3: "paging_ok ?k \<longleftrightarrow> paging_ok k" by (simp add: paging_ok_def 1 2 frames_ok_def)
  have "ring ?k ps \<longleftrightarrow> ring k ps" for ps using path_cong [of ?k k] by (simp add: ring_def)
  then show ?thesis by (simp add: kernel_ready_def 1 2 3 nulls_def free_frames_def)
qed

lemma booted_with:
  "\<exists>h m k bs. kalloc_init True kernel_pager (adr 1) m0 process_kernel = Some (Inr (adr 5308428, h, m, k)) \<and>
     machine_ok bs {} 100 100 10 \<lparr>heap = h, ram = m, kern = k\<rparr> \<and> grown process_kernel k \<and>
     outside 5242880 5312512 m0 m"
proof -
  have "kernel_ready 1280 1000 process_kernel"
    unfolding process_kernel_def loaded_kernel_ready by (rule sample_ready) simp_all
  then have r: "kernel_ready 1280 117 process_kernel" "117 + 100 + nulls process_kernel \<le> free_frames process_kernel"
    using kernel_ready_less [of 1280 117 883 process_kernel] by (simp_all add: kernel_ready_def)
  moreover have "mapped process_kernel x" if "1280 \<le> x \<and> x < 1280" for x using that by linarith
  ultimately have "space_ready process_kernel {} 100 1280 (16 + 1 + 0 + 100) process_kernel"
    by (auto simp: space_ready_def)
  from spaces.init_ok [OF this, of True m0]
  obtain h m k bs where 1: "kalloc_init True kernel_pager (adr 1) m0 process_kernel = Some (Inr (adr 5308428, h, m, k))"
    "heap_ok h m 5308416 bs" "anchored 5308416 bs" "ext bs = 4096" "3275 \<le> avl_spare (avl h)"
    "space_ready process_kernel {} 100 1297 100 k"
    "outside 5242880 5312512 m0 m"
    by auto
  have "space_ready k {} 100 1297 100 k" using space_ready_less [of process_kernel "{}" 100 1297 100 0 k] 1(6) by simp
  then have "machine_ok bs {} 100 100 10 \<lparr>heap = h, ram = m, kern = k\<rparr>"
    using 1(2-5) by (simp add: machine_ok_def)
  moreover have "grown process_kernel k" using 1(6) by (simp add: space_ready_def)
  ultimately show ?thesis using 1(1,7) by blast
qed

lemma booted_machine:
  "\<exists>h m k bs. kalloc_init True kernel_pager (adr 1) (\<lambda>x. 0) process_kernel = Some (Inr (adr 5308428, h, m, k)) \<and>
     machine_ok bs {} 100 100 10 \<lparr>heap = h, ram = m, kern = k\<rparr> \<and> grown process_kernel k"
  using booted_with [of "\<lambda>x. 0"] by blast

lemma process_kernel_facts:
  "kernel_page_directory process_kernel = 0x20000" "loaded_directory process_kernel = 0x30000"
  "page_directory (processes process_kernel p) = 0x30000"
  "256 \<le> i \<Longrightarrow> tables (directory process_kernel pd) i = 0"
  by (simp_all add: process_kernel_def sample_kernel_def directory_def)

lemma process_kernel_shares: "shares_kernel process_kernel pd \<longleftrightarrow> pd = 0x20000 \<or> pd = 0x30000"
proof -
  have "reachable process_kernel (active_process process_kernel)" unfolding reachable_def by (intro exI [of _ 0]) simp
  then show ?thesis by (auto simp: shares_kernel_def process_kernel_facts)
qed

text \<open>A process with one page of its own, at 0x40000000.\<close>

lemma sample_process:
  "\<exists>h m k f s bs T. kalloc_init True kernel_pager (adr 1) (\<lambda>x. 0) process_kernel = Some (Inr (adr 5308428, h, m, k)) \<and>
     paging_create_process_page_with_any_frame True 0x30000 (adr 262144) True \<lparr>heap = h, ram = m, kern = k\<rparr> = Some (Inr (f, s)) \<and>
     machine_ok bs {(adr T, 0)} 97 99 9 s \<and> T \<in> blocks_at bs \<and> T \<noteq> 5308428 \<and>
     tables (directory (kern s) 0x30000) 256 = adr T \<and>
     (\<forall>i \<in> set high. i \<noteq> 256 \<longrightarrow> tables (directory (kern s) 0x30000) i = 0) \<and>
     table_pages_of (kern s) (adr T) = {0} \<and> kernel_page_directory (kern s) = 0x20000 \<and>
     shares_kernel (kern s) = shares_kernel process_kernel \<and>
     view s 0x30000 0x40000000 = Inr 0xAB"
proof -
  obtain h m k bs where 1: "kalloc_init True kernel_pager (adr 1) (\<lambda>x. 0) process_kernel = Some (Inr (adr 5308428, h, m, k))"
    "machine_ok bs {} 100 100 10 \<lparr>heap = h, ram = m, kern = k\<rparr>" "grown process_kernel k"
    using booted_machine by blast
  let ?s = "\<lparr>heap = h, ram = m, kern = k\<rparr>"
  have k: "kernel_page_directory k = 0x20000" "loaded_directory k = 0x30000" "shares_kernel k = shares_kernel process_kernel"
    using grown_same [OF 1(3)] by (simp_all add: process_kernel_facts)
  have d: "tables (directory k 0x30000) i = 0" if "256 \<le> i" for i
    using 1(3) that process_kernel_facts(4) [OF that] by (simp add: grown_def)
  have m: "machine_ok bs {} (97 + 3) (99 + 1) (Suc 9) ?s" using 1(2) by simp
  have p: "(0x30000 :: u32) \<noteq> kernel_page_directory (kern ?s)" "loaded_directory (kern ?s) = 0x30000"
    "tables (directory (kern ?s) 0x30000) (262144 div 1024) = 0"
    using k d [of 256] by simp_all
  have x: "(262144 :: nat) \<le> 262144" "(262144 :: nat) < 1048576" by simp_all
  obtain f s bs' t k1 where 0: "paging_create_process_page_with_any_frame True 0x30000 (adr 262144) True ?s = Some (Inr (adr f, s))"
    "machine_ok bs' (insert (t, 262144 mod 1024) {}) 97 99 9 s" "tables (directory (kern s) 0x30000) (262144 div 1024) = t"
    "t \<in> adr ` blocks_at bs'" "extended (kern ?s) k1 (blocks_at bs) 0x30000 {262144 div 1024}" "same_kernel k1 (kern s)"
    "page_made k1 (kern s) f t (262144 mod 1024) True"
    "if tables (directory (kern ?s) 0x30000) (262144 div 1024) = 0
     then t \<notin> adr ` blocks_at bs \<and> page_tables k1 t = (\<lambda>j. zero_entry)
     else t = tables (directory (kern ?s) 0x30000) (262144 div 1024)"
    using process_page_ok [OF m p(1,2) x disjI1 [OF p(3)], of True True] by (elim exE conjE) (rule that; assumption)
  then have 2: "paging_create_process_page_with_any_frame True 0x30000 (adr 262144) True ?s = Some (Inr (adr f, s))"
    "machine_ok bs' {(t, 0)} 97 99 9 s" "tables (directory (kern s) 0x30000) 256 = t" "t \<in> adr ` blocks_at bs'"
    "extended k k1 (blocks_at bs) 0x30000 {256}" "same_kernel k1 (kern s)" "page_made k1 (kern s) f t 0 True"
    "t \<notin> adr ` blocks_at bs" "page_tables k1 t = (\<lambda>j. zero_entry)"
    using p(3) by simp_all
  obtain T where T: "t = adr T" "T \<in> blocks_at bs'" using 2(4) by (rule imageE)
  note h = heap_range [OF 2(2) T(2)]
  have "5308428 \<in> blocks_at bs"
  proof -
    have e: "heap_start + 12 = (5308428 :: nat)" by simp
    have "anchored heap_start bs" using 1(2) by (simp only: machine_ok_def)
    then show ?thesis unfolding anchored_def e .
  qed
  then have "adr 5308428 \<in> adr ` blocks_at bs" by (rule imageI)
  then have ne: "T \<noteq> 5308428" using 2(8) T(1) by metis
  have fo: "directory (kern s) = directory k1" using 2(7) frames_only_same by (simp add: page_made_def)
  have z: "tables (directory (kern s) 0x30000) i = 0" if "i \<in> set high" "i \<noteq> 256" for i
    using extended_dir(1) [OF 2(5), of i "0x30000"] d [of i] that by (simp add: fo)
  have pages: "table_pages_of (kern s) (adr T) = {0}"
  proof -
    have "present (page_tables (kern s) t j) \<longleftrightarrow> j = 0" for j
      using 2(7,9) by (cases "j = 0") (simp_all add: page_made_def entry_at_def zero_entry_def)
    then have "present_in (kern s) (adr T) js = {0}" if "0 \<in> set js" for js using that by (auto simp: present_in_def T(1))
    moreover have "0 \<in> set [0..<n]" if "0 < n" for n :: nat using that by simp
    ultimately show ?thesis unfolding table_pages_of_def by (metis zero_less_numeral)
  qed
  have kp: "kernel_page_directory (kern s) = 0x20000" using 2(5,6) k(1) by (simp add: extended_def same_kernel_def)
  have sh: "shares_kernel (kern s) = shares_kernel process_kernel"
    using extended_shares [OF 2(5)] k(3) 2(6) by (simp add: shares_kernel_def reachable_def same_kernel_def fun_eq_iff)
  have "view s 0x30000 (adr (262144 * 4096 + 0)) = Inr 0xAB"
    using 2(3,7) h(4) T(1) by (subst view_page) (simp_all add: in_use_def slot_of_def page_made_def frame_bytes_def)
  then have v: "view s 0x30000 0x40000000 = Inr 0xAB" by (simp add: adr_def)
  have "machine_ok bs' {(adr T, 0)} 97 99 9 s" using 2(2) T(1) by simp
  then show ?thesis
    using 1(1) 2(1,3) T ne z pages kp sh v by (intro exI [of _ h] exI [of _ m] exI [of _ k] exI [of _ "adr f"] exI [of _ s] exI [of _ bs'] exI [of _ T]) simp
qed

lemma sample_ready_to_clone:
  "\<exists>h m k f s bs S. kalloc_init True kernel_pager (adr 1) (\<lambda>x. 0) process_kernel = Some (Inr (adr 5308428, h, m, k)) \<and>
     paging_create_process_page_with_any_frame True 0x30000 (adr 262144) True \<lparr>heap = h, ram = m, kern = k\<rparr> = Some (Inr (f, s)) \<and>
     machine_ok bs S (90 + 3 * length (dir_tables (kern s) 0x30000 high) + 4) (98 + dir_pages (kern s) 0x30000 high)
       (Suc (7 + length (dir_tables (kern s) 0x30000 high))) s \<and>
     dirs_ok (blocks_at bs) (kern s) \<and> shares_kernel (kern s) 0x30000 \<and>
     (\<forall>i \<in> set high. tables (directory (kern s) 0x30000) i \<noteq> 0 \<longrightarrow>
        source_ok (blocks_at bs) (kern s) (tables (directory (kern s) 0x30000) i) \<and>
        tables (directory (kern s) 0x30000) i \<in> adr ` (blocks_at bs - {5308428}) \<and>
        {l. (tables (directory (kern s) 0x30000) i, l) \<in> S} = table_pages_of (kern s) (tables (directory (kern s) 0x30000) i)) \<and>
     dir_slots (kern s) 0x30000 (set high) \<subseteq> S \<and> 0x30000 \<noteq> kernel_page_directory (kern s) \<and>
     inj_on (tables (directory (kern s) 0x30000)) {i \<in> set high. tables (directory (kern s) 0x30000) i \<noteq> 0} \<and>
     view s 0x30000 0x40000000 = Inr 0xAB"
proof -
  obtain h m k f s bs T where 1: "kalloc_init True kernel_pager (adr 1) (\<lambda>x. 0) process_kernel = Some (Inr (adr 5308428, h, m, k))"
    "paging_create_process_page_with_any_frame True 0x30000 (adr 262144) True \<lparr>heap = h, ram = m, kern = k\<rparr> = Some (Inr (f, s))"
    "machine_ok bs {(adr T, 0)} 97 99 9 s" "T \<in> blocks_at bs" "T \<noteq> 5308428"
    "tables (directory (kern s) 0x30000) 256 = adr T" "\<forall>i \<in> set high. i \<noteq> 256 \<longrightarrow> tables (directory (kern s) 0x30000) i = 0"
    "table_pages_of (kern s) (adr T) = {0}" "kernel_page_directory (kern s) = 0x20000"
    "shares_kernel (kern s) = shares_kernel process_kernel" "view s 0x30000 0x40000000 = Inr 0xAB"
    using sample_process by (elim exE conjE) (rule that; assumption)
  let ?D = "tables (directory (kern s) 0x30000)"
  have i: "i = 256" if "i \<in> set high" "?D i \<noteq> 0" for i using 1(7) that by blast
  have nz: "adr T \<noteq> 0" by (rule heap_range(4) [OF 1(3,4)])
  have one: "xs = [y]" if "distinct xs" "set xs = {y}" for xs :: "nat list" and y
    using that by (cases xs) (auto, metis distinct_length_2_or_more insert_iff list.set_intros(1) neq_Nil_conv singletonD subset_singletonD)
  have dt: "dir_tables (kern s) 0x30000 high = [256]"
    unfolding dir_tables_def by (rule one) (use i 1(6) nz in \<open>auto intro: distinct_filter\<close>)
  have dp: "dir_pages (kern s) 0x30000 high = 1" by (simp add: dir_pages_def dt 1(6,8))
  have m: "machine_ok bs {(adr T, 0)} (90 + 3 * length (dir_tables (kern s) 0x30000 high) + 4)
      (98 + dir_pages (kern s) 0x30000 high) (Suc (7 + length (dir_tables (kern s) 0x30000 high))) s"
    using 1(3) by (simp add: dt dp)
  have dirs: "dirs_ok (blocks_at bs) (kern s)" unfolding dirs_ok_def 1(10) process_kernel_shares by auto
  have sh: "shares_kernel (kern s) 0x30000" unfolding 1(10) process_kernel_shares by simp
  have o: "owned (kern s) {(adr T, 0)}" using 1(3) by (simp add: machine_ok_def space_ready_def)
  have "tables_at (blocks_at bs) (adr T)" using 1(4) unfolding tables_at_def by blast
  then have src: "source_ok (blocks_at bs) (kern s) (adr T)" using o by (simp add: source_ok_def 1(8) owned_def)
  have "T \<in> blocks_at bs - {5308428}" using 1(4,5) by simp
  then have mem: "adr T \<in> adr ` (blocks_at bs - {5308428})" by (rule imageI)
  have row: "{l. (adr T, l) \<in> {(adr T, 0 :: nat)}} = table_pages_of (kern s) (adr T)" unfolding 1(8) by auto
  have all: "\<forall>i \<in> set high. ?D i \<noteq> 0 \<longrightarrow> source_ok (blocks_at bs) (kern s) (?D i) \<and>
      ?D i \<in> adr ` (blocks_at bs - {5308428}) \<and> {l. (?D i, l) \<in> {(adr T, 0)}} = table_pages_of (kern s) (?D i)"
  proof (intro ballI impI)
    fix l assume l: "l \<in> set high" "?D l \<noteq> 0"
    have e: "?D l = adr T" using i [OF l] 1(6) by simp
    show "source_ok (blocks_at bs) (kern s) (?D l) \<and> ?D l \<in> adr ` (blocks_at bs - {5308428}) \<and>
        {x. (?D l, x) \<in> {(adr T, 0)}} = table_pages_of (kern s) (?D l)"
      unfolding e by (intro conjI src mem row)
  qed
  have sl: "dir_slots (kern s) 0x30000 (set high) \<subseteq> {(adr T, 0)}"
  proof
    fix x assume "x \<in> dir_slots (kern s) 0x30000 (set high)"
    then obtain l where l: "l \<in> set high" "?D l \<noteq> 0" "x \<in> Pair (?D l) ` table_pages_of (kern s) (?D l)"
      unfolding dir_slots_def by blast
    have e: "?D l = adr T" using i [OF l(1,2)] 1(6) by simp
    then show "x \<in> {(adr T, 0)}" using l(3) unfolding e 1(8) by simp
  qed
  have inj: "inj_on ?D {i \<in> set high. ?D i \<noteq> 0}"
  proof (rule inj_onI)
    fix x y assume "x \<in> {i \<in> set high. ?D i \<noteq> 0}" "y \<in> {i \<in> set high. ?D i \<noteq> 0}"
    then have "x = 256" "y = 256" using i by blast+
    then show "x = y" by (rule trans [OF _ sym])
  qed
  have kp: "(0x30000 :: u32) \<noteq> kernel_page_directory (kern s)" using 1(9) by simp
  show ?thesis
    by (intro exI conjI, fact 1(1), fact 1(2), fact m, fact dirs, fact sh, fact all, fact sl, fact kp, fact inj, fact 1(11))
qed

theorem clone_reads_same_witness:
  "\<exists>h m k f s q s'. kalloc_init True kernel_pager (adr 1) (\<lambda>x. 0) process_kernel = Some (Inr (adr 5308428, h, m, k)) \<and>
     paging_create_process_page_with_any_frame True 0x30000 (adr 262144) True \<lparr>heap = h, ram = m, kern = k\<rparr> = Some (Inr (f, s)) \<and>
     paging_clone_page_directory_for_new_process True 0x30000 s = Some (Inr (adr q, s')) \<and>
     view s' (adr q) 0x40000000 = Inr 0xAB \<and> view s' 0x30000 0x40000000 = Inr 0xAB"
proof -
  obtain h m k f s bs S where 1: "kalloc_init True kernel_pager (adr 1) (\<lambda>x. 0) process_kernel = Some (Inr (adr 5308428, h, m, k))"
    "paging_create_process_page_with_any_frame True 0x30000 (adr 262144) True \<lparr>heap = h, ram = m, kern = k\<rparr> = Some (Inr (f, s))"
    "machine_ok bs S (90 + 3 * length (dir_tables (kern s) 0x30000 high) + 4) (98 + dir_pages (kern s) 0x30000 high)
       (Suc (7 + length (dir_tables (kern s) 0x30000 high))) s"
    "dirs_ok (blocks_at bs) (kern s)" "shares_kernel (kern s) 0x30000"
    "\<forall>i \<in> set high. tables (directory (kern s) 0x30000) i \<noteq> 0 \<longrightarrow> source_ok (blocks_at bs) (kern s) (tables (directory (kern s) 0x30000) i)"
    "view s 0x30000 0x40000000 = Inr 0xAB"
    using sample_ready_to_clone by blast
  obtain q s' where "paging_clone_page_directory_for_new_process True 0x30000 s = Some (Inr (adr q, s'))"
    "\<forall>a \<ge> 0x40000000. view s' (adr q) a = view s 0x30000 a \<and> view s' 0x30000 a = view s 0x30000 a"
    using clone_reads_same [OF 1(3-6), of True] by blast
  then show ?thesis using 1(1,2,7) by (metis order_refl)
qed

theorem clone_independent_witness:
  "\<exists>h m k f s q s'. kalloc_init True kernel_pager (adr 1) (\<lambda>x. 0) process_kernel = Some (Inr (adr 5308428, h, m, k)) \<and>
     paging_create_process_page_with_any_frame True 0x30000 (adr 262144) True \<lparr>heap = h, ram = m, kern = k\<rparr> = Some (Inr (f, s)) \<and>
     paging_clone_page_directory_for_new_process True 0x30000 s = Some (Inr (adr q, s')) \<and>
     {r. \<exists>v m' k'. write_byte 0x40000000 v (ram s') ((kern s')\<lparr>loaded_directory := 0x30000\<rparr>) = Inr (m', k') \<and>
        r = view (s'\<lparr>ram := m', kern := k'\<rparr>) (adr q) 0x40000000} \<subseteq> {view s' (adr q) 0x40000000}"
proof -
  obtain h m k f s bs S where 1: "kalloc_init True kernel_pager (adr 1) (\<lambda>x. 0) process_kernel = Some (Inr (adr 5308428, h, m, k))"
    "paging_create_process_page_with_any_frame True 0x30000 (adr 262144) True \<lparr>heap = h, ram = m, kern = k\<rparr> = Some (Inr (f, s))"
    "machine_ok bs S (90 + 3 * length (dir_tables (kern s) 0x30000 high) + 4) (98 + dir_pages (kern s) 0x30000 high)
       (Suc (7 + length (dir_tables (kern s) 0x30000 high))) s"
    "dirs_ok (blocks_at bs) (kern s)" "shares_kernel (kern s) 0x30000"
    "\<forall>i \<in> set high. tables (directory (kern s) 0x30000) i \<noteq> 0 \<longrightarrow> source_ok (blocks_at bs) (kern s) (tables (directory (kern s) 0x30000) i)"
    "dir_slots (kern s) 0x30000 (set high) \<subseteq> S"
    using sample_ready_to_clone by blast
  from clone_independent [OF 1(3-7), of True] obtain q s' where
    2: "paging_clone_page_directory_for_new_process True 0x30000 s = Some (Inr (adr q, s'))" and
    3: "\<forall>a b v m' k'. 0x40000000 \<le> a \<and> 0x40000000 \<le> b \<longrightarrow>
       (write_byte a v (ram s') ((kern s')\<lparr>loaded_directory := 0x30000\<rparr>) = Inr (m', k') \<longrightarrow>
          view (s'\<lparr>ram := m', kern := k'\<rparr>) (adr q) b = view s' (adr q) b) \<and>
       (write_byte a v (ram s') ((kern s')\<lparr>loaded_directory := adr q\<rparr>) = Inr (m', k') \<longrightarrow>
          view (s'\<lparr>ram := m', kern := k'\<rparr>) 0x30000 b = view s' 0x30000 b)"
    by (elim exE conjE) (rule that)
  have "view (s'\<lparr>ram := m', kern := k'\<rparr>) (adr q) 0x40000000 = view s' (adr q) 0x40000000"
    if "write_byte 0x40000000 v (ram s') ((kern s')\<lparr>loaded_directory := 0x30000\<rparr>) = Inr (m', k')" for v m' k'
    using 3 [rule_format, of "0x40000000" "0x40000000", THEN conjunct1, THEN mp, OF conjI [OF order_refl order_refl] that] .
  then have 4: "{r. \<exists>v m' k'. write_byte 0x40000000 v (ram s') ((kern s')\<lparr>loaded_directory := 0x30000\<rparr>) = Inr (m', k') \<and>
      r = view (s'\<lparr>ram := m', kern := k'\<rparr>) (adr q) 0x40000000} \<subseteq> {view s' (adr q) 0x40000000}"
    by (intro subsetI) (elim CollectE exE conjE, simp only: singleton_iff)
  show ?thesis by (intro exI conjI, fact 1(1), fact 1(2), fact 2, fact 4)
qed

theorem release_exact_witness:
  "\<exists>h m k f s s'. kalloc_init True kernel_pager (adr 1) (\<lambda>x. 0) process_kernel = Some (Inr (adr 5308428, h, m, k)) \<and>
     paging_create_process_page_with_any_frame True 0x30000 (adr 262144) True \<lparr>heap = h, ram = m, kern = k\<rparr> = Some (Inr (f, s)) \<and>
     paging_clean_all_non_kernel_pages_from_page_directory True 0x30000 s = Inr s' \<and>
     view s 0x30000 0x40000000 = Inr 0xAB \<and> view s' 0x30000 0x40000000 = Inl Page_fault"
proof -
  obtain h m k f s bs S where 1: "kalloc_init True kernel_pager (adr 1) (\<lambda>x. 0) process_kernel = Some (Inr (adr 5308428, h, m, k))"
    "paging_create_process_page_with_any_frame True 0x30000 (adr 262144) True \<lparr>heap = h, ram = m, kern = k\<rparr> = Some (Inr (f, s))"
    "machine_ok bs S (90 + 3 * length (dir_tables (kern s) 0x30000 high) + 4) (98 + dir_pages (kern s) 0x30000 high)
       (Suc (7 + length (dir_tables (kern s) 0x30000 high))) s"
    "0x30000 \<noteq> kernel_page_directory (kern s)"
    "\<forall>i \<in> set high. tables (directory (kern s) 0x30000) i \<noteq> 0 \<longrightarrow> tables (directory (kern s) 0x30000) i \<in> adr ` (blocks_at bs - {5308428})"
    "inj_on (tables (directory (kern s) 0x30000)) {i \<in> set high. tables (directory (kern s) 0x30000) i \<noteq> 0}"
    "\<forall>i \<in> set high. tables (directory (kern s) 0x30000) i \<noteq> 0 \<longrightarrow>
       {l. (tables (directory (kern s) 0x30000) i, l) \<in> S} = table_pages_of (kern s) (tables (directory (kern s) 0x30000) i)"
    "view s 0x30000 0x40000000 = Inr 0xAB"
    using sample_ready_to_clone by blast
  have m: "machine_ok bs S (90 + 3 * length (dir_tables (kern s) 0x30000 high) + 4) (98 + dir_pages (kern s) 0x30000 high)
       (8 + length (dir_tables (kern s) 0x30000 high)) s" using 1(3) by simp
  obtain s' where 2: "paging_clean_all_non_kernel_pages_from_page_directory True 0x30000 s = Inr s'"
    "\<forall>a \<ge> 0x40000000. view s' 0x30000 a = (if stack_address a then view s 0x30000 a else Inl Page_fault)"
    using release_exact [OF m 1(4-7), of True] by blast
  have "\<not> stack_address 0x40000000"
    by (simp add: stack_address_def is_page_part_of_kernel_stack_in_process_address_space_def
        KERNEL_STACK_ADDRESS_IN_PROCESS_ADDRESS_SPACE_def KERNEL_STACK_RESERVED_PAGES_IN_PROCESS_ADDRESS_SPACE_def)
  then have "view s' 0x30000 0x40000000 = Inl Page_fault" using 2(2) by simp
  then show ?thesis using 1(1,2,8) 2(1) by blast
qed

end
