(* ===== verification/Vfs_Correct.thy ===== *)
theory Vfs_Correct
  imports Vfs Ramdisk_Correct Process_Spaces
begin

text \<open>
  The properties of the file system: a path is looked up name by name, and the files
  that the host program packs into the RAM disk are the files the kernel serves.
\<close>

text \<open>
  C39: looking up a path is looking up its names one after the other: the path is split
  at its slashes, each name is looked up in the node of the names before it, the first
  name without a node ends the look-up with no node, and a name of 256 characters or
  more overruns the buffer of the source.  A path that does not begin with a slash has
  no node.
\<close>

theorem path_lookup_walks:
  assumes "vfs_root (fs s) \<noteq> 0"
  shows "fs_util_get_node_by_path p s = (case p of [] \<Rightarrow> Inr 0
    | c # cs \<Rightarrow> if c = 47 then walk (vfs_root (fs s)) (components [] cs) s else Inr 0)"
  using path_loop_walk [OF assms, of "[]"] by (simp add: fs_util_get_node_by_path_def split: list.splits)

definition sample_nodes :: "u32 \<Rightarrow> Vfs_Node" where
  "sample_nodes a =
    (if a = 16 then directory_node [] Vfs_root_readdir Vfs_root_lookup
     else if a = 32 then directory_node (chars_of ''initrd'') Initrd_readdir Initrd_lookup
     else if a = 48 then directory_node (chars_of ''dev'') Dev_readdir Dev_lookup
     else if a = 64 then device_node SCREEN_FILE_NAME No_read Dev_write
     else device_node KEYBOARD_FILE_NAME Dev_read No_write)"

definition sample_fs :: Fs where
  "sample_fs = \<lparr>nodes = sample_nodes, vfs_root = 16, root_nodes = [32, 48], initrd_data = 0x10000, num_files = 0,
     initrd_files_data = [], initrd_root_node = 32, initrd_files_nodes = 0x800000, dev_root_node = 48,
     screen_node = 64, keyboard_node = 80\<rparr>"

definition os_with :: "Machine \<Rightarrow> Os" where
  "os_with m = \<lparr>machine = m, fs = sample_fs, screen = blank_screen,
     keyboard = \<lparr>key_lookup_table = [], keyboard_event_buffers_num = 0, keyboard_event_buffers = [], shift_enabled = 0\<rparr>,
     receivers = \<lambda>a. \<lparr>buffer = [], buffer_capacity = 0, buffer_filled = 0, event_received = 0\<rparr>\<rparr>"

lemma chars_simps:
  "chars_of ''/dev/keyboard'' = [47, 100, 101, 118, 47, 107, 101, 121, 98, 111, 97, 114, 100]"
  "chars_of ''dev'' = [100, 101, 118]" "chars_of ''initrd'' = [105, 110, 105, 116, 114, 100]"
  "chars_of ''screen'' = [115, 99, 114, 101, 101, 110]" "chars_of ''keyboard'' = [107, 101, 121, 98, 111, 97, 114, 100]"
  by (simp_all add: chars_of_def)

definition sample_machine :: Machine where
  "sample_machine = \<lparr>heap = sample_heap, ram = sample_ram, kern = sample_kernel\<rparr>"

theorem path_lookup_walks_witness:
  "fs_util_get_node_by_path (chars_of ''/dev/keyboard'') (os_with sample_machine) = Inr 80"
proof -
  have "vfs_root (fs (os_with sample_machine)) \<noteq> 0" by (simp add: os_with_def sample_fs_def)
  from path_lookup_walks [OF this, of "chars_of ''/dev/keyboard''"] show ?thesis
    by (simp add: chars_simps os_with_def sample_fs_def vfs_lookup_def node_at_def sample_nodes_def directory_node_def
        device_node_def vfs_root_lookup_def dev_lookup_def SCREEN_FILE_NAME_def KEYBOARD_FILE_NAME_def
        VFS_FILE_NAME_MAX_LENGTH_def)
qed

section \<open>The round trip of the RAM disk\<close>

lemma set_basename: "set (basename p) \<subseteq> set p \<union> {46, 47}"
proof
  fix x assume "x \<in> set (basename p)"
  then consider "x = 46" | "x = 47" | "x \<in> set (takeWhile (\<lambda>c. c \<noteq> 47) (dropWhile (\<lambda>c. c = 47) (rev p)))"
    by (auto simp: basename_def Let_def split: if_splits)
  then show "x \<in> set p \<union> {46, 47}"
    by cases (auto dest!: set_takeWhileD set_dropWhileD)
qed

text \<open>The files that the host program packs, as entries of the image.\<close>

lemma packed_entries:
  assumes "writer_main junk files args = Inr (0, Some img)" "\<forall>a \<in> set args. 0 \<notin> set a"
    "\<forall>a. case files a of None \<Rightarrow> True | Some c \<Rightarrow> length c < 4294967296"
  shows "img = image_of junk (entries files args)" "entries_ok (entries files args)" "a \<in> set args \<Longrightarrow> 0 \<notin> set (basename a)"
    "a \<in> set args \<Longrightarrow> length (basename a) < 256"
proof -
  let ?es = "entries files args"
  note wi = writer_image [OF assms(1) refl assms(3)]
  show "img = image_of junk ?es" by (rule wi(1))
  have nz: "0 \<notin> set (basename a)" if "a \<in> set args" for a using set_basename [of a] assms(2) that by auto
  then show "a \<in> set args \<Longrightarrow> 0 \<notin> set (basename a)" .
  show "a \<in> set args \<Longrightarrow> length (basename a) < 256" using wi(3) by auto
  show "entries_ok ?es"
    unfolding entries_ok_def
  proof
    fix e assume "e \<in> set ?es"
    then obtain a where a: "a \<in> set args" "e = (basename a, the (files a))" by (auto simp: entries_def)
    then obtain c where "files a = Some c" "length (basename a) < 256" using wi(3) by auto
    moreover have "length c < 4294967296" using assms(3) [rule_format, of a] calculation(1) by simp
    ultimately show "entry_ok e" using nz [OF a(1)] a(2) by (simp add: entry_ok_def)
  qed
qed

lemma served_file:
  assumes s: "serves A junk (entries files args) b s" and a: "a \<in> set args" "distinct (map basename args)" "0 \<notin> set (basename a)"
  shows "\<exists>node. initrd_lookup (initrd_root_node (fs s)) (basename a) s = Inr node \<and> node \<noteq> 0 \<and> read_fn (node_at s node) = Initrd_read \<and>
       node_size (node_at s node) = of_nat (length (the (files a))) \<and>
       (\<forall>off sz dst n. n = min sz (length (the (files a)) - off) \<and> off < 4294967296 \<and> sz < 4294967296 \<and>
            A + length (image_of junk (entries files args)) \<le> dst \<and> dst + n \<le> 0x40000000 \<longrightarrow>
          (\<exists>s''. initrd_read node (adr off) (adr sz) (adr dst) s = Inr (adr n, s'') \<and>
             (\<forall>k < n. ram (machine s'') (adr (dst + k)) = the (files a) ! (off + k))))"
proof -
  let ?es = "entries files args"
  have len: "length ?es = length args" by (simp add: entries_def)
  have cnt: "unat (num_files (fs s)) = length ?es" using servesD(4,5) [OF s] by (simp add: unat_of_nat32)
  have look: "initrd_lookup (initrd_root_node (fs s)) name s = Inr (lookup_loop s name (length ?es) (of_nat 0))" for name
    by (simp add: initrd_lookup_def cnt)
  obtain i where i: "i < length args" "args ! i = a" using a(1) by (auto simp: in_set_conv_nth)
  have e: "fst (?es ! i) = basename a" "snd (?es ! i) = the (files a)" "i < length ?es" using i by (simp_all add: entries_def)
  have first: "\<forall>l. 0 \<le> l \<and> l < i \<longrightarrow> fst (?es ! l) \<noteq> basename a"
  proof (intro allI impI)
    fix l assume l: "0 \<le> l \<and> l < i"
    then have "map basename args ! l \<noteq> map basename args ! i" using nth_eq_iff_index_eq [OF a(2), of l i] i(1) by simp
    then show "fst (?es ! l) \<noteq> basename a" using l i by (simp add: entries_def)
  qed
  have "lookup_loop s (basename a) (length ?es) (of_nat 0) = adr (b + 292 * i)"
    by (rule lookup_loop_found [OF s a(3) _ _ e(3,1) first]) simp_all
  moreover have "292 * i + 292 \<le> 292 * length ?es" using e(3) by simp
  then have "b + 292 * i < 4294967296" "b + 292 * i \<noteq> 0" using servesD(2,3) [OF s] by linarith+
  then have "adr (b + 292 * i) \<noteq> 0" by (simp add: adr_eq_0)
  moreover have "read_fn (node_at s (adr (b + 292 * i))) = Initrd_read \<and>
      node_size (node_at s (adr (b + 292 * i))) = of_nat (length (the (files a)))"
    using servesD(6) [OF s e(3)] by (simp add: disk_node_def e(2))
  ultimately show ?thesis
    using initrd_read_ok [OF s e(3)] by (intro exI [of _ "adr (b + 292 * i)"]) (simp add: look e(2))
qed

lemma served_absent:
  assumes "serves A junk (entries files args) b s" "0 \<notin> set name" "name \<notin> basename ` set args"
  shows "initrd_lookup (initrd_root_node (fs s)) name s = Inr 0"
proof -
  have "unat (num_files (fs s)) = length (entries files args)" using servesD(4,5) [OF assms(1)] by (simp add: unat_of_nat32)
  moreover have "name \<notin> fst ` set (entries files args)" using assms(3) by (auto simp: entries_def)
  ultimately show ?thesis using lookup_loop_absent [OF assms(1,2), of 0 "length (entries files args)"] by (simp add: initrd_lookup_def)
qed

text \<open>
  C40: the files packed by the host program are the files the kernel serves.  When
  \<open>writer.c\<close> succeeds and its image is in memory below the heap, \<open>initrd_init\<close> returns a
  root; looking up a file's base name gives a node, and reading \<open>sz\<close> bytes from \<open>off\<close>
  returns the number of bytes the file has there, at most \<open>sz\<close>, and puts these bytes
  of the file into the buffer; any other name has no node.
\<close>

theorem ramdisk_roundtrip:
  assumes w: "writer_main junk files args = Inr (0, Some img)" "\<forall>a \<in> set args. 0 \<notin> set a"
      "\<forall>a. case files a of None \<Rightarrow> True | Some c \<Rightarrow> length c < 4294967296" "distinct (map basename args)"
    and m: "machine_ok bs S (c + p3 + p2 + p1) d (j + 3) (machine s)"
      "292 * length args + 20 \<le> p1 * 4096" "4 * length args + 20 \<le> p2 * 4096" "292 + 20 \<le> p3 * 4096"
    and img: "initrd_data (fs s) = adr A" "loaded (ram (machine s)) A img" "A + length img \<le> heap_start"
  shows "\<exists>root s'. initrd_init g s = Some (Inr (root, s')) \<and>
    (\<forall>a \<in> set args. \<exists>node. initrd_lookup root (basename a) s' = Inr node \<and> node \<noteq> 0 \<and>
       (\<forall>off sz dst n. n = min sz (length (the (files a)) - off) \<and> off < 4294967296 \<and> sz < 4294967296 \<and>
            A + length img \<le> dst \<and> dst + n \<le> 0x40000000 \<longrightarrow>
          (\<exists>s''. initrd_read node (adr off) (adr sz) (adr dst) s' = Inr (adr n, s'') \<and>
             (\<forall>k < n. ram (machine s'') (adr (dst + k)) = the (files a) ! (off + k))))) \<and>
    (\<forall>name. 0 \<notin> set name \<and> name \<notin> basename ` set args \<longrightarrow> initrd_lookup root name s' = Inr 0)"
proof -
  let ?es = "entries files args"
  note pe = packed_entries [OF w(1,2,3)]
  have len: "length ?es = length args" by (simp add: entries_def)
  obtain r s' b where 1: "initrd_init g s = Some (Inr (adr r, s'))" "serves A junk ?es b s'" "initrd_root_node (fs s') = adr r"
    using initrd_init_ok [OF m(1) m(2-4) [folded len] img(2,3) [unfolded pe(1)] pe(2) img(1), of g] by blast
  have "\<exists>node. initrd_lookup (adr r) (basename a) s' = Inr node \<and> node \<noteq> 0 \<and>
       (\<forall>off sz dst n. n = min sz (length (the (files a)) - off) \<and> off < 4294967296 \<and> sz < 4294967296 \<and>
            A + length img \<le> dst \<and> dst + n \<le> 0x40000000 \<longrightarrow>
          (\<exists>s''. initrd_read node (adr off) (adr sz) (adr dst) s' = Inr (adr n, s'') \<and>
             (\<forall>k < n. ram (machine s'') (adr (dst + k)) = the (files a) ! (off + k))))" if a: "a \<in> set args" for a
    using served_file [OF 1(2) a w(4) pe(3) [OF a]] unfolding 1(3) pe(1) by blast
  moreover have "initrd_lookup (adr r) name s' = Inr 0" if "0 \<notin> set name \<and> name \<notin> basename ` set args" for name
    using served_absent [OF 1(2), of name] that 1(3) by simp
  ultimately show ?thesis using 1(1) by blast
qed

definition sample_files :: files where
  "sample_files p = (if p = [97] then Some [1, 2, 3] else if p = [47, 98] then Some [] else None)"

definition sample_args :: "u8 list list" where
  "sample_args = [[97], [47, 98]]"

definition sample_image :: "u8 list" where
  "sample_image = image_of (\<lambda>i k. 0) (entries sample_files sample_args)"

definition sample_memory :: mem where
  "sample_memory x = (if 65536 \<le> unat x \<and> unat x < 65536 + length sample_image then sample_image ! (unat x - 65536) else 0)"

lemma sample_entries: "entries sample_files sample_args = [([97], [1, 2, 3]), ([98], [])]"
  by (simp add: entries_def sample_files_def sample_args_def basename_def)

lemma sample_writer: "writer_main (\<lambda>i k. 0) sample_files sample_args = Inr (0, Some sample_image)"
  unfolding sample_image_def sample_entries
  by (simp add: writer_main_def sample_args_def sample_files_def basename_def copy_name_def VFS_FILE_NAME_MAX_LENGTH_def
      file_is_not_in_root_folder_def image_of_def headers_of_Cons)

lemma sample_image_length: "length sample_image = 527"
proof -
  have "entries_ok [([97], [1, 2, 3]), ([98], [])]" by (simp add: entries_ok_def entry_ok_def)
  then show ?thesis unfolding sample_image_def sample_entries by (simp add: image_length)
qed

theorem ramdisk_roundtrip_witness:
  "\<exists>h m k root s' node s''. kalloc_init True kernel_pager (adr 1) sample_memory process_kernel = Some (Inr (adr 5308428, h, m, k)) \<and>
     initrd_init True (os_with \<lparr>heap = h, ram = m, kern = k\<rparr>) = Some (Inr (root, s')) \<and>
     initrd_lookup root [97] s' = Inr node \<and>
     initrd_read node (adr 1) (adr 10) (adr 1048576) s' = Inr (adr 2, s'') \<and>
     ram (machine s'') (adr 1048576) = 2 \<and> ram (machine s'') (adr 1048577) = 3"
proof -
  obtain h m k bs where 1: "kalloc_init True kernel_pager (adr 1) sample_memory process_kernel = Some (Inr (adr 5308428, h, m, k))"
    "machine_ok bs {} 100 100 10 \<lparr>heap = h, ram = m, kern = k\<rparr>" "outside 5242880 5312512 sample_memory m"
    using booted_with [of sample_memory] by blast
  let ?s = "os_with \<lparr>heap = h, ram = m, kern = k\<rparr>"
  have ms: "machine_ok bs {} (97 + 1 + 1 + 1) 100 (7 + 3) (machine ?s)" using 1(2) by (simp add: os_with_def)
  have "loaded sample_memory 65536 sample_image"
    unfolding loaded_def sample_image_length by (auto simp: sample_memory_def sample_image_length)
  then have "loaded m 65536 sample_image"
    using loaded_outside [OF _ 1(3)] by (simp add: sample_image_length)
  then have l: "loaded (ram (machine ?s)) 65536 sample_image" by (simp add: os_with_def)
  have d: "initrd_data (fs ?s) = adr 65536" by (simp add: os_with_def sample_fs_def adr_def)
  have len: "65536 + length sample_image \<le> heap_start" by (simp add: sample_image_length)
  have ch: "\<forall>a \<in> set sample_args. 0 \<notin> set a" "distinct (map basename sample_args)"
    "\<forall>a. case sample_files a of None \<Rightarrow> True | Some c \<Rightarrow> length c < 4294967296"
    by (simp_all add: sample_args_def basename_def sample_files_def)
  have pg: "292 * length sample_args + 20 \<le> 1 * 4096" "4 * length sample_args + 20 \<le> 1 * 4096" "292 + 20 \<le> 1 * (4096 :: nat)"
    by (simp_all add: sample_args_def)
  obtain root s' where 2: "initrd_init True ?s = Some (Inr (root, s'))"
    "\<forall>a \<in> set sample_args. \<exists>node. initrd_lookup root (basename a) s' = Inr node \<and> node \<noteq> 0 \<and>
       (\<forall>off sz dst n. n = min sz (length (the (sample_files a)) - off) \<and> off < 4294967296 \<and> sz < 4294967296 \<and>
            65536 + length sample_image \<le> dst \<and> dst + n \<le> 0x40000000 \<longrightarrow>
          (\<exists>s''. initrd_read node (adr off) (adr sz) (adr dst) s' = Inr (adr n, s'') \<and>
             (\<forall>k < n. ram (machine s'') (adr (dst + k)) = the (sample_files a) ! (off + k))))"
    using ramdisk_roundtrip [OF sample_writer ch(1,3,2) ms pg d l len, of True] by blast
  have a: "[97] \<in> set sample_args" "basename [97] = [97]" "the (sample_files [97]) = [1, 2, 3]"
    by (simp_all add: sample_args_def basename_def sample_files_def)
  from 2(2) [rule_format, OF a(1), unfolded a(2,3)]
  obtain node where 3: "initrd_lookup root [97] s' = Inr node" and
    r: "\<forall>off sz dst n. n = min sz (length [1 :: u8, 2, 3] - off) \<and> off < 4294967296 \<and> sz < 4294967296 \<and>
            65536 + length sample_image \<le> dst \<and> dst + n \<le> 0x40000000 \<longrightarrow>
          (\<exists>s''. initrd_read node (adr off) (adr sz) (adr dst) s' = Inr (adr n, s'') \<and>
             (\<forall>k < n. ram (machine s'') (adr (dst + k)) = [1, 2, 3] ! (off + k)))"
    by (elim exE conjE) (rule that)
  have "\<exists>s''. initrd_read node (adr 1) (adr 10) (adr 1048576) s' = Inr (adr 2, s'') \<and>
      (\<forall>k < 2. ram (machine s'') (adr (1048576 + k)) = [1, 2, 3] ! (1 + k))"
    by (rule r [rule_format, of 2 10 1 1048576]) (simp add: sample_image_length)
  then obtain s'' where 4: "initrd_read node (adr 1) (adr 10) (adr 1048576) s' = Inr (adr 2, s'')"
    "\<forall>k < 2. ram (machine s'') (adr (1048576 + k)) = [1, 2, 3] ! (1 + k)" by blast
  have "ram (machine s'') (adr 1048576) = 2" "ram (machine s'') (adr 1048577) = 3"
    using 4(2) [rule_format, of 0] 4(2) [rule_format, of 1] by simp_all
  then show ?thesis using 1(1) 2(1) 3(1) 4(1) by blast
qed

end
