(* ===== verification/Vectors.thy ===== *)
theory Vectors
  imports Prelude
begin

text \<open>The numbers of the interrupts, src/src/interrupt.h: those of the processor and of software, and those of the controllers.\<close>

definition ISR :: "nat \<Rightarrow> nat" where "ISR n = n"
definition IRQ :: "nat \<Rightarrow> nat" where "IRQ n = 32 + n"

lemmas vector_simps [simp] = ISR_def IRQ_def

end
