(* ===== verification/Process_Control.thy ===== *)
theory Process_Control
  imports Vectors Vfs Printf Hash_Map
begin

text \<open>
  The processes of src/src/process.c: the scheduler, \<open>process_fork\<close> and \<open>process_exit\<close>.

  The operations work on the whole system: the state of the file operations, the
  interrupt flag of the processor, the table of trap handlers and the table of system
  call stubs.  Registers that the code reads (the answer of \<open>util_get_eip\<close> and the stack
  and base pointers) are arguments.  An operation that does not return to its caller
  answers with the jump it ends in; the registers of a resumed process are part of it.
\<close>

section \<open>The system\<close>

text \<open>The functions that are registered as handlers of processor traps and system calls.\<close>

datatype trap = No_trap | General_protection_fault_interrupt_handler | Page_fault_handler |
  Timer_interrupt_handler | Keyboard_interrupt_handler | Syscall_handler

record Syscall_Stub_Information =
  syscall_stub_address :: u32
  syscall_stub_size :: u32

record Rawos =
  os :: Os
  interrupts_enabled :: bool
  trap_handlers :: "trap list"
  syscall_stubs :: "(u8 list, Syscall_Stub_Information) Hash_Map"

text \<open>How an operation ends: it returns, or it jumps to another context, or it stops the processor.\<close>

datatype 'a control =
    Return 'a
  | Switch_context u32 u32 u32
  | User_mode u32 u32
  | Halt

abbreviation mach :: "Rawos \<Rightarrow> Machine" where "mach s \<equiv> machine (os s)"
abbreviation knl :: "Rawos \<Rightarrow> Kernel" where "knl s \<equiv> kern (mach s)"

definition with_machine :: "Rawos \<Rightarrow> Machine \<Rightarrow> Rawos" where
  "with_machine s m = s\<lparr>os := (os s)\<lparr>machine := m\<rparr>\<rparr>"

abbreviation with_knl :: "Rawos \<Rightarrow> Kernel \<Rightarrow> Rawos" where
  "with_knl s k \<equiv> with_machine s ((mach s)\<lparr>kern := k\<rparr>)"

lemma with_machine_simps [simp]:
  "mach (with_machine s m) = m" "with_machine (with_machine s m) m' = with_machine s m'"
  "interrupts_enabled (with_machine s m) = interrupts_enabled s"
  "trap_handlers (with_machine s m) = trap_handlers s" "syscall_stubs (with_machine s m) = syscall_stubs s"
  "fs (os (with_machine s m)) = fs (os s)" "screen (os (with_machine s m)) = screen (os s)"
  by (simp_all add: with_machine_def)

definition interrupt_disable :: "Rawos \<Rightarrow> Rawos" where
  "interrupt_disable s = s\<lparr>interrupts_enabled := False\<rparr>"

lemma interrupt_disable_simps [simp]:
  "os (interrupt_disable s) = os s" "interrupts_enabled (interrupt_disable s) = False"
  "trap_handlers (interrupt_disable s) = trap_handlers s" "syscall_stubs (interrupt_disable s) = syscall_stubs s"
  by (simp_all add: interrupt_disable_def)

definition register_trap :: "trap \<Rightarrow> nat \<Rightarrow> Rawos \<Rightarrow> Rawos res" where
  "register_trap h n s =
    (if n < length (trap_handlers s) then Inr (s\<lparr>trap_handlers := (trap_handlers s)[n := h]\<rparr>) else Inl Out_of_bounds)"

text \<open>A message on the screen; \<open>strs\<close> gives the characters behind a string argument.\<close>

definition os_message :: "(u32 \<Rightarrow> u8 list) \<Rightarrow> string \<Rightarrow> u32 list \<Rightarrow> Os \<Rightarrow> Os" where
  "os_message strs fmt args o1 = o1\<lparr>screen := printf strs 0 (chars_of fmt) (nth args) (screen o1)\<rparr>"

lemma os_message_simps [simp]: "machine (os_message strs fmt args o1) = machine o1" "fs (os_message strs fmt args o1) = fs o1"
  by (simp_all add: os_message_def)

definition message :: "(u32 \<Rightarrow> u8 list) \<Rightarrow> string \<Rightarrow> u32 list \<Rightarrow> Rawos \<Rightarrow> Rawos" where
  "message strs fmt args s = s\<lparr>os := os_message strs fmt args (os s)\<rparr>"

lemma message_simps [simp]:
  "mach (message strs fmt args s) = mach s" "fs (os (message strs fmt args s)) = fs (os s)"
  "interrupts_enabled (message strs fmt args s) = interrupts_enabled s"
  "trap_handlers (message strs fmt args s) = trap_handlers s" "syscall_stubs (message strs fmt args s) = syscall_stubs s"
  by (simp_all add: message_def)

definition newline :: string where "newline = [CHR 0x0A]"

section \<open>The process records\<close>

definition sizeof_Process :: u32 where "sizeof_Process = 60"

definition set_process :: "u32 \<Rightarrow> (Process \<Rightarrow> Process) \<Rightarrow> Kernel \<Rightarrow> Kernel" where
  "set_process p f k = k\<lparr>processes := (processes k)(p := f (processes k p))\<rparr>"

text \<open>A null pointer where the code follows one.\<close>

definition not_null :: "u32 \<Rightarrow> unit res" where
  "not_null p = (if p = 0 then Inl Null_deref else Inr ())"

lemma not_null_simps [simp]: "p \<noteq> 0 \<Longrightarrow> not_null p = Inr ()" "not_null 0 = Inl Null_deref"
  by (simp_all add: not_null_def)

section \<open>Switching\<close>

text \<open>
  \<open>process_switch_context\<close> of asm/process.asm loads the page directory, enables the
  interrupts and jumps.  The resumed code finds the magic value where it expects the
  answer of \<open>util_get_eip\<close>.
\<close>

definition process_switch_context_magic_return_value :: u32 where
  "process_switch_context_magic_return_value = 0x12345678"

definition process_switch_context :: "u32 \<Rightarrow> u32 \<Rightarrow> u32 \<Rightarrow> u32 \<Rightarrow> u32 \<Rightarrow> Rawos \<Rightarrow> 'a control \<times> Rawos" where
  "process_switch_context to_eip to_esp to_ebp pd frame_addr s =
    (Switch_context to_eip to_esp to_ebp,
     (with_knl s (paging_switch_page_directory pd frame_addr (knl s)))\<lparr>interrupts_enabled := True\<rparr>)"

text \<open>The last lines of \<open>process_switch\<close> and of \<open>process_exit\<close>: resume the active process.\<close>

definition resume_active :: "Rawos \<Rightarrow> ('a control \<times> Rawos) res" where
  "resume_active s =
    (let p = processes (knl s) (active_process (knl s)) in
     rbind (paging_get_page_directory_x86_tables_frame_address (page_directory p) (knl s)) (\<lambda>frame_addr.
     Inr (process_switch_context (eip p) (esp p) (ebp p) (page_directory p) frame_addr s)))"

definition process_switch :: "u32 \<Rightarrow> u32 \<Rightarrow> u32 \<Rightarrow> Rawos \<Rightarrow> (unit control \<times> Rawos) res" where
  "process_switch now_eip now_esp now_ebp s =
    (let a = active_process (knl s) in
     if a = 0 then Inr (Return (), s)
     else if next_process (processes (knl s) a) = 0 then Inr (Return (), s)
     else if now_eip = process_switch_context_magic_return_value then Inr (Return (), s)
     else
       let k = set_process a (\<lambda>p. p\<lparr>eip := now_eip\<rparr>) (knl s);
           k = set_process a (\<lambda>p. p\<lparr>esp := now_esp\<rparr>) k;
           k = set_process a (\<lambda>p. p\<lparr>ebp := now_ebp\<rparr>) k;
           k = k\<lparr>active_process := next_process (processes k a)\<rparr> in
       resume_active (with_knl s k))"

section \<open>Forking\<close>

definition link_new_process :: "u32 \<Rightarrow> Kernel \<Rightarrow> Kernel res" where
  "link_new_process new k =
    (let a = active_process k in
     rbind (not_null a) (\<lambda>_.
     let prev = previous_process (processes k a) in
     rbind (not_null prev) (\<lambda>_.
     let k = set_process prev (\<lambda>p. p\<lparr>next_process := new\<rparr>) k;
         k = set_process new (\<lambda>p. p\<lparr>previous_process := prev\<rparr>) k;
         k = set_process a (\<lambda>p. p\<lparr>previous_process := new\<rparr>) k;
         k = set_process new (\<lambda>p. p\<lparr>next_process := a\<rparr>) k in
     Inr k)))"

fun copy_stack :: "u32 \<Rightarrow> u32 \<Rightarrow> u32 list \<Rightarrow> Kernel \<Rightarrow> Kernel res" where
  "copy_stack dst src [] k = Inr k"
| "copy_stack dst src (i # is) k =
    (let page_num = KERNEL_STACK_ADDRESS_IN_PROCESS_ADDRESS_SPACE div 0x1000 - i in
     rbind (paging_get_page_frame_address dst page_num k) (\<lambda>frame_dst_addr.
     rbind (paging_get_page_frame_address src page_num k) (\<lambda>frame_src_addr.
     copy_stack dst src is (paging_copy_frame frame_dst_addr frame_src_addr k))))"

definition stack_indices :: "u32 list" where
  "stack_indices = map of_nat [0..<unat KERNEL_STACK_RESERVED_PAGES_IN_PROCESS_ADDRESS_SPACE]"

text \<open>
  The part behind \<open>util_get_eip\<close>, which the parent runs at once and the child when it
  is first resumed, with the value of the local variable \<open>new_process\<close>.
\<close>

definition fork_context :: "bool \<Rightarrow> u32 \<Rightarrow> u32 \<Rightarrow> u32 \<Rightarrow> u32 \<Rightarrow> Machine \<Rightarrow> (u32 \<times> Machine) res option" where
  "fork_context g new now_eip now_esp now_ebp m =
    (if active_process (kern m) \<noteq> new then
       obind (paging_clone_page_directory_for_new_process g (page_directory (processes (kern m) (active_process (kern m)))) m)
         (\<lambda>(pd, m).
       let k = set_process new (\<lambda>p. p\<lparr>page_directory := pd\<rparr>) (kern m);
           a = processes k (active_process k);
           k = set_process new (\<lambda>p. p\<lparr>file_descriptors := file_descriptors a\<rparr>) k in
       obind (Some (copy_stack (page_directory (processes k new)) (page_directory a) stack_indices k)) (\<lambda>k.
       let k = set_process new (\<lambda>p. p\<lparr>pid := current_pid k\<rparr>) k;
           k = k\<lparr>current_pid := current_pid k + 1\<rparr>;
           k = set_process new (\<lambda>p. p\<lparr>eip := now_eip\<rparr>) k;
           k = set_process new (\<lambda>p. p\<lparr>esp := now_esp\<rparr>) k;
           k = set_process new (\<lambda>p. p\<lparr>ebp := now_ebp\<rparr>) k in
       Some (Inr (pid (processes k new), m\<lparr>kern := k\<rparr>))))
     else Some (Inr (0, m)))"

definition process_fork :: "bool \<Rightarrow> u32 \<Rightarrow> u32 \<Rightarrow> u32 \<Rightarrow> Rawos \<Rightarrow> (u32 \<times> Rawos) res option" where
  "process_fork g now_eip now_esp now_ebp s =
    (let s = interrupt_disable s in
     obind (m_alloc g sizeof_Process (mach s)) (\<lambda>(new, m).
     obind (Some (link_new_process new (kern m))) (\<lambda>k.
     obind (fork_context g new now_eip now_esp now_ebp (m\<lparr>kern := k\<rparr>)) (\<lambda>(r, m).
     Some (Inr (r, with_machine s m))))))"

section \<open>Exiting\<close>

definition unlink_process :: "u32 \<Rightarrow> Kernel \<Rightarrow> Kernel res" where
  "unlink_process p k =
    (let nxt = next_process (processes k p) in
     rbind (not_null nxt) (\<lambda>_.
     let k = set_process nxt (\<lambda>q. q\<lparr>previous_process := previous_process (processes k p)\<rparr>) k;
         prev = previous_process (processes k p) in
     rbind (not_null prev) (\<lambda>_.
     Inr (set_process prev (\<lambda>q. q\<lparr>next_process := next_process (processes k p)\<rparr>) k))))"

definition process_exit :: "bool \<Rightarrow> u32 \<Rightarrow> Rawos \<Rightarrow> (unit control \<times> Rawos) res" where
  "process_exit g ret s =
    (let s = interrupt_disable s; exiting = active_process (knl s) in
     rbind (not_null exiting) (\<lambda>_.
     let s = message (\<lambda>_. []) (''Exiting from process %u with return value %u...'' @ newline)
               [pid (processes (knl s) exiting), ret] s in
     rbind (paging_clean_all_non_kernel_pages_from_page_directory g (page_directory (processes (knl s) exiting)) (mach s)) (\<lambda>m.
     let k = (kern m)\<lparr>active_process := next_process (processes (kern m) exiting)\<rparr> in
     rbind (unlink_process exiting k) (\<lambda>k.
     rbind (m_free g exiting (m\<lparr>kern := k\<rparr>)) (\<lambda>m.
     let s = with_machine s m in
     if active_process (knl s) = exiting
     then Inr (Halt, message (\<lambda>_. []) ''The last running process was destroyed... halting kernel.'' [] s)
     else resume_active s)))))"

definition general_protection_fault_interrupt_handler :: "bool \<Rightarrow> Rawos \<Rightarrow> (unit control \<times> Rawos) res" where
  "general_protection_fault_interrupt_handler g s =
    process_exit g 255 (message (\<lambda>_. [])
      (''General protection fault: process is doing some nasty stuff... for now, just kill it.'' @ newline) [] s)"

end
