(* ===== verification/Scheduling.thy ===== *)
theory Scheduling
  imports Process_Control Vfs_Correct
begin

text \<open>
  The list of processes: \<open>process_fork\<close> and \<open>process_exit\<close> keep it a doubly linked ring,
  and \<open>process_switch\<close> gives the processor to each process of the ring in turn, with the
  registers it had when it lost it.
\<close>

section \<open>Doubly linked rings\<close>

text \<open>Each process of \<open>ps\<close> has the one in front of it as its previous one; \<open>x\<close> is in front of the first.\<close>

fun prevs :: "Kernel \<Rightarrow> u32 \<Rightarrow> u32 list \<Rightarrow> bool" where
  "prevs k x [] \<longleftrightarrow> True"
| "prevs k x (p # ps) \<longleftrightarrow> previous_process (processes k p) = x \<and> prevs k p ps"

definition linked :: "Kernel \<Rightarrow> u32 list \<Rightarrow> bool" where
  "linked k ps \<longleftrightarrow> ring k ps \<and> prevs k (last ps) ps"

lemma path_append: "path k x (ps @ qs) y \<longleftrightarrow> (\<exists>z. path k x ps z \<and> path k z qs y)"
  by (induction ps arbitrary: x) auto

lemma path_snoc: "path k x (ps @ [q]) y \<longleftrightarrow> path k x ps q \<and> q \<noteq> 0 \<and> next_process (processes k q) = y"
  by (auto simp: path_append)

lemma path_cong': "(\<And>p. p \<in> set ps \<Longrightarrow> next_process (processes k' p) = next_process (processes k p)) \<Longrightarrow> path k' x ps y = path k x ps y"
  by (induction ps arbitrary: x) auto

lemma path_hd: "path k x (p # ps) y \<Longrightarrow> x = p"
  by simp

lemma prevs_append: "prevs k x (ps @ qs) \<longleftrightarrow> prevs k x ps \<and> prevs k (if ps = [] then x else last ps) qs"
  by (induction ps arbitrary: x) auto

lemma prevs_cong: "(\<And>p. p \<in> set ps \<Longrightarrow> previous_process (processes k' p) = previous_process (processes k p)) \<Longrightarrow> prevs k' x ps = prevs k x ps"
  by (induction ps arbitrary: x) auto

lemma linked_cong:
  assumes "linked k ps" "active_process k' = active_process k"
    "\<And>p. p \<in> set ps \<Longrightarrow> next_process (processes k' p) = next_process (processes k p) \<and>
       previous_process (processes k' p) = previous_process (processes k p)"
  shows "linked k' ps"
  using assms path_cong' [of ps k' k] prevs_cong [of ps k' k] by (simp add: linked_def ring_def)

lemma linkedD:
  assumes "linked k (p # ps)"
  shows "active_process k = p" "p \<noteq> 0" "distinct (p # ps)" "previous_process (processes k p) = last (p # ps)"
    "next_process (processes k p) = hd (ps @ [p])" "0 \<notin> set (p # ps)"
proof -
  show *: "active_process k = p" "p \<noteq> 0" "distinct (p # ps)" "previous_process (processes k p) = last (p # ps)"
    using assms by (auto simp: linked_def ring_def)
  have pth: "path k (next_process (processes k p)) ps p" using assms by (auto simp: linked_def ring_def)
  then show "next_process (processes k p) = hd (ps @ [p])" by (cases ps) auto
  have "0 \<notin> set qs" if "path k x qs y" for x qs y using that by (induction qs arbitrary: x) auto
  then show "0 \<notin> set (p # ps)" using pth *(2) by simp
qed

lemma set_process_simps [simp]:
  "processes (set_process p f k) q = (if q = p then f (processes k p) else processes k q)"
  "active_process (set_process p f k) = active_process k" "current_pid (set_process p f k) = current_pid k"
  "page_tables (set_process p f k) = page_tables k" "directory (set_process p f k) = directory k"
  "kernel_page_directory (set_process p f k) = kernel_page_directory k" "phys (set_process p f k) = phys k"
  "loaded_directory (set_process p f k) = loaded_directory k" "available_frames (set_process p f k) = available_frames k"
  "fd_blocks (set_process p f k) = fd_blocks k"
  by (simp_all add: set_process_def directory_def fun_eq_iff)

text \<open>Only links of process records differ.\<close>

definition relinked :: "Kernel \<Rightarrow> Kernel \<Rightarrow> bool" where
  "relinked k k' \<longleftrightarrow> k' = k\<lparr>active_process := active_process k', processes := processes k'\<rparr> \<and>
     (\<forall>p. \<exists>x y. processes k' p = (processes k p)\<lparr>previous_process := x, next_process := y\<rparr>)"

lemma rotate_linked:
  assumes "linked k (p # ps)"
  shows "linked (k\<lparr>active_process := next_process (processes k p)\<rparr>) (ps @ [p])"
proof -
  note d = linkedD [OF assms]
  let ?k = "k\<lparr>active_process := next_process (processes k p)\<rparr>"
  have same: "path ?k = path k" "prevs ?k = prevs k"
  proof -
    show "path ?k = path k" by (intro ext) (rule path_cong, simp)
    have "prevs ?k x qs = prevs k x qs" for x qs by (rule prevs_cong) simp
    then show "prevs ?k = prevs k" by (intro ext)
  qed
  have "path k (next_process (processes k p)) ps p" using assms d(1) by (simp add: linked_def ring_def)
  then have "path k (next_process (processes k p)) (ps @ [p]) (next_process (processes k p))"
    using d(2) by (auto simp: path_append)
  moreover have "prevs k p (ps @ [p])" using assms d(4) by (auto simp: linked_def prevs_append)
  ultimately show ?thesis using d(3) by (simp add: linked_def ring_def same)
qed

lemma link_new_process_ok:
  assumes "linked k (a # ps)" "new \<noteq> 0" "new \<notin> set (a # ps)"
  shows "\<exists>k'. link_new_process new k = Inr k' \<and> linked k' (a # ps @ [new]) \<and> relinked k k' \<and>
    active_process k' = active_process k"
proof -
  note d = linkedD [OF assms(1)]
  let ?l = "last (a # ps)"
  have l: "?l \<in> set (a # ps)" by (rule last_in_set) simp
  then have l0: "?l \<noteq> 0" "?l \<noteq> new" using d(6) assms(3) by metis+
  let ?k1 = "set_process ?l (\<lambda>p. p\<lparr>next_process := new\<rparr>) k"
  let ?k2 = "set_process new (\<lambda>p. p\<lparr>previous_process := ?l\<rparr>) ?k1"
  let ?k3 = "set_process a (\<lambda>p. p\<lparr>previous_process := new\<rparr>) ?k2"
  let ?k' = "set_process new (\<lambda>p. p\<lparr>next_process := a\<rparr>) ?k3"
  have e: "link_new_process new k = Inr ?k'"
    using d(1,2,4) l0 by (simp only: link_new_process_def Let_def not_null_simps rbind_Inr) simp
  define qs where "qs = butlast (a # ps)"
  have qs: "a # ps = qs @ [?l]" by (simp add: qs_def)
  have "path k a (qs @ [?l]) a" unfolding qs [symmetric] using assms(1) d(1) by (simp add: linked_def ring_def)
  then have p: "path k a qs ?l" "next_process (processes k ?l) = a" by (simp_all only: path_snoc)
  have nx: "next_process (processes ?k' p) = next_process (processes k p)" if "p \<in> set qs" for p
  proof -
    have "p \<in> set (a # ps)" "p \<noteq> ?l" using that d(3) qs by (metis Un_iff set_append, metis distinct_append disjoint_insert(1) list.simps(15) IntI empty_iff list.set_intros(1))
    then have "p \<noteq> new" "p \<noteq> ?l" using assms(3) by metis+
    then show ?thesis by (auto split: if_splits)
  qed
  have "path ?k' a qs ?l" using p(1) path_cong' [OF nx] by blast
  then have "path ?k' a (qs @ [?l] @ [new]) a"
    using l0 assms(2,3) d(2) unfolding append_assoc [symmetric] path_snoc by (simp split: if_splits)
  then have "path ?k' a (a # ps @ [new]) a" using qs by (metis append_Cons append_assoc)
  moreover have "prevs ?k' new (a # ps @ [new])"
  proof -
    have pv: "previous_process (processes ?k' p) = previous_process (processes k p)" if "p \<in> set ps" for p
      using that assms(3) d(3) by auto
    have "prevs k a ps" using assms(1) by (simp add: linked_def)
    then have "prevs ?k' a ps" using prevs_cong [OF pv] by blast
    moreover have "previous_process (processes ?k' new) = (if ps = [] then a else last ps)"
      using assms(3) by simp
    moreover have "previous_process (processes ?k' a) = new" using assms(3) by auto
    ultimately show ?thesis by (simp only: prevs.simps prevs_append)
  qed
  moreover have "distinct (a # ps @ [new])" using d(3) assms(3) by auto
  ultimately have "linked ?k' (a # ps @ [new])" using d(1) by (simp add: linked_def ring_def del: prevs.simps path.simps)
  moreover have "relinked k ?k'"
    unfolding relinked_def
  proof (intro conjI allI)
    show "?k' = k\<lparr>active_process := active_process ?k', processes := processes ?k'\<rparr>"
      by (cases k) (simp add: set_process_def)
    fix p
    show "\<exists>x y. processes ?k' p = (processes k p)\<lparr>previous_process := x, next_process := y\<rparr>"
      by (cases "processes k p"; cases "processes k a"; cases "processes k new"; cases "processes k ?l") auto
  qed
  ultimately show ?thesis unfolding e by (intro exI [of _ ?k']) simp
qed


lemma unlink_process_ok:
  assumes "linked k (a # b # ps)"
  shows "\<exists>k'. unlink_process a (k\<lparr>active_process := next_process (processes k a)\<rparr>) = Inr k' \<and>
    linked k' (b # ps) \<and> relinked k k' \<and> active_process k' = b"
proof -
  note d = linkedD [OF assms]
  define l where "l = last (b # ps)"
  have l: "l \<in> set (b # ps)" unfolding l_def by (rule last_in_set) simp
  have lb: "l \<noteq> 0" "l \<noteq> a" "b \<noteq> a" "b \<noteq> 0" using l d(3,6) by auto
  have na: "next_process (processes k a) = b" "previous_process (processes k a) = l" using d(4,5) by (simp_all add: l_def)
  let ?k0 = "k\<lparr>active_process := b\<rparr>"
  let ?k1 = "set_process b (\<lambda>q. q\<lparr>previous_process := l\<rparr>) ?k0"
  let ?k' = "set_process l (\<lambda>q. q\<lparr>next_process := b\<rparr>) ?k1"
  have e: "unlink_process a (k\<lparr>active_process := next_process (processes k a)\<rparr>) = Inr ?k'"
    using lb by (simp add: unlink_process_def na Let_def)
  define qs where "qs = butlast (b # ps)"
  have qs: "b # ps = qs @ [l]" by (simp add: qs_def l_def)
  have "path k b (qs @ [l]) a" unfolding qs [symmetric] using assms d(1) na(1) by (auto simp: linked_def ring_def)
  then have p: "path k b qs l" by (simp only: path_snoc)
  have "distinct (qs @ [l])" unfolding qs [symmetric] using d(3) by simp
  then have "l \<notin> set qs" by simp
  then have nx: "next_process (processes ?k' p) = next_process (processes k p)" if "p \<in> set qs" for p
    using that by auto
  have "path ?k' b qs l" using p path_cong' [OF nx] by blast
  then have "path ?k' b (b # ps) b" unfolding qs path_snoc using lb by simp
  moreover have "prevs ?k' l (b # ps)"
  proof -
    have pv: "previous_process (processes ?k' p) = previous_process (processes k p)" if "p \<in> set ps" for p
      using that d(3) by auto
    have "prevs k b ps" using assms by (simp add: linked_def)
    then show ?thesis using prevs_cong [OF pv] by auto
  qed
  ultimately have "linked ?k' (b # ps)" using d(3) l_def by (simp add: linked_def ring_def del: prevs.simps path.simps)
  moreover have "relinked k ?k'"
    unfolding relinked_def
  proof (intro conjI allI)
    show "?k' = k\<lparr>active_process := active_process ?k', processes := processes ?k'\<rparr>"
      by (cases k) (simp add: set_process_def)
    fix p
    show "\<exists>x y. processes ?k' p = (processes k p)\<lparr>previous_process := x, next_process := y\<rparr>"
      by (cases "processes k p"; cases "processes k b"; cases "processes k l") auto
  qed
  ultimately show ?thesis unfolding e by (intro exI [of _ ?k']) simp
qed


section \<open>Round robin\<close>

definition save_regs :: "u32 \<times> u32 \<times> u32 \<Rightarrow> Process \<Rightarrow> Process" where
  "save_regs r p = (case r of (i, s, b) \<Rightarrow> p\<lparr>eip := i, esp := s, ebp := b\<rparr>)"

definition saved_jump :: "Process \<Rightarrow> 'a control" where
  "saved_jump p = Switch_context (eip p) (esp p) (ebp p)"

lemma save_regs_simps [simp]:
  "next_process (save_regs r p) = next_process p" "previous_process (save_regs r p) = previous_process p"
  "page_directory (save_regs r p) = page_directory p" "pid (save_regs r p) = pid p"
  "file_descriptors (save_regs r p) = file_descriptors p"
  "saved_jump (save_regs (i, s, b) p) = Switch_context i s b"
  by (simp_all add: save_regs_def saved_jump_def split: prod.splits)

text \<open>The directory of every process has a frame the processor can be given.\<close>

definition spaces_loadable :: "Kernel \<Rightarrow> u32 list \<Rightarrow> bool" where
  "spaces_loadable k ps \<longleftrightarrow>
     (\<forall>p \<in> set ps. rok (paging_get_page_directory_x86_tables_frame_address (page_directory (processes k p)) k))"

definition frame_of_space :: "Kernel \<Rightarrow> u32 \<Rightarrow> u32" where
  "frame_of_space k pd = projr (paging_get_page_directory_x86_tables_frame_address pd k)"

lemma frame_address_cong:
  "page_tables k' = page_tables k \<Longrightarrow> directory k' = directory k \<Longrightarrow> kernel_page_directory k' = kernel_page_directory k \<Longrightarrow>
   paging_get_page_directory_x86_tables_frame_address pd k' = paging_get_page_directory_x86_tables_frame_address pd k"
  by (simp add: paging_get_page_directory_x86_tables_frame_address_def get_physical_address_of_virtual_address_def cong: if_cong)

lemma resume_active_ok:
  assumes "spaces_loadable k ps" "p \<in> set ps" "active_process (knl s) = p"
    "page_directory (processes (knl s) p) = page_directory (processes k p)" "page_tables (knl s) = page_tables k"
    "directory (knl s) = directory k" "kernel_page_directory (knl s) = kernel_page_directory k"
  shows "resume_active s = Inr (saved_jump (processes (knl s) p),
    (with_knl s ((knl s)\<lparr>loaded_directory := page_directory (processes k p),
       cr3 := frame_of_space k (page_directory (processes k p))\<rparr>))\<lparr>interrupts_enabled := True\<rparr>)"
proof -
  let ?pd = "page_directory (processes k p)"
  obtain f where f: "paging_get_page_directory_x86_tables_frame_address ?pd k = Inr f"
    using assms(1,2) unfolding spaces_loadable_def rok_def by blast
  moreover have "paging_get_page_directory_x86_tables_frame_address ?pd (knl s) = paging_get_page_directory_x86_tables_frame_address ?pd k"
    by (rule frame_address_cong [OF assms(5-7)])
  ultimately show ?thesis
    by (simp add: resume_active_def Let_def assms(3,4) process_switch_context_def saved_jump_def frame_of_space_def
        paging_switch_page_directory_def)
qed

text \<open>What a switch changes: the saved registers of the process that loses the processor, and the loaded directory.\<close>

definition switched :: "(u32 \<Rightarrow> Process) \<Rightarrow> u32 \<Rightarrow> Rawos \<Rightarrow> Rawos" where
  "switched procs a s =
    (with_knl s ((knl s)\<lparr>processes := procs, active_process := a,
       loaded_directory := page_directory (procs a), cr3 := frame_of_space (knl s) (page_directory (procs a))\<rparr>))
       \<lparr>interrupts_enabled := True\<rparr>"

lemma process_switch_step:
  assumes "linked (knl s) (p # ps)" "spaces_loadable (knl s) (p # ps)" "i \<noteq> process_switch_context_magic_return_value"
  shows "process_switch i sp b s = Inr (saved_jump (((processes (knl s))(p := save_regs (i, sp, b) (processes (knl s) p))) (hd (ps @ [p]))),
    switched ((processes (knl s))(p := save_regs (i, sp, b) (processes (knl s) p))) (hd (ps @ [p])) s)"
proof -
  note d = linkedD [OF assms(1)]
  let ?k = "knl s" and ?n = "hd (ps @ [p])"
  let ?P = "(processes ?k)(p := save_regs (i, sp, b) (processes ?k p))"
  let ?k1 = "set_process p (\<lambda>q. q\<lparr>ebp := b\<rparr>) (set_process p (\<lambda>q. q\<lparr>esp := sp\<rparr>) (set_process p (\<lambda>q. q\<lparr>eip := i\<rparr>) ?k))"
  have nm: "?n \<in> set (p # ps)" by (cases ps) auto
  then have n0: "?n \<noteq> 0" using d(6) by metis
  have k1: "?k1\<lparr>active_process := ?n\<rparr> = ?k\<lparr>processes := ?P, active_process := ?n\<rparr>"
    by (simp add: set_process_def save_regs_def)
  have nx: "next_process (processes ?k1 p) = ?n" using d(5) by simp
  have pd: "page_directory (?P ?n) = page_directory (processes ?k ?n)" by simp
  have "process_switch i sp b s = resume_active (with_knl s (?k\<lparr>processes := ?P, active_process := ?n\<rparr>))"
    unfolding process_switch_def Let_def d(1) using d(2,5) n0 assms(3) nx k1 by (simp only: if_False)
  also have "\<dots> = Inr (saved_jump (?P ?n), switched ?P ?n s)"
    by (subst resume_active_ok [OF assms(2) nm]) (simp_all add: directory_def fun_eq_iff switched_def frame_of_space_def)
  finally show ?thesis .
qed

text \<open>
  Timer interrupts one after the other: the registers of the process that is interrupted
  each time, and the jumps with which the interrupts end.
\<close>

fun schedule :: "(u32 \<times> u32 \<times> u32) list \<Rightarrow> Rawos \<Rightarrow> (unit control list \<times> Rawos) res" where
  "schedule [] s = Inr ([], s)"
| "schedule ((i, sp, b) # rs) s =
    rbind (process_switch i sp b s) (\<lambda>(c, s). rbind (schedule rs s) (\<lambda>(cs, s). Inr (c # cs, s)))"

lemma switched_simps [simp]:
  "processes (knl (switched P a s)) = P" "active_process (knl (switched P a s)) = a"
  "interrupts_enabled (switched P a s)" "loaded_directory (knl (switched P a s)) = page_directory (P a)"
  "cr3 (knl (switched P a s)) = frame_of_space (knl s) (page_directory (P a))"
  "page_tables (knl (switched P a s)) = page_tables (knl s)" "directory (knl (switched P a s)) = directory (knl s)"
  "kernel_page_directory (knl (switched P a s)) = kernel_page_directory (knl s)"
  by (simp_all add: switched_def directory_def fun_eq_iff)

text \<open>The registers of the processes \<open>qs\<close> are saved, nothing else of a process changes.\<close>

definition regs_saved :: "(u32 \<times> u32 \<times> u32) list \<Rightarrow> u32 list \<Rightarrow> Kernel \<Rightarrow> Kernel \<Rightarrow> bool" where
  "regs_saved regs qs k k' \<longleftrightarrow> (\<forall>p. p \<notin> set qs \<longrightarrow> processes k' p = processes k p) \<and>
     (\<forall>n < length qs. processes k' (qs ! n) = save_regs (regs ! n) (processes k (qs ! n)))"

lemma regs_saved_directory: "regs_saved regs qs k k' \<Longrightarrow> page_directory (processes k' p) = page_directory (processes k p)"
  by (cases "p \<in> set qs") (auto simp: regs_saved_def in_set_conv_nth)

lemma step_linked:
  assumes "linked (knl s) (p # ps)"
  shows "linked (knl (switched ((processes (knl s))(p := save_regs r (processes (knl s) p))) (hd (ps @ [p])) s)) (ps @ [p])"
proof -
  have "linked ((knl s)\<lparr>active_process := hd (ps @ [p])\<rparr>) (ps @ [p])"
    using rotate_linked [OF assms] linkedD(5) [OF assms] by simp
  then show ?thesis by (rule linked_cong) auto
qed

lemma spaces_loadable_cong:
  assumes "spaces_loadable k ps" "page_tables k' = page_tables k" "directory k' = directory k"
    "kernel_page_directory k' = kernel_page_directory k" "\<And>p. page_directory (processes k' p) = page_directory (processes k p)"
    "set qs \<subseteq> set ps"
  shows "spaces_loadable k' qs"
  unfolding spaces_loadable_def assms(5) frame_address_cong [OF assms(2-4)]
proof
  fix p assume "p \<in> set qs"
  then have "p \<in> set ps" by (rule subsetD [OF assms(6)])
  then show "rok (paging_get_page_directory_x86_tables_frame_address (page_directory (processes k p)) k)"
    using assms(1) unfolding spaces_loadable_def by (rule bspec [rotated])
qed

lemma frame_of_space_cong:
  assumes "page_tables k' = page_tables k" "directory k' = directory k" "kernel_page_directory k' = kernel_page_directory k"
  shows "frame_of_space k' = frame_of_space k"
  by (intro ext) (simp only: frame_of_space_def frame_address_cong [OF assms])

lemma schedule_append:
  "schedule (r1 @ r2) s = rbind (schedule r1 s) (\<lambda>(c1, s). rbind (schedule r2 s) (\<lambda>(c2, s). Inr (c1 @ c2, s)))"
proof (induction r1 arbitrary: s)
  case Nil
  then show ?case by (cases "schedule r2 s") auto
next
  case (Cons r r1)
  obtain i sp b where r: "r = (i, sp, b)" by (cases r)
  show ?case
  proof (cases "process_switch i sp b s")
    case (Inr x)
    obtain c s1 where x: "x = (c, s1)" by (cases x)
    show ?thesis
    proof (cases "schedule r1 s1")
      case (Inr y)
      obtain c1 s2 where y: "y = (c1, s2)" by (cases y)
      show ?thesis using \<open>process_switch i sp b s = Inr x\<close> Inr Cons.IH [of s1]
        by (cases "schedule r2 s2") (auto simp: r x y)
    qed (simp add: r x Inr Cons.IH)
  qed (simp add: r)
qed

lemma schedule_part:
  assumes "linked (knl s) (qs @ rs)" "spaces_loadable (knl s) (qs @ rs)" "length regs = length qs" "rs \<noteq> []"
    "\<forall>r \<in> set regs. fst r \<noteq> process_switch_context_magic_return_value"
  shows "\<exists>s'. schedule regs s = Inr (map (\<lambda>p. saved_jump (processes (knl s) p)) (tl (qs @ [hd rs])), s') \<and>
    linked (knl s') (rs @ qs) \<and> regs_saved regs qs (knl s) (knl s') \<and> page_tables (knl s') = page_tables (knl s) \<and>
    directory (knl s') = directory (knl s) \<and> kernel_page_directory (knl s') = kernel_page_directory (knl s)"
  using assms
proof (induction qs arbitrary: s regs rs)
  case Nil
  then show ?case by (intro exI [of _ s]) (simp add: regs_saved_def)
next
  case (Cons q qs)
  obtain i sp b regs' where r: "regs = (i, sp, b) # regs'" "length regs' = length qs"
    using Cons.prems(3) by (cases regs) auto
  let ?P = "(processes (knl s))(q := save_regs (i, sp, b) (processes (knl s) q))" and ?n = "hd (qs @ rs @ [q])"
  let ?s1 = "switched ?P ?n s"
  have l: "linked (knl s) (q # (qs @ rs))" "spaces_loadable (knl s) (q # (qs @ rs))" using Cons.prems(1,2) by simp_all
  have d: "q \<notin> set qs" "q \<notin> set rs" "distinct qs" using linkedD(3) [OF l(1)] by auto
  have nh: "?n = hd (qs @ [hd rs])" using Cons.prems(4) by (cases qs) auto
  have nq: "?n \<noteq> q" using d Cons.prems(4) by (cases qs) (auto simp: nh)
  have magic: "i \<noteq> process_switch_context_magic_return_value" "\<forall>r \<in> set regs'. fst r \<noteq> process_switch_context_magic_return_value"
    using Cons.prems(5) r(1) by simp_all
  have 1: "process_switch i sp b s = Inr (saved_jump (?P ?n), ?s1)"
    using process_switch_step [OF l magic(1)] by simp
  have l1: "linked (knl ?s1) (qs @ (rs @ [q]))" using step_linked [OF l(1)] by simp
  have sl: "spaces_loadable (knl ?s1) (qs @ (rs @ [q]))"
    by (rule spaces_loadable_cong [OF l(2)]) auto
  obtain s' where 2: "schedule regs' ?s1 = Inr (map (\<lambda>p. saved_jump (processes (knl ?s1) p)) (tl (qs @ [hd (rs @ [q])])), s')"
    "linked (knl s') ((rs @ [q]) @ qs)" "regs_saved regs' qs (knl ?s1) (knl s')" "page_tables (knl s') = page_tables (knl ?s1)"
    "directory (knl s') = directory (knl ?s1)" "kernel_page_directory (knl s') = kernel_page_directory (knl ?s1)"
    using Cons.IH [OF l1 sl r(2) _ magic(2)] by auto
  have "map (\<lambda>p. saved_jump (?P p)) (tl (qs @ [hd rs])) = map (\<lambda>p. saved_jump (processes (knl s) p)) (tl (qs @ [hd rs]))"
    using d Cons.prems(4) by (intro map_cong) (cases qs; auto)+
  then have "saved_jump (?P ?n) # map (\<lambda>p. saved_jump (processes (knl ?s1) p)) (tl (qs @ [hd (rs @ [q])])) =
      map (\<lambda>p. saved_jump (processes (knl s) p)) (tl ((q # qs) @ [hd rs]))"
    using nq nh Cons.prems(4) by (cases qs) (auto simp del: switched_simps(3))
  moreover have "regs_saved regs (q # qs) (knl s) (knl s')"
    unfolding regs_saved_def
  proof (intro conjI allI impI)
    fix p assume "p \<notin> set (q # qs)"
    then show "processes (knl s') p = processes (knl s) p" using 2(3) by (simp add: regs_saved_def)
  next
    fix n assume n: "n < length (q # qs)"
    show "processes (knl s') ((q # qs) ! n) = save_regs (regs ! n) (processes (knl s) ((q # qs) ! n))"
    proof (cases n)
      case 0
      then show ?thesis using 2(3) d(1) by (simp add: regs_saved_def r(1))
    next
      case (Suc m)
      then have "qs ! m \<noteq> q" using n d(1) by (metis Suc_less_eq length_Cons nth_mem)
      then show ?thesis using 2(3) n Suc by (simp add: regs_saved_def r(1))
    qed
  qed
  ultimately show ?case using 1 2 r(1) by (intro exI [of _ s']) simp
qed


definition sys_with :: "Machine \<Rightarrow> Rawos" where
  "sys_with m = \<lparr>os = os_with m, interrupts_enabled = False, trap_handlers = replicate 256 No_trap,
     syscall_stubs = empty_map 1 4 8 (=) (\<lambda>k. 0)\<rparr>"

lemma sys_with_simps [simp]: "mach (sys_with m) = m" "interrupts_enabled (sys_with m) = False"
  by (simp_all add: sys_with_def os_with_def)

text \<open>Two processes, at 64 and 128.\<close>

definition sample_record :: "u32 \<Rightarrow> Process" where
  "sample_record p = (if p = 64
     then \<lparr>pid = 1, esp = 0, ebp = 0, eip = 0, page_directory = 0x30000,
       file_descriptors = \<lparr>fd_capacity = 16, fd_num_elements = 0, fd_data = 0x40000\<rparr>, fd_next = 0,
       previous_process = 128, next_process = 128\<rparr>
     else \<lparr>pid = 2, esp = 0xB0, ebp = 0xC0, eip = 0xA0, page_directory = 0x30000,
       file_descriptors = \<lparr>fd_capacity = 16, fd_num_elements = 0, fd_data = 0x40000\<rparr>, fd_next = 0,
       previous_process = 64, next_process = 64\<rparr>)"

definition two_processes :: Machine where
  "two_processes = \<lparr>heap = sample_heap, ram = sample_ram, kern = sample_kernel\<lparr>processes := sample_record\<rparr>\<rparr>"

lemma two_processes_linked: "linked (kern two_processes) [64, 128]"
  by (simp add: linked_def ring_def two_processes_def sample_kernel_def sample_record_def)


end
