(* ===== verification/Process_Pages.thy ===== *)
theory Process_Pages
  imports Process_Spaces
begin

text \<open>
  Filling an address space: the pages of a list are created one after the other, as
  \<open>rawx_load\<close> does for the two stacks of a process (src/src/rawx.c).
\<close>

section \<open>The loops over pages\<close>

fun create_process_pages :: "bool \<Rightarrow> u32 \<Rightarrow> bool \<Rightarrow> u32 list \<Rightarrow> Machine \<Rightarrow> Machine res option" where
  "create_process_pages g pd user [] s = Some (Inr s)"
| "create_process_pages g pd user (p # ps) s =
    obind (paging_create_process_page_with_any_frame g pd p user s) (\<lambda>(frame, s). create_process_pages g pd user ps s)"

section \<open>A space under construction\<close>

text \<open>
  \<open>space_inv bs S pd I c d j s\<close>: \<open>pd\<close> is loaded, its tables are in blocks of the heap, the
  entries of a table are pages of \<open>S\<close> or empty, and only the entries \<open>I\<close> of the directory
  are in use.
\<close>

definition space_inv :: "layout \<Rightarrow> slot set \<Rightarrow> u32 \<Rightarrow> nat set \<Rightarrow> nat \<Rightarrow> nat \<Rightarrow> nat \<Rightarrow> Machine \<Rightarrow> bool" where
  "space_inv bs S pd I c d j s \<longleftrightarrow> machine_ok bs S c d j s \<and> pd \<noteq> kernel_page_directory (kern s) \<and>
     loaded_directory (kern s) = pd \<and> finite I \<and>
     inj_on (tables (directory (kern s) pd)) {i \<in> set high. tables (directory (kern s) pd) i \<noteq> 0} \<and>
     (\<forall>i \<in> set high. tables (directory (kern s) pd) i \<noteq> 0 \<longrightarrow> i \<in> I \<and>
        tables (directory (kern s) pd) i \<in> adr ` (blocks_at bs - {5308428}) \<and>
        (\<forall>l. (tables (directory (kern s) pd) i, l) \<in> S \<or> entry_at (kern s) (tables (directory (kern s) pd) i, l) = zero_entry)) \<and>
     (\<forall>x \<in> S. snd x < 1024)"

lemma space_invD:
  assumes "space_inv bs S pd I c d j s"
  shows "machine_ok bs S c d j s" "pd \<noteq> kernel_page_directory (kern s)" "loaded_directory (kern s) = pd" "finite I"
    "inj_on (tables (directory (kern s) pd)) {i \<in> set high. tables (directory (kern s) pd) i \<noteq> 0}"
    "\<And>i. i \<in> set high \<Longrightarrow> tables (directory (kern s) pd) i \<noteq> 0 \<Longrightarrow> i \<in> I"
    "\<And>i. i \<in> set high \<Longrightarrow> tables (directory (kern s) pd) i \<noteq> 0 \<Longrightarrow> tables (directory (kern s) pd) i \<in> adr ` (blocks_at bs - {5308428})"
    "\<And>i l. i \<in> set high \<Longrightarrow> tables (directory (kern s) pd) i \<noteq> 0 \<Longrightarrow>
       (tables (directory (kern s) pd) i, l) \<in> S \<or> entry_at (kern s) (tables (directory (kern s) pd) i, l) = zero_entry"
    "\<And>x. x \<in> S \<Longrightarrow> snd x < 1024" "owned (kern s) S"
  using assms unfolding space_inv_def machine_ok_def space_ready_def by blast+

lemma space_inv_anchor:
  assumes "space_inv bs S pd I c d j s"
  shows "5308428 \<in> blocks_at bs"
proof -
  have e: "heap_start + 12 = (5308428 :: nat)" by simp
  have "anchored heap_start bs" using space_invD(1) [OF assms] by (simp only: machine_ok_def)
  then show ?thesis unfolding anchored_def e .
qed

text \<open>One more page: what is left of \<open>process_page_ok\<close> in terms of the invariant.\<close>

lemma space_inv_page:
  assumes s: "space_inv bs S pd I (c + 3) (d + 1) (Suc j) s" and x: "262144 \<le> x" "x < 1048576"
    and new: "\<not> in_use (kern s) (slot_of (kern s) pd x)"
  shows "\<exists>f s' bs'. paging_create_process_page_with_any_frame g pd (adr x) user s = Some (Inr (adr f, s')) \<and>
    space_inv bs' (insert (slot_of (kern s') pd x) S) pd (insert (x div 1024) I) c d j s' \<and> blocks_at bs \<subseteq> blocks_at bs' \<and>
    in_use (kern s') (slot_of (kern s') pd x) \<and>
    (\<forall>y. 262144 \<le> y \<and> y < 1048576 \<and> y \<noteq> x \<longrightarrow> (in_use (kern s') (slot_of (kern s') pd y) \<longleftrightarrow> in_use (kern s) (slot_of (kern s) pd y))) \<and>
    kernel_page_directory (kern s') = kernel_page_directory (kern s) \<and> processes (kern s') = processes (kern s) \<and>
    active_process (kern s') = active_process (kern s) \<and> current_pid (kern s') = current_pid (kern s)"
proof -
  note i = space_invD [OF s]
  let ?k = "kern s" and ?D = "tables (directory (kern s) pd)" and ?i = "x div 1024" and ?j = "x mod 1024"
  have ih: "?i \<in> set high" using x by (simp add: less_eq_div_iff_mult_less_eq less_mult_imp_div_less)
  have T0: "?D ?i = 0 \<or> ?D ?i \<in> adr ` blocks_at bs \<and> \<not> present (entry_at ?k (?D ?i, ?j))"
    using i(7) [OF ih] new by (auto simp: in_use_def slot_of_def)
  obtain f s' bs' T k1 where 1: "paging_create_process_page_with_any_frame g pd (adr x) user s = Some (Inr (adr f, s'))"
    "machine_ok bs' (insert (T, ?j) S) c d j s'" "tables (directory (kern s') pd) ?i = T" "T \<in> adr ` blocks_at bs'"
    "blocks_at bs \<subseteq> blocks_at bs'" "extended ?k k1 (blocks_at bs) pd {?i}" "same_kernel k1 (kern s')"
    "page_made k1 (kern s') f T ?j user"
    "if ?D ?i = 0 then T \<notin> adr ` blocks_at bs \<and> page_tables k1 T = (\<lambda>j. zero_entry) else T = ?D ?i"
    using process_page_ok [OF i(1-3) x T0, of g user] by (elim exE conjE) (rule that; assumption)
  let ?k' = "kern s'" and ?D' = "tables (directory (kern s') pd)"
  have fo: "frames_only k1 ?k'" using 1(8) by (simp add: page_made_def)
  note fs = frames_only_same [OF fo]
  have D': "?D' l = ?D l" if "l \<in> set high" "l \<noteq> ?i" for l
    using extended_dir(1) [OF 1(6), of l pd] that fs(6) by simp
  have T_nz: "T \<noteq> 0"
  proof -
    obtain b where "T = adr b" "b \<in> blocks_at bs'" using 1(4) by (rule imageE)
    then show ?thesis using heap_range(4) [OF 1(2)] by simp
  qed
  have apart: "?D l \<noteq> T" if "l \<in> set high" "l \<noteq> ?i" "?D l \<noteq> 0" for l
  proof
    assume e: "?D l = T"
    show False
    proof (cases "?D ?i = 0")
      case True
      then have "T \<notin> adr ` blocks_at bs" using 1(9) by simp
      then show False using i(7) [OF that(1,3)] e by blast
    next
      case False
      then have "?D ?i = ?D l" using 1(9) e by simp
      then show False using inj_onD [OF i(5), of ?i l] False that ih by simp
    qed
  qed
  have old: "entry_at k1 (?D l, n) = entry_at ?k (?D l, n)" if "l \<in> set high" "?D l \<noteq> 0" for l n
  proof -
    have "tables_at (blocks_at bs) (?D l)" using i(7) [OF that] unfolding tables_at_def by blast
    then show ?thesis using 1(6) by (simp add: extended_def entry_at_def)
  qed
  have e': "entry_at ?k' (t, n) = entry_at k1 (t, n)" if "(t, n) \<noteq> (T, ?j)" for t n
    using 1(8) that by (simp add: page_made_def entry_at_def)
  have so: "slot_of ?k' pd x = (T, ?j)" using 1(3) by (simp add: slot_of_def)
  have row: "(?D' l, n) \<in> insert (T, ?j) S \<or> entry_at ?k' (?D' l, n) = zero_entry" if l: "l \<in> set high" "?D' l \<noteq> 0" for l n
  proof (cases "l = ?i")
    case True
    show ?thesis
    proof (cases "(T, n) = (T, ?j)")
      case False
      then have "entry_at ?k' (T, n) = entry_at k1 (T, n)" by (rule e')
      moreover have "(T, n) \<in> S \<or> entry_at k1 (T, n) = zero_entry"
      proof (cases "?D ?i = 0")
        case True
        then show ?thesis using 1(9) by (simp add: entry_at_def)
      next
        case False
        then show ?thesis using 1(9) i(8) [OF ih False] old [OF ih False] by simp
      qed
      ultimately show ?thesis using True 1(3) by auto
    qed (use True 1(3) in simp)
  next
    case False
    then have d: "?D' l = ?D l" "?D l \<noteq> 0" using D' [OF l(1)] l(2) by simp_all
    then have "(?D l, n) \<noteq> (T, ?j)" using apart [OF l(1) False] by simp
    then show ?thesis using e' [of "?D l" n] old [OF l(1) d(2)] i(8) [OF l(1) d(2)] d(1) by auto
  qed
  have blk: "?D' l \<in> adr ` (blocks_at bs' - {5308428})" if l: "l \<in> set high" "?D' l \<noteq> 0" for l
  proof (cases "?D l \<noteq> 0")
    case True
    have "?D' l = ?D l" using D' [OF l(1)] 1(3,9) True by (cases "l = ?i") auto
    then show ?thesis using i(7) [OF l(1) True] 1(5) by auto
  next
    case False
    then have li: "l = ?i" using D' [OF l(1)] l(2) by metis
    then have "T \<notin> adr ` blocks_at bs" using 1(9) False by simp
    moreover have "adr 5308428 \<in> adr ` blocks_at bs" using space_inv_anchor [OF s] by (rule imageI)
    ultimately have "T \<noteq> adr 5308428" by metis
    moreover obtain b where "T = adr b" "b \<in> blocks_at bs'" using 1(4) by (rule imageE)
    ultimately show ?thesis using li 1(3) by auto
  qed
  have apart': "?D' w \<noteq> T" if "w \<in> set high" "w \<noteq> ?i" "?D' w \<noteq> 0" for w
    using apart [OF that(1,2)] that(3) unfolding D' [OF that(1,2)] by blast
  have inj: "inj_on ?D' {l \<in> set high. ?D' l \<noteq> 0}"
  proof (rule inj_onI)
    fix u v assume a: "u \<in> {l \<in> set high. ?D' l \<noteq> 0}" "v \<in> {l \<in> set high. ?D' l \<noteq> 0}" "?D' u = ?D' v"
    then have uv: "u \<in> set high" "v \<in> set high" "?D' u \<noteq> 0" "?D' v \<noteq> 0" by blast+
    consider "u = ?i" "v = ?i" | "u \<noteq> ?i" "v = ?i" | "u = ?i" "v \<noteq> ?i" | "u \<noteq> ?i" "v \<noteq> ?i" by blast
    then show "u = v"
    proof cases
      case 2
      then have "?D' u = T" using a(3) 1(3) by simp
      then show ?thesis using apart' [OF uv(1) 2(1) uv(3)] by contradiction
    next
      case 3
      then have "?D' v = T" using a(3) 1(3) by simp
      then show ?thesis using apart' [OF uv(2) 3(2) uv(4)] by contradiction
    next
      case 4
      have "?D u = ?D v" "?D u \<noteq> 0" "?D v \<noteq> 0" using a(3) uv(3,4) D' [OF uv(1) 4(1)] D' [OF uv(2) 4(2)] by simp_all
      then show ?thesis using inj_onD [OF i(5), of u v] uv(1,2) by blast
    qed simp
  qed
  have only: "l \<in> insert ?i I" if "l \<in> set high" "?D' l \<noteq> 0" for l
    using that D' [OF that(1)] i(6) [OF that(1)] by (cases "l = ?i") auto
  have pd: "pd \<noteq> kernel_page_directory ?k'" "loaded_directory ?k' = pd"
    using i(2,3) 1(6) fs(2,5) by (simp_all add: extended_def)
  have inv: "space_inv bs' (insert (T, ?j) S) pd (insert ?i I) c d j s'"
    unfolding space_inv_def
  proof (intro conjI)
    show "\<forall>l \<in> set high. ?D' l \<noteq> 0 \<longrightarrow> l \<in> insert ?i I \<and> ?D' l \<in> adr ` (blocks_at bs' - {5308428}) \<and>
        (\<forall>n. (?D' l, n) \<in> insert (T, ?j) S \<or> entry_at ?k' (?D' l, n) = zero_entry)"
      by (intro ballI impI conjI allI) (rule only blk row; assumption)+
    show "\<forall>x \<in> insert (T, ?j) S. snd x < 1024" using i(9) by simp
    show "finite (insert ?i I)" using i(4) by simp
  qed (fact 1(2) pd inj)+
  have use_x: "in_use ?k' (slot_of ?k' pd x)" using 1(8) T_nz so by (simp add: in_use_def page_made_def)
  have use_y: "in_use ?k' (slot_of ?k' pd y) \<longleftrightarrow> in_use ?k (slot_of ?k pd y)" if y: "262144 \<le> y" "y < 1048576" "y \<noteq> x" for y
  proof -
    let ?l = "y div 1024" and ?n = "y mod 1024"
    have lh: "?l \<in> set high" using y by (simp add: less_eq_div_iff_mult_less_eq less_mult_imp_div_less)
    show ?thesis
    proof (cases "?l = ?i")
      case True
      then have "?n \<noteq> ?j" using y(3) by (metis div_mult_mod_eq)
      then have "entry_at ?k' (T, ?n) = entry_at k1 (T, ?n)" by (intro e') simp
      then show ?thesis using True 1(3,9) T_nz old [OF ih]
        by (auto simp: in_use_def slot_of_def entry_at_def zero_entry_def split: if_splits)
    next
      case False
      then have d: "?D' ?l = ?D ?l" using D' [OF lh] by simp
      then show ?thesis
        using old [OF lh] e' [of "?D ?l" ?n] apart [OF lh False] by (cases "?D ?l = 0") (simp_all add: in_use_def slot_of_def)
    qed
  qed
  show ?thesis
    using 1(1,5) inv use_x use_y 1(6) fs(2-4,8)
    by (intro exI [of _ f] exI [of _ s'] exI [of _ bs']) (simp add: extended_def so)
qed


lemma machine_ok_mono:
  assumes "machine_ok bs S c d j s" "c' \<le> c" "d' \<le> d" "j' \<le> j"
  shows "machine_ok bs S c' d' j' s"
proof -
  have "machine_ok bs S (c' + (c - c')) d (j' + (j - j')) s" using assms by simp
  then have "machine_ok bs S c' d j' s" by (rule machine_ok_less)
  then show ?thesis using assms(3) by (simp add: machine_ok_def space_ready_def)
qed

lemma space_inv_less: "space_inv bs S pd I (c + c') d (j + j') s \<Longrightarrow> space_inv bs S pd I c d j s"
  unfolding space_inv_def using machine_ok_less by blast

text \<open>
  All pages of the list are created: distinct ones that were not in use, with enough
  pages for the tables, frames and cells left.
\<close>

lemma create_process_pages_ok:
  assumes "space_inv bs S pd I (c + 3 * length xs) (d + length xs) (j + length xs) s" "distinct xs"
    "\<forall>x \<in> set xs. 262144 \<le> x \<and> x < 1048576 \<and> \<not> in_use (kern s) (slot_of (kern s) pd x)"
  shows "\<exists>s' bs' S'. create_process_pages g pd user (map adr xs) s = Some (Inr s') \<and>
    space_inv bs' S' pd (I \<union> (\<lambda>x. x div 1024) ` set xs) c d j s' \<and> blocks_at bs \<subseteq> blocks_at bs' \<and>
    card S' \<le> card S + length xs \<and>
    (\<forall>y. 262144 \<le> y \<and> y < 1048576 \<longrightarrow> (in_use (kern s') (slot_of (kern s') pd y) \<longleftrightarrow>
       in_use (kern s) (slot_of (kern s) pd y) \<or> y \<in> set xs)) \<and>
    kernel_page_directory (kern s') = kernel_page_directory (kern s) \<and> processes (kern s') = processes (kern s) \<and>
    active_process (kern s') = active_process (kern s) \<and> current_pid (kern s') = current_pid (kern s)"
  using assms
proof (induction xs arbitrary: bs S I s)
  case Nil
  then show ?case by (intro exI [of _ s] exI [of _ bs] exI [of _ S]) simp
next
  case (Cons x xs)
  have x: "262144 \<le> x" "x < 1048576" "\<not> in_use (kern s) (slot_of (kern s) pd x)" "x \<notin> set xs" "distinct xs"
    using Cons.prems(2,3) by simp_all
  have 0: "space_inv bs S pd I ((c + 3 * length xs) + 3) ((d + length xs) + 1) (Suc (j + length xs)) s"
    using Cons.prems(1) by (simp add: algebra_simps)
  obtain f s1 bs1 where 1: "paging_create_process_page_with_any_frame g pd (adr x) user s = Some (Inr (adr f, s1))"
    "space_inv bs1 (insert (slot_of (kern s1) pd x) S) pd (insert (x div 1024) I) (c + 3 * length xs) (d + length xs) (j + length xs) s1"
    "blocks_at bs \<subseteq> blocks_at bs1" "in_use (kern s1) (slot_of (kern s1) pd x)"
    "\<forall>y. 262144 \<le> y \<and> y < 1048576 \<and> y \<noteq> x \<longrightarrow>
       (in_use (kern s1) (slot_of (kern s1) pd y) \<longleftrightarrow> in_use (kern s) (slot_of (kern s) pd y))"
    "kernel_page_directory (kern s1) = kernel_page_directory (kern s)" "processes (kern s1) = processes (kern s)"
    "active_process (kern s1) = active_process (kern s)" "current_pid (kern s1) = current_pid (kern s)"
    using space_inv_page [OF 0 x(1-3), of g user] by (elim exE conjE) (rule that; assumption)
  have new: "\<forall>y \<in> set xs. 262144 \<le> y \<and> y < 1048576 \<and> \<not> in_use (kern s1) (slot_of (kern s1) pd y)"
    using Cons.prems(3) 1(5) x(4) by auto
  obtain s' bs' S' where 2: "create_process_pages g pd user (map adr xs) s1 = Some (Inr s')"
    "space_inv bs' S' pd (insert (x div 1024) I \<union> (\<lambda>x. x div 1024) ` set xs) c d j s'" "blocks_at bs1 \<subseteq> blocks_at bs'"
    "card S' \<le> card (insert (slot_of (kern s1) pd x) S) + length xs"
    "\<forall>y. 262144 \<le> y \<and> y < 1048576 \<longrightarrow> (in_use (kern s') (slot_of (kern s') pd y) \<longleftrightarrow>
       in_use (kern s1) (slot_of (kern s1) pd y) \<or> y \<in> set xs)"
    "kernel_page_directory (kern s') = kernel_page_directory (kern s1)" "processes (kern s') = processes (kern s1)"
    "active_process (kern s') = active_process (kern s1)" "current_pid (kern s') = current_pid (kern s1)"
    using Cons.IH [OF 1(2) x(5) new] by (elim exE conjE) (rule that; assumption)
  have "create_process_pages g pd user (map adr (x # xs)) s = Some (Inr s')" using 1(1) 2(1) by simp
  moreover have "I \<union> (\<lambda>x. x div 1024) ` set (x # xs) = insert (x div 1024) I \<union> (\<lambda>x. x div 1024) ` set xs" by auto
  moreover have "card S' \<le> card S + length (x # xs)"
  proof -
    have "card (insert (slot_of (kern s1) pd x) S) \<le> Suc (card S)" by (rule card_insert_le_m1) simp_all
    then show ?thesis using 2(4) by simp
  qed
  moreover have "in_use (kern s') (slot_of (kern s') pd y) \<longleftrightarrow> in_use (kern s) (slot_of (kern s) pd y) \<or> y \<in> set (x # xs)"
    if "262144 \<le> y \<and> y < 1048576" for y
    using 1(4,5) 2(5) that by (cases "y = x") auto
  moreover have "blocks_at bs \<subseteq> blocks_at bs'" using 1(3) 2(3) by (rule subset_trans)
  ultimately show ?case
    using 1(6-9) 2(2,6-9) by (intro exI [of _ s'] exI [of _ bs'] exI [of _ S']) simp
qed

section \<open>What the invariant gives to the operations on the whole space\<close>

lemma space_inv_source:
  assumes "space_inv bs S pd I c d j s" "i \<in> set high" "tables (directory (kern s) pd) i \<noteq> 0"
  shows "{l. (tables (directory (kern s) pd) i, l) \<in> S} = table_pages_of (kern s) (tables (directory (kern s) pd) i)"
    "source_ok (blocks_at bs) (kern s) (tables (directory (kern s) pd) i)"
proof -
  note i = space_invD [OF assms(1)]
  let ?T = "tables (directory (kern s) pd) i"
  have S: "present (entry_at (kern s) x)" "bm_bit (available_frames (kern s)) (slot_frame (kern s) x)" "snd x < 1024" if "x \<in> S" for x
    using i(10) that i(9) [OF that] by (simp_all add: owned_def)
  have u: "l \<in> set [0..<n] \<longleftrightarrow> l < n" for l n :: nat by simp
  have tp: "l \<in> table_pages_of (kern s) ?T \<longleftrightarrow> l < 1024 \<and> present (entry_at (kern s) (?T, l))" for l
    unfolding table_pages_of_def present_in_def mem_Collect_eq u by (simp add: entry_at_def)
  show 1: "{l. (?T, l) \<in> S} = table_pages_of (kern s) ?T"
    using i(8) [OF assms(2,3)] S by (fastforce simp: tp zero_entry_def)
  have "tables_at (blocks_at bs) ?T" using i(7) [OF assms(2,3)] unfolding tables_at_def by blast
  then show "source_ok (blocks_at bs) (kern s) ?T" unfolding source_ok_def 1 [symmetric] using S(2) by auto
qed

lemma space_inv_slots:
  assumes "space_inv bs S pd I c d j s"
  shows "dir_slots (kern s) pd (set high) \<subseteq> S" "length (dir_tables (kern s) pd high) \<le> card I"
    "dir_pages (kern s) pd high \<le> card S"
proof -
  note i = space_invD [OF assms]
  let ?T = "tables (directory (kern s) pd)" and ?L = "dir_tables (kern s) pd high"
  have L: "l \<in> set ?L \<longleftrightarrow> l \<in> set high \<and> ?T l \<noteq> 0" for l by (simp add: dir_tables_def)
  show sub: "dir_slots (kern s) pd (set high) \<subseteq> S"
    using space_inv_source(1) [OF assms] by (fastforce simp: dir_slots_def)
  have dL: "distinct ?L" by (simp add: dir_tables_def)
  have "set ?L \<subseteq> I" using i(6) L by blast
  then show "length ?L \<le> card I" using card_mono [OF i(4)] distinct_card [OF dL] by metis
  have fS: "finite S"
  proof -
    have "inj_on (slot_frame (kern s)) S" "slot_frame (kern s) ` S \<subseteq> {..<786432}" using i(10) by (auto simp: owned_def)
    then show ?thesis using finite_imageD finite_subset finite_lessThan by blast
  qed
  have "dir_pages (kern s) pd high = (\<Sum>l \<in> set ?L. card (table_pages_of (kern s) (?T l)))"
    unfolding dir_pages_def by (rule sum_list_distinct_conv_sum_set [OF dL])
  also have "\<dots> = (\<Sum>l \<in> set ?L. card (Pair (?T l) ` table_pages_of (kern s) (?T l)))"
    by (intro sum.cong refl card_image [symmetric]) (simp add: inj_on_def)
  also have "\<dots> = card (\<Union>l \<in> set ?L. Pair (?T l) ` table_pages_of (kern s) (?T l))"
  proof (rule card_UN_disjoint [symmetric])
    show "\<forall>l \<in> set ?L. finite (Pair (?T l) ` table_pages_of (kern s) (?T l))" by (simp add: table_pages_of_def)
    show "\<forall>l \<in> set ?L. \<forall>n \<in> set ?L. l \<noteq> n \<longrightarrow>
        Pair (?T l) ` table_pages_of (kern s) (?T l) \<inter> Pair (?T n) ` table_pages_of (kern s) (?T n) = {}"
    proof (intro ballI impI)
      fix l n assume "l \<in> set ?L" "n \<in> set ?L" "l \<noteq> n"
      then have "?T l \<noteq> ?T n" using inj_onD [OF i(5), of l n] L by blast
      then show "Pair (?T l) ` table_pages_of (kern s) (?T l) \<inter> Pair (?T n) ` table_pages_of (kern s) (?T n) = {}" by auto
    qed
  qed simp
  also have "\<dots> \<le> card S"
    by (rule card_mono [OF fS]) (use sub L in \<open>auto simp: dir_slots_def\<close>)
  finally show "dir_pages (kern s) pd high \<le> card S" .
qed

section \<open>A booted machine to fill\<close>

lemma booted_space:
  assumes "117 + x + y \<le> 200000"
  shows "\<exists>h m k bs. kalloc_init True kernel_pager (adr 1) m0 process_kernel = Some (Inr (adr 5308428, h, m, k)) \<and>
     space_inv bs {} 0x30000 {} x y 3000 \<lparr>heap = h, ram = m, kern = k\<rparr> \<and> grown process_kernel k"
proof -
  have "kernel_ready 1280 (200000 + 1) process_kernel"
    unfolding process_kernel_def loaded_kernel_ready by (rule sample_ready) simp_all
  then have fr: "kernel_ready 1280 (17 + x + (200000 + 1 - 17 - x)) process_kernel" using assms by simp
  then have r: "kernel_ready 1280 (17 + x) process_kernel" by (rule kernel_ready_less)
  have "17 + x + y + nulls process_kernel \<le> free_frames process_kernel" using fr assms by (simp add: kernel_ready_def)
  moreover have "mapped process_kernel n" if "1280 \<le> n \<and> n < 1280" for n using that by linarith
  ultimately have "space_ready process_kernel {} y 1280 (16 + 1 + 0 + x) process_kernel"
    using r by (auto simp: space_ready_def)
  from spaces.init_ok [OF this, of True m0]
  obtain h m k bs where 1: "kalloc_init True kernel_pager (adr 1) m0 process_kernel = Some (Inr (adr 5308428, h, m, k))"
    "heap_ok h m 5308416 bs" "anchored 5308416 bs" "ext bs = 4096" "3275 \<le> avl_spare (avl h)"
    "space_ready process_kernel {} y 1297 x k"
    by auto
  have "space_ready k {} y 1297 x k" using space_ready_less [of process_kernel "{}" y 1297 x 0 k] 1(6) by simp
  then have m: "machine_ok bs {} x y 3000 \<lparr>heap = h, ram = m, kern = k\<rparr>"
    using 1(2-5) by (simp add: machine_ok_def)
  have g: "grown process_kernel k" using 1(6) by (simp add: space_ready_def)
  have k: "kernel_page_directory k = 0x20000" "loaded_directory k = 0x30000"
    using grown_same [OF g] by (simp_all add: process_kernel_facts)
  have "tables (directory k 0x30000) i = 0" if "256 \<le> i" for i
    using g that process_kernel_facts(4) [OF that] by (simp add: grown_def)
  then have "space_inv bs {} 0x30000 {} x y 3000 \<lparr>heap = h, ram = m, kern = k\<rparr>"
    using m k by (auto simp: space_inv_def inj_on_def)
  then show ?thesis using 1(1) g by blast
qed

end
