(* ===== verification/Process_Fork.thy ===== *)
theory Process_Fork
  imports Scheduling Process_Pages
begin

text \<open>
  \<open>process_fork\<close>: the child is a new process at the end of the ring whose memory reads like
  the parent's and that resumes where the parent was.
\<close>

section \<open>Reachable processes\<close>

lemma path_next: "path k x ps y \<Longrightarrow> p \<in> set ps \<Longrightarrow> next_process (processes k p) \<in> insert y (set ps)"
proof (induction ps arbitrary: x)
  case (Cons q ps)
  then show ?case by (cases ps) auto
qed simp

lemma path_reachable: "path k x ps y \<Longrightarrow> reachable k x \<Longrightarrow> p \<in> set ps \<Longrightarrow> reachable k p"
proof (induction ps arbitrary: x)
  case (Cons q ps)
  then show ?case using reachable_next [of k q] by auto
qed simp

lemma reachable_ring:
  assumes "ring k ps"
  shows "reachable k p \<longleftrightarrow> p \<in> set ps"
proof
  have r: "path k (active_process k) ps (active_process k)" "ps \<noteq> []" using assms by (simp_all add: ring_def)
  have a: "active_process k \<in> set ps" using r by (cases ps) auto
  have "((\<lambda>q. next_process (processes k q)) ^^ n) (active_process k) \<in> set ps" for n
  proof (induction n)
    case (Suc n)
    then show ?case using path_next [OF r(1) Suc] a by auto
  qed (simp add: a)
  then show "reachable k p \<Longrightarrow> p \<in> set ps" by (auto simp: reachable_def)
  have "reachable k (active_process k)" unfolding reachable_def by (intro exI [of _ 0]) simp
  then show "p \<in> set ps \<Longrightarrow> reachable k p" by (rule path_reachable [OF r(1)])
qed

lemma shares_kernel_ring:
  "ring k ps \<Longrightarrow> shares_kernel k pd \<longleftrightarrow> pd = kernel_page_directory k \<or> (\<exists>p \<in> set ps. page_directory (processes k p) = pd)"
  by (auto simp: shares_kernel_def reachable_ring)

section \<open>Changes to process records\<close>

definition records_only :: "Kernel \<Rightarrow> Kernel \<Rightarrow> bool" where
  "records_only k k' \<longleftrightarrow>
     k' = k\<lparr>active_process := active_process k', processes := processes k', current_pid := current_pid k',
            fd_blocks := fd_blocks k'\<rparr>"

lemma records_only_fields:
  assumes "records_only k k'"
  shows "available_frames k' = available_frames k" "kernel_page_directory k' = kernel_page_directory k"
    "directory k' = directory k" "page_tables k' = page_tables k" "phys k' = phys k" "loaded_directory k' = loaded_directory k"
    "kernel_dir k' = kernel_dir k" "entry_at k' = entry_at k" "slot_frame k' = slot_frame k" "frame_bytes k' = frame_bytes k"
    "mapped k' = mapped k" "frame_of k' = frame_of k" "free_frames k' = free_frames k" "nulls k' = nulls k"
    "slot_of k' = slot_of k" "in_use k' = in_use k"
proof -
  have e: "k' = k\<lparr>active_process := active_process k', processes := processes k', current_pid := current_pid k', fd_blocks := fd_blocks k'\<rparr>"
    using assms unfolding records_only_def .
  show "available_frames k' = available_frames k" "kernel_page_directory k' = kernel_page_directory k"
    "page_tables k' = page_tables k" "phys k' = phys k" "loaded_directory k' = loaded_directory k"
    by (subst e, simp)+
  show d: "directory k' = directory k" by (subst e) (simp add: directory_def fun_eq_iff)
  show kd: "kernel_dir k' = kernel_dir k" by (simp add: kernel_dir_def d) (subst e, simp)
  show en: "entry_at k' = entry_at k" by (subst e) (simp add: entry_at_def fun_eq_iff)
  show sf: "slot_frame k' = slot_frame k" by (simp add: slot_frame_def en fun_eq_iff)
  show "frame_bytes k' = frame_bytes k" by (subst e) (simp add: frame_bytes_def fun_eq_iff)
  have pt: "page_tables k' = page_tables k" by (subst e) simp
  show "mapped k' = mapped k" "frame_of k' = frame_of k" by (simp_all add: mapped_def frame_of_def kd pt fun_eq_iff)
  show "free_frames k' = free_frames k" by (subst e) (simp add: free_frames_def)
  show "nulls k' = nulls k" by (simp add: nulls_def kd)
  show "slot_of k' = slot_of k" by (simp add: slot_of_def d fun_eq_iff)
  show "in_use k' = in_use k" by (simp add: in_use_def en fun_eq_iff)
qed

lemma records_only_trans: "records_only k k' \<Longrightarrow> records_only k' k'' \<Longrightarrow> records_only k k''"
  by (cases k; cases k'; cases k'') (simp add: records_only_def)

lemma records_only_set_process: "records_only k (set_process p f k)"
  by (simp add: records_only_def set_process_def)

lemma records_only_relinked: "relinked k k' \<Longrightarrow> records_only k k'"
  by (cases k; cases k') (simp add: relinked_def records_only_def)

lemma machine_ok_records:
  assumes "machine_ok bs S c d j s" "records_only (kern s) k'" "ring k' ps"
  shows "machine_ok bs S c d j (with_kern s k')"
proof -
  note f = records_only_fields [OF assms(2)]
  have r: "kernel_ready (heap_end bs) c (kern s)" "c + d + nulls (kern s) \<le> free_frames (kern s)" "owned (kern s) S"
    "\<forall>x. 1280 \<le> x \<and> x < heap_end bs \<longrightarrow> mapped (kern s) x"
    using assms(1) by (simp_all add: machine_ok_def space_ready_def)
  have "paging_ok k' \<longleftrightarrow> paging_ok (kern s)" by (simp add: paging_ok_def frames_ok_def f)
  then have "kernel_ready (heap_end bs) c k'" using r(1) assms(3) by (auto simp: kernel_ready_def f)
  moreover have "owned k' S" using r(3) by (simp add: owned_def f)
  ultimately have "space_ready k' S d (heap_end bs) c k'" using r(2,4) by (simp add: space_ready_def f)
  then show ?thesis using assms(1) by (simp add: machine_ok_def)
qed

lemma records_only_view:
  assumes "records_only (kern s) (kern s')" "ram s' = ram s"
  shows "view s' pd a = view s pd a"
proof -
  note f = records_only_fields [OF assms(1)]
  have "translate a (kern s'\<lparr>loaded_directory := pd\<rparr>) = translate a (kern s\<lparr>loaded_directory := pd\<rparr>)"
    using f(3,4) by (simp add: translate_def directory_def fun_eq_iff Let_def)
  then show ?thesis by (simp add: view_def read_byte_def f assms(2))
qed

section \<open>Copying equal frames\<close>

lemma memcpy_same:
  assumes "\<And>i. i < n \<Longrightarrow> m (dst + of_nat (i + o1)) = m (src + of_nat (i + o1))"
  shows "memcpy_loop n (of_nat o1) dst src m = m"
  using assms
proof (induction n arbitrary: o1)
  case (Suc n)
  have e: "m(dst + of_nat o1 := m (src + of_nat o1)) = m" using Suc.prems [of 0] by auto
  have "memcpy_loop n (of_nat (Suc o1)) dst src m = m" by (rule Suc.IH) (use Suc.prems [of "Suc _"] in simp)
  then show ?case by (simp add: e algebra_simps)
qed simp

lemma copy_same_frame:
  assumes "f < 1048576" "g < 1048576" "\<And>i. i < 4096 \<Longrightarrow> frame_bytes k f i = frame_bytes k g i"
  shows "paging_copy_frame (adr (f * 4096)) (adr (g * 4096)) k = k"
proof -
  have "memcpy_loop 4096 (of_nat 0) (adr (f * 4096)) (adr (g * 4096)) (phys k) = phys k"
  proof (rule memcpy_same)
    fix i :: nat assume "i < 4096"
    then show "phys k (adr (f * 4096) + of_nat (i + 0)) = phys k (adr (g * 4096) + of_nat (i + 0))"
      using assms(3) [of i] by (simp add: frame_bytes_def adr_def)
  qed
  then show ?thesis by (simp add: paging_copy_frame_def memcpy_def)
qed

section \<open>The stack of the child\<close>

text \<open>The number of the page of the kernel stack of a process that is copied in round \<open>i\<close>.\<close>

definition stack_page_number :: "nat \<Rightarrow> nat" where "stack_page_number i = 983040 - i"

definition stack_tables :: "Kernel \<Rightarrow> u32 \<Rightarrow> bool" where
  "stack_tables k pd \<longleftrightarrow> (\<forall>i < 2048. fst (slot_of k pd (stack_page_number i)) \<noteq> 0 \<and>
     (present (entry_at k (slot_of k pd (stack_page_number i))) \<or> entry_at k (slot_of k pd (stack_page_number i)) = zero_entry))"

lemma page_frame_address:
  assumes "x < 1048576" "fst (slot_of k pd x) \<noteq> 0"
  shows "paging_get_page_frame_address pd (adr x) k = Inr (adr (slot_frame k (slot_of k pd x) * 4096))"
proof -
  have d: "adr (x * 4096) div 4096 = adr x" "adr (x * 4096) mod 4096 = 0"
    using assms(1) by (intro word_eq_unatI; simp add: word_nat)+
  have "ucast (frame_address_20_bits (entry_at k (slot_of k pd x))) = adr (slot_frame k (slot_of k pd x))"
    using slot_frame_less [of k "slot_of k pd x"]
    by (intro word_eq_unatI) (simp add: slot_frame_def unsigned_ucast_eq take_bit_nat_eq_self)
  then show ?thesis
    using assms adr_index [OF assms(1)]
    by (simp add: paging_get_page_frame_address_def get_physical_address_of_virtual_address_def Let_def d slot_of_def
        entry_at_def adr_times_page)
qed

lemma stack_index:
  assumes "i < 2048"
  shows "KERNEL_STACK_ADDRESS_IN_PROCESS_ADDRESS_SPACE div 0x1000 - of_nat i = adr (stack_page_number i)"
proof -
  have "adr (983040 - i) = adr 983040 - of_nat i" using assms by (simp add: adr_def of_nat_diff)
  then show ?thesis by (simp add: KERNEL_STACK_ADDRESS_IN_PROCESS_ADDRESS_SPACE_def stack_page_number_def adr_def)
qed

text \<open>Copying the pages of a stack to pages that already hold the same bytes changes nothing.\<close>

lemma copy_stack_same:
  assumes "\<And>i. i \<in> set is \<Longrightarrow> i < 2048"
    "\<And>i. i \<in> set is \<Longrightarrow> fst (slot_of k dst (stack_page_number i)) \<noteq> 0 \<and> fst (slot_of k src (stack_page_number i)) \<noteq> 0 \<and>
       (\<forall>n < 4096. frame_bytes k (slot_frame k (slot_of k dst (stack_page_number i))) n =
          frame_bytes k (slot_frame k (slot_of k src (stack_page_number i))) n)"
  shows "copy_stack dst src (map of_nat is) k = Inr k"
  using assms
proof (induction "is")
  case (Cons i "is")
  have i: "i < 2048" "stack_page_number i < 1048576" using Cons.prems(1) by (simp_all add: stack_page_number_def)
  have h: "fst (slot_of k dst (stack_page_number i)) \<noteq> 0" "fst (slot_of k src (stack_page_number i)) \<noteq> 0"
    "\<And>n. n < 4096 \<Longrightarrow> frame_bytes k (slot_frame k (slot_of k dst (stack_page_number i))) n =
       frame_bytes k (slot_frame k (slot_of k src (stack_page_number i))) n"
    using Cons.prems(2) [of i] by simp_all
  have "copy_stack dst src (map of_nat is) k = Inr k" by (rule Cons.IH) (use Cons.prems in auto)
  then show ?case
    using page_frame_address [OF i(2) h(1)] page_frame_address [OF i(2) h(2)]
      copy_same_frame [OF slot_frame_less slot_frame_less h(3)]
    by (simp add: Let_def stack_index [OF i(1)])
qed simp

lemma cloned_stack:
  assumes "\<forall>i \<in> set high. entry_copy k k' (tables (directory k pd) i) cl i" "stack_tables k pd"
    "extended k k' B cl UNIV" "pd \<noteq> cl"
    "\<forall>i \<in> set high. tables (directory k pd) i \<noteq> 0 \<longrightarrow> source_ok B k (tables (directory k pd) i)"
    "records_only k' k''"
  shows "copy_stack cl pd stack_indices k'' = Inr k''"
  unfolding stack_indices_def
proof (rule copy_stack_same)
  fix i assume "i \<in> set [0..<unat KERNEL_STACK_RESERVED_PAGES_IN_PROCESS_ADDRESS_SPACE]"
  then show i: "i < 2048" by (simp add: KERNEL_STACK_RESERVED_PAGES_IN_PROCESS_ADDRESS_SPACE_def)
  let ?x = "stack_page_number i"
  let ?T = "tables (directory k pd) (?x div 1024)" and ?j = "?x mod 1024"
  have x: "262144 \<le> ?x" "?x < 1048576" using i by (simp_all add: stack_page_number_def)
  have hi: "?x div 1024 \<in> set high" using x by (simp add: less_eq_div_iff_mult_less_eq less_mult_imp_div_less)
  have T: "?T \<noteq> 0" "present (entry_at k (?T, ?j)) \<or> entry_at k (?T, ?j) = zero_entry"
    using assms(2) i by (simp_all add: stack_tables_def slot_of_def)
  obtain q where q: "tables (directory k' cl) (?x div 1024) = adr q" "adr q \<noteq> 0" "table_copy k k' ?T (adr q)"
    using bspec [OF assms(1) hi] T(1) by (auto simp: entry_copy_def)
  have src: "source_ok B k ?T" using assms(5) hi T(1) by blast
  have T': "tables (directory k' pd) (?x div 1024) = ?T"
    using extended_dir(1) [OF assms(3), of "?x div 1024" pd] hi assms(4) by simp
  have e': "entry_at k' (?T, ?j) = entry_at k (?T, ?j)" "slot_frame k' (?T, ?j) = slot_frame k (?T, ?j)"
    using extended_source(1,3) [OF assms(3) order_refl] src by (simp_all add: source_ok_def entry_at_def)
  have "frame_bytes k' (slot_frame k' (adr q, ?j)) n = frame_bytes k' (slot_frame k (?T, ?j)) n" if n: "n < 4096" for n
  proof (cases "present (entry_at k (?T, ?j))")
    case True
    then have "?j \<in> table_pages_of k ?T" by (simp add: table_pages_of_def present_in_def entry_at_def)
    then have "bm_bit (available_frames k) (slot_frame k (?T, ?j))" using src by (simp add: source_ok_def)
    then have "frame_bytes k' (slot_frame k (?T, ?j)) n = frame_bytes k (slot_frame k (?T, ?j)) n"
      using assms(3) n slot_frame_less [of k "(?T, ?j)"] by (simp add: extended_def)
    then show ?thesis using q(3) True n by (simp add: table_copy_def)
  next
    case False
    then have z: "entry_at k (?T, ?j) = zero_entry" "entry_at k' (adr q, ?j) = zero_entry"
      using T(2) q(3) by (auto simp: table_copy_def)
    then show ?thesis by (simp add: slot_frame_def)
  qed
  then show "fst (slot_of k'' cl ?x) \<noteq> 0 \<and> fst (slot_of k'' pd ?x) \<noteq> 0 \<and>
      (\<forall>n < 4096. frame_bytes k'' (slot_frame k'' (slot_of k'' cl ?x)) n = frame_bytes k'' (slot_frame k'' (slot_of k'' pd ?x)) n)"
    using q(1,2) T(1) by (simp add: records_only_fields [OF assms(6)]) (simp add: slot_of_def T' e')
qed

section \<open>The fork\<close>

lemma m_alloc_unaligned: "m_alloc g n s = m_alloc_aligned g n (adr 0) s"
  by (simp add: m_alloc_def m_alloc_aligned_def kalloc_alloc_def kalloc_alloc_aligned_def adr_def)

lemma fork_context_ok:
  assumes "active_process (kern m) = a" "a \<noteq> new"
    "paging_clone_page_directory_for_new_process g (page_directory (processes (kern m) a)) m = Some (Inr (cl, m'))"
    "processes (kern m') = processes (kern m)" "active_process (kern m') = a"
    "\<And>k. records_only (kern m') k \<Longrightarrow> copy_stack cl (page_directory (processes (kern m) a)) stack_indices k = Inr k"
  shows "\<exists>k'. fork_context g new i sp b m = Some (Inr (current_pid (kern m'), m'\<lparr>kern := k'\<rparr>)) \<and>
    records_only (kern m') k' \<and> active_process k' = a \<and> current_pid k' = current_pid (kern m') + 1 \<and>
    (\<forall>p. p \<noteq> new \<longrightarrow> processes k' p = processes (kern m) p) \<and>
    processes k' new = (processes (kern m) new)\<lparr>page_directory := cl, file_descriptors := file_descriptors (processes (kern m) a),
      pid := current_pid (kern m'), eip := i, esp := sp, ebp := b\<rparr>"
proof -
  let ?k0 = "kern m'"
  let ?k1 = "set_process new (\<lambda>p. p\<lparr>file_descriptors := file_descriptors (processes (kern m) a)\<rparr>)
     (set_process new (\<lambda>p. p\<lparr>page_directory := cl\<rparr>) ?k0)"
  let ?k2 = "(set_process new (\<lambda>p. p\<lparr>pid := current_pid ?k1\<rparr>) ?k1)\<lparr>current_pid := current_pid ?k1 + 1\<rparr>"
  let ?k' = "set_process new (\<lambda>p. p\<lparr>ebp := b\<rparr>) (set_process new (\<lambda>p. p\<lparr>esp := sp\<rparr>) (set_process new (\<lambda>p. p\<lparr>eip := i\<rparr>) ?k2))"
  have r1: "records_only ?k0 ?k1"
    by (rule records_only_trans [OF records_only_set_process records_only_set_process])
  have r2: "records_only ?k0 ?k'" by (simp add: records_only_def set_process_def)
  have "fork_context g new i sp b m = Some (Inr (current_pid ?k0, m'\<lparr>kern := ?k'\<rparr>))"
    unfolding fork_context_def using assms(2,3,5) assms(6) [OF r1] by (simp add: assms(1,4) Let_def)
  then show ?thesis using r2 assms(2,4,5) by (intro exI [of _ ?k']) simp
qed

lemma dirs_ok_fresh:
  assumes "dirs_ok B k" "shares_kernel k pd" "q \<notin> B" "5308428 \<le> q" "q < 1073741824" "\<And>b. b \<in> B \<Longrightarrow> b < 1073741824"
  shows "pd \<noteq> adr q"
proof
  assume e: "pd = adr q"
  have "pd \<in> adr ` B \<or> unat pd < heap_start" using assms(1,2) unfolding dirs_ok_def by blast
  moreover have "unat (adr q) = q" using assms(5) by simp
  ultimately show False using adr_fresh [OF assms(3,5,6)] assms(4) unfolding e by auto
qed

text \<open>What the heap's growth leaves alone in a directory that is going to be cloned.\<close>

lemma grown_source:
  assumes "grown k k'" "\<And>b. b \<in> B \<Longrightarrow> \<not> low_table (adr b)" "B \<subseteq> B'"
    "\<forall>i \<in> set high. tables (directory k pd) i \<noteq> 0 \<longrightarrow> source_ok B k (tables (directory k pd) i)"
  shows "\<And>i. i \<in> set high \<Longrightarrow> tables (directory k' pd) i = tables (directory k pd) i"
    "dir_tables k' pd high = dir_tables k pd high" "dir_pages k' pd high = dir_pages k pd high"
    "\<forall>i \<in> set high. tables (directory k' pd) i \<noteq> 0 \<longrightarrow> source_ok B' k' (tables (directory k' pd) i)"
    "stack_tables k pd \<Longrightarrow> stack_tables k' pd"
proof -
  obtain cl where cl: "cl \<noteq> pd" by (rule that [of "pd + 1"]) simp
  have e: "extended k k' B cl UNIV" by (rule grown_extended [OF assms(1,2)])
  show T: "tables (directory k' pd) i = tables (directory k pd) i" if "i \<in> set high" for i
    using extended_dir(1) [OF e, of i pd] that cl by simp
  show dt: "dir_tables k' pd high = dir_tables k pd high" unfolding dir_tables_def by (rule filter_cong) (simp_all add: T)
  have src: "source_ok B k (tables (directory k pd) i)" if "i \<in> set (dir_tables k pd high)" for i
    using that assms(4) by (simp add: dir_tables_def)
  have "card (table_pages_of k' (tables (directory k' pd) i)) = card (table_pages_of k (tables (directory k pd) i))"
    if "i \<in> set (dir_tables k pd high)" for i
  proof -
    have "i \<in> set high" using that by (simp add: dir_tables_def)
    then show ?thesis using extended_source(2) [OF e assms(3)] src [OF that] T by (simp add: source_ok_def)
  qed
  then show "dir_pages k' pd high = dir_pages k pd high"
    unfolding dir_pages_def dt by (intro arg_cong [of _ _ sum_list] map_cong) simp_all
  show "\<forall>i \<in> set high. tables (directory k' pd) i \<noteq> 0 \<longrightarrow> source_ok B' k' (tables (directory k' pd) i)"
    using extended_source(4) [OF e assms(3)] assms(4) T by (metis source_ok_def)
  assume st: "stack_tables k pd"
  show "stack_tables k' pd"
    unfolding stack_tables_def
  proof (intro allI impI)
    fix i :: nat assume i: "i < 2048"
    let ?x = "stack_page_number i"
    have x: "262144 \<le> ?x" "?x < 1048576" using i by (simp_all add: stack_page_number_def)
    have hi: "?x div 1024 \<in> set high" using x by (simp add: less_eq_div_iff_mult_less_eq less_mult_imp_div_less)
    have o: "fst (slot_of k pd ?x) \<noteq> 0" "present (entry_at k (slot_of k pd ?x)) \<or> entry_at k (slot_of k pd ?x) = zero_entry"
      using st i by (simp_all add: stack_tables_def)
    have s: "slot_of k' pd ?x = slot_of k pd ?x" using T [OF hi] by (simp add: slot_of_def)
    have "source_ok B k (tables (directory k pd) (?x div 1024))" using bspec [OF assms(4) hi] o(1) by (simp add: slot_of_def)
    then have "entry_at k' (slot_of k pd ?x) = entry_at k (slot_of k pd ?x)"
      using extended_source(1) [OF e assms(3)] by (simp add: entry_at_def slot_of_def source_ok_def)
    then show "fst (slot_of k' pd ?x) \<noteq> 0 \<and>
        (present (entry_at k' (slot_of k' pd ?x)) \<or> entry_at k' (slot_of k' pd ?x) = zero_entry)"
      using o s by simp
  qed
qed

lemma relinked_fields:
  assumes "relinked k k'"
  shows "page_directory (processes k' p) = page_directory (processes k p)" "pid (processes k' p) = pid (processes k p)"
    "eip (processes k' p) = eip (processes k p)" "esp (processes k' p) = esp (processes k p)" "ebp (processes k' p) = ebp (processes k p)"
    "file_descriptors (processes k' p) = file_descriptors (processes k p)" "fd_next (processes k' p) = fd_next (processes k p)"
    "current_pid k' = current_pid k" "fd_blocks k' = fd_blocks k"
proof -
  obtain x y where e: "processes k' p = (processes k p)\<lparr>previous_process := x, next_process := y\<rparr>"
    using assms unfolding relinked_def by blast
  show "page_directory (processes k' p) = page_directory (processes k p)" "pid (processes k' p) = pid (processes k p)"
    "eip (processes k' p) = eip (processes k p)" "esp (processes k' p) = esp (processes k p)" "ebp (processes k' p) = ebp (processes k p)"
    "file_descriptors (processes k' p) = file_descriptors (processes k p)" "fd_next (processes k' p) = fd_next (processes k p)"
    by (simp_all add: e)
  have k': "k' = k\<lparr>active_process := active_process k', processes := processes k'\<rparr>" using assms unfolding relinked_def by blast
  show "current_pid k' = current_pid k" "fd_blocks k' = fd_blocks k" by (subst k', simp)+
qed

text \<open>
  C3: a fork.  While the heap has pages, frames and cells left, \<open>process_fork\<close> returns to the
  parent the fresh identifier of a child whose record is in a new block of the heap.  The
  child is the last process of the ring, which stays doubly linked; it will resume behind
  \<open>util_get_eip\<close> with the parent's stack and base pointer and the parent's file descriptors,
  and at every address of process memory, the stack included, it reads the byte the parent
  read before.  The parent reads the same as before, and the other processes keep their
  registers and directories.  The directory pointer that happens to be in a record before
  it is set must not lie in the heap.
\<close>

theorem fork_correct:
  assumes "linked (knl s) (a # ps)" "pd = page_directory (processes (knl s) a)"
    and "machine_ok bs S (c + 3 * length (dir_tables (knl s) pd high) + 5) (d + dir_pages (knl s) pd high)
      (Suc (Suc (j + length (dir_tables (knl s) pd high)))) (mach s)"
    and "dirs_ok (blocks_at bs) (knl s)" "set (a # ps) \<subseteq> adr ` blocks_at bs \<union> {p. unat p < heap_start}"
    and "\<forall>p. p \<notin> set (a # ps) \<longrightarrow> unat (page_directory (processes (knl s) p)) < heap_start"
    and "\<forall>i \<in> set high. tables (directory (knl s) pd) i \<noteq> 0 \<longrightarrow>
       source_ok (blocks_at bs) (knl s) (tables (directory (knl s) pd) i)"
    and "stack_tables (knl s) pd"
  shows "\<exists>q s' child. process_fork garbage i sp b s = Some (Inr (current_pid (knl s), s')) \<and> q \<notin> blocks_at bs \<and>
    linked (knl s') (a # ps @ [adr q]) \<and> child = processes (knl s') (adr q) \<and>
    pid child = current_pid (knl s) \<and> current_pid (knl s') = current_pid (knl s) + 1 \<and>
    saved_jump child = (Switch_context i sp b :: unit control) \<and>
    file_descriptors child = file_descriptors (processes (knl s) a) \<and>
    (\<forall>x \<ge> 0x40000000. view (mach s') (page_directory child) x = view (mach s) pd x \<and>
       view (mach s') pd x = view (mach s) pd x) \<and>
    (\<forall>p. p \<noteq> adr q \<longrightarrow> page_directory (processes (knl s') p) = page_directory (processes (knl s) p) \<and>
       saved_jump (processes (knl s') p) = (saved_jump (processes (knl s) p) :: unit control))"
proof -
  define T where "T = length (dir_tables (knl s) pd high)"
  define P where "P = dir_pages (knl s) pd high"
  have al: "alignment_ok 0" by (simp add: alignment_ok_def)
  have "machine_ok bs S ((c + 3 * T + 4) + 1) (d + P) (Suc (Suc (j + T))) (mach s)"
    using assms(3) by (simp add: T_def P_def numeral_eq_Suc)
  from machine_alloc [OF this al, of 60 garbage] obtain q m1 bs1 where
    1: "m_alloc_aligned garbage (adr 60) (adr 0) (mach s) = Some (Inr (adr q, m1))"
    "machine_ok bs1 S (c + 3 * T + 4) (d + P) (Suc (j + T)) m1" "q \<notin> blocks_at bs"
    "blocks_at bs1 = insert q (blocks_at bs)" "grown (knl s) (kern m1)"
    by auto
  let ?k1 = "kern m1"
  have g: "processes ?k1 = processes (knl s)" "active_process ?k1 = active_process (knl s)"
    "current_pid ?k1 = current_pid (knl s)" "kernel_page_directory ?k1 = kernel_page_directory (knl s)"
    using 1(5) by (simp_all add: grown_def)
  have qb: "q \<in> blocks_at bs1" and sub: "blocks_at bs \<subseteq> blocks_at bs1" using 1(4) by auto
  note qr = heap_range [OF 1(2) qb]
  have low: "\<not> low_table (adr x)" "x < 1073741824" if "x \<in> blocks_at bs" for x
    using heap_range [OF assms(3) that] by simp_all
  have new: "adr q \<notin> set (a # ps)"
  proof
    assume "adr q \<in> set (a # ps)"
    then have "adr q \<in> adr ` blocks_at bs \<or> unat (adr q) < heap_start" using assms(5) by blast
    then show False using adr_fresh [OF 1(3) qr(2) low(2)] qr(1,2) by auto
  qed
  have l1: "linked ?k1 (a # ps)" by (rule linked_cong [OF assms(1)]) (simp_all add: g)
  obtain k2 where 2: "link_new_process (adr q) ?k1 = Inr k2" "linked k2 (a # ps @ [adr q])" "relinked ?k1 k2" "active_process k2 = active_process ?k1"
    using link_new_process_ok [OF l1 qr(4) new] by blast
  note rl = relinked_fields [OF 2(3)] and r2 = records_only_relinked [OF 2(3)]
  note f2 = records_only_fields [OF r2]
  have a: "active_process k2 = a" using linkedD(1) [OF 2(2)] .
  have ring2: "ring k2 (a # ps @ [adr q])" using 2(2) by (simp add: linked_def)
  let ?m2 = "m1\<lparr>kern := k2\<rparr>"
  have m2: "machine_ok bs1 S (c + 3 * T + 4) (d + P) (Suc (j + T)) ?m2" by (rule machine_ok_records [OF 1(2) r2 ring2])
  have pd2: "page_directory (processes k2 p) = page_directory (processes (knl s) p)" for p by (simp add: rl(1) g)
  have ring: "ring (knl s) (a # ps)" using assms(1) by (simp add: linked_def)
  have sh: "shares_kernel (knl s) pd" using assms(2) by (simp add: shares_kernel_ring [OF ring])
  have sh2: "shares_kernel k2 pd" using assms(2) by (simp add: shares_kernel_ring [OF ring2] pd2)
  have garb: "unat (page_directory (processes (knl s) (adr q))) < heap_start" using assms(6) new by blast
  have dirs2: "dirs_ok (blocks_at bs1) k2"
    unfolding dirs_ok_def
  proof (intro allI impI)
    fix x assume x: "shares_kernel k2 x"
    show "x \<in> adr ` blocks_at bs1 \<or> unat x < heap_start"
    proof (cases "x = page_directory (processes (knl s) (adr q))")
      case False
      then have "shares_kernel (knl s) x"
        using x by (auto simp: shares_kernel_ring [OF ring2] shares_kernel_ring [OF ring] pd2 f2(2) g(4))
      then have "x \<in> adr ` blocks_at bs \<or> unat x < heap_start" using assms(4) unfolding dirs_ok_def by blast
      then show ?thesis using sub by blast
    qed (simp add: garb)
  qed
  note gs = grown_source [OF 1(5) low(1) sub assms(7)]
  have d2: "dir_tables k2 pd high = dir_tables (knl s) pd high" "dir_pages k2 pd high = dir_pages (knl s) pd high"
    "stack_tables k2 pd" "\<forall>i \<in> set high. tables (directory k2 pd) i \<noteq> 0 \<longrightarrow> source_ok (blocks_at bs1) k2 (tables (directory k2 pd) i)"
    using gs(2,3,4) gs(5) [OF _ assms(8)]
    by (simp_all add: dir_tables_def dir_pages_def stack_tables_def source_ok_def table_pages_of_def present_in_def f2)
  have m2': "machine_ok bs1 S (c + 3 * length (dir_tables (kern ?m2) pd high) + 4) (d + dir_pages (kern ?m2) pd high)
      (Suc (j + length (dir_tables (kern ?m2) pd high))) ?m2"
    using m2 by (simp add: d2(1,2) T_def P_def)
  have c2: "dirs_ok (blocks_at bs1) (kern ?m2)" "shares_kernel (kern ?m2) pd"
    "\<forall>i \<in> set high. tables (directory (kern ?m2) pd) i \<noteq> 0 \<longrightarrow> source_ok (blocks_at bs1) (kern ?m2) (tables (directory (kern ?m2) pd) i)"
    using dirs2 sh2 d2(4) by simp_all
  obtain r m3 bs3 where 3: "paging_clone_page_directory_for_new_process garbage pd ?m2 = Some (Inr (adr r, m3))"
    "r \<notin> blocks_at bs1" "machine_ok bs3 (S \<union> dir_slots (kern m3) (adr r) (set high)) c d j m3" "r \<in> blocks_at bs3"
    "extended (kern ?m2) (kern m3) (blocks_at bs1) (adr r) UNIV"
    "\<forall>i \<in> set high. entry_copy (kern ?m2) (kern m3) (tables (directory (kern ?m2) pd) i) (adr r) i"
    using clone_ok [OF m2' c2, of garbage] by blast
  note rr = heap_range(1,2) [OF 3(3,4)]
  have pdr: "pd \<noteq> adr r" by (rule dirs_ok_fresh [OF c2(1,2) 3(2) rr]) (rule heap_range(2) [OF 1(2)])
  have pdq: "pd \<noteq> adr q" by (rule dirs_ok_fresh [OF assms(4) sh 1(3) qr(1,2) low(2)])
  have e3: "processes (kern m3) = processes k2" "active_process (kern m3) = a" using 3(5) a by (simp_all add: extended_def)
  have copy: "copy_stack (adr r) pd stack_indices k = Inr k" if "records_only (kern m3) k" for k
    by (rule cloned_stack [OF 3(6) _ 3(5) pdr c2(3) that]) (simp add: d2(3))
  have act2: "active_process (kern ?m2) = a" and pdm2: "page_directory (processes (kern ?m2) a) = pd"
    using a assms(2) by (simp_all add: pd2)
  have ne: "a \<noteq> adr q" using new by auto
  obtain k4 where 4: "fork_context garbage (adr q) i sp b ?m2 = Some (Inr (current_pid (kern m3), m3\<lparr>kern := k4\<rparr>))"
    "records_only (kern m3) k4" "active_process k4 = a" "current_pid k4 = current_pid (kern m3) + 1"
    "\<forall>p. p \<noteq> adr q \<longrightarrow> processes k4 p = processes k2 p"
    "processes k4 (adr q) = (processes k2 (adr q))\<lparr>page_directory := adr r, file_descriptors := file_descriptors (processes k2 a),
      pid := current_pid (kern m3), eip := i, esp := sp, ebp := b\<rparr>"
    using fork_context_ok [OF act2 ne, unfolded pdm2, OF 3(1) _ e3(2) copy, of i sp b] e3(1) by auto
  let ?s' = "with_machine (interrupt_disable s) (m3\<lparr>kern := k4\<rparr>)"
  have cp: "current_pid (kern m3) = current_pid (knl s)" using 3(5) rl(8) g(3) by (simp add: extended_def)
  have fork: "process_fork garbage i sp b s = Some (Inr (current_pid (knl s), ?s'))"
    using 1(1) 2(1) 4(1) cp by (simp add: process_fork_def Let_def sizeof_Process_def m_alloc_unaligned adr_def)
  have "linked k4 (a # ps @ [adr q])"
  proof (rule linked_cong [OF 2(2)])
    show "next_process (processes k4 p) = next_process (processes k2 p) \<and>
        previous_process (processes k4 p) = previous_process (processes k2 p)" for p
      by (cases "p = adr q") (simp_all add: 4(5,6))
  qed (simp add: a 4(3))
  moreover have "view (mach ?s') (adr r) x = view (mach s) pd x" "view (mach ?s') pd x = view (mach s) pd x"
    if x: "0x40000000 \<le> x" for x
  proof -
    have "view (m3\<lparr>kern := k4\<rparr>) y x = view m3 y x" for y by (rule records_only_view) (simp_all add: 4(2))
    moreover have "view m3 (adr r) x = view ?m2 pd x" by (rule entry_copy_view [OF 3(6) x])
    moreover have "view m3 pd x = view ?m2 pd x" by (rule extended_view [OF 3(5) pdr c2(3) x])
    moreover have "view ?m2 pd x = view m1 pd x" by (rule records_only_view) (simp_all add: r2)
    moreover have "view m1 pd x = view (mach s) pd x"
      by (rule extended_view [OF grown_extended [OF 1(5) low(1)] pdq assms(7) x])
    ultimately show "view (mach ?s') (adr r) x = view (mach s) pd x" "view (mach ?s') pd x = view (mach s) pd x" by simp_all
  qed
  moreover have "file_descriptors (processes k2 a) = file_descriptors (processes (knl s) a)" by (simp add: rl g)
  ultimately show ?thesis
    using fork 1(3) 4(4-6) cp rl(1,3,4,5) g(1)
    by (intro exI [of _ q] exI [of _ ?s'] exI [of _ "processes k4 (adr q)"]) (simp add: saved_jump_def)
qed

section \<open>A fork on a booted machine\<close>

text \<open>A process with a page of its own and one page in each of the three tables of its kernel stack.\<close>

lemma sample_space:
  "\<exists>h m k s bs S. kalloc_init True kernel_pager (adr 1) (\<lambda>x. 0) process_kernel = Some (Inr (adr 5308428, h, m, k)) \<and>
     create_process_pages True 0x30000 True [0x40000, 0xEFBFF, 0xEFFFF, 0xF0000] \<lparr>heap = h, ram = m, kern = k\<rparr> = Some (Inr s) \<and>
     space_inv bs S 0x30000 {256, 958, 959, 960} 988 996 2996 s \<and> card S \<le> 4 \<and>
     stack_tables (kern s) 0x30000 \<and> kernel_page_directory (kern s) = 0x20000 \<and>
     processes (kern s) = processes process_kernel \<and> active_process (kern s) = 64 \<and> current_pid (kern s) = 2"
proof -
  obtain h m k bs where 1: "kalloc_init True kernel_pager (adr 1) (\<lambda>x. 0) process_kernel = Some (Inr (adr 5308428, h, m, k))"
    "space_inv bs {} 0x30000 {} 1000 1000 3000 \<lparr>heap = h, ram = m, kern = k\<rparr>" "grown process_kernel k"
    using booted_space [of 1000 1000 "\<lambda>x. 0"] by auto
  let ?s = "\<lparr>heap = h, ram = m, kern = k\<rparr>" and ?xs = "[262144, 982015, 983039, 983040] :: nat list"
  have k: "kernel_page_directory k = 0x20000" "processes k = processes process_kernel" "active_process k = 64" "current_pid k = 2"
    using 1(3) by (simp_all add: grown_def process_kernel_def sample_kernel_def)
  have z: "tables (directory k 0x30000) i = 0" if "256 \<le> i" for i
    using 1(3) that process_kernel_facts(4) [OF that] by (simp add: grown_def)
  have new: "\<forall>x \<in> set ?xs. 262144 \<le> x \<and> x < 1048576 \<and> \<not> in_use (kern ?s) (slot_of (kern ?s) 0x30000 x)"
    by (simp add: in_use_def slot_of_def z)
  have dx: "distinct ?xs" by simp
  have b: "space_inv bs {} 0x30000 {} (988 + 3 * length ?xs) (996 + length ?xs) (2996 + length ?xs) ?s" using 1(2) by simp
  obtain s bs' S where 2: "create_process_pages True 0x30000 True (map adr ?xs) ?s = Some (Inr s)"
    "space_inv bs' S 0x30000 ({} \<union> (\<lambda>x. x div 1024) ` set ?xs) 988 996 2996 s" "blocks_at bs \<subseteq> blocks_at bs'"
    "card S \<le> card ({} :: slot set) + length ?xs"
    "\<forall>y. 262144 \<le> y \<and> y < 1048576 \<longrightarrow> (in_use (kern s) (slot_of (kern s) 0x30000 y) \<longleftrightarrow>
       in_use (kern ?s) (slot_of (kern ?s) 0x30000 y) \<or> y \<in> set ?xs)"
    "kernel_page_directory (kern s) = kernel_page_directory (kern ?s)" "processes (kern s) = processes (kern ?s)"
    "active_process (kern s) = active_process (kern ?s)" "current_pid (kern s) = current_pid (kern ?s)"
    using create_process_pages_ok [OF b dx new, of True True] by (elim exE conjE) (rule that; assumption)
  note i = space_invD [OF 2(2)]
  let ?T = "tables (directory (kern s) 0x30000)"
  have used: "?T (y div 1024) \<noteq> 0" if "y \<in> set ?xs" for y
  proof -
    have "262144 \<le> y \<and> y < 1048576" using new that by blast
    then have "in_use (kern s) (slot_of (kern s) 0x30000 y)" using 2(5) that by blast
    then show ?thesis by (simp add: in_use_def slot_of_def)
  qed
  have T: "?T 958 \<noteq> 0" "?T 959 \<noteq> 0" "?T 960 \<noteq> 0" using used [of 982015] used [of 983039] used [of 983040] by simp_all
  have st: "stack_tables (kern s) 0x30000"
    unfolding stack_tables_def
  proof (intro allI impI)
    fix n :: nat assume n: "n < 2048"
    let ?x = "stack_page_number n"
    have "?x div 1024 = 958 \<or> ?x div 1024 = 959 \<or> ?x div 1024 = 960"
    proof -
      have "958 * 1024 \<le> ?x" "?x \<le> 960 * 1024" using n by (simp_all add: stack_page_number_def)
      then have "958 \<le> ?x div 1024" "?x div 1024 \<le> 960" by (simp_all add: less_eq_div_iff_mult_less_eq div_le_mono [of ?x "960 * 1024" 1024, simplified])
      then show ?thesis by linarith
    qed
    then have t: "?T (?x div 1024) \<noteq> 0" "?x div 1024 \<in> set high" using T by auto
    have "(?T (?x div 1024), ?x mod 1024) \<in> S \<or> entry_at (kern s) (?T (?x div 1024), ?x mod 1024) = zero_entry"
      by (rule i(8) [OF t(2,1)])
    then show "fst (slot_of (kern s) 0x30000 ?x) \<noteq> 0 \<and> (present (entry_at (kern s) (slot_of (kern s) 0x30000 ?x)) \<or>
        entry_at (kern s) (slot_of (kern s) 0x30000 ?x) = zero_entry)"
      using t(1) i(10) by (auto simp: slot_of_def owned_def)
  qed
  have I: "{} \<union> (\<lambda>x. x div 1024) ` set ?xs = {256, 958, 959, 960}" by simp
  have "map adr ?xs = [0x40000, 0xEFBFF, 0xEFFFF, 0xF0000]" by (simp add: adr_def)
  then have "create_process_pages True 0x30000 True [0x40000, 0xEFBFF, 0xEFFFF, 0xF0000] ?s = Some (Inr s)" using 2(1) by simp
  moreover have "space_inv bs' S 0x30000 {256, 958, 959, 960} 988 996 2996 s" using 2(2) unfolding I .
  moreover have "card S \<le> 4" using 2(4) by simp
  moreover have "kernel_page_directory (kern s) = 0x20000 \<and> processes (kern s) = processes process_kernel \<and>
      active_process (kern s) = 64 \<and> current_pid (kern s) = 2"
    using 2(6-9) k by simp
  ultimately show ?thesis using 1(1) st by blast
qed

theorem fork_correct_witness:
  "\<exists>h m k s q s'. kalloc_init True kernel_pager (adr 1) (\<lambda>x. 0) process_kernel = Some (Inr (adr 5308428, h, m, k)) \<and>
     create_process_pages True 0x30000 True [0x40000, 0xEFBFF, 0xEFFFF, 0xF0000] \<lparr>heap = h, ram = m, kern = k\<rparr> = Some (Inr s) \<and>
     process_fork True 7 8 9 (sys_with s) = Some (Inr (2, s')) \<and> linked (knl s') [64, adr q] \<and>
     pid (processes (knl s') (adr q)) = 2 \<and> current_pid (knl s') = 3"
proof -
  obtain h m k s bs S where 1: "kalloc_init True kernel_pager (adr 1) (\<lambda>x. 0) process_kernel = Some (Inr (adr 5308428, h, m, k))"
    "create_process_pages True 0x30000 True [0x40000, 0xEFBFF, 0xEFFFF, 0xF0000] \<lparr>heap = h, ram = m, kern = k\<rparr> = Some (Inr s)"
    "space_inv bs S 0x30000 {256, 958, 959, 960} 988 996 2996 s" "card S \<le> 4"
    "stack_tables (kern s) 0x30000" "kernel_page_directory (kern s) = 0x20000"
    "processes (kern s) = processes process_kernel" "active_process (kern s) = 64" "current_pid (kern s) = 2"
    using sample_space by (elim exE conjE) (rule that; assumption)
  let ?k = "knl (sys_with s)"
  have p: "page_directory (processes ?k x) = 0x30000" for x using 1(7) by (simp add: process_kernel_facts)
  have l: "linked ?k (64 # [])"
    using 1(7,8) by (simp add: linked_def ring_def process_kernel_def sample_kernel_def)
  have pd: "0x30000 = page_directory (processes ?k 64)" by (simp only: p)
  note sl = space_inv_slots [OF 1(3)]
  have n: "length (dir_tables (kern s) 0x30000 high) \<le> 4" "dir_pages (kern s) 0x30000 high \<le> 4" using sl(2,3) 1(4) by simp_all
  let ?t = "length (dir_tables ?k 0x30000 high)" and ?p = "dir_pages ?k 0x30000 high"
  have mo: "machine_ok bs S (900 + 3 * ?t + 5) (992 + ?p) (Suc (Suc (2990 + ?t))) (mach (sys_with s))"
    by (rule machine_ok_mono [of bs S 988 996 2996]) (use space_invD(1) [OF 1(3)] n in simp_all)
  have sh: "shares_kernel ?k x \<longleftrightarrow> x = 0x20000 \<or> x = 0x30000" for x
  proof -
    have "ring ?k [64]" using l unfolding linked_def by (rule conjunct1)
    from shares_kernel_ring [OF this, of x] show ?thesis unfolding p using 1(6) by auto
  qed
  have dirs: "dirs_ok (blocks_at bs) ?k" unfolding dirs_ok_def sh by auto
  have recs: "set (64 # []) \<subseteq> adr ` blocks_at bs \<union> {p. unat p < heap_start}" by simp
  have garb: "\<forall>x. x \<notin> set (64 # []) \<longrightarrow> unat (page_directory (processes ?k x)) < heap_start"
    unfolding p by simp
  have src: "\<forall>i \<in> set high. tables (directory ?k 0x30000) i \<noteq> 0 \<longrightarrow> source_ok (blocks_at bs) ?k (tables (directory ?k 0x30000) i)"
    using space_inv_source(2) [OF 1(3)] by simp
  have st: "stack_tables ?k 0x30000" using 1(5) by simp
  show ?thesis
    using fork_correct [OF l pd mo dirs recs garb src st, of True 7 8 9] 1(1,2,9) by auto
qed

end
