(* ===== verification/Process_Exit.thy ===== *)
theory Process_Exit
  imports Process_Fork
begin

text \<open>
  \<open>process_exit\<close>: the exiting process leaves the ring, its pages and its record are
  released, and the next process runs on.
\<close>

lemma view_fields:
  assumes "directory (kern s') = directory (kern s)" "page_tables (kern s') = page_tables (kern s)" "phys (kern s') = phys (kern s)"
    "0x40000000 \<le> x"
  shows "view s' pd x = view s pd x"
proof -
  have "directory (kern s'\<lparr>loaded_directory := pd\<rparr>) = directory (kern s\<lparr>loaded_directory := pd\<rparr>)"
    using assms(1) by (simp add: directory_def fun_eq_iff)
  then have "translate x (kern s'\<lparr>loaded_directory := pd\<rparr>) = translate x (kern s\<lparr>loaded_directory := pd\<rparr>)"
    using assms(2) by (simp add: translate_def Let_def)
  moreover have "\<not> x < 0x40000000" using assms(4) by (simp add: not_less)
  ultimately show ?thesis using assms(3) by (simp add: view_def read_byte_def)
qed

text \<open>A release leaves the frames of the other directories where they are.\<close>

lemma cleaned_loadable:
  assumes "machine_ok bs S c d j s" "pd \<noteq> kernel_page_directory (kern s)"
    "\<forall>i \<in> set high. tables (directory (kern s) pd) i \<noteq> 0 \<longrightarrow> tables (directory (kern s) pd) i \<in> adr ` (blocks_at bs - {5308428})"
    "unmapped (kern s) k' (user_slots (kern s) pd (set high))" "dir_cleaned (kern s) k' pd (set high)"
  shows "paging_get_page_directory_x86_tables_frame_address p k' = paging_get_page_directory_x86_tables_frame_address p (kern s)"
proof -
  let ?k = "kern s"
  let ?i = "unat (p div 4096 div 1024)" and ?j = "unat (p div 4096 mod 1024)"
  let ?K = "tables (directory ?k (kernel_page_directory ?k)) ?i"
  have kp: "kernel_page_directory k' = kernel_page_directory ?k" using assms(4) by (simp add: unmapped_def)
  have K: "tables (directory k' (kernel_page_directory ?k)) ?i = ?K" using assms(2,5) by (simp add: dir_cleaned_def)
  have kt: "kernel_tables ?k"
    using assms(1) paging_ok_kernel_tables by (simp add: machine_ok_def space_ready_def kernel_ready_def)
  have i: "?i < 1024"
  proof -
    have "p div 4096 div 1024 < 1024" by (simp add: word_less_nat_alt unat_div) (use unat_lt32 [of p] in linarith)
    then show ?thesis by (simp add: word_less_nat_alt)
  qed
  have "page_tables k' ?K ?j = page_tables ?k ?K ?j" if "?K \<noteq> 0"
  proof -
    have ta: "?K = table_address ?i" using kt i that by (simp add: kernel_tables_def kernel_dir_def)
    have "(?K, ?j) \<notin> user_slots ?k pd (set high)"
    proof
      assume "(?K, ?j) \<in> user_slots ?k pd (set high)"
      then obtain l where "l \<in> set high" "tables (directory ?k pd) l \<noteq> 0" "tables (directory ?k pd) l = ?K"
        unfolding user_slots_def by auto
      then obtain b where b: "?K = adr b" "b \<in> blocks_at bs" using assms(3) by force
      note r = heap_range [OF assms(1) b(2)]
      have "unat ?K = b" using r(2) b(1) by simp
      moreover have "unat (table_address ?i) < 5242880" using i by (simp add: table_address_adr)
      ultimately show False using r(1) ta by simp
    qed
    then have "entry_at k' (?K, ?j) = entry_at ?k (?K, ?j)" using assms(4) by (simp add: unmapped_def)
    then show ?thesis by (simp add: entry_at_def)
  qed
  then show ?thesis
    by (simp add: paging_get_page_directory_x86_tables_frame_address_def get_physical_address_of_virtual_address_def Let_def kp K)
qed

text \<open>
  C4: an exit.  When another process is left, \<open>process_exit\<close> of a process whose record and
  tables lie in blocks of the heap never fails an assertion.  It jumps to the saved
  registers of the next process of the ring, with that process's directory loaded and
  interrupts enabled; the ring is the old one without the exiting process and still
  doubly linked; the exiting process keeps only its kernel stack, exactly the frames of
  its other pages are free again, and every address space with other pages reads as
  before.
\<close>

theorem exit_correct:
  assumes "linked (knl s) (adr q # p # ps)" "spaces_loadable (knl s) (p # ps)"
    and "pd = page_directory (processes (knl s) (adr q))" "pd \<noteq> kernel_page_directory (knl s)"
    and "space_inv bs S pd I c d (Suc (j + length (dir_tables (knl s) pd high))) (mach s)"
    and "q \<in> blocks_at bs" "q \<noteq> 5308428" "adr q \<notin> fst ` S" "\<forall>i \<in> set high. tables (directory (knl s) pd) i \<noteq> adr q"
  shows "\<exists>s'. process_exit garbage ret s = Inr (saved_jump (processes (knl s) p), s') \<and>
    linked (knl s') (p # ps) \<and> interrupts_enabled s' \<and>
    loaded_directory (knl s') = page_directory (processes (knl s) p) \<and>
    cr3 (knl s') = frame_of_space (knl s) (page_directory (processes (knl s) p)) \<and>
    (\<forall>x \<ge> 0x40000000. view (mach s') pd x = (if stack_address x then view (mach s) pd x else Inl Page_fault)) \<and>
    (\<forall>pd' x. pd' \<noteq> pd \<and> dir_slots (knl s) pd' (set high) \<inter> dir_slots (knl s) pd (set high) = {} \<and> 0x40000000 \<le> x \<longrightarrow>
       view (mach s') pd' x = view (mach s) pd' x) \<and>
    (\<forall>n. bm_bit (available_frames (knl s')) n \<longleftrightarrow>
       bm_bit (available_frames (knl s)) n \<and> n \<notin> slot_frame (knl s) ` user_slots (knl s) pd (set high))"
proof -
  note i = space_invD [OF assms(5)]
  let ?k = "knl s" and ?U = "user_slots (knl s) pd (set high)"
  have tab: "\<forall>i \<in> set high. tables (directory ?k pd) i \<noteq> 0 \<longrightarrow> tables (directory ?k pd) i \<in> adr ` (blocks_at bs - {5308428})"
    using i(7) by blast
  have row: "\<forall>i \<in> set high. tables (directory ?k pd) i \<noteq> 0 \<longrightarrow>
      {l. (tables (directory ?k pd) i, l) \<in> S} = table_pages_of ?k (tables (directory ?k pd) i)"
    using space_inv_source(1) [OF assms(5)] by blast
  have m0: "machine_ok bs S c d (Suc j + length (dir_tables (kern (mach s)) pd high)) (mach s)" using i(1) by simp
  obtain m1 bs1 where 1: "clean_tables garbage pd high (mach s) = Inr m1"
    "machine_ok bs1 (S - ?U) c (d + card ?U) (Suc j) m1"
    "unmapped ?k (kern m1) ?U" "dir_cleaned ?k (kern m1) pd (set high)"
    "blocks_at bs1 = {b \<in> blocks_at bs. \<forall>i \<in> set high. tables (directory ?k pd) i = adr b \<longrightarrow> keeps_stack ?k pd i}"
    using clean_tables_ok [OF high_facts(2) m0 assms(4) tab i(5) row, of garbage] by (elim exE conjE) (rule that; assumption)
  have clean: "paging_clean_all_non_kernel_pages_from_page_directory garbage pd (mach s) = Inr m1"
    using 1(1) by (simp only: paging_clean_all_non_kernel_pages_from_page_directory_def high_def)
  let ?k1 = "kern m1"
  have pr: "processes ?k1 = processes ?k" "active_process ?k1 = active_process ?k" using 1(3) by (simp_all add: unmapped_def)
  note d = linkedD [OF assms(1)]
  have l1: "linked ?k1 (adr q # p # ps)" by (rule linked_cong [OF assms(1)]) (simp_all add: pr)
  obtain k2 where 2: "unlink_process (adr q) (?k1\<lparr>active_process := next_process (processes ?k1 (adr q))\<rparr>) = Inr k2"
    "linked k2 (p # ps)" "relinked ?k1 k2" "active_process k2 = p"
    using unlink_process_ok [OF l1] by blast
  note f2 = records_only_fields [OF records_only_relinked [OF 2(3)]] and rl = relinked_fields [OF 2(3)]
  have ring2: "ring k2 (p # ps)" using 2(2) by (simp add: linked_def)
  have m2: "machine_ok bs1 (S - ?U) c (d + card ?U) (Suc j) (m1\<lparr>kern := k2\<rparr>)"
    by (rule machine_ok_records [OF 1(2) records_only_relinked [OF 2(3)] ring2])
  have qb: "q \<in> blocks_at bs1" unfolding 1(5) using assms(6,9) by blast
  have qS: "adr q \<notin> fst ` (S - ?U)" using assms(8) by blast
  obtain m3 bs3 where 3: "m_free garbage (adr q) (m1\<lparr>kern := k2\<rparr>) = Inr m3" "kern m3 = k2"
    using machine_free [OF m2 qb assms(7) qS, of garbage] by auto
  have ne: "p \<noteq> adr q" using d(3) by auto
  let ?s0 = "message (\<lambda>_. []) (''Exiting from process %u with return value %u...'' @ newline)
      [pid (processes ?k (adr q)), ret] (interrupt_disable s)"
  let ?s3 = "with_machine ?s0 m3"
  have pd3: "page_directory (processes k2 p) = page_directory (processes ?k p)" for p by (simp add: rl(1) pr)
  have fa: "paging_get_page_directory_x86_tables_frame_address x k2 = paging_get_page_directory_x86_tables_frame_address x ?k" for x
    using frame_address_cong [OF f2(4,3,2)] cleaned_loadable [OF i(1) assms(4) tab 1(3,4)] by simp
  have sl: "spaces_loadable k2 (p # ps)" using assms(2) by (simp add: spaces_loadable_def pd3 fa)
  have fr: "frame_of_space k2 = frame_of_space ?k" by (simp add: frame_of_space_def fun_eq_iff fa)
  have jump: "(saved_jump (processes k2 p) :: unit control) = saved_jump (processes ?k p)" by (simp add: saved_jump_def rl pr)
  let ?s' = "(with_knl ?s3 ((knl ?s3)\<lparr>loaded_directory := page_directory (processes k2 p),
      cr3 := frame_of_space k2 (page_directory (processes k2 p))\<rparr>))\<lparr>interrupts_enabled := True\<rparr>"
  have res: "resume_active ?s3 = Inr (saved_jump (processes (knl ?s3) p) :: unit control, ?s')"
    by (rule resume_active_ok [OF sl, of p ?s3]) (simp_all add: 3(2) 2(4))
  have ex: "process_exit garbage ret s = Inr (saved_jump (processes ?k p), ?s')"
    using res d(1,2) ne 3(2) 2(4) jump
    by (simp add: process_exit_def Let_def assms(3) [symmetric] clean 2(1) 3(1))
  have lk: "linked (knl ?s') (p # ps)" by (rule linked_cong [OF 2(2)]) (simp_all add: 3(2))
  have dk: "directory (knl ?s') = directory k2"
    by (simp add: 3(2) directory_def fun_eq_iff)
  have vw: "view (mach ?s') y x = view m1 y x" if "0x40000000 \<le> x" for x y
    by (rule view_fields [OF _ _ _ that]) (use dk f2(3-5) in \<open>simp_all add: 3(2)\<close>)
  have own: "view (mach ?s') pd x = (if stack_address x then view (mach s) pd x else Inl Page_fault)" if "0x40000000 \<le> x" for x
    using vw [OF that] cleaned_view [OF 1(3,4) i(5) that] by simp
  have other: "view (mach ?s') pd' x = view (mach s) pd' x"
    if "pd' \<noteq> pd" "dir_slots ?k pd' (set high) \<inter> dir_slots ?k pd (set high) = {}" "0x40000000 \<le> x" for pd' x
    using vw [OF that(3)] cleaned_other_view [OF 1(3,4) that] by simp
  have fb: "bm_bit (available_frames (knl ?s')) n \<longleftrightarrow> bm_bit (available_frames ?k) n \<and> n \<notin> slot_frame ?k ` ?U" for n
    using 1(3) f2(1) by (simp add: 3(2) unmapped_def)
  show ?thesis
    by (rule exI [of _ ?s'], intro conjI allI impI, fact ex, fact lk, simp, simp add: pd3, simp add: pd3 fr,
        rule own, assumption, (elim conjE, rule other; assumption), rule fb)
qed

section \<open>An exit on a booted machine\<close>

lemma space_inv_alloc:
  assumes "space_inv bs S pd I (c + 1) d (Suc j) s"
  shows "\<exists>q s' bs'. m_alloc g 60 s = Some (Inr (adr q, s')) \<and> space_inv bs' S pd I c d j s' \<and> q \<notin> blocks_at bs \<and>
    q \<in> blocks_at bs' \<and> (\<forall>b \<in> blocks_at bs. adr b \<noteq> adr q) \<and> grown (kern s) (kern s') \<and>
    (\<forall>i \<in> set high. tables (directory (kern s') pd) i = tables (directory (kern s) pd) i)"
proof -
  note i = space_invD [OF assms]
  have al: "alignment_ok 0" by (simp add: alignment_ok_def)
  obtain q s' bs' where 1: "m_alloc_aligned g (adr 60) (adr 0) s = Some (Inr (adr q, s'))" "machine_ok bs' S c d j s'"
    "q \<notin> blocks_at bs" "blocks_at bs' = insert q (blocks_at bs)" "grown (kern s) (kern s')"
    using machine_alloc [OF i(1) al, of 60 g] by auto
  have T: "tables (directory (kern s') pd) l = tables (directory (kern s) pd) l" if "l \<in> set high" for l
    using 1(5) that by (simp add: grown_def)
  have e: "entry_at (kern s') (tables (directory (kern s) pd) l, n) = entry_at (kern s) (tables (directory (kern s) pd) l, n)"
    if l: "l \<in> set high" "tables (directory (kern s) pd) l \<noteq> 0" for l n
  proof -
    obtain b where "tables (directory (kern s) pd) l = adr b" "b \<in> blocks_at bs" using i(7) [OF l] by auto
    then show ?thesis using heap_range(3) [OF i(1)] 1(5) by (simp add: grown_def entry_at_def)
  qed
  have set_eq: "{l \<in> set high. tables (directory (kern s') pd) l \<noteq> 0} = {l \<in> set high. tables (directory (kern s) pd) l \<noteq> 0}"
    using T by auto
  have "space_inv bs' S pd I c d j s'"
    unfolding space_inv_def
  proof (intro conjI)
    show "inj_on (tables (directory (kern s') pd)) {l \<in> set high. tables (directory (kern s') pd) l \<noteq> 0}"
      unfolding set_eq using i(5) T by (simp add: inj_on_def)
    show "\<forall>l \<in> set high. tables (directory (kern s') pd) l \<noteq> 0 \<longrightarrow> l \<in> I \<and>
        tables (directory (kern s') pd) l \<in> adr ` (blocks_at bs' - {5308428}) \<and>
        (\<forall>n. (tables (directory (kern s') pd) l, n) \<in> S \<or> entry_at (kern s') (tables (directory (kern s') pd) l, n) = zero_entry)"
    proof (intro ballI impI)
      fix l assume l: "l \<in> set high" "tables (directory (kern s') pd) l \<noteq> 0"
      then have nz: "tables (directory (kern s) pd) l \<noteq> 0" by (simp only: T [OF l(1)] not_False_eq_True)
      show "l \<in> I \<and> tables (directory (kern s') pd) l \<in> adr ` (blocks_at bs' - {5308428}) \<and>
        (\<forall>n. (tables (directory (kern s') pd) l, n) \<in> S \<or> entry_at (kern s') (tables (directory (kern s') pd) l, n) = zero_entry)"
        unfolding T [OF l(1)] e [OF l(1) nz] 1(4) using i(6-8) [OF l(1) nz] by blast
    qed
    show "pd \<noteq> kernel_page_directory (kern s')" "loaded_directory (kern s') = pd" using i(2,3) 1(5) by (simp_all add: grown_def)
  qed (use 1(2) i(4,9) in auto)
  moreover have "adr b \<noteq> adr q" if "b \<in> blocks_at bs" for b
  proof
    assume "adr b = adr q"
    moreover have "q \<in> blocks_at bs'" "b \<in> blocks_at bs'" using 1(4) that by auto
    moreover have "q < 1073741824" "b < 1073741824" by (rule heap_range(2) [OF 1(2)], fact)+
    ultimately have "b = q" by (simp add: adr_inject)
    then show False using that 1(3) by simp
  qed
  ultimately show ?thesis
    using 1 T by (intro exI [of _ q] exI [of _ s'] exI [of _ bs']) (simp add: m_alloc_unaligned adr_def)
qed

text \<open>The process at \<open>q\<close> runs in front of the process at 64.\<close>

definition running_at :: "u32 \<Rightarrow> Kernel \<Rightarrow> Kernel" where
  "running_at q k = k\<lparr>active_process := q, processes := (processes k)
     (q := (processes k q)\<lparr>page_directory := 0x30000, previous_process := 64, next_process := 64\<rparr>,
      64 := (processes k 64)\<lparr>page_directory := 0x51000C, eip := 5, esp := 6, ebp := 7, previous_process := q, next_process := q\<rparr>)\<rparr>"

theorem exit_correct_witness:
  "\<exists>h m k s q m1 s'. kalloc_init True kernel_pager (adr 1) (\<lambda>x. 0) process_kernel = Some (Inr (adr 5308428, h, m, k)) \<and>
     create_process_pages True 0x30000 True [0x40000, 0xEFBFF, 0xEFFFF, 0xF0000] \<lparr>heap = h, ram = m, kern = k\<rparr> = Some (Inr s) \<and>
     m_alloc True 60 s = Some (Inr (adr q, m1)) \<and>
     process_exit True 0 (sys_with (m1\<lparr>kern := running_at (adr q) (kern m1)\<rparr>)) = Inr (Switch_context 5 6 7, s') \<and>
     linked (knl s') [64] \<and> view (mach s') 0x30000 0x40000000 = Inl Page_fault"
proof -
  obtain h m k s bs S where 1: "kalloc_init True kernel_pager (adr 1) (\<lambda>x. 0) process_kernel = Some (Inr (adr 5308428, h, m, k))"
    "create_process_pages True 0x30000 True [0x40000, 0xEFBFF, 0xEFFFF, 0xF0000] \<lparr>heap = h, ram = m, kern = k\<rparr> = Some (Inr s)"
    "space_inv bs S 0x30000 {256, 958, 959, 960} (987 + 1) 996 (Suc 2995) s" "card S \<le> 4"
    "stack_tables (kern s) 0x30000" "kernel_page_directory (kern s) = 0x20000"
    "processes (kern s) = processes process_kernel" "active_process (kern s) = 64" "current_pid (kern s) = 2"
    using sample_space by auto
  obtain q m1 bs1 where 2: "m_alloc True 60 s = Some (Inr (adr q, m1))" "space_inv bs1 S 0x30000 {256, 958, 959, 960} 987 996 2995 m1"
    "q \<notin> blocks_at bs" "q \<in> blocks_at bs1" "\<forall>b \<in> blocks_at bs. adr b \<noteq> adr q" "grown (kern s) (kern m1)"
    "\<forall>i \<in> set high. tables (directory (kern m1) 0x30000) i = tables (directory (kern s) 0x30000) i"
    using space_inv_alloc [OF 1(3), of True] by (elim exE conjE) (rule that; assumption)
  note q = heap_range [OF space_invD(1) [OF 2(2)] 2(4)]
  let ?m = "m1\<lparr>kern := running_at (adr q) (kern m1)\<rparr>"
  let ?k = "knl (sys_with ?m)"
  have k: "?k = running_at (adr q) (kern m1)" by simp
  have q64: "adr q \<noteq> 64"
  proof
    assume "adr q = 64"
    moreover have "unat (adr q) = q" using q(2) by simp
    ultimately show False using q(1) by simp
  qed
  have ro: "records_only (kern m1) ?k" by (simp add: records_only_def running_at_def)
  note f = records_only_fields [OF ro]
  have l: "linked ?k [adr q, 64]" using q64 q(4) by (simp add: linked_def ring_def running_at_def)
  have ring: "ring ?k [adr q, 64]" using l by (simp only: linked_def)
  have mo: "machine_ok bs1 S 987 996 2995 ?m"
    using machine_ok_records [OF space_invD(1) [OF 2(2)] ro [unfolded k] ring [unfolded k]] .
  have fm: "directory (running_at (adr q) (kern m1)) = directory (kern m1)" "entry_at (running_at (adr q) (kern m1)) = entry_at (kern m1)"
    "kernel_page_directory (running_at (adr q) (kern m1)) = kernel_page_directory (kern m1)"
    "loaded_directory (running_at (adr q) (kern m1)) = loaded_directory (kern m1)"
    using f unfolding k by blast+
  have inv: "space_inv bs1 S 0x30000 {256, 958, 959, 960} 987 996 2995 (mach (sys_with ?m))"
    using 2(2) mo by (simp add: space_inv_def fm)
  let ?t = "length (dir_tables ?k 0x30000 high)"
  have t: "?t \<le> 4" using space_inv_slots(2) [OF inv] by simp
  have e: "Suc ((2994 - ?t) + ?t) = 2995" using t by simp
  have inv': "space_inv bs1 S 0x30000 {256, 958, 959, 960} 987 996 (Suc ((2994 - ?t) + ?t)) (mach (sys_with ?m))"
    unfolding e by (rule inv)
  have pd: "0x30000 = page_directory (processes ?k (adr q))" "page_directory (processes ?k 64) = 0x51000C"
    "saved_jump (processes ?k 64) = (Switch_context 5 6 7 :: unit control)"
    using q64 by (simp_all add: running_at_def saved_jump_def)
  have "5308428 \<in> blocks_at bs1" by (rule space_inv_anchor [OF 2(2)])
  then have "mapped ?k (5308428 div 4096)" using heap_range(5) [OF mo, of 5308428] by simp
  then have "tables (directory ?k (kernel_page_directory ?k)) 1 \<noteq> 0" by (simp add: mapped_def kernel_dir_def)
  then have sl: "spaces_loadable ?k [64]"
    by (simp add: spaces_loadable_def pd(2) rok_def paging_get_page_directory_x86_tables_frame_address_def
        get_physical_address_of_virtual_address_def del: sys_with_simps)
  have kp: "0x30000 \<noteq> kernel_page_directory ?k" by (rule space_invD(2) [OF inv])
  have T: "tables (directory ?k 0x30000) i \<in> adr ` blocks_at bs \<or> tables (directory ?k 0x30000) i = 0" if "i \<in> set high" for i
  proof -
    have "tables (directory ?k 0x30000) i = tables (directory (kern s) 0x30000) i" using 2(7) that unfolding k fm by (rule bspec)
    then show ?thesis using space_invD(7) [OF 1(3) that] by (cases "tables (directory (kern s) 0x30000) i = 0") auto
  qed
  have nt: "\<forall>i \<in> set high. tables (directory ?k 0x30000) i \<noteq> adr q"
  proof
    fix i assume i: "i \<in> set high"
    show "tables (directory ?k 0x30000) i \<noteq> adr q"
    proof (cases "tables (directory ?k 0x30000) i = 0")
      case True
      show ?thesis unfolding True using q(4) by (rule not_sym)
    next
      case False
      then obtain b where b: "tables (directory ?k 0x30000) i = adr b" "b \<in> blocks_at bs" using T [OF i] by blast
      show ?thesis unfolding b(1) using 2(5) b(2) by blast
    qed
  qed
  have "x \<in> adr ` blocks_at bs" if "x \<in> fst ` S" for x
    using space_invD(1) [OF 1(3)] that by (auto simp: machine_ok_def)
  then have nS: "adr q \<notin> fst ` S" using 2(5) by (metis imageE)
  have qa: "q \<noteq> 5308428" using 2(3) space_inv_anchor [OF 1(3)] by metis
  obtain s' where 3: "process_exit True 0 (sys_with ?m) = Inr (saved_jump (processes ?k 64), s')" "linked (knl s') [64]"
    "\<forall>x \<ge> 0x40000000. view (mach s') 0x30000 x = (if stack_address x then view (mach (sys_with ?m)) 0x30000 x else Inl Page_fault)"
    using exit_correct [OF l sl pd(1) kp inv' 2(4) qa nS nt, of True 0] by (elim exE conjE) (rule that; assumption)
  have "\<not> stack_address 0x40000000"
    by (simp add: stack_address_def is_page_part_of_kernel_stack_in_process_address_space_def Let_def
        KERNEL_STACK_ADDRESS_IN_PROCESS_ADDRESS_SPACE_def KERNEL_STACK_RESERVED_PAGES_IN_PROCESS_ADDRESS_SPACE_def)
  then have v: "view (mach s') 0x30000 0x40000000 = Inl Page_fault" using 3(3) by simp
  have ex: "process_exit True 0 (sys_with ?m) = Inr (Switch_context 5 6 7, s')" using 3(1) unfolding pd(3) .
  show ?thesis by (intro exI conjI, fact 1(1), fact 1(2), fact 2(1), fact ex, fact 3(2), fact v)
qed

end
