(* ===== verification/Syscall_Stubs.thy ===== *)
theory Syscall_Stubs
  imports Process_Control
begin

text \<open>
  The table of system call stubs: src/src/syscall.c.  A key is the characters of a name,
  without the 0 behind them.  Addresses and sizes of the stubs are those of the symbols of
  asm/syscall_stubs.asm, given by the function \<open>stub\<close>.
\<close>

definition syscall_stub_name_compare :: "u8 list \<Rightarrow> u8 list \<Rightarrow> bool" where
  "syscall_stub_name_compare key1 key2 \<longleftrightarrow> strcmp (cstr key1) (cstr key2) = Some 0"

text \<open>A character is signed: it is added with its sign.\<close>

fun hash_loop :: "u8 list \<Rightarrow> u32 \<Rightarrow> u32" where
  "hash_loop [] hash = hash"
| "hash_loop (c # cs) hash = (if c = 0 then hash else hash_loop cs ((push_bit 5 hash + hash) + scast c))"

definition syscall_stub_name_hash :: "u8 list \<Rightarrow> u32" where
  "syscall_stub_name_hash key = hash_loop key 5381"

definition PRINT_SYSCALL_NAME :: "u8 list" where "PRINT_SYSCALL_NAME = chars_of ''print''"
definition FORK_SYSCALL_NAME :: "u8 list" where "FORK_SYSCALL_NAME = chars_of ''fork''"
definition POS_CURSOR_SYSCALL_NAME :: "u8 list" where "POS_CURSOR_SYSCALL_NAME = chars_of ''pos_cursor''"
definition CLEAR_SCREEN_SYSCALL_NAME :: "u8 list" where "CLEAR_SCREEN_SYSCALL_NAME = chars_of ''clear_screen''"
definition EXECVE_SYSCALL_NAME :: "u8 list" where "EXECVE_SYSCALL_NAME = chars_of ''execve''"
definition EXIT_SYSCALL_NAME :: "u8 list" where "EXIT_SYSCALL_NAME = chars_of ''exit''"
definition OPEN_SYSCALL_NAME :: "u8 list" where "OPEN_SYSCALL_NAME = chars_of ''open''"
definition READ_SYSCALL_NAME :: "u8 list" where "READ_SYSCALL_NAME = chars_of ''read''"
definition WRITE_SYSCALL_NAME :: "u8 list" where "WRITE_SYSCALL_NAME = chars_of ''write''"
definition CLOSE_SYSCALL_NAME :: "u8 list" where "CLOSE_SYSCALL_NAME = chars_of ''close''"

text \<open>The calls of \<open>hash_map_put\<close>, in their order.\<close>

definition syscall_names :: "u8 list list" where
  "syscall_names = [PRINT_SYSCALL_NAME, EXIT_SYSCALL_NAME, POS_CURSOR_SYSCALL_NAME, CLEAR_SCREEN_SYSCALL_NAME,
     EXECVE_SYSCALL_NAME, FORK_SYSCALL_NAME, OPEN_SYSCALL_NAME, READ_SYSCALL_NAME, WRITE_SYSCALL_NAME, CLOSE_SYSCALL_NAME]"

type_synonym stub_table = "(u8 list, Syscall_Stub_Information) Hash_Map"

fun put_stubs :: "(u32 \<Rightarrow> u32) \<Rightarrow> (u8 list \<Rightarrow> Syscall_Stub_Information) \<Rightarrow> u8 list list \<Rightarrow> stub_table \<Rightarrow> stub_table res option" where
  "put_stubs ka stub [] hm = Some (Inr hm)"
| "put_stubs ka stub (name # names) hm =
    obind (hash_map_put ka 2 hm name (stub name)) (\<lambda>(hm, r). put_stubs ka stub names hm)"

text \<open>\<open>ka\<close> is what the heap would answer if the table had to grow.\<close>

definition syscall_init :: "bool \<Rightarrow> (u32 \<Rightarrow> u32) \<Rightarrow> (u8 list \<Rightarrow> Syscall_Stub_Information) \<Rightarrow> Rawos \<Rightarrow> Rawos res option" where
  "syscall_init g ka stub s =
    obind (m_alloc g (1024 * element_size 4 8) (mach s)) (\<lambda>(block, m).
    obind (Some (hash_map_create (\<lambda>n. block) 1024 4 8 syscall_stub_name_compare syscall_stub_name_hash)) (\<lambda>(hm, r).
    obind (put_stubs ka stub syscall_names hm) (\<lambda>hm.
    Some (register_trap Syscall_handler (ISR 128) ((with_machine s m)\<lparr>syscall_stubs := hm\<rparr>)))))"

definition syscall_stub_get :: "stub_table \<Rightarrow> u8 list \<Rightarrow> Syscall_Stub_Information \<Rightarrow>
    (Syscall_Stub_Information \<times> s32) res option" where
  "syscall_stub_get stubs name ssi = hash_map_get stubs name ssi"

section \<open>The names are found\<close>

abbreviation c_part :: "u8 list \<Rightarrow> u8 list" where "c_part \<equiv> takeWhile (\<lambda>c. c \<noteq> 0)"

lemma cstr_c_part: "i \<le> length (c_part xs) \<Longrightarrow> cstr (c_part xs) i = cstr xs i"
proof (cases "i < length (c_part xs)")
  case True
  then show ?thesis using length_takeWhile_le [of "\<lambda>c. c \<noteq> 0" xs] by (simp add: cstr_def takeWhile_nth)
next
  case False
  assume "i \<le> length (c_part xs)"
  then have "i = length (c_part xs)" using False by simp
  then show ?thesis using nth_length_takeWhile [of "\<lambda>c. c \<noteq> 0" xs] by (auto simp: cstr_def)
qed

lemma strcmp_loop_c_part:
  "i \<le> length (c_part xs) \<Longrightarrow> i \<le> length (c_part ys) \<Longrightarrow>
   strcmp_loop (cstr xs) (cstr ys) i = strcmp_loop (cstr (c_part xs)) (cstr (c_part ys)) i"
proof (induction "length (c_part xs) - i" arbitrary: i rule: less_induct)
  case less
  have x: "cstr xs i = cstr (c_part xs) i" "cstr ys i = cstr (c_part ys) i"
    using cstr_c_part less.prems by simp_all
  show ?case
  proof (cases "cstr xs i \<noteq> 0 \<and> cstr ys i \<noteq> 0")
    case True
    then have "i < length (c_part xs)" "i < length (c_part ys)" using x by (auto simp: cstr_def split: if_splits)
    then have "strcmp_loop (cstr xs) (cstr ys) (i + 1) = strcmp_loop (cstr (c_part xs)) (cstr (c_part ys)) (i + 1)"
      using less.hyps [of "i + 1"] by simp
    then show ?thesis using x by (simp add: strcmp_loop.simps [of _ _ i])
  next
    case False
    then show ?thesis using x by (auto simp: strcmp_loop.simps [of _ _ i])
  qed
qed

lemma compare_c_part: "syscall_stub_name_compare a b \<longleftrightarrow> c_part a = c_part b"
proof -
  have "strcmp (cstr a) (cstr b) = strcmp (cstr (c_part a)) (cstr (c_part b))"
    using strcmp_loop_c_part [of 0 a b] by (simp add: strcmp_def)
  also have "\<dots> = Some (if c_part a = c_part b then 0 else 1)"
    by (rule strcmp_cstr) (auto dest: set_takeWhileD)
  finally show ?thesis by (simp add: syscall_stub_name_compare_def)
qed

lemma hash_c_part: "hash_loop cs h = hash_loop (c_part cs) h"
  by (induction cs arbitrary: h) auto

lemma name_keys: "hash_keys syscall_stub_name_compare syscall_stub_name_hash"
proof unfold_locales
  show "syscall_stub_name_compare k k' \<Longrightarrow> syscall_stub_name_hash k = syscall_stub_name_hash k'" for k k'
    using hash_c_part [of k] hash_c_part [of k'] by (simp add: compare_c_part syscall_stub_name_hash_def)
qed (simp_all add: compare_c_part)

lemma put_stubs_ins_all:
  "hm_table.ins_all ka hm (map (\<lambda>n. (n, stub n)) names) = Some hm' \<Longrightarrow> put_stubs ka stub names hm = Some (Inr hm')"
proof (induction names arbitrary: hm)
  case (Cons n names)
  then obtain hm1 where "table_put ka hm n (stub n) = Some hm1" "put_stubs ka stub names hm1 = Some (Inr hm')"
    by (auto split: option.splits)
  then show ?case by (auto simp: table_put_def split: option.splits sum.splits prod.splits if_splits)
qed simp

text \<open>
  After \<open>syscall_init\<close> the table answers every name of a system call with its stub, a
  name being what is in front of the first 0, and answers -1 to every other name; the
  handler is registered for trap 128.
\<close>

lemma syscall_init_ok:
  assumes "m_alloc g 16384 (mach s) = Some (Inr (block, m))" "block \<noteq> 0" "128 < length (trap_handlers s)"
  shows "\<exists>s'. syscall_init g ka stub s = Some (Inr s') \<and> trap_handlers s' = (trap_handlers s)[128 := Syscall_handler] \<and>
    mach s' = m \<and> fs (os s') = fs (os s) \<and> interrupts_enabled s' = interrupts_enabled s \<and>
    (\<forall>name ssi. syscall_stub_get (syscall_stubs s') name ssi =
       Some (Inr (if c_part name \<in> set syscall_names then (stub (c_part name), 0) else (ssi, - 1))))"
proof -
  let ?hm = "empty_map 1024 4 8 syscall_stub_name_compare syscall_stub_name_hash :: stub_table"
  have create: "hash_map_create (\<lambda>n. block) 1024 4 8 syscall_stub_name_compare syscall_stub_name_hash = Inr (?hm, 0)"
    by (rule create_eq) (use assms(2) in simp_all)
  let ?kvs = "map (\<lambda>n. (n, stub n)) syscall_names"
  have ok: "table_ok syscall_stub_name_compare ?hm"
    using empty_map_ok [OF name_keys, of 1024 4 8] by (simp add: table_ok_def) (simp add: empty_map_def)
  have "used_slots (replicate n None) = 0" for n by (simp add: used_slots_def)
  then have room: "table_room (length ?kvs + 0) ?hm" by (simp add: table_room_def empty_map_def syscall_names_def)
  obtain hm where 1: "hm_table.ins_all ka ?hm ?kvs = Some hm" "table_ok syscall_stub_name_compare hm"
    "\<forall>k. hm_abs hm k = (case find (\<lambda>(n, v). syscall_stub_name_compare n k) (rev ?kvs) of
       Some (n, v) \<Rightarrow> Some v | None \<Rightarrow> hm_abs ?hm k)"
    using hm_table.ins_all_ok [OF ok room, of ka] by blast
  have put: "put_stubs ka stub syscall_names ?hm = Some (Inr hm)" by (rule put_stubs_ins_all [OF 1(1)])
  have plain: "c_part n = n" if "n \<in> set syscall_names" for n
    using that by (auto simp: syscall_names_def PRINT_SYSCALL_NAME_def EXIT_SYSCALL_NAME_def POS_CURSOR_SYSCALL_NAME_def
        CLEAR_SCREEN_SYSCALL_NAME_def EXECVE_SYSCALL_NAME_def FORK_SYSCALL_NAME_def OPEN_SYSCALL_NAME_def
        READ_SYSCALL_NAME_def WRITE_SYSCALL_NAME_def CLOSE_SYSCALL_NAME_def chars_of_def)
  have find: "find (\<lambda>(n, v). syscall_stub_name_compare n k) (map (\<lambda>n. (n, stub n)) ns) =
      (if c_part k \<in> set ns then Some (c_part k, stub (c_part k)) else None)" if "set ns \<subseteq> set syscall_names" for ns k
    using that
  proof (induction ns)
    case (Cons n ns)
    then have "syscall_stub_name_compare n k \<longleftrightarrow> n = c_part k" unfolding compare_c_part using Cons.prems by (simp only: plain set_simps insert_subset)
    then show ?case using Cons by auto
  qed simp
  have abs: "hm_abs hm k = (if c_part k \<in> set syscall_names then Some (stub (c_part k)) else None)" for k
    using 1(3) find [of "rev syscall_names" k] empty_map_inv(2) [OF name_keys, of 1024 4 8 k]
    by (simp add: rev_map split: if_splits)
  have get: "syscall_stub_get hm name ssi = Some (Inr (if c_part name \<in> set syscall_names then (stub (c_part name), 0) else (ssi, - 1)))"
    for name ssi
    using get_correct [of hm name ssi] 1(2) abs [of name] by (simp add: syscall_stub_get_def table_ok_def)
  let ?s = "(with_machine s m)\<lparr>trap_handlers := (trap_handlers s)[128 := Syscall_handler], syscall_stubs := hm\<rparr>"
  have "syscall_init g ka stub s = Some (Inr ?s)"
    using assms(1,3) create put by (simp add: syscall_init_def element_size_def register_trap_def)
  then show ?thesis using get assms(3) by (intro exI [of _ ?s]) simp
qed

end
