(* ===== verification/Rawx.thy ===== *)
theory Rawx
  imports Syscall_Stubs Process_Pages
begin

text \<open>
  The loader of executables: src/src/rawx.c and rawx.h.

  The file is in a buffer at the address \<open>buf\<close>; its fields are read from there when the code
  reads them.  \<open>stubs\<close> is the table of system call stubs.  The structures are packed as C
  lays them out: a header of 28 bytes, sections of 20, import entries of 12.
\<close>

definition RAWX_ARCH_X86 :: u32 where "RAWX_ARCH_X86 = 0x1"
definition RAWX_STACK_ADDRESS :: u32 where "RAWX_STACK_ADDRESS = 0xC0000000"
definition RAWX_STACK_ADDRESS_MAX_RESERVED_PAGES :: u32 where "RAWX_STACK_ADDRESS_MAX_RESERVED_PAGES = 2048"
definition RAWX_IMPORT_DATA_MAX_RESERVED_PAGES :: u32 where "RAWX_IMPORT_DATA_MAX_RESERVED_PAGES = 2048"
definition RAWX_LOAD_ADDRESS_MINIMUM :: u32 where "RAWX_LOAD_ADDRESS_MINIMUM = 1024 * 1024 * 1024"
definition RAWX_SECTION_ADDRESS_MAXIMUM :: u32 where
  "RAWX_SECTION_ADDRESS_MAXIMUM = RAWX_STACK_ADDRESS - RAWX_STACK_ADDRESS_MAX_RESERVED_PAGES * 0x1000 -
     RAWX_IMPORT_DATA_MAX_RESERVED_PAGES * 0x1000"
definition RAWX_KERNEL_LIB_NAME :: "u8 list" where "RAWX_KERNEL_LIB_NAME = chars_of ''kernel''"

definition sizeof_RawX_Header :: u32 where "sizeof_RawX_Header = 28"
definition sizeof_RawX_Section :: u32 where "sizeof_RawX_Section = 20"
definition sizeof_RawX_Import_Table :: u32 where "sizeof_RawX_Import_Table = 4"
definition sizeof_RawX_Import_Address :: u32 where "sizeof_RawX_Import_Address = 12"

record RawX_Load_Information =
  code_address :: u32
  data_address :: u32
  stack_address :: u32
  entrypoint :: u32

section \<open>Fields in memory\<close>

text \<open>A word is read and written in little-endian order.\<close>

definition get_u16 :: "u32 \<Rightarrow> Os \<Rightarrow> u16 res" where
  "get_u16 a s = rbind (get_byte a s) (\<lambda>b0. rbind (get_byte (a + 1) s) (\<lambda>b1. Inr (ucast b0 OR push_bit 8 (ucast b1))))"

definition get_u32 :: "u32 \<Rightarrow> Os \<Rightarrow> u32 res" where
  "get_u32 a s =
    rbind (get_byte a s) (\<lambda>b0. rbind (get_byte (a + 1) s) (\<lambda>b1. rbind (get_byte (a + 2) s) (\<lambda>b2.
    rbind (get_byte (a + 3) s) (\<lambda>b3.
    Inr (ucast b0 OR push_bit 8 (ucast b1) OR push_bit 16 (ucast b2) OR push_bit 24 (ucast b3))))))"

definition put_u32 :: "u32 \<Rightarrow> u32 \<Rightarrow> Os \<Rightarrow> Os res" where
  "put_u32 a v s =
    rbind (put_byte a (ucast v) s) (\<lambda>s. rbind (put_byte (a + 1) (ucast (drop_bit 8 v)) s) (\<lambda>s.
    rbind (put_byte (a + 2) (ucast (drop_bit 16 v)) s) (\<lambda>s. put_byte (a + 3) (ucast (drop_bit 24 v)) s)))"

text \<open>\<open>!strcmp(a, str)\<close> for a string in memory and a constant: the comparison stops at the first difference.\<close>

fun string_is :: "u8 list \<Rightarrow> u32 \<Rightarrow> Os \<Rightarrow> bool res" where
  "string_is [] a s = rbind (get_byte a s) (\<lambda>v. Inr (v = 0))"
| "string_is (c # cs) a s = rbind (get_byte a s) (\<lambda>v. if v = c then string_is cs (a + 1) s else Inr False)"

text \<open>What \<open>printf\<close> prints for a string at an address; an unmapped address is a fault before.\<close>

definition text_at :: "Os \<Rightarrow> u32 \<Rightarrow> u8 list" where
  "text_at s a = (case string_at a s of Inl e \<Rightarrow> [] | Inr cs \<Rightarrow> cs)"

section \<open>Sections\<close>

text \<open>
  The loop that creates the pages of a section and copies its bytes.  The offset \<open>i\<close>
  counts in pages of a 32-bit offset: after 2 to the 20 rounds it is 0 again and the loop
  has no end.
\<close>

fun copy_section :: "nat \<Rightarrow> bool \<Rightarrow> u32 \<Rightarrow> u32 \<Rightarrow> u32 \<Rightarrow> u32 \<Rightarrow> u32 \<Rightarrow> Os \<Rightarrow> Os res option" where
  "copy_section 0 g pd sec section_address section_data i s = Some (Inl Spins)"
| "copy_section (Suc fuel) g pd sec section_address section_data i s =
    obind (Some (get_u32 (sec + 8) s)) (\<lambda>size_bytes.
    if i < size_bytes then
      let target_address = section_address + i; page_num = target_address div 0x1000;
          data_chunk_size = min 0x1000 (size_bytes - i) in
      obind (paging_create_process_page_with_any_frame g pd page_num True (machine s)) (\<lambda>(frame, m).
      obind (Some (copy_memory target_address section_data data_chunk_size (s\<lparr>machine := m\<rparr>))) (\<lambda>s.
      copy_section fuel g pd sec section_address section_data (i + 0x1000) s))
    else Some (Inr s))"

definition section_rounds :: nat where "section_rounds = 1048577"

text \<open>The loop over the imported symbols; \<open>i\<close> runs below the signed \<open>symbol_count\<close>.\<close>

fun load_imports :: "nat \<Rightarrow> stub_table \<Rightarrow> u32 \<Rightarrow> u32 \<Rightarrow> u32 \<Rightarrow> u32 \<Rightarrow> u32 \<Rightarrow> Os \<Rightarrow> Os res option" where
  "load_imports 0 stubs start iaddr page_addr i current_addr s = Some (Inr s)"
| "load_imports (Suc n) stubs start iaddr page_addr i current_addr s =
    (let imp = iaddr + i * sizeof_RawX_Import_Address in
     obind (Some (get_u32 imp s)) (\<lambda>section_symbol_offset.
     obind (Some (get_u32 (imp + 4) s)) (\<lambda>section_lib_offset.
     let symbol_name = start + section_symbol_offset; lib_name = start + section_lib_offset; call_address = imp + 8 in
     obind (Some (string_at symbol_name s)) (\<lambda>symbol. obind (Some (string_at lib_name s)) (\<lambda>lib.
     let s = os_message (text_at s) (''rawx: found symbol %s:%s'' @ newline) [symbol_name, lib_name] s in
     obind (Some (kassert (same_name lib RAWX_KERNEL_LIB_NAME) ''Error loading RawX: import has unknown lib'')) (\<lambda>_.
     obind (syscall_stub_get stubs symbol \<lparr>syscall_stub_address = 0, syscall_stub_size = 0\<rparr>) (\<lambda>(ssi, r).
     obind (Some (kassert (r = 0) ''Error loading RawX: import has unknown symbol'')) (\<lambda>_.
     obind (Some (kassert (current_addr + syscall_stub_size ssi < page_addr + 0x1000)
              ''Error loading RawX: more than one page needed for imports! go fix it!'')) (\<lambda>_.
     obind (Some (copy_memory current_addr (syscall_stub_address ssi) (syscall_stub_size ssi) s)) (\<lambda>s.
     obind (Some (put_u32 call_address current_addr s)) (\<lambda>s.
     obind (Some (get_u32 call_address s)) (\<lambda>call.
     let s = os_message (text_at s) (''rawx: call address 0x%x set for syscall %s.'' @ newline) [call, symbol_name] s in
     load_imports n stubs start iaddr page_addr (i + 1) (current_addr + syscall_stub_size ssi) s))))))))))))"

definition load_import_section :: "bool \<Rightarrow> stub_table \<Rightarrow> u32 \<Rightarrow> u32 \<Rightarrow> u32 \<Rightarrow> u32 \<Rightarrow> u32 \<Rightarrow> Os \<Rightarrow> Os res option" where
  "load_import_section g stubs buf pd sec section_address section_data s =
    obind (Some (get_u32 (sec + 16) s)) (\<lambda>file_ptr_to_data.
    let start = buf + file_ptr_to_data in
    obind (Some (get_u32 start s)) (\<lambda>symbol_count.
    let page_addr = RAWX_STACK_ADDRESS - RAWX_STACK_ADDRESS_MAX_RESERVED_PAGES * 0x1000 - RAWX_IMPORT_DATA_MAX_RESERVED_PAGES * 0x1000 in
    obind (paging_create_process_page_with_any_frame g pd (page_addr div 0x1000) True (machine s)) (\<lambda>(frame, m).
    obind (load_imports (nat (sint symbol_count)) stubs start (start + sizeof_RawX_Import_Table) page_addr 0 page_addr (s\<lparr>machine := m\<rparr>)) (\<lambda>s.
    copy_section section_rounds g pd sec section_address section_data 0 s))))"

text \<open>One section of the table.\<close>

definition load_section :: "bool \<Rightarrow> stub_table \<Rightarrow> u32 \<Rightarrow> u32 \<Rightarrow> u32 \<Rightarrow> RawX_Load_Information \<Rightarrow> Os \<Rightarrow>
    (RawX_Load_Information \<times> Os) res option" where
  "load_section g stubs buf pd sec rli s =
    obind (Some (get_u32 (buf + 12) s)) (\<lambda>load_address.
    obind (Some (get_u32 (sec + 12) s)) (\<lambda>virtual_address.
    obind (Some (get_u32 (sec + 16) s)) (\<lambda>file_ptr_to_data.
    obind (Some (get_u32 (sec + 8) s)) (\<lambda>size_bytes.
    let section_address = load_address + virtual_address; section_data = buf + file_ptr_to_data in
    obind (Some (kassert (section_address mod 0x1000 = 0) ''Error loading RawX: section address needs to be 0x1000 aligned'')) (\<lambda>_.
    obind (Some (kassert (section_address + size_bytes < RAWX_SECTION_ADDRESS_MAXIMUM)
             ''Error loading RawX: (section address + size in bytes) is too high!'')) (\<lambda>_.
    obind (Some (string_is (chars_of ''.code'') sec s)) (\<lambda>code.
    if code then
      obind (copy_section section_rounds g pd sec section_address section_data 0 s) (\<lambda>s.
      Some (Inr (rli\<lparr>code_address := section_address\<rparr>, s)))
    else
    obind (Some (string_is (chars_of ''.data'') sec s)) (\<lambda>dat.
    if dat then
      obind (copy_section section_rounds g pd sec section_address section_data 0 s) (\<lambda>s.
      Some (Inr (rli\<lparr>data_address := section_address\<rparr>, s)))
    else
    obind (Some (string_is (chars_of ''.import'') sec s)) (\<lambda>import.
    if import then
      obind (load_import_section g stubs buf pd sec section_address section_data s) (\<lambda>s. Some (Inr (rli, s)))
    else Some (Inr (rli, s)))))))))))"

text \<open>The count in the header is read before each round; 2 to the 32 rounds without an end have none.\<close>

fun load_sections :: "nat \<Rightarrow> bool \<Rightarrow> stub_table \<Rightarrow> u32 \<Rightarrow> u32 \<Rightarrow> u32 \<Rightarrow> RawX_Load_Information \<Rightarrow> Os \<Rightarrow>
    (RawX_Load_Information \<times> Os) res option" where
  "load_sections 0 g stubs buf pd i rli s = Some (Inl Spins)"
| "load_sections (Suc fuel) g stubs buf pd i rli s =
    obind (Some (get_u32 (buf + 24) s)) (\<lambda>section_count.
    if i < section_count then
      obind (load_section g stubs buf pd (buf + sizeof_RawX_Header + i * sizeof_RawX_Section) rli s) (\<lambda>(rli, s).
      load_sections fuel g stubs buf pd (i + 1) rli s)
    else Some (Inr (rli, s)))"

definition section_table_rounds :: nat where "section_table_rounds = 4294967296"

section \<open>The loader\<close>

definition magic_ok :: "u32 \<Rightarrow> Os \<Rightarrow> bool res" where
  "magic_ok buf s = rbind (get_bytes 4 buf s) (\<lambda>bytes. Inr (bytes = chars_of ''RAWX''))"

text \<open>
  The assertions on the header, in their order.  The length is signed in its first
  comparison and unsigned where it is compared with the size of the section table.
\<close>

definition check_header :: "u32 \<Rightarrow> s32 \<Rightarrow> Os \<Rightarrow> unit res" where
  "check_header buf len s =
    rbind (kassert (\<not> len <s sizeof_RawX_Header) ''Fatal parse error: end of file within header'') (\<lambda>_.
    let len = len - sizeof_RawX_Header in
    rbind (magic_ok buf s) (\<lambda>ok.
    rbind (kassert ok ''Error loading RawX: RAW magic not present'') (\<lambda>_.
    rbind (get_u16 (buf + 4) s) (\<lambda>version.
    rbind (kassert (version = 0) ''Error loading RawX: Version not supported'') (\<lambda>_.
    rbind (get_u32 (buf + 8) s) (\<lambda>header_flags.
    rbind (kassert (header_flags AND RAWX_ARCH_X86 \<noteq> 0) ''Error loading RawX: x86 architecture is mandatory'') (\<lambda>_.
    rbind (get_u32 (buf + 24) s) (\<lambda>section_count.
    rbind (kassert (section_count * sizeof_RawX_Section \<le> len) ''Error loading RawX: End of file within section table'') (\<lambda>_.
    rbind (get_u32 (buf + 12) s) (\<lambda>load_address.
    kassert (RAWX_LOAD_ADDRESS_MINIMUM \<le> load_address) ''Error loading RawX: Load address is too short''))))))))))"

text \<open>The page numbers of the stack pages, from the one of the stack address downwards.\<close>

definition pages_down :: "u32 \<Rightarrow> u32 \<Rightarrow> u32 list" where
  "pages_down address n = map (\<lambda>i. address div 0x1000 - of_nat i) [0..<unat n]"

definition create_user_stack :: "bool \<Rightarrow> u32 \<Rightarrow> u32 \<Rightarrow> Os \<Rightarrow> Os res option" where
  "create_user_stack g buf pd s =
    obind (Some (get_u32 (buf + 20) s)) (\<lambda>stack_size.
    obind (Some (kassert (0 < stack_size) ''Error loading RawX: stack size must be greater than 0'')) (\<lambda>_.
    obind (Some (kassert (stack_size mod 0x1000 = 0) ''Error loading RawX: stack size must be 0x1000 aligned'')) (\<lambda>_.
    let stack_pages = stack_size div 0x1000 in
    obind (Some (kassert (stack_pages \<le> RAWX_STACK_ADDRESS_MAX_RESERVED_PAGES) ''Error loading RawX: stack is too big!'')) (\<lambda>_.
    obind (create_process_pages g pd True (pages_down RAWX_STACK_ADDRESS stack_pages) (machine s)) (\<lambda>m.
    Some (Inr (s\<lparr>machine := m\<rparr>)))))))"

definition create_kernel_stack :: "bool \<Rightarrow> u32 \<Rightarrow> Os \<Rightarrow> Os res option" where
  "create_kernel_stack g pd s =
    obind (create_process_pages g pd False
            (pages_down KERNEL_STACK_ADDRESS_IN_PROCESS_ADDRESS_SPACE KERNEL_STACK_RESERVED_PAGES_IN_PROCESS_ADDRESS_SPACE) (machine s))
      (\<lambda>m. Some (Inr (s\<lparr>machine := m\<rparr>)))"

text \<open>\<open>rli\<close> is what the local variable holds before its fields are set.\<close>

definition rawx_load :: "bool \<Rightarrow> stub_table \<Rightarrow> RawX_Load_Information \<Rightarrow> u32 \<Rightarrow> s32 \<Rightarrow> u32 \<Rightarrow> bool \<Rightarrow> bool \<Rightarrow> Os \<Rightarrow>
    (RawX_Load_Information \<times> Os) res option" where
  "rawx_load g stubs rli buf len pd with_stack with_kernel_stack s =
    obind (Some (check_header buf len s)) (\<lambda>_.
    obind (load_sections section_table_rounds g stubs buf pd 0 rli s) (\<lambda>(rli, s).
    obind (if with_stack
           then obind (create_user_stack g buf pd s) (\<lambda>s. Some (Inr (rli\<lparr>stack_address := RAWX_STACK_ADDRESS\<rparr>, s)))
           else Some (Inr (rli, s))) (\<lambda>(rli, s).
    obind (if with_kernel_stack then create_kernel_stack g pd s else Some (Inr s)) (\<lambda>s.
    obind (Some (get_u32 (buf + 12) s)) (\<lambda>load_address.
    obind (Some (get_u32 (buf + 16) s)) (\<lambda>entry_point_offset.
    Some (Inr (rli\<lparr>entrypoint := load_address + entry_point_offset\<rparr>, s))))))))"

end
