(* ===== verification/Process_Files.thy ===== *)
theory Process_Files
  imports Process_Control
begin

text \<open>
  The file descriptors of a process: src/src/process.c.  The table of a process is the
  \<open>Hash_Map\<close> structure in its record; the elements are at its \<open>data\<close> pointer in the
  store \<open>fd_blocks\<close>.
\<close>

definition file_descriptor_compare :: "s32 \<Rightarrow> s32 \<Rightarrow> bool" where
  "file_descriptor_compare fd1 fd2 \<longleftrightarrow> fd1 = fd2"

definition file_descriptor_hash :: "s32 \<Rightarrow> u32" where
  "file_descriptor_hash fd = fd"

definition PROCESS_FILE_DESCRIPTORS_HASH_MAP_INITIAL_CAP :: u32 where
  "PROCESS_FILE_DESCRIPTORS_HASH_MAP_INITIAL_CAP = 16"

text \<open>The table that a structure stands for, and the structure and elements of a table.\<close>

definition fd_table :: "Kernel \<Rightarrow> Fd_Map \<Rightarrow> (s32, u32) Hash_Map" where
  "fd_table k m = \<lparr>capacity = fd_capacity m, num_elements = fd_num_elements m, key_size = 4, value_size = 4,
     key_compare_func = file_descriptor_compare, key_hash_func = file_descriptor_hash, data = fd_blocks k (fd_data m)\<rparr>"

definition store_fd_table :: "u32 \<Rightarrow> u32 \<Rightarrow> (s32, u32) Hash_Map \<Rightarrow> Kernel \<Rightarrow> Kernel" where
  "store_fd_table p block hm k =
    (set_process p (\<lambda>q. q\<lparr>file_descriptors := \<lparr>fd_capacity = capacity hm, fd_num_elements = num_elements hm, fd_data = block\<rparr>\<rparr>) k)
      \<lparr>fd_blocks := (fd_blocks k)(block := data hm)\<rparr>"

text \<open>\<open>hash_map_create\<close> on the table of the process at \<open>p\<close>.\<close>

definition fd_create :: "bool \<Rightarrow> u32 \<Rightarrow> Machine \<Rightarrow> Machine res option" where
  "fd_create g p m =
    obind (m_alloc g (PROCESS_FILE_DESCRIPTORS_HASH_MAP_INITIAL_CAP * element_size 4 4) m) (\<lambda>(block, m).
    obind (Some (hash_map_create (\<lambda>n. block) PROCESS_FILE_DESCRIPTORS_HASH_MAP_INITIAL_CAP 4 4
                   file_descriptor_compare file_descriptor_hash)) (\<lambda>(hm, r).
    Some (Inr (m\<lparr>kern := store_fd_table p block hm (kern m)\<rparr>))))"

text \<open>
  \<open>hash_map_put\<close> on the table of the process at \<open>p\<close>: when more than half of the elements
  are in use the new block is allocated, the elements are moved, and the old block is
  released.
\<close>

definition fd_put :: "bool \<Rightarrow> u32 \<Rightarrow> s32 \<Rightarrow> u32 \<Rightarrow> Machine \<Rightarrow> (s32 \<times> Machine) res option" where
  "fd_put g p fd node m =
    (let fds = file_descriptors (processes (kern m) p); hm = fd_table (kern m) fds in
     obind (put_loop hm fd node (key_hash_func hm fd mod capacity hm)) (\<lambda>hm.
     let m = m\<lparr>kern := store_fd_table p (fd_data fds) hm (kern m)\<rparr> in
     if push_bit 1 (num_elements hm) > capacity hm then
       obind (m_alloc g (push_bit 1 (capacity hm) * element_size 4 4) m) (\<lambda>(block, m).
       obind (hash_map_grow (\<lambda>n. block) (hash_map_put (\<lambda>n. block) 1) hm) (\<lambda>(hm, r).
       let m = m\<lparr>kern := store_fd_table p block hm (kern m)\<rparr> in
       if r \<noteq> 0 then Some (Inr (- 1, m))
       else obind (Some (m_free g (fd_data fds) m)) (\<lambda>m. Some (Inr (0, m)))))
     else Some (Inr (0, m))))"

definition process_add_fd_to_active_process :: "bool \<Rightarrow> u32 \<Rightarrow> Machine \<Rightarrow> (s32 \<times> Machine) res option" where
  "process_add_fd_to_active_process g node m =
    (let a = active_process (kern m) in
     obind (Some (not_null a)) (\<lambda>_.
     let fd = fd_next (processes (kern m) a);
         m = m\<lparr>kern := set_process a (\<lambda>p. p\<lparr>fd_next := fd + 1\<rparr>) (kern m)\<rparr> in
     obind (fd_put g a fd node m) (\<lambda>(r, m).
     obind (Some (kassert (r = 0) ''There was an error adding fd to process'')) (\<lambda>_.
     Some (Inr (fd, m))))))"

definition process_remove_fd_from_active_process :: "s32 \<Rightarrow> Machine \<Rightarrow> Machine" where
  "process_remove_fd_from_active_process fd m = m"

text \<open>\<open>garbage\<close> is what the local variable \<open>node\<close> holds before it is set.\<close>

definition process_get_node_of_fd_of_active_process :: "u32 \<Rightarrow> s32 \<Rightarrow> Machine \<Rightarrow> u32 res option" where
  "process_get_node_of_fd_of_active_process garbage fd m =
    (let a = active_process (kern m) in
     obind (Some (not_null a)) (\<lambda>_.
     obind (hash_map_get (fd_table (kern m) (file_descriptors (processes (kern m) a))) fd garbage) (\<lambda>(node, r).
     Some (Inr (if r \<noteq> 0 then 0 else node)))))"

end
