(* ===== verification/Process_Start.thy ===== *)
theory Process_Start
  imports Rawx Process_Files
begin

text \<open>
  The start of programs: \<open>process_init\<close> and \<open>process_execve\<close> of src/src/process.c.
\<close>

definition INITIAL_PROCESS :: "u8 list" where "INITIAL_PROCESS = chars_of ''shell.rawx''"

definition with_os :: "Rawos \<Rightarrow> Os \<Rightarrow> Rawos" where
  "with_os s o1 = s\<lparr>os := o1\<rparr>"

lemma with_os_simps [simp]:
  "os (with_os s o1) = o1" "interrupts_enabled (with_os s o1) = interrupts_enabled s"
  "trap_handlers (with_os s o1) = trap_handlers s" "syscall_stubs (with_os s o1) = syscall_stubs s"
  "with_os s (os s) = s"
  by (simp_all add: with_os_def)

text \<open>
  What an operation takes from outside of the memory: the registers at the place where
  \<open>process_fork\<close> reads them, what the local variables hold before they are set, the
  address of the receiver buffer in the stack frame of \<open>dev_read\<close>, and the keyboard
  interrupts that arrive while it waits.
\<close>

record Ambient =
  now_eip :: u32
  now_esp :: u32
  now_ebp :: u32
  garbage_node :: u32
  garbage_rli :: RawX_Load_Information
  kerb_address :: u32
  key_events :: "(u8 \<times> u8) list"

text \<open>
  \<open>process_switch_to_user_mode_set_stack_and_jmp_addr\<close> of asm/process.asm enters ring 3
  with the interrupts enabled.
\<close>

definition process_switch_to_user_mode_set_stack_and_jmp_addr :: "u32 \<Rightarrow> u32 \<Rightarrow> Rawos \<Rightarrow> 'a control \<times> Rawos" where
  "process_switch_to_user_mode_set_stack_and_jmp_addr stack addr s = (User_mode stack addr, s\<lparr>interrupts_enabled := True\<rparr>)"

text \<open>The buffer with the contents of a file: the allocation and \<open>vfs_read\<close>.\<close>

definition read_image :: "bool \<Rightarrow> Ambient \<Rightarrow> u32 \<Rightarrow> Os \<Rightarrow> (u32 \<times> Os) res option" where
  "read_image g env rawx_node s =
    obind (os_alloc g (node_size (node_at s rawx_node)) s) (\<lambda>(buf, s).
    obind (Some (vfs_read (kerb_address env) (key_events env) rawx_node 0 (node_size (node_at s rawx_node)) buf s))
      (\<lambda>(n, s). Some (Inr (buf, s))))"

text \<open>The registers of a process that starts.\<close>

definition set_registers :: "u32 \<Rightarrow> u32 \<Rightarrow> u32 \<Rightarrow> Kernel \<Rightarrow> Kernel" where
  "set_registers p stack entry k =
    (let k = set_process p (\<lambda>q. q\<lparr>ebp := stack\<rparr>) k;
         k = set_process p (\<lambda>q. q\<lparr>esp := stack\<rparr>) k in
     set_process p (\<lambda>q. q\<lparr>eip := entry\<rparr>) k)"

text \<open>The last lines of both: to user mode with the registers of the active process.\<close>

definition enter_program :: "u32 \<Rightarrow> u32 \<Rightarrow> Rawos \<Rightarrow> 'a control \<times> Rawos" where
  "enter_program stack entry s =
    (let s = with_knl s (set_registers (active_process (knl s)) stack entry (knl s));
         p = processes (knl s) (active_process (knl s)) in
     process_switch_to_user_mode_set_stack_and_jmp_addr (esp p) (eip p) s)"

section \<open>The first process\<close>

text \<open>The record of the first process, with the clone of the address space of the kernel.\<close>

definition first_process :: "bool \<Rightarrow> Machine \<Rightarrow> Machine res option" where
  "first_process g m =
    obind (m_alloc g sizeof_Process m) (\<lambda>(p, m).
    let m = m\<lparr>kern := (kern m)\<lparr>active_process := p\<rparr>\<rparr> in
    obind (Some (not_null p)) (\<lambda>_.
    obind (fd_create g p m) (\<lambda>m.
    let k = set_process p (\<lambda>q. q\<lparr>fd_next := 0\<rparr>) (kern m);
        k = set_process p (\<lambda>q. q\<lparr>previous_process := p\<rparr>) k;
        k = set_process p (\<lambda>q. q\<lparr>next_process := p\<rparr>) k;
        k = set_process p (\<lambda>q. q\<lparr>pid := current_pid k\<rparr>) k;
        k = k\<lparr>current_pid := current_pid k + 1\<rparr> in
    obind (paging_clone_page_directory_for_new_process g (kernel_page_directory k) (m\<lparr>kern := k\<rparr>)) (\<lambda>(pd, m).
    let k = set_process p (\<lambda>q. q\<lparr>page_directory := pd\<rparr>) (kern m) in
    obind (Some (paging_get_page_directory_x86_tables_frame_address pd k)) (\<lambda>addr.
    Some (Inr (m\<lparr>kern := paging_switch_page_directory pd addr k\<rparr>)))))))"

definition process_init :: "bool \<Rightarrow> Ambient \<Rightarrow> Rawos \<Rightarrow> (unit control \<times> Rawos) res option" where
  "process_init g env s =
    (let s = interrupt_disable s in
     obind (Some (register_trap General_protection_fault_interrupt_handler (ISR 13) s)) (\<lambda>s.
     obind (Some (vfs_lookup (vfs_root (fs (os s))) (chars_of ''initrd'') (os s))) (\<lambda>initrd_node.
     obind (Some (kassert (initrd_node \<noteq> 0) ''Unable to initialize first process! initrd folder not found!'')) (\<lambda>_.
     obind (Some (vfs_lookup initrd_node INITIAL_PROCESS (os s))) (\<lambda>rawx_node.
     obind (Some (kassert (rawx_node \<noteq> 0) ''Unable to initialize first process! File was not found!'')) (\<lambda>_.
     obind (first_process g (mach s)) (\<lambda>m.
     let s = with_machine s m in
     obind (read_image g env rawx_node (os s)) (\<lambda>(buf, o1).
     obind (rawx_load g (syscall_stubs s) (garbage_rli env) buf (node_size (node_at o1 rawx_node))
              (page_directory (processes (kern (machine o1)) (active_process (kern (machine o1))))) False True o1) (\<lambda>(rli, o1).
     Some (Inr (enter_program KERNEL_STACK_ADDRESS (entrypoint rli) (with_os s o1))))))))))))"

section \<open>Another program in the process\<close>

text \<open>
  The buffer and the tables are those of the model's memory: an access always goes by the
  tables, so the flush of the translation cache at the end has nothing to do.
\<close>

definition process_execve :: "bool \<Rightarrow> Ambient \<Rightarrow> u32 \<Rightarrow> Rawos \<Rightarrow> (s32 control \<times> Rawos) res option" where
  "process_execve g env image_path s =
    (let s = interrupt_disable s in
     obind (Some (string_at image_path (os s))) (\<lambda>path.
     obind (Some (fs_util_get_node_by_path path (os s))) (\<lambda>rawx_node.
     if rawx_node = 0 then
       Some (Inr (Return (- 1), message (text_at (os s)) (''Unable to execve! File %s was not found!'' @ newline) [image_path] s))
     else
       obind (read_image g env rawx_node (os s)) (\<lambda>(buf, o1).
       let a = active_process (kern (machine o1)) in
       obind (Some (not_null a)) (\<lambda>_.
       obind (Some (paging_clean_all_non_kernel_pages_from_page_directory g (page_directory (processes (kern (machine o1)) a)) (machine o1)))
         (\<lambda>m.
       obind (rawx_load g (syscall_stubs s) (garbage_rli env) buf (node_size (node_at o1 rawx_node))
                (page_directory (processes (kern m) a)) True False (o1\<lparr>machine := m\<rparr>)) (\<lambda>(rli, o1).
       Some (Inr (enter_program (stack_address rli) (entrypoint rli) (with_os s o1)))))))))) "

end
