(* ===== verification/Syscall.thy ===== *)
theory Syscall
  imports Process_Start Interrupt
begin

text \<open>
  The system calls: the handler of src/src/syscall.c.  The answer of a call is the
  register eax of the caller.
\<close>

section \<open>The calls\<close>

text \<open>The calls on an open file: -1 when there is none of this number.\<close>

definition on_open_file :: "Ambient \<Rightarrow> s32 \<Rightarrow> (u32 \<Rightarrow> Os \<Rightarrow> (u32 \<times> Os) res) \<Rightarrow> Rawos \<Rightarrow> (u32 \<times> Rawos) res option" where
  "on_open_file env fd f s =
    obind (process_get_node_of_fd_of_active_process (garbage_node env) fd (mach s)) (\<lambda>node.
    if node \<noteq> 0 then obind (Some (f node (os s))) (\<lambda>(n, o1). Some (Inr (n, with_os s o1)))
    else Some (Inr (- 1, s)))"

definition open_call :: "bool \<Rightarrow> u32 \<Rightarrow> Rawos \<Rightarrow> (u32 \<times> Rawos) res option" where
  "open_call g path_address s =
    obind (Some (string_at path_address (os s))) (\<lambda>path.
    obind (Some (fs_util_get_node_by_path path (os s))) (\<lambda>node.
    if node \<noteq> 0 then
      obind (Some (vfs_open node 0 (os s))) (\<lambda>o1.
      obind (process_add_fd_to_active_process g node (machine o1)) (\<lambda>(fd, m).
      Some (Inr (fd, with_machine (with_os s o1) m))))
    else Some (Inr (- 1, s))))"

definition print_call :: "u32 \<Rightarrow> Rawos \<Rightarrow> Rawos res" where
  "print_call str s = rbind (string_at str (os s)) (\<lambda>cs. Inr (message (text_at (os s)) ''%s'' [str] s))"

text \<open>A call that returns puts its answer into eax; one that does not never writes it.\<close>

fun answer :: "Interrupt_Handler_Args \<Rightarrow> u32 control \<times> Rawos \<Rightarrow> Interrupt_Handler_Args control \<times> Rawos" where
  "answer args (Return n, s) = (Return (args\<lparr>eax := n\<rparr>), s)"
| "answer args (Switch_context i p b, s) = (Switch_context i p b, s)"
| "answer args (User_mode p i, s) = (User_mode p i, s)"
| "answer args (Halt, s) = (Halt, s)"

fun no_answer :: "Interrupt_Handler_Args \<Rightarrow> unit control \<times> Rawos \<Rightarrow> Interrupt_Handler_Args control \<times> Rawos" where
  "no_answer args (Return n, s) = (Return args, s)"
| "no_answer args (Switch_context i p b, s) = (Switch_context i p b, s)"
| "no_answer args (User_mode p i, s) = (User_mode p i, s)"
| "no_answer args (Halt, s) = (Halt, s)"

text \<open>The answer of a call that always returns.\<close>

definition returning :: "Interrupt_Handler_Args \<Rightarrow> (u32 \<times> Rawos) res option \<Rightarrow> (Interrupt_Handler_Args control \<times> Rawos) res option" where
  "returning args r = obind r (\<lambda>(n, s). Some (Inr (Return (args\<lparr>eax := n\<rparr>), s)))"

definition syscall_handler :: "bool \<Rightarrow> Ambient \<Rightarrow> Interrupt_Handler_Args \<Rightarrow> Rawos \<Rightarrow>
    (Interrupt_Handler_Args control \<times> Rawos) res option" where
  "syscall_handler g env args s =
    (let a = eax args; b = ebx args; c = ecx args; d = edx args in
     if a = 0 then obind (Some (print_call b s)) (\<lambda>s. Some (Inr (Return args, s)))
     else if a = 1 then obind (Some (process_exit g b s)) (\<lambda>r. Some (Inr (no_answer args r)))
     else if a = 2 then obind (Some (screen_pos_cursor b c (screen (os s)))) (\<lambda>sc. Some (Inr (Return args, with_os s ((os s)\<lparr>screen := sc\<rparr>))))
     else if a = 3 then Some (Inr (Return args, with_os s ((os s)\<lparr>screen := screen_clear (screen (os s))\<rparr>)))
     else if a = 4 then obind (process_execve g env b s) (\<lambda>r. Some (Inr (answer args r)))
     else if a = 5 then returning args (process_fork g (now_eip env) (now_esp env) (now_ebp env) s)
     else if a = 6 then returning args (open_call g b s)
     else if a = 7 then
       returning args (on_open_file env b (\<lambda>node. vfs_read (kerb_address env) (key_events env) node 0 d c) s)
     else if a = 8 then returning args (on_open_file env b (\<lambda>node. vfs_write node 0 d c) s)
     else if a = 9 then
       returning args (on_open_file env b (\<lambda>node o1. rbind (vfs_close node o1) (\<lambda>o1. Inr (0, o1))) s)
     else Some (Inr (Return args, s)))"

end
