(* ===== verification/Kernel_Main.thy ===== *)
theory Kernel_Main
  imports Syscall Gdt Timer Keyboard Paging_Init
begin

text \<open>
  The kernel as a whole: \<open>main\<close> of src/src/kernel.c, which initialises every component and
  starts the first process, and the dispatch of an interrupt of the running system to the
  handler that its component has registered.

  The table of handlers is \<open>trap_handlers\<close> of the system; \<open>hw\<close> holds the interrupt
  descriptors and the bytes sent to the ports of the controllers.
\<close>

record System =
  rawos :: Rawos
  gdt :: Gdt_State
  hw :: "unit Interrupts"
  ticks :: u32

definition on_rawos :: "System \<Rightarrow> Rawos \<Rightarrow> System" where
  "on_rawos s r = s\<lparr>rawos := r\<rparr>"

lemma on_rawos_simps [simp]:
  "rawos (on_rawos s r) = r" "gdt (on_rawos s r) = gdt s" "hw (on_rawos s r) = hw s" "ticks (on_rawos s r) = ticks s"
  "on_rawos (on_rawos s r) r' = on_rawos s r'" "on_rawos s (rawos s) = s"
  by (simp_all add: on_rawos_def)

definition to_ports :: "port_log \<Rightarrow> System \<Rightarrow> System" where
  "to_ports bytes s = s\<lparr>hw := (hw s)\<lparr>pic_ports := pic_ports (hw s) @ bytes\<rparr>\<rparr>"

lemma to_ports_simps [simp]: "rawos (to_ports bs s) = rawos s" "ticks (to_ports bs s) = ticks s" "gdt (to_ports bs s) = gdt s"
  "pic_ports (hw (to_ports bs s)) = pic_ports (hw s) @ bs"
  by (simp_all add: to_ports_def)

section \<open>Interrupts of the running system\<close>

text \<open>
  What an interrupt takes from outside: what the handlers need, and for the keyboard the
  bytes of its status and data ports, for a page fault the register with the address.
\<close>

record Event =
  ambient :: Ambient
  key_status :: u8
  key_code_byte :: u8
  faulting_address :: u32

definition on_timer :: "Ambient \<Rightarrow> System \<Rightarrow> (unit control \<times> System) res" where
  "on_timer env s =
    (let s = s\<lparr>ticks := ticks s + 1\<rparr> in
     if ticks s mod 100 = 0
     then rbind (process_switch (now_eip env) (now_esp env) (now_ebp env) (rawos s)) (\<lambda>(r, k). Inr (r, on_rawos s k))
     else Inr (Return (), s))"

definition on_keyboard :: "u8 \<Rightarrow> u8 \<Rightarrow> Rawos \<Rightarrow> Rawos res" where
  "on_keyboard status scan_code s =
    rbind (keyboard_interrupt_handler status scan_code (keyboard (os s)) (receivers (os s))) (\<lambda>(complains, kb, rs).
    let s = (if complains
             then message (\<lambda>_. []) (''Error: Output buffer status is 0 after receiving the interrupt!'' @ newline) [] s else s) in
    Inr (with_os s ((os s)\<lparr>keyboard := kb, receivers := rs\<rparr>)))"

text \<open>The call of a handler; a page fault ends in a panic.\<close>

definition call_handler :: "bool \<Rightarrow> Event \<Rightarrow> trap \<Rightarrow> string \<Rightarrow> Interrupt_Handler_Args \<Rightarrow> System \<Rightarrow>
    (Interrupt_Handler_Args control \<times> System) res option" where
  "call_handler g ev h name args s =
    (case h of
       No_trap \<Rightarrow> Some (Inr (Return args, on_rawos s (message (\<lambda>_. []) (name @ ''%u'' @ newline) [int_no args] (rawos s))))
     | General_protection_fault_interrupt_handler \<Rightarrow>
         obind (Some (general_protection_fault_interrupt_handler g (rawos s))) (\<lambda>r.
         Some (Inr (map_prod id (on_rawos s) (no_answer args r))))
     | Page_fault_handler \<Rightarrow> Some (rbind (snd (page_fault_handler (err_code args) [])) (\<lambda>_. Inr (Return args, s)))
     | Timer_interrupt_handler \<Rightarrow>
         obind (Some (on_timer (ambient ev) s)) (\<lambda>(r, s).
         Some (Inr (fst (no_answer args (r, rawos s)), s)))
     | Keyboard_interrupt_handler \<Rightarrow>
         obind (Some (on_keyboard (key_status ev) (key_code_byte ev) (rawos s))) (\<lambda>r. Some (Inr (Return args, on_rawos s r)))
     | Syscall_handler \<Rightarrow>
         obind (syscall_handler g (ambient ev) args (rawos s)) (\<lambda>r. Some (Inr (map_prod id (on_rawos s) r))))"

definition handler_of :: "System \<Rightarrow> u32 \<Rightarrow> trap res" where
  "handler_of s n = (if unat n < length (trap_handlers (rawos s)) then Inr (trap_handlers (rawos s) ! unat n) else Inl Out_of_bounds)"

definition system_isr :: "bool \<Rightarrow> Event \<Rightarrow> Interrupt_Handler_Args \<Rightarrow> System \<Rightarrow> (Interrupt_Handler_Args control \<times> System) res option" where
  "system_isr g ev args s =
    obind (Some (handler_of s (int_no args))) (\<lambda>h.
    call_handler g ev h ''ISR Handler called for unhandled INT number: ISR'' args s)"

definition system_irq :: "bool \<Rightarrow> Event \<Rightarrow> Interrupt_Handler_Args \<Rightarrow> System \<Rightarrow> (Interrupt_Handler_Args control \<times> System) res option" where
  "system_irq g ev args s =
    (let s = (if ucast PIC2_VECTOR_OFFSET \<le> int_no args then to_ports [(PIC2, PIC_EOI)] s else s);
         s = to_ports [(PIC1, PIC_EOI)] s in
     obind (Some (handler_of s (int_no args))) (\<lambda>h.
     call_handler g ev h ''IRQ Handler called for unhandled INT number: IRQ'' args s))"

section \<open>kernel.c\<close>

definition logo :: string where
  "logo =
     ''       -----------     ------    ---      ---   --------   ------------  '' @ newline @
     ''       ***********    ********   ***  **  ***  **********  ************  '' @ newline @
     ''       ----    ---   ----------  ---  --  --- ----    ---- ----          '' @ newline @
     ''       *********    ****    **** ***  **  *** ***      *** ************  '' @ newline @
     ''       ---------    ------------ ---  --  --- ---      --- ------------  '' @ newline @
     ''       ****  ****   ************ ************ ****    ****        *****  '' @ newline @
     ''       ----   ----  ----    ----  ----------   ----------  ------------  '' @ newline @
     ''       ****    **** ****    ****   ********     ********   ************  '' @ newline"

definition print_logo :: "Rawos \<Rightarrow> Rawos" where
  "print_logo s = message (\<lambda>_. []) (newline @ newline @ ''Welcome to rawOS!'' @ newline) [] (message (\<lambda>_. []) logo [] s)"

text \<open>
  The listing of a folder.  \<open>frame\<close> gives the address of the array \<open>buffer\<close> in the stack
  frame of a call by its depth; \<open>fuel\<close> bounds the calls and rounds together, and the
  index begins anew when 2 to the 32 entries are listed.  In the messages the address 0 stands
  for the name of the entry.
\<close>

definition no_dirent :: Vfs_Dirent where
  "no_dirent = \<lparr>dirent_name = [], dirent_inode = 0\<rparr>"

fun read_folder :: "nat \<Rightarrow> Ambient \<Rightarrow> (nat \<Rightarrow> u32) \<Rightarrow> nat \<Rightarrow> u32 \<Rightarrow> u32 \<Rightarrow> Vfs_Dirent \<Rightarrow> Os \<Rightarrow> Os res" where
  "read_folder 0 env frame depth folder_node index dirent s = Inl Spins"
| "read_folder (Suc fuel) env frame depth folder_node index dirent s =
    rbind (vfs_readdir folder_node index dirent s) (\<lambda>(r, dirent).
    if r \<noteq> 0 then Inr s
    else
      rbind (vfs_lookup folder_node (dirent_name dirent) s) (\<lambda>node.
      rbind (kassert (node \<noteq> 0) ''Lookup of file returned null node!'') (\<lambda>_.
      rbind (if Vfs_Node.flags (node_at s node) AND VFS_DIRECTORY \<noteq> 0
             then read_folder fuel env frame (depth + 1) node 0 no_dirent
                    (os_message (\<lambda>_. dirent_name dirent) (''Found directory: %s'' @ newline) [0] s)
             else
               rbind (vfs_read (kerb_address env) (key_events env) node 0 9 (frame depth) s) (\<lambda>(n, s).
               rbind (put_byte (frame depth + n) 0 s) (\<lambda>s.
               rbind (string_at (frame depth) s) (\<lambda>txt.
               Inr (os_message (\<lambda>a. if a = 0 then dirent_name dirent else txt) (''Found file: %s (%s)'' @ newline) [0, 1] s)))))
        (\<lambda>s. read_folder fuel env frame depth folder_node (index + 1) dirent s))))"

text \<open>
  What the linker and the memory give to \<open>main\<close>: the addresses of the descriptor tables,
  of the interrupt stubs and of the stubs of the system calls, the bytes behind the bit
  map of frames, the answer of the heap if the table of stubs had to grow.
\<close>

record Linked =
  gdt_entries_address :: u32
  tss_address :: u32
  interrupt_stub :: "stub \<Rightarrow> u32"
  syscall_stub :: "u8 list \<Rightarrow> Syscall_Stub_Information"
  behind_frames :: "u8 list"
  grown_table :: "u32 \<Rightarrow> u32"

text \<open>The initialisations before those that need the heap.\<close>

definition setup_devices :: "Linked \<Rightarrow> System \<Rightarrow> System res" where
  "setup_devices l s =
    (let s = s\<lparr>gdt := gdt_init (gdt_entries_address l) (tss_address l)\<rparr>;
         r = rawos s;
         r = with_os r ((os r)\<lparr>screen := screen_clear (screen_init (screen (os r)))\<rparr>);
         s = to_ports timer_ports (on_rawos s (print_logo r)) in
     rbind (register_trap Timer_interrupt_handler (IRQ 0) (rawos s)) (\<lambda>r. Inr (on_rawos s r)))"

definition setup_memory :: "bool \<Rightarrow> Linked \<Rightarrow> Rawos \<Rightarrow> Rawos res option" where
  "setup_memory g l r =
    obind (Some (paging_init (behind_frames l) (ram (mach r)) (knl r))) (\<lambda>(m, k).
    obind (Some (register_trap Page_fault_handler 14 r)) (\<lambda>r.
    obind (kalloc_init g kernel_pager 1 m k) (\<lambda>(p, h, m, k).
    Some (Inr (with_machine r \<lparr>heap = h, ram = m, kern = k\<rparr>)))))"

definition setup_interrupts :: "Linked \<Rightarrow> System \<Rightarrow> System res" where
  "setup_interrupts l s =
    (let s = s\<lparr>hw := interrupt_init (interrupt_stub l) (hw s)\<rparr>;
         r = (rawos s)\<lparr>interrupts_enabled := True\<rparr>;
         r = with_os r ((os r)\<lparr>keyboard := keyboard_init\<rparr>) in
     rbind (register_trap Keyboard_interrupt_handler (IRQ 1) r) (\<lambda>r. Inr (on_rawos s r)))"

definition setup_system :: "bool \<Rightarrow> Linked \<Rightarrow> Rawos \<Rightarrow> Rawos res option" where
  "setup_system g l r =
    obind (syscall_init g (grown_table l) (syscall_stub l) r) (\<lambda>r.
    obind (vfs_init g (os r)) (\<lambda>o1.
    let r = message (\<lambda>_. []) (''Kernel initialization completed.'' @ newline) [] (with_os r o1) in
    Some (Inr (message (\<lambda>_. []) (''Starting processes and switching to user-mode...'' @ newline) [] r))))"

definition kernel_setup :: "bool \<Rightarrow> Linked \<Rightarrow> System \<Rightarrow> System res option" where
  "kernel_setup g l s =
    obind (Some (setup_devices l s)) (\<lambda>s.
    obind (setup_memory g l (rawos s)) (\<lambda>r.
    obind (Some (setup_interrupts l (on_rawos s r))) (\<lambda>s.
    obind (setup_system g l (rawos s)) (\<lambda>r.
    Some (Inr (on_rawos s r))))))"

definition main :: "bool \<Rightarrow> Linked \<Rightarrow> Ambient \<Rightarrow> System \<Rightarrow> (unit control \<times> System) res option" where
  "main g l env s =
    obind (kernel_setup g l s) (\<lambda>s.
    obind (process_init g env (rawos s)) (\<lambda>(r, k). Some (Inr (r, on_rawos s k))))"

end
