(* ===== verification/Vfs_Boot.thy ===== *)
theory Vfs_Boot
  imports Vfs_Correct
begin

text \<open>
  The file system of a started kernel: what \<open>vfs_init\<close> builds, and that a file of the RAM
  disk is found under its path.
\<close>

section \<open>New blocks\<close>

lemma new_blocksD:
  assumes "new_blocks ps bs bs'"
  shows "(t, q) \<in> used_blocks heap_start bs \<Longrightarrow> \<exists>t'. t \<le> t' \<and> (t', q) \<in> used_blocks heap_start bs'"
    "(n, p) \<in> set ps \<Longrightarrow> p \<notin> snd ` used_blocks heap_start bs"
    "(n, p) \<in> set ps \<Longrightarrow> \<exists>n'. n \<le> n' \<and> (n', p) \<in> used_blocks heap_start bs'"
  using assms unfolding new_blocks_def by blast+

lemma new_blocks_one:
  assumes "\<forall>(t, r) \<in> used_blocks heap_start bs. \<exists>t'. t \<le> t' \<and> (t', r) \<in> used_blocks heap_start bs'"
    "q \<notin> blocks_at bs" "n \<le> n'" "(n', q) \<in> used_blocks heap_start bs'"
  shows "new_blocks [(n, q)] bs bs'"
  using assms by (force simp: new_blocks_def)

lemma new_blocks_trans:
  assumes "new_blocks ps bs bs1" "new_blocks ps' bs1 bs2"
  shows "new_blocks (ps @ ps') bs bs2"
proof -
  note 1 = new_blocksD [OF assms(1)] and 2 = new_blocksD [OF assms(2)]
  have used: "\<exists>t'. t \<le> t' \<and> (t', q) \<in> used_blocks heap_start bs2" if "(t, q) \<in> used_blocks heap_start bs" for t q
    using 1(1) [OF that] 2(1) order_trans by blast
  have old: "p \<notin> snd ` used_blocks heap_start bs" if "(n, p) \<in> set ps'" for n p
    using 2(2) [OF that] 1(1) by force
  have still: "\<exists>n'. n \<le> n' \<and> (n', p) \<in> used_blocks heap_start bs2" if "(n, p) \<in> set ps" for n p
    using 1(3) [OF that] 2(1) order_trans by blast
  have new: "p \<notin> snd ` used_blocks heap_start bs \<and> (\<exists>n'. n \<le> n' \<and> (n', p) \<in> used_blocks heap_start bs2)"
    if "(n, p) \<in> set (ps @ ps')" for n p
    using that old [of n p] still [of n p] 1(2) [of n p] 2(3) [of n p] unfolding set_append Un_iff by blast
  show ?thesis unfolding new_blocks_def
  proof (intro conjI ballI)
    fix x assume "x \<in> used_blocks heap_start bs"
    then show "case x of (t, q) \<Rightarrow> \<exists>t'. t \<le> t' \<and> (t', q) \<in> used_blocks heap_start bs2" using used by (cases x) simp
  next
    fix x assume "x \<in> set (ps @ ps')"
    then show "case x of (n, p) \<Rightarrow> p \<notin> snd ` used_blocks heap_start bs \<and> (\<exists>n'. n \<le> n' \<and> (n', p) \<in> used_blocks heap_start bs2)"
      using new [of "fst x" "snd x"] by (simp add: case_prod_unfold)
  qed
qed

lemma new_blocks_distinct:
  assumes "new_blocks ps bs bs1" "new_blocks ps' bs1 bs2" "(n, p) \<in> set ps" "(n', p') \<in> set ps'"
  shows "p \<noteq> p'"
  using new_blocksD(3) [OF assms(1,3)] new_blocksD(2) [OF assms(2,4)] by force

text \<open>An address inside of a block in use is not that of a new block.\<close>

lemma new_block_apart:
  assumes "machine_ok bs' S c d j s" "new_blocks ps bs bs'" "(n, p) \<in> set ps" "(t, q) \<in> used_blocks heap_start bs" "i < t \<or> i = 0"
  shows "adr (q + i) \<noteq> adr p"
proof -
  obtain t' n' where 1: "t \<le> t'" "(t', q) \<in> used_blocks heap_start bs'" "(n', p) \<in> used_blocks heap_start bs'"
    using new_blocksD(1) [OF assms(2,4)] new_blocksD(3) [OF assms(2,3)] by blast
  have "p \<noteq> q" using new_blocksD(2) [OF assms(2,3)] assms(4) by force
  then have "q + t' + 20 \<le> p \<or> p + n' + 20 \<le> q" using used_disjoint [OF 1(2,3)] by metis
  then have "q + i \<noteq> p" using 1(1) assms(5) by linarith
  moreover have e: "x + u \<le> 1073741824" if "(u, x) \<in> used_blocks heap_start bs'" for x u
  proof -
    have "x + u + 8 \<le> heap_start + ext bs'" using used_blocks_range [OF that] by simp
    moreover have "heap_end bs' \<le> 262144" using assms(1) by (simp add: machine_ok_def space_ready_def kernel_ready_def)
    moreover have "4096 dvd ext bs'" using assms(1) by (simp add: machine_ok_def heap_ok_def region_def)
    ultimately show ?thesis by (auto elim!: dvdE)
  qed
  have "q + i < 4294967296" "p < 4294967296" using e [OF 1(2)] e [OF 1(3)] 1(1) assms(5) by linarith+
  ultimately show ?thesis by (simp add: adr_inject)
qed

lemma used_nonzero:
  assumes "machine_ok bs S c d j s" "(t, q) \<in> used_blocks heap_start bs"
  shows "adr q \<noteq> 0"
proof (rule heap_range(4) [OF assms(1)])
  show "q \<in> blocks_at bs" using assms(2) by force
qed

section \<open>The devices\<close>

definition device_directory :: Vfs_Node where
  "device_directory = directory_node (chars_of ''dev'') Dev_readdir Dev_lookup"

lemma sizeof_node: "sizeof_Vfs_Node = adr 292"
  by (simp add: sizeof_Vfs_Node_def adr_def)

text \<open>The allocation of a node.\<close>

lemma node_alloc:
  assumes "machine_ok bs S (c + 1) d (Suc j) (machine s)"
  shows "\<exists>q s' bs'. os_alloc g sizeof_Vfs_Node s = Some (Inr (adr q, s')) \<and> machine_ok bs' S c d j (machine s') \<and>
    new_blocks [(292, q)] bs bs' \<and> outside heap_start 1073741824 (ram (machine s)) (ram (machine s')) \<and>
    fs s' = fs s \<and> s' = s\<lparr>machine := machine s'\<rparr>"
proof -
  have sz: "(292 :: nat) + 20 \<le> 1 * 4096" "(292 :: nat) < 4294967296" by simp_all
  obtain q n' s' bs' where 1: "os_alloc g (adr 292) s = Some (Inr (adr q, s'))" "machine_ok bs' S c d j (machine s')"
    "q \<notin> blocks_at bs" "292 \<le> n'" "(n', q) \<in> used_blocks heap_start bs'"
    "\<forall>(t, r) \<in> used_blocks heap_start bs. \<exists>t'. t \<le> t' \<and> (t', r) \<in> used_blocks heap_start bs'"
    "outside heap_start 1073741824 (ram (machine s)) (ram (machine s'))" "s' = s\<lparr>machine := machine s'\<rparr>"
    using os_alloc_plain [OF assms sz, of g] by (elim exE conjE) (rule that; assumption)
  have "fs s' = fs s" by (subst 1(8)) simp
  then show ?thesis using 1(1,2,7,8) new_blocks_one [OF 1(6,3,4,5)] unfolding sizeof_node by blast
qed

lemma dev_init_ok:
  assumes "machine_ok bs S (c + 3) d (j + 3) (machine s)"
  shows "\<exists>x y z s' bs'. dev_init g s = Some (Inr (adr x, s')) \<and> machine_ok bs' S c d j (machine s') \<and>
    new_blocks [(292, x), (292, y), (292, z)] bs bs' \<and> adr x \<noteq> adr y \<and> adr x \<noteq> adr z \<and> adr y \<noteq> adr z \<and>
    adr x \<noteq> 0 \<and> adr y \<noteq> 0 \<and> adr z \<noteq> 0 \<and>
    outside heap_start 1073741824 (ram (machine s)) (ram (machine s')) \<and>
    fs s' = (fs s)\<lparr>nodes := (nodes (fs s))(adr x := device_directory, adr y := device_node SCREEN_FILE_NAME No_read Dev_write,
        adr z := device_node KEYBOARD_FILE_NAME Dev_read No_write),
      dev_root_node := adr x, screen_node := adr y, keyboard_node := adr z\<rparr>"
proof -
  have m: "machine_ok bs S ((c + 2) + 1) d (Suc (j + 2)) (machine s)" using assms by (simp add: numeral_3_eq_3)
  obtain x s1 bs1 where 1: "os_alloc g sizeof_Vfs_Node s = Some (Inr (adr x, s1))" "machine_ok bs1 S (c + 2) d (j + 2) (machine s1)"
    "new_blocks [(292, x)] bs bs1" "outside heap_start 1073741824 (ram (machine s)) (ram (machine s1))" "fs s1 = fs s"
    using node_alloc [OF m, of g] by (elim exE conjE) (rule that; assumption)
  let ?s1 = "put_node (adr x) device_directory (on_fs (\<lambda>f. f\<lparr>dev_root_node := adr x\<rparr>) s1)"
  have m1: "machine_ok bs1 S ((c + 1) + 1) d (Suc (j + 1)) (machine ?s1)"
    using 1(2) by (simp add: numeral_2_eq_2 put_node_def on_fs_def)
  obtain y s2 bs2 where 2: "os_alloc g sizeof_Vfs_Node ?s1 = Some (Inr (adr y, s2))" "machine_ok bs2 S (c + 1) d (j + 1) (machine s2)"
    "new_blocks [(292, y)] bs1 bs2" "outside heap_start 1073741824 (ram (machine ?s1)) (ram (machine s2))" "fs s2 = fs ?s1"
    using node_alloc [OF m1, of g] by (elim exE conjE) (rule that; assumption)
  let ?s2 = "put_node (adr y) (device_node SCREEN_FILE_NAME No_read Dev_write) (on_fs (\<lambda>f. f\<lparr>screen_node := adr y\<rparr>) s2)"
  have m2: "machine_ok bs2 S (c + 1) d (Suc j) (machine ?s2)" using 2(2) by (simp add: put_node_def on_fs_def)
  obtain z s3 bs3 where 3: "os_alloc g sizeof_Vfs_Node ?s2 = Some (Inr (adr z, s3))" "machine_ok bs3 S c d j (machine s3)"
    "new_blocks [(292, z)] bs2 bs3" "outside heap_start 1073741824 (ram (machine ?s2)) (ram (machine s3))" "fs s3 = fs ?s2"
    using node_alloc [OF m2, of g] by (elim exE conjE) (rule that; assumption)
  let ?s3 = "put_node (adr z) (device_node KEYBOARD_FILE_NAME Dev_read No_write) (on_fs (\<lambda>f. f\<lparr>keyboard_node := adr z\<rparr>) s3)"
  obtain t1 t2 t3 where u: "(t1, x) \<in> used_blocks heap_start bs1" "(t2, y) \<in> used_blocks heap_start bs2" "(t3, z) \<in> used_blocks heap_start bs3"
    using new_blocksD(3) [OF 1(3)] new_blocksD(3) [OF 2(3)] new_blocksD(3) [OF 3(3)] by (meson list.set_intros(1))
  obtain t4 where u2: "(t4, x) \<in> used_blocks heap_start bs2" using new_blocksD(1) [OF 2(3) u(1)] by blast
  have dist: "adr x \<noteq> adr y" "adr x \<noteq> adr z" "adr y \<noteq> adr z"
    using new_block_apart [OF 2(2,3) _ u(1), of 292 y 0] new_block_apart [OF 3(2,3) _ u2, of 292 z 0]
      new_block_apart [OF 3(2,3) _ u(2), of 292 z 0]
    by simp_all
  have nz: "adr x \<noteq> 0" "adr y \<noteq> 0" "adr z \<noteq> 0"
    using used_nonzero [OF 1(2) u(1)] used_nonzero [OF 2(2) u(2)] used_nonzero [OF 3(2) u(3)] .
  have "dev_init g s = Some (Inr (adr x, ?s3))"
    using 1(1) 2(1) 3(1) 3(5) 2(5)
    by (simp add: dev_init_def Let_def device_directory_def directory_node_def) (simp add: put_node_def on_fs_def)
  moreover have "machine_ok bs3 S c d j (machine ?s3)" using 3(2) by (simp add: put_node_def on_fs_def)
  moreover have "new_blocks [(292, x), (292, y), (292, z)] bs bs3"
    using new_blocks_trans [OF new_blocks_trans [OF 1(3) 2(3)] 3(3)] by simp
  moreover have "outside heap_start 1073741824 (ram (machine s)) (ram (machine ?s3))"
    using 1(4) 2(4) 3(4) by (auto simp: outside_def put_node_def on_fs_def)
  moreover have "fs ?s3 = (fs s)\<lparr>nodes := (nodes (fs s))(adr x := device_directory, adr y := device_node SCREEN_FILE_NAME No_read Dev_write,
        adr z := device_node KEYBOARD_FILE_NAME Dev_read No_write),
      dev_root_node := adr x, screen_node := adr y, keyboard_node := adr z\<rparr>"
    by (simp add: put_node_def on_fs_def 1(5) 2(5) 3(5))
  ultimately show ?thesis using dist nz by - (intro exI conjI; assumption)
qed

section \<open>The whole file system\<close>

text \<open>The directories and the devices of a started file system.\<close>

definition vfs_tree :: "Os \<Rightarrow> bool" where
  "vfs_tree s \<longleftrightarrow> vfs_root (fs s) \<noteq> 0 \<and> node_at s (vfs_root (fs s)) = directory_node [] Vfs_root_readdir Vfs_root_lookup \<and>
     root_nodes (fs s) = [initrd_root_node (fs s), dev_root_node (fs s)] \<and>
     initrd_root_node (fs s) \<noteq> 0 \<and> node_at s (initrd_root_node (fs s)) = directory_node (chars_of ''initrd'') Initrd_readdir Initrd_lookup \<and>
     dev_root_node (fs s) \<noteq> 0 \<and> node_at s (dev_root_node (fs s)) = device_directory \<and>
     screen_node (fs s) \<noteq> 0 \<and> node_at s (screen_node (fs s)) = device_node SCREEN_FILE_NAME No_read Dev_write \<and>
     keyboard_node (fs s) \<noteq> 0 \<and> node_at s (keyboard_node (fs s)) = device_node KEYBOARD_FILE_NAME Dev_read No_write"

lemma serves_cong:
  assumes "serves A junk es b s" "loaded (ram (machine s')) A (image_of junk es)" "num_files (fs s') = num_files (fs s)"
    "initrd_files_nodes (fs s') = initrd_files_nodes (fs s)" "initrd_files_data (fs s') = initrd_files_data (fs s)"
    "\<And>k. k < length es \<Longrightarrow> node_at s' (adr (b + 292 * k)) = node_at s (adr (b + 292 * k))"
  shows "serves A junk es b s'"
  using assms by (simp add: serves_def)

lemma vfs_init_ok:
  assumes m: "machine_ok bs S (c + p2 + p1 + 5) d (j + 7) (machine s)"
    and p: "292 * length es + 20 \<le> p1 * 4096" "4 * length es + 20 \<le> p2 * 4096"
    and l: "loaded (ram (machine s)) A (image_of junk es)" "A + length (image_of junk es) \<le> heap_start"
    and es: "entries_ok es" and A: "initrd_data (fs s) = adr A" and r: "length (root_nodes (fs s)) = 2"
  shows "\<exists>s' b bs'. vfs_init g s = Some (Inr s') \<and> machine_ok bs' S c d j (machine s') \<and> serves A junk es b s' \<and> vfs_tree s'"
proof -
  have m0: "machine_ok bs S ((c + p2 + p1 + 4) + 1) d (Suc (j + 6)) (machine s)" using m by (simp add: ac_simps)
  obtain p s1 bs1 where 1: "os_alloc g sizeof_Vfs_Node s = Some (Inr (adr p, s1))" "machine_ok bs1 S (c + p2 + p1 + 4) d (j + 6) (machine s1)"
    "new_blocks [(292, p)] bs bs1" "outside heap_start 1073741824 (ram (machine s)) (ram (machine s1))" "fs s1 = fs s"
    using node_alloc [OF m0, of g] by (elim exE conjE) (rule that; assumption)
  let ?root = "directory_node [] Vfs_root_readdir Vfs_root_lookup"
  let ?s1 = "put_node (adr p) ?root (on_fs (\<lambda>f. f\<lparr>vfs_root := adr p\<rparr>) s1)"
  have m1: "machine_ok bs1 S ((c + 3) + 1 + p2 + p1) d ((j + 3) + 3) (machine ?s1)" using 1(2) by (simp add: put_node_def on_fs_def ac_simps)
  have p3: "292 + 20 \<le> 1 * (4096 :: nat)" by simp
  have l1: "loaded (ram (machine ?s1)) A (image_of junk es)" using loaded_outside [OF l(1) 1(4) l(2)] by (simp add: put_node_def on_fs_def)
  have A1: "initrd_data (fs ?s1) = adr A" using A 1(5) by (simp add: put_node_def on_fs_def)
  obtain q s2 b bs2 where 2: "initrd_init g ?s1 = Some (Inr (adr q, s2))" "machine_ok bs2 S (c + 3) d (j + 3) (machine s2)"
    "serves A junk es b s2" "initrd_root_node (fs s2) = adr q"
    "node_at s2 (adr q) = directory_node (chars_of ''initrd'') Initrd_readdir Initrd_lookup" "adr q \<noteq> 0"
    "new_blocks [(292 * length es, b), (292, q)] bs1 bs2" "q \<noteq> b"
    "\<forall>x \<in> snd ` used_blocks heap_start bs1. node_at s2 (adr x) = node_at ?s1 (adr x)"
    "vfs_root (fs s2) = vfs_root (fs ?s1)" "root_nodes (fs s2) = root_nodes (fs ?s1)"
    using initrd_init_ok [OF m1 p p3 l1 l(2) es A1, of g] by (elim exE conjE) (rule that; assumption)
  let ?s2 = "on_fs (\<lambda>f. f\<lparr>root_nodes := (root_nodes f)[0 := adr q]\<rparr>) s2"
  have m2: "machine_ok bs2 S (c + 3) d (j + 3) (machine ?s2)" using 2(2) by (simp add: on_fs_def)
  obtain x y z s3 bs3 where 3: "dev_init g ?s2 = Some (Inr (adr x, s3))" "machine_ok bs3 S c d j (machine s3)"
    "new_blocks [(292, x), (292, y), (292, z)] bs2 bs3" "adr x \<noteq> adr y" "adr x \<noteq> adr z" "adr y \<noteq> adr z"
    "adr x \<noteq> 0" "adr y \<noteq> 0" "adr z \<noteq> 0" "outside heap_start 1073741824 (ram (machine ?s2)) (ram (machine s3))"
    "fs s3 = (fs ?s2)\<lparr>nodes := (nodes (fs ?s2))(adr x := device_directory, adr y := device_node SCREEN_FILE_NAME No_read Dev_write,
        adr z := device_node KEYBOARD_FILE_NAME Dev_read No_write),
      dev_root_node := adr x, screen_node := adr y, keyboard_node := adr z\<rparr>"
    using dev_init_ok [OF m2, of g] by (elim exE conjE) (rule that; assumption)
  let ?s3 = "on_fs (\<lambda>f. f\<lparr>root_nodes := (root_nodes f)[1 := adr x]\<rparr>) s3"
  obtain tp where tp: "(tp, p) \<in> used_blocks heap_start bs1" using new_blocksD(3) [OF 1(3)] by (meson list.set_intros(1))
  obtain tp2 where tp2: "(tp2, p) \<in> used_blocks heap_start bs2" using new_blocksD(1) [OF 2(7) tp] by blast
  obtain tb where tb: "292 * length es \<le> tb" "(tb, b) \<in> used_blocks heap_start bs2"
    using new_blocksD(3) [OF 2(7), of "292 * length es" b] by auto
  obtain tq where tq: "(tq, q) \<in> used_blocks heap_start bs2" using new_blocksD(3) [OF 2(7), of 292 q] by auto
  have new: "\<exists>n. (n, w) \<in> set [(292 :: nat, x), (292, y), (292, z)]" if "w \<in> {x, y, z}" for w using that by auto
  have apart: "adr (u + i) \<noteq> adr w" if "(t, u) \<in> used_blocks heap_start bs2" "i < t \<or> i = 0" "w \<in> {x, y, z}" for t u i w
    using new [OF that(3)] new_block_apart [OF 3(2,3) _ that(1,2)] by blast
  have old: "node_at s3 (adr (u + i)) = node_at s2 (adr (u + i))" if "(t, u) \<in> used_blocks heap_start bs2" "i < t \<or> i = 0" for t u i
    using apart [OF that, of x] apart [OF that, of y] apart [OF that, of z] by (simp add: node_at_def 3(11) on_fs_def)
  have run: "vfs_init g s = Some (Inr ?s3)"
    using 1(1) 2(1) 3(1) by (simp add: vfs_init_def Let_def directory_node_def)
  have fields: "fs ?s3 = (fs s3)\<lparr>root_nodes := [adr q, adr x]\<rparr>"
  proof -
    have "root_nodes (fs s2) = root_nodes (fs s)" using 2(11) 1(5) by (simp add: put_node_def on_fs_def)
    then obtain r0 r1 where "root_nodes (fs s2) = [r0, r1]" using r by (auto simp: length_Suc_conv numeral_2_eq_2)
    then show ?thesis by (simp add: on_fs_def 3(11))
  qed
  have nodes: "node_at ?s3 = node_at s3" by (simp add: node_at_def fun_eq_iff on_fs_def)
  have root: "vfs_root (fs s2) = adr p" "node_at s2 (adr p) = ?root"
    using 2(9,10) tp by (force simp: put_node_def on_fs_def node_at_def)+
  have "adr p \<noteq> 0" by (rule used_nonzero [OF 1(2) tp])
  then have tree: "vfs_tree ?s3"
    unfolding vfs_tree_def nodes fields
    using old [OF tp2, of 0] old [OF tq, of 0] root 2(4-6) 3(4-9)
    by (simp add: 3(11) on_fs_def) (simp add: node_at_def 3(11) on_fs_def)
  have sv2: "loaded (ram (machine s2)) A (image_of junk es)" "length es < 4294967296" using 2(3) servesD(5) [OF 2(3)] by (simp_all add: serves_def)
  have "serves A junk es b ?s3"
  proof (rule serves_cong [OF 2(3)])
    show "loaded (ram (machine ?s3)) A (image_of junk es)" using loaded_outside [OF sv2(1) _ l(2)] 3(10) by (simp add: on_fs_def)
    show "node_at ?s3 (adr (b + 292 * k)) = node_at s2 (adr (b + 292 * k))" if "k < length es" for k
      unfolding nodes by (rule old [OF tb(2)]) (use that tb(1) in linarith)
  qed (simp_all add: fields 3(11) on_fs_def)
  moreover have "machine_ok bs3 S c d j (machine ?s3)" using 3(2) by (simp add: on_fs_def)
  ultimately show ?thesis using run tree by blast
qed

end
