(* ===== verification/Process_Files_Correct.thy ===== *)
theory Process_Files_Correct
  imports Process_Files Process_Exit Vfs_Correct
begin

text \<open>
  The file descriptors of a process: a new descriptor names the node it was made for,
  whether or not its table had to grow, and the other descriptors keep their nodes.
\<close>

lemma fd_keys: "hash_keys file_descriptor_compare file_descriptor_hash"
  by unfold_locales (auto simp: file_descriptor_compare_def)

lemma fd_table_fields [simp]:
  "capacity (fd_table k m) = fd_capacity m" "num_elements (fd_table k m) = fd_num_elements m"
  "key_size (fd_table k m) = 4" "value_size (fd_table k m) = 4" "key_compare_func (fd_table k m) = file_descriptor_compare"
  "key_hash_func (fd_table k m) = file_descriptor_hash" "Hash_Map.data (fd_table k m) = fd_blocks k (fd_data m)"
  by (simp_all add: fd_table_def)

text \<open>The table of the process at \<open>p\<close>.\<close>

definition table_of :: "Kernel \<Rightarrow> u32 \<Rightarrow> (s32, u32) Hash_Map" where
  "table_of k p = fd_table k (file_descriptors (processes k p))"

definition fd_shape :: "(s32, u32) Hash_Map \<Rightarrow> bool" where
  "fd_shape hm \<longleftrightarrow> key_size hm = 4 \<and> value_size hm = 4 \<and> key_compare_func hm = file_descriptor_compare \<and>
     key_hash_func hm = file_descriptor_hash"

lemma table_of_shape: "fd_shape (table_of k p)"
  by (simp add: fd_shape_def table_of_def)

lemma table_of_store: "fd_shape hm \<Longrightarrow> table_of (store_fd_table p block hm k) p = hm"
  by (simp add: table_of_def store_fd_table_def fd_table_def fd_shape_def set_process_def)

lemma records_only_store: "records_only k (store_fd_table p block hm k)"
  by (simp add: records_only_def store_fd_table_def set_process_def)

lemma store_fields [simp]:
  "active_process (store_fd_table p block hm k) = active_process k"
  "next_process (processes (store_fd_table p block hm k) q) = next_process (processes k q)"
  "page_directory (processes (store_fd_table p block hm k) q) = page_directory (processes k q)"
  "fd_next (processes (store_fd_table p block hm k) q) = fd_next (processes k q)"
  by (simp_all add: store_fd_table_def set_process_def)

lemma ring_links:
  "active_process k' = active_process k \<Longrightarrow> (\<And>q. next_process (processes k' q) = next_process (processes k q)) \<Longrightarrow>
   ring k' ps \<longleftrightarrow> ring k ps"
  using path_cong' [of ps k' k] by (simp add: ring_def)

lemma get_node_of_fd:
  assumes "active_process (kern m) \<noteq> 0" "hm_ok (table_of (kern m) (active_process (kern m)))"
  shows "process_get_node_of_fd_of_active_process garbage fd m =
    Some (Inr (case hm_abs (table_of (kern m) (active_process (kern m))) fd of Some node \<Rightarrow> node | None \<Rightarrow> 0))"
proof -
  have "hash_map_get (table_of (kern m) (active_process (kern m))) fd garbage =
      Some (Inr (case hm_abs (table_of (kern m) (active_process (kern m))) fd of Some v \<Rightarrow> (v, 0) | None \<Rightarrow> (garbage, - 1)))"
    by (rule get_correct [OF assms(2)])
  then show ?thesis
    using assms(1) by (simp add: process_get_node_of_fd_of_active_process_def Let_def table_of_def split: option.split)
qed

text \<open>A put keeps the table well-formed, in place or in a new block of the heap.\<close>

lemma fd_put_ok:
  assumes t: "hm_ok (table_of (kern m) p)" "hm_room (table_of (kern m) p)"
    and m: "machine_ok bs S (c + n) d (Suc (Suc j)) m" "24 * unat (fd_capacity (file_descriptors (processes (kern m) p))) + 20 \<le> n * 4096"
    and q: "fd_data (file_descriptors (processes (kern m) p)) = adr q" "q \<in> blocks_at bs" "q \<noteq> 5308428" "adr q \<notin> fst ` S"
    and ring: "ring (kern m) ps"
  shows "\<exists>m'. fd_put g p fd node m = Some (Inr (0, m')) \<and> hm_ok (table_of (kern m') p) \<and>
    (\<forall>k. hm_abs (table_of (kern m') p) k = (if fd = k then Some node else hm_abs (table_of (kern m) p) k)) \<and>
    active_process (kern m') = active_process (kern m) \<and> fd_next (processes (kern m') p) = fd_next (processes (kern m) p)"
proof -
  let ?k = "kern m" and ?hm = "table_of (kern m) p"
  let ?fds = "file_descriptors (processes (kern m) p)"
  have inv: "hm_inv ?hm" using t(1) by (simp add: hm_ok_def)
  obtain hm1 where 1: "put_loop ?hm fd node (key_hash_func ?hm fd mod capacity ?hm) = Some (Inr hm1)" "put_post ?hm fd node hm1"
    using put_loop_post [OF inv hm_ok_free [OF t(1)]] by blast
  have one: "hm_inv hm1" "same_shape ?hm hm1" and abs1: "hm_abs hm1 k = (if fd = k then Some node else hm_abs ?hm k)" for k
    using 1(2) by (simp_all add: put_post_def table_of_def file_descriptor_compare_def)
  have shape1: "fd_shape hm1" "capacity hm1 = fd_capacity ?fds" using one(2) by (simp_all add: same_shape_def fd_shape_def table_of_def)
  have room1: "hm_room hm1" using t(2) one(2) by (simp add: hm_room_def same_shape_def)
  let ?k1 = "store_fd_table p (fd_data ?fds) hm1 ?k"
  let ?m1 = "m\<lparr>kern := ?k1\<rparr>"
  have hm: "fd_table ?k ?fds = ?hm" by (simp add: table_of_def)
  have ring1: "ring ?k1 ps" by (rule iffD2 [OF ring_links ring]) simp_all
  have m1: "machine_ok bs S (c + n) d (Suc (Suc j)) ?m1" by (rule machine_ok_records [OF m(1) records_only_store ring1])
  have putl: "put_loop ?hm fd node (file_descriptor_hash fd mod fd_capacity ?fds) = Some (Inr hm1)"
  proof -
    have "key_hash_func ?hm fd mod capacity ?hm = file_descriptor_hash fd mod fd_capacity ?fds" by (simp add: table_of_def)
    then show ?thesis using 1(1) by (simp only:)
  qed
  show ?thesis
  proof (cases "push_bit 1 (num_elements hm1) > capacity hm1")
    case False
    have c: "unat (capacity hm1) * 2 < 4294967296" using hm_room_cap [OF room1] by (simp add: mult.commute)
    have "unat (num_elements hm1) \<le> unat (capacity hm1)"
      using hm_inv_num [OF one(1)] used_slots_le [of "Hash_Map.data hm1"] hm_inv_dims(1) [OF one(1)] by simp
    then have "unat (push_bit 1 (num_elements hm1)) = 2 * unat (num_elements hm1)" using c by (intro push_bit_1) linarith
    then have "hm_ok hm1"
      using False one(1) hm_inv_num [OF one(1)] hm_inv_dims(1) [OF one(1)] by (simp add: hm_ok_def word_less_nat_alt)
    moreover have "fd_put g p fd node m = Some (Inr (0, ?m1))" using putl False by (simp add: fd_put_def Let_def hm)
    ultimately show ?thesis using abs1 by (intro exI [of _ ?m1]) (simp add: table_of_store [OF shape1(1)])
  next
    case True
    have lim: "2 * unat (capacity hm1) * 12 < 4294967296" using room1 shape1(1) by (simp add: hm_room_def fd_shape_def)
    have "push_bit 1 (capacity hm1) * element_size 4 4 = adr (24 * unat (capacity hm1))"
      by (intro word_eq_unatI) (use lim in \<open>simp add: element_size_def push_bit_eq_mult word_nat\<close>)
    then have bytes: "capacity hm1 * 2 * element_size 4 4 = adr (24 * unat (capacity hm1))" by (simp add: push_bit_eq_mult)
    have al: "alignment_ok 0" by (simp add: alignment_ok_def)
    have sz: "24 * unat (capacity hm1) + 0 + 20 \<le> n * 4096" "24 * unat (capacity hm1) < 4294967296"
      using m(2) lim shape1(2) by simp_all
    obtain r m2 bs2 where 2: "m_alloc_aligned g (adr (24 * unat (capacity hm1))) (adr 0) ?m1 = Some (Inr (adr r, m2))"
      "machine_ok bs2 S c d (Suc j) m2" "r \<notin> blocks_at bs" "blocks_at bs2 = insert r (blocks_at bs)" "grown (kern ?m1) (kern m2)"
      using machine_alloc [OF m1 al sz, of g] by auto
    have r: "adr r \<noteq> 0" "r \<in> blocks_at bs2" using heap_range(4) [OF 2(2), of r] 2(4) by auto
    obtain hm2 where 3: "hash_map_grow (\<lambda>n. adr r) (hash_map_put (\<lambda>n. adr r) 1) hm1 = Some (Inr (hm2, 0))"
      "hm_ok hm2" "key_size hm2 = key_size hm1" "value_size hm2 = value_size hm1"
      "key_compare_func hm2 = key_compare_func hm1" "key_hash_func hm2 = key_hash_func hm1" "\<And>k. hm_abs hm2 k = hm_abs hm1 k"
      using grow_correct [where ka = "\<lambda>n. adr r", OF put_works_put [where ka = "\<lambda>n. adr r" and d = 0] one(1) room1 r(1)] by auto
    have shape2: "fd_shape hm2" using shape1(1) 3(3-6) by (simp add: fd_shape_def)
    have g: "processes (kern m2) = processes ?k1" "active_process (kern m2) = active_process ?k1" using 2(5) by (simp_all add: grown_def)
    let ?k3 = "store_fd_table p (adr r) hm2 (kern m2)"
    have ring2: "ring (kern m2) ps" by (rule iffD2 [OF ring_links ring1]) (simp_all add: g)
    have ring3: "ring ?k3 ps" by (rule iffD2 [OF ring_links ring2]) simp_all
    have m3: "machine_ok bs2 S c d (Suc j) (m2\<lparr>kern := ?k3\<rparr>)"
      by (rule machine_ok_records [OF 2(2) records_only_store ring3])
    have qb: "q \<in> blocks_at bs2" using q(2) 2(4) by simp
    obtain m4 where 4: "m_free g (adr q) (m2\<lparr>kern := ?k3\<rparr>) = Inr m4" "kern m4 = ?k3"
      using machine_free [OF m3 qb q(3,4), of g] by auto
    have "fd_put g p fd node m = Some (Inr (0, m4))"
      using putl True 2(1) 3(1) 4(1) by (simp add: fd_put_def Let_def hm bytes m_alloc_unaligned q(1))
    then show ?thesis using 3(2,7) abs1 4(2) g by (intro exI [of _ m4]) (simp add: table_of_store [OF shape2])
  qed
qed

text \<open>
  A node added to the active process gets the next descriptor, and
  from then on this descriptor names the node while every other descriptor names the
  node it named before; when the table is half full it grows into a new block of the
  heap and the old block is released.
\<close>

lemma add_fd_ok:
  assumes "hm_ok (table_of (kern m) a)" "hm_room (table_of (kern m) a)" "linked (kern m) (a # ps)"
    and "machine_ok bs S (c + n) d (Suc (Suc j)) m" "24 * unat (fd_capacity (file_descriptors (processes (kern m) a))) + 20 \<le> n * 4096"
    and "fd_data (file_descriptors (processes (kern m) a)) = adr q" "q \<in> blocks_at bs" "q \<noteq> 5308428" "adr q \<notin> fst ` S"
  shows "\<exists>m'. process_add_fd_to_active_process g node m = Some (Inr (fd_next (processes (kern m) a), m')) \<and>
    hm_ok (table_of (kern m') a) \<and> fd_next (processes (kern m') a) = fd_next (processes (kern m) a) + 1 \<and>
    (\<forall>garbage fd. process_get_node_of_fd_of_active_process garbage fd m' =
       (if fd = fd_next (processes (kern m) a) then Some (Inr node)
        else process_get_node_of_fd_of_active_process garbage fd m))"
proof -
  let ?fd = "fd_next (processes (kern m) a)"
  let ?k0 = "set_process a (\<lambda>p. p\<lparr>fd_next := ?fd + 1\<rparr>) (kern m)"
  let ?m0 = "m\<lparr>kern := ?k0\<rparr>"
  have act0: "active_process (kern m) = a" and a: "a \<noteq> 0" by (rule linkedD(1,2) [OF assms(3)])+
  have ring: "ring (kern m) (a # ps)" using assms(3) by (simp only: linked_def)
  have ring0: "ring ?k0 (a # ps)" by (rule iffD2 [OF ring_links ring]) simp_all
  have fds: "file_descriptors (processes (kern ?m0) a) = file_descriptors (processes (kern m) a)" by simp
  have t0: "table_of (kern ?m0) a = table_of (kern m) a" by (simp add: table_of_def fd_table_def)
  have m0: "machine_ok bs S (c + n) d (Suc (Suc j)) ?m0"
    by (rule machine_ok_records [OF assms(4) records_only_set_process ring0])
  obtain m' where 1: "fd_put g a ?fd node ?m0 = Some (Inr (0, m'))" "hm_ok (table_of (kern m') a)"
    "\<forall>k. hm_abs (table_of (kern m') a) k = (if ?fd = k then Some node else hm_abs (table_of (kern ?m0) a) k)"
    "active_process (kern m') = active_process (kern ?m0)" "fd_next (processes (kern m') a) = fd_next (processes (kern ?m0) a)"
    using fd_put_ok [of ?m0 a bs S c n d j q "a # ps" g ?fd node] assms(1,2,5-9) m0 ring0 unfolding t0 fds by auto
  have add: "process_add_fd_to_active_process g node m = Some (Inr (?fd, m'))"
    using 1(1) a by (simp add: process_add_fd_to_active_process_def Let_def act0)
  have act: "active_process (kern m') = a" using 1(4) act0 by simp
  have "process_get_node_of_fd_of_active_process garbage fd m' =
      (if fd = ?fd then Some (Inr node) else process_get_node_of_fd_of_active_process garbage fd m)" for garbage fd
    using get_node_of_fd [of m' garbage fd] get_node_of_fd [of m garbage fd] assms(1) 1(2,3) act act0 a t0 by simp
  then show ?thesis using add 1(2,5) by (intro exI [of _ m']) simp
qed

section \<open>A first descriptor\<close>

lemma fd_create_ok:
  assumes "machine_ok bs S (c + 1) d (Suc j) m" "ring (kern m) ps"
  shows "\<exists>q m' bs'. fd_create g p m = Some (Inr m') \<and> machine_ok bs' S c d j m' \<and> q \<notin> blocks_at bs \<and> q \<in> blocks_at bs' \<and>
    file_descriptors (processes (kern m') p) = \<lparr>fd_capacity = 16, fd_num_elements = 0, fd_data = adr q\<rparr> \<and>
    hm_ok (table_of (kern m') p) \<and> hm_room (table_of (kern m') p) \<and> (\<forall>fd. hm_abs (table_of (kern m') p) fd = None) \<and>
    active_process (kern m') = active_process (kern m) \<and>
    (\<forall>x. next_process (processes (kern m') x) = next_process (processes (kern m) x) \<and>
       previous_process (processes (kern m') x) = previous_process (processes (kern m) x) \<and>
       fd_next (processes (kern m') x) = fd_next (processes (kern m) x))"
proof -
  have al: "alignment_ok 0" by (simp add: alignment_ok_def)
  have sz: "(192 :: nat) + 0 + 20 \<le> 1 * 4096" "(192 :: nat) < 4294967296" by simp_all
  obtain q m1 bs1 where 1: "m_alloc_aligned g (adr 192) (adr 0) m = Some (Inr (adr q, m1))" "machine_ok bs1 S c d j m1"
    "q \<notin> blocks_at bs" "blocks_at bs1 = insert q (blocks_at bs)" "grown (kern m) (kern m1)"
    using machine_alloc [OF assms(1) al sz, of g] by auto
  have qb: "q \<in> blocks_at bs1" using 1(4) by simp
  have q0: "adr q \<noteq> 0" by (rule heap_range(4) [OF 1(2) qb])
  let ?hm = "empty_map 16 4 4 file_descriptor_compare file_descriptor_hash :: (s32, u32) Hash_Map"
  have create: "hash_map_create (\<lambda>n. adr q) 16 4 4 file_descriptor_compare file_descriptor_hash = Inr (?hm, 0)"
    by (rule create_eq) (use q0 in simp_all)
  have hok: "hm_ok ?hm" "hm_room ?hm" "hm_abs ?hm fd = None" for fd
    using empty_map_ok [OF fd_keys, of 16 4 4] empty_map_inv(2) [OF fd_keys, of 16 4 4]
    by (simp_all add: hm_room_def empty_map_def)
  have shape: "fd_shape ?hm" by (simp add: fd_shape_def empty_map_def)
  have bytes: "PROCESS_FILE_DESCRIPTORS_HASH_MAP_INITIAL_CAP * element_size 4 4 = adr 192"
    by (simp add: PROCESS_FILE_DESCRIPTORS_HASH_MAP_INITIAL_CAP_def element_size_def adr_def)
  have g: "processes (kern m1) = processes (kern m)" "active_process (kern m1) = active_process (kern m)"
    using 1(5) by (simp_all add: grown_def)
  let ?k = "store_fd_table p (adr q) ?hm (kern m1)"
  have ring1: "ring (kern m1) ps" by (rule iffD2 [OF ring_links assms(2)]) (simp_all add: g)
  have ring2: "ring ?k ps" by (rule iffD2 [OF ring_links ring1]) simp_all
  have mo: "machine_ok bs1 S c d j (m1\<lparr>kern := ?k\<rparr>)" by (rule machine_ok_records [OF 1(2) records_only_store ring2])
  have "fd_create g p m = Some (Inr (m1\<lparr>kern := ?k\<rparr>))"
    using 1(1) create unfolding fd_create_def bytes m_alloc_unaligned
    by (simp add: PROCESS_FILE_DESCRIPTORS_HASH_MAP_INITIAL_CAP_def)
  moreover have "file_descriptors (processes ?k p) = \<lparr>fd_capacity = 16, fd_num_elements = 0, fd_data = adr q\<rparr>"
    by (simp add: store_fd_table_def set_process_def empty_map_def)
  moreover have "previous_process (processes ?k x) = previous_process (processes (kern m) x)" for x
    by (simp add: store_fd_table_def set_process_def g)
  ultimately show ?thesis
    using mo 1(3) qb hok g by (intro exI [of _ q] exI [of _ "m1\<lparr>kern := ?k\<rparr>"] exI [of _ bs1]) (simp add: table_of_store [OF shape])
qed

text \<open>The table of the process at 64 of a booted machine, with the memory below the heap as it was.\<close>

lemma first_table:
  "\<exists>h m k m1 bs q. kalloc_init True kernel_pager (adr 1) m0 process_kernel = Some (Inr (adr 5308428, h, m, k)) \<and>
     fd_create True 64 \<lparr>heap = h, ram = m, kern = k\<rparr> = Some (Inr m1) \<and> machine_ok bs {} 99 100 9 m1 \<and>
     q \<in> blocks_at bs \<and> q \<noteq> 5308428 \<and> linked (kern m1) [64] \<and>
     file_descriptors (processes (kern m1) 64) = \<lparr>fd_capacity = 16, fd_num_elements = 0, fd_data = adr q\<rparr> \<and>
     hm_ok (table_of (kern m1) 64) \<and> hm_room (table_of (kern m1) 64) \<and> (\<forall>fd. hm_abs (table_of (kern m1) 64) fd = None) \<and>
     fd_next (processes (kern m1) 64) = 0 \<and> (\<forall>x < 5242880. ram m1 (adr x) = m0 (adr x))"
proof -
  obtain h m k bs where 1: "kalloc_init True kernel_pager (adr 1) m0 process_kernel = Some (Inr (adr 5308428, h, m, k))"
    "machine_ok bs {} 100 100 10 \<lparr>heap = h, ram = m, kern = k\<rparr>" "grown process_kernel k" "outside 5242880 5312512 m0 m"
    using booted_with [of m0] by auto
  let ?s = "\<lparr>heap = h, ram = m, kern = k\<rparr>"
  have k: "processes k = processes process_kernel" "active_process k = 64"
    using 1(3) by (simp_all add: grown_def process_kernel_def sample_kernel_def)
  have ring: "ring (kern ?s) [64]" by (simp add: ring_def k process_kernel_def sample_kernel_def)
  have mo: "machine_ok bs {} (99 + 1) 100 (Suc 9) ?s" using 1(2) by simp
  obtain q m1 bs1 where 2: "fd_create True 64 ?s = Some (Inr m1)" "machine_ok bs1 {} 99 100 9 m1" "q \<notin> blocks_at bs"
    "q \<in> blocks_at bs1" "file_descriptors (processes (kern m1) 64) = \<lparr>fd_capacity = 16, fd_num_elements = 0, fd_data = adr q\<rparr>"
    "hm_ok (table_of (kern m1) 64)" "hm_room (table_of (kern m1) 64)" "\<forall>fd. hm_abs (table_of (kern m1) 64) fd = None"
    "active_process (kern m1) = active_process (kern ?s)"
    "\<forall>x. next_process (processes (kern m1) x) = next_process (processes (kern ?s) x) \<and>
       previous_process (processes (kern m1) x) = previous_process (processes (kern ?s) x) \<and>
       fd_next (processes (kern m1) x) = fd_next (processes (kern ?s) x)"
    using fd_create_ok [OF mo ring, of True 64] by (elim exE conjE) (rule that; assumption)
  have l: "linked (kern m1) [64]"
    using 2(9,10) k by (simp add: linked_def ring_def process_kernel_def sample_kernel_def)
  have e: "heap_start + 12 = (5308428 :: nat)" by simp
  have "anchored heap_start bs" using 1(2) by (simp only: machine_ok_def)
  then have "5308428 \<in> blocks_at bs" unfolding anchored_def e .
  then have qa: "q \<noteq> 5308428" using 2(3) by metis
  have n0: "fd_next (processes (kern m1) 64) = 0" using 2(10) k by (simp add: process_kernel_def sample_kernel_def)
  have sz: "(192 :: nat) + 20 \<le> 1 * 4096" "(192 :: nat) < 4294967296" by simp_all
  obtain r m2 where 3: "m_alloc True (adr 192) ?s = Some (Inr (adr r, m2))" "outside heap_start 1073741824 m (ram m2)"
    using machine_alloc_plain [OF mo sz, of True] by auto
  have "ram m1 = ram m2"
    using 2(1) 3(1)
    by (auto simp: fd_create_def PROCESS_FILE_DESCRIPTORS_HASH_MAP_INITIAL_CAP_def element_size_def adr_def obind_def split: sum.splits)
  then have "ram m1 (adr x) = m0 (adr x)" if "x < 5242880" for x
    using that outsideD [OF 3(2), of x] outsideD [OF 1(4), of x] by simp
  then show ?thesis using 1(1) 2(1,2,4-8) qa l n0 by blast
qed

end
