(* ===== verification/Syscall_Correct.thy ===== *)
theory Syscall_Correct
  imports Syscall Process_Files_Correct
begin

text \<open>
  The properties of the system calls: how each call ends and what it leaves alone, and an
  opened file is the file that the later calls work on.
\<close>

section \<open>How a call ends\<close>

lemma obind_eq_Inr: "obind x f = Some (Inr y) \<longleftrightarrow> (\<exists>v. x = Some (Inr v) \<and> f v = Some (Inr y))"
  by (auto simp: obind_def split: option.splits sum.splits)

text \<open>The parts of the system that no operation on a process writes.\<close>

definition same_tables :: "Rawos \<Rightarrow> Rawos \<Rightarrow> bool" where
  "same_tables s s' \<longleftrightarrow> trap_handlers s' = trap_handlers s \<and> syscall_stubs s' = syscall_stubs s"

text \<open>An answer of \<open>process_exit\<close>, which never returns.\<close>

definition leaves :: "'a control \<Rightarrow> Rawos \<Rightarrow> bool" where
  "leaves r s \<longleftrightarrow> (case r of Return n \<Rightarrow> False | Switch_context i p b \<Rightarrow> interrupts_enabled s
     | User_mode p i \<Rightarrow> False | Halt \<Rightarrow> \<not> interrupts_enabled s)"

lemma resume_active_leaves: "resume_active s = Inr (r, s') \<Longrightarrow> leaves r s' \<and> same_tables s s'"
  by (auto simp: resume_active_def Let_def process_switch_context_def leaves_def same_tables_def)

lemma process_exit_leaves:
  assumes "process_exit g ret s = Inr (r, s')"
  shows "leaves r s' \<and> same_tables s s'"
  using assms
  by (auto simp: process_exit_def Let_def leaves_def same_tables_def split: if_splits dest!: resume_active_leaves)

lemma process_fork_same: "process_fork g i p b s = Some (Inr (n, s')) \<Longrightarrow> same_tables s s'"
  by (auto simp: process_fork_def Let_def obind_eq_Inr same_tables_def)

lemma open_call_same: "open_call g a s = Some (Inr (n, s')) \<Longrightarrow> same_tables s s'"
  by (auto simp: open_call_def obind_eq_Inr same_tables_def split: if_splits)

lemma on_open_file_same: "on_open_file env fd f s = Some (Inr (n, s')) \<Longrightarrow> same_tables s s'"
  by (auto simp: on_open_file_def obind_eq_Inr same_tables_def split: if_splits)

lemma process_execve_same:
  assumes "process_execve g env a s = Some (Inr (r, s'))"
  shows "same_tables s s' \<and> (case r of Return n \<Rightarrow> n = - 1 | User_mode p i \<Rightarrow> interrupts_enabled s' | _ \<Rightarrow> False)"
  using assms
  by (auto simp: process_execve_def Let_def obind_eq_Inr same_tables_def enter_program_def
      process_switch_to_user_mode_set_stack_and_jmp_addr_def split: if_splits)

lemma returningD: "returning args x = Some (Inr (r, s')) \<Longrightarrow> \<exists>n. x = Some (Inr (n, s')) \<and> r = Return (args\<lparr>eax := n\<rparr>)"
  by (auto simp: returning_def obind_eq_Inr)

text \<open>
  C6: how a system call ends.  Whatever a program calls, the table of trap handlers and
  the table of stubs stay as they are.  A call that returns gives the caller its
  registers back, all but eax, and eax too for the calls without an answer; only
  \<open>exit\<close> leaves the caller for another process, with the interrupts enabled, or stops
  the processor; only \<open>execve\<close> goes on at another place in user mode, with the
  interrupts enabled.
\<close>

theorem syscall_outcome:
  assumes "syscall_handler g env args s = Some (Inr (r, s'))"
  shows "trap_handlers s' = trap_handlers s \<and> syscall_stubs s' = syscall_stubs s \<and>
    (case r of
       Return args' \<Rightarrow> eax args \<noteq> 1 \<and> args' = args\<lparr>eax := eax args'\<rparr> \<and> (args' = args \<or> 4 \<le> eax args \<and> eax args \<le> 9)
     | Switch_context i p b \<Rightarrow> eax args = 1 \<and> interrupts_enabled s'
     | User_mode p i \<Rightarrow> eax args = 4 \<and> interrupts_enabled s'
     | Halt \<Rightarrow> eax args = 1 \<and> \<not> interrupts_enabled s')"
proof -
  have *: "same_tables s s' \<and> (case r of
       Return args' \<Rightarrow> eax args \<noteq> 1 \<and> args' = args\<lparr>eax := eax args'\<rparr> \<and> (args' = args \<or> 4 \<le> eax args \<and> eax args \<le> 9)
     | Switch_context i p b \<Rightarrow> eax args = 1 \<and> interrupts_enabled s'
     | User_mode p i \<Rightarrow> eax args = 4 \<and> interrupts_enabled s'
     | Halt \<Rightarrow> eax args = 1 \<and> \<not> interrupts_enabled s')"
  proof -
    consider "eax args = 1" | "eax args = 4" | "eax args \<in> {5, 6, 7, 8, 9}" | "eax args \<notin> {1, 4, 5, 6, 7, 8, 9}" by blast
    then show ?thesis
    proof cases
      case 1
      then obtain q t where "process_exit g (ebx args) s = Inr (q, t)" "(r, s') = no_answer args (q, t)"
        using assms by (auto simp: syscall_handler_def Let_def obind_eq_Inr)
      then show ?thesis using process_exit_leaves [of g "ebx args" s q t] 1
        by (cases q) (auto simp: leaves_def)
    next
      case 2
      then obtain q t where "process_execve g env (ebx args) s = Some (Inr (q, t))" "(r, s') = answer args (q, t)"
        using assms by (auto simp: syscall_handler_def Let_def obind_eq_Inr)
      then show ?thesis using process_execve_same [of g env "ebx args" s q t] 2
        by (cases q) auto
    next
      case 3
      then have "(\<exists>n. r = Return (args\<lparr>eax := n\<rparr>)) \<and> same_tables s s'"
        using assms by (auto simp: syscall_handler_def Let_def dest!: returningD process_fork_same open_call_same on_open_file_same)
      then show ?thesis using 3 by auto
    next
      case 4
      then have "r = Return args" "same_tables s s'"
        using assms
        by (auto simp: syscall_handler_def Let_def obind_eq_Inr print_call_def same_tables_def split: if_splits)
      then show ?thesis using 4 by simp
    qed
  qed
  then show ?thesis unfolding same_tables_def by (simp only: conj_assoc)
qed

text \<open>A call of a program, with its number and its three arguments.\<close>

definition call :: "u32 \<Rightarrow> u32 \<Rightarrow> u32 \<Rightarrow> u32 \<Rightarrow> Interrupt_Handler_Args" where
  "call a b c d = (Interrupt.sample_args 128)\<lparr>eax := a, ebx := b, ecx := c, edx := d\<rparr>"

lemma call_simps [simp]: "eax (call a b c d) = a" "ebx (call a b c d) = b" "ecx (call a b c d) = c" "edx (call a b c d) = d"
  by (simp_all add: call_def)

definition sample_ambient :: Ambient where
  "sample_ambient = \<lparr>now_eip = 7, now_esp = 8, now_ebp = 9, garbage_node = 10,
     garbage_rli = \<lparr>code_address = 0, data_address = 0, stack_address = 0, entrypoint = 0\<rparr>, kerb_address = 0x9000, key_events = []\<rparr>"

theorem syscall_outcome_witness:
  "\<exists>s'. syscall_handler True sample_ambient (call 2 5 6 0) (sys_with two_processes) = Some (Inr (Return (call 2 5 6 0), s')) \<and>
     cursor_pos (screen (os s')) = 485 \<and> trap_handlers s' = replicate 256 No_trap"
proof -
  let ?s = "sys_with two_processes"
  let ?sc = "(screen (os ?s))\<lparr>cursor_pos := 485\<rparr>"
  let ?s' = "with_os ?s ((os ?s)\<lparr>screen := ?sc\<rparr>)"
  have "screen_pos_cursor 5 6 (screen (os ?s)) = Inr ?sc"
    by (simp add: screen_pos_cursor_def VIDEO_COLS_NUM_def VIDEO_ROWS_NUM_def kassert_def)
  then have 1: "syscall_handler True sample_ambient (call 2 5 6 0) ?s = Some (Inr (Return (call 2 5 6 0), ?s'))"
    by (simp add: syscall_handler_def)
  have "trap_handlers ?s' = replicate 256 No_trap" using syscall_outcome [OF 1] by (simp add: sys_with_def)
  then show ?thesis using 1 by (intro exI [of _ ?s']) simp
qed

section \<open>Open files\<close>

lemma on_open_file_found:
  "process_get_node_of_fd_of_active_process (garbage_node env) fd (mach s) = Some (Inr node) \<Longrightarrow> node \<noteq> 0 \<Longrightarrow>
   on_open_file env fd f s = obind (Some (f node (os s))) (\<lambda>(n, o1). Some (Inr (n, with_os s o1)))"
  by (simp add: on_open_file_def)

text \<open>
  C5: an opened file is the file that later calls work on.  Opening a path that has a node
  answers with the next descriptor of the process and leaves the file system as it is;
  from then on a read or a write with this descriptor is the read or the write of this
  node, at offset 0 and whatever was read before, and closing it answers 0, after which
  the descriptor is still open.  The other descriptors name the nodes they named
  before, whether or not the table had to grow.
\<close>

theorem opened_file:
  assumes "hm_ok (table_of (knl s) a)" "hm_room (table_of (knl s) a)" "linked (knl s) (a # ps)"
    and "machine_ok bs S (c + n) d (Suc (Suc j)) (mach s)" "24 * unat (fd_capacity (file_descriptors (processes (knl s) a))) + 20 \<le> n * 4096"
    and "fd_data (file_descriptors (processes (knl s) a)) = adr q" "q \<in> blocks_at bs" "q \<noteq> 5308428" "adr q \<notin> fst ` S"
    and "eax args = 6" "string_at (ebx args) (os s) = Inr name" "fs_util_get_node_by_path name (os s) = Inr node" "node \<noteq> 0"
  shows "\<exists>fd s'. fd = fd_next (processes (knl s) a) \<and>
    syscall_handler g env args s = Some (Inr (Return (args\<lparr>eax := fd\<rparr>), s')) \<and> fs (os s') = fs (os s) \<and>
    (\<forall>env b n. syscall_handler g env (call 7 fd b n) s' =
       returning (call 7 fd b n) (obind (Some (vfs_read (kerb_address env) (key_events env) node 0 n b (os s')))
         (\<lambda>(r, o1). Some (Inr (r, with_os s' o1))))) \<and>
    (\<forall>env b n. syscall_handler g env (call 8 fd b n) s' =
       returning (call 8 fd b n) (obind (Some (vfs_write node 0 n b (os s'))) (\<lambda>(r, o1). Some (Inr (r, with_os s' o1))))) \<and>
    (\<forall>env. syscall_handler g env (call 9 fd 0 0) s' = Some (Inr (Return (call 0 fd 0 0), s'))) \<and>
    (\<forall>garbage fd'. fd' \<noteq> fd \<longrightarrow> process_get_node_of_fd_of_active_process garbage fd' (mach s') =
       process_get_node_of_fd_of_active_process garbage fd' (mach s))"
proof -
  let ?fd = "fd_next (processes (knl s) a)"
  obtain m' where 1: "process_add_fd_to_active_process g node (mach s) = Some (Inr (?fd, m'))"
    "\<forall>garbage fd. process_get_node_of_fd_of_active_process garbage fd m' =
       (if fd = ?fd then Some (Inr node) else process_get_node_of_fd_of_active_process garbage fd (mach s))"
    using add_fd_ok [OF assms(1-9), of g node] by (elim exE conjE) (rule that; assumption)
  let ?s = "with_machine s m'"
  have op: "vfs_open node 0 (os s) = Inr (os s)" using assms(13) by (cases "open_fn (node_at (os s) node)") (simp add: vfs_open_def)
  have "open_call g (ebx args) s = Some (Inr (?fd, ?s))"
    using assms(11-13) op 1(1) by (simp add: open_call_def)
  then have opened: "syscall_handler g env args s = Some (Inr (Return (args\<lparr>eax := ?fd\<rparr>), ?s))"
    using assms(10) by (simp add: syscall_handler_def Let_def returning_def)
  have get: "process_get_node_of_fd_of_active_process garbage ?fd (mach ?s) = Some (Inr node)" for garbage
    using 1(2) by simp
  have use: "on_open_file env ?fd f ?s = obind (Some (f node (os ?s))) (\<lambda>(n, o1). Some (Inr (n, with_os ?s o1)))" for env f
    by (rule on_open_file_found [OF get assms(13)])
  have cl: "vfs_close node (os ?s) = Inr (os ?s)"
    using assms(13) by (cases "close_fn (node_at (os ?s) node)") (simp add: vfs_close_def)
  have "syscall_handler g env (call 9 ?fd 0 0) ?s = Some (Inr (Return (call 0 ?fd 0 0), ?s))" for env
    using cl by (simp add: syscall_handler_def use returning_def Let_def) (simp add: call_def)
  moreover have "syscall_handler g env (call 7 ?fd b n) ?s =
       returning (call 7 ?fd b n) (obind (Some (vfs_read (kerb_address env) (key_events env) node 0 n b (os ?s)))
         (\<lambda>(r, o1). Some (Inr (r, with_os ?s o1))))"
    "syscall_handler g env (call 8 ?fd b n) ?s =
       returning (call 8 ?fd b n) (obind (Some (vfs_write node 0 n b (os ?s))) (\<lambda>(r, o1). Some (Inr (r, with_os ?s o1))))" for env b n
    by (simp_all add: syscall_handler_def use Let_def)
  moreover have "process_get_node_of_fd_of_active_process garbage fd' (mach ?s) =
       process_get_node_of_fd_of_active_process garbage fd' (mach s)" if "fd' \<noteq> ?fd" for garbage fd'
    using 1(2) that by simp
  ultimately show ?thesis using opened by (intro exI [of _ ?fd] exI [of _ ?s]) simp
qed

text \<open>A path in memory below the heap.\<close>

definition path_memory :: mem where
  "path_memory x = (if 65536 \<le> unat x \<and> unat x < 65549 then chars_of ''/dev/keyboard'' ! (unat x - 65536) else 0)"

lemma get_string_kernel:
  assumes "\<And>k. k < length str \<Longrightarrow> ram (machine s) (adr (A + k)) = str ! k" "ram (machine s) (adr (A + length str)) = 0"
    "0 \<notin> set str" "A + length str < 0x40000000" "length str < n"
  shows "get_string n (adr A) s = Inr str"
  using assms
proof (induction str arbitrary: A n)
  case Nil
  then show ?case by (cases n) (simp_all add: get_byte_def read_byte_def word_less_nat_alt)
next
  case (Cons c str)
  obtain n' where n: "n = Suc n'" using Cons.prems(5) by (cases n) auto
  have c: "ram (machine s) (adr A) = c" "c \<noteq> 0" using Cons.prems(1) [of 0] Cons.prems(3) by auto
  have "get_byte (adr A) s = Inr c" using c(1) Cons.prems(4) by (simp add: get_byte_def read_byte_def word_less_nat_alt)
  moreover have "get_string n' (adr (Suc A)) s = Inr str"
  proof (rule Cons.IH)
    show "ram (machine s) (adr (Suc A + k)) = str ! k" if "k < length str" for k
      using Cons.prems(1) [of "Suc k"] that by simp
  qed (use Cons.prems(2-5) n in simp_all)
  ultimately show ?case using c(2) by (simp add: n)
qed

theorem opened_file_witness:
  "\<exists>h m k m1 s' s''. kalloc_init True kernel_pager (adr 1) path_memory process_kernel = Some (Inr (adr 5308428, h, m, k)) \<and>
     fd_create True 64 \<lparr>heap = h, ram = m, kern = k\<rparr> = Some (Inr m1) \<and>
     syscall_handler True sample_ambient (call 6 0x10000 0 0) (sys_with m1) = Some (Inr (Return (call 0 0x10000 0 0), s')) \<and>
     syscall_handler True sample_ambient (call 8 0 5 3) s' = Some (Inr (Return (call 0 0 5 3), s'')) \<and>
     process_get_node_of_fd_of_active_process 0 1 (mach s') = Some (Inr 0)"
proof -
  obtain h m k m1 bs q where 1: "kalloc_init True kernel_pager (adr 1) path_memory process_kernel = Some (Inr (adr 5308428, h, m, k))"
    "fd_create True 64 \<lparr>heap = h, ram = m, kern = k\<rparr> = Some (Inr m1)" "machine_ok bs {} 99 100 9 m1"
    "q \<in> blocks_at bs" "q \<noteq> 5308428" "linked (kern m1) [64]"
    "file_descriptors (processes (kern m1) 64) = \<lparr>fd_capacity = 16, fd_num_elements = 0, fd_data = adr q\<rparr>"
    "hm_ok (table_of (kern m1) 64)" "hm_room (table_of (kern m1) 64)" "\<forall>fd. hm_abs (table_of (kern m1) 64) fd = None"
    "fd_next (processes (kern m1) 64) = 0" "\<forall>x < 5242880. ram m1 (adr x) = path_memory (adr x)"
    using first_table [of path_memory] by (elim exE conjE) (rule that; assumption)
  let ?s = "sys_with m1"
  let ?path = "chars_of ''/dev/keyboard''"
  have l: "linked (knl ?s) (64 # [])" and t: "hm_ok (table_of (knl ?s) 64)" "hm_room (table_of (knl ?s) 64)" using 1(6,8,9) by simp_all
  have mo: "machine_ok bs {} (98 + 1) 100 (Suc (Suc 7)) (mach ?s)" using 1(3) by simp
  have cap: "24 * unat (fd_capacity (file_descriptors (processes (knl ?s) 64))) + 20 \<le> 1 * 4096" by (simp add: 1(7))
  have fdd: "fd_data (file_descriptors (processes (knl ?s) 64)) = adr q" by (simp add: 1(7))
  have nS: "adr q \<notin> fst ` ({} :: slot set)" by simp
  have os: "machine (os ?s) = m1" "os ?s = os_with m1" by (simp_all add: sys_with_def os_with_def)
  have mem: "ram (machine (os ?s)) (adr (65536 + k)) = (if k < 13 then ?path ! k else 0)" if "k \<le> 13" for k
    using 1(12) [rule_format, of "65536 + k"] that unfolding os(1) by (simp add: path_memory_def)
  have len: "length ?path = 13" "0 \<notin> set ?path" by (simp_all add: chars_simps)
  have "get_string 4294967296 (adr 65536) (os ?s) = Inr ?path"
    by (rule get_string_kernel) (use mem mem [of 13] len in simp_all)
  then have str: "string_at (ebx (call 6 0x10000 0 0)) (os ?s) = Inr ?path" by (simp add: string_at_def adr_def)
  have node: "fs_util_get_node_by_path ?path (os ?s) = Inr 80" unfolding os(2)
    by (simp add: fs_util_get_node_by_path_def path_loop_walk chars_simps os_with_def sample_fs_def vfs_lookup_def node_at_def
        sample_nodes_def directory_node_def device_node_def vfs_root_lookup_def dev_lookup_def SCREEN_FILE_NAME_def
        KEYBOARD_FILE_NAME_def VFS_FILE_NAME_MAX_LENGTH_def)
  have "eax (call 6 0x10000 0 0) = 6" "(80 :: u32) \<noteq> 0" by simp_all
  from opened_file [OF t l mo cap fdd 1(4,5) nS this(1) str node this(2), of True sample_ambient]
  obtain s' where 2: "syscall_handler True sample_ambient (call 6 0x10000 0 0) ?s =
      Some (Inr (Return ((call 6 0x10000 0 0)\<lparr>eax := 0\<rparr>), s'))" "fs (os s') = fs (os ?s)"
    "\<forall>env b n. syscall_handler True env (call 8 0 b n) s' =
       returning (call 8 0 b n) (obind (Some (vfs_write 80 0 n b (os s'))) (\<lambda>(r, o1). Some (Inr (r, with_os s' o1))))"
    "process_get_node_of_fd_of_active_process 0 1 (mach s') = process_get_node_of_fd_of_active_process 0 1 (mach ?s)"
    by (auto simp: 1(11))
  have "fs (os s') = sample_fs" using 2(2) by (simp add: sys_with_def os_with_def)
  then have "vfs_write 80 0 3 5 (os s') = Inr (0, os s')"
    by (simp add: vfs_write_def node_at_def sample_fs_def sample_nodes_def device_node_def)
  then have w: "syscall_handler True sample_ambient (call 8 0 5 3) s' = Some (Inr (Return (call 0 0 5 3), s'))"
    using 2(3) by (simp add: returning_def call_def)
  have "active_process (kern m1) = 64" using 1(6) by (simp add: linked_def ring_def)
  then have "process_get_node_of_fd_of_active_process 0 1 (mach s') = Some (Inr 0)"
    using get_node_of_fd [of m1 0 1] 1(8,10) 2(4) by simp
  moreover have "(call 6 0x10000 0 0)\<lparr>eax := 0\<rparr> = call 0 0x10000 0 0" by (simp add: call_def)
  ultimately show ?thesis using 1(1,2) 2(1) w by (intro exI conjI) (assumption | simp only:)+
qed

end
