(* ===== verification/Kernel_Main_Correct.thy ===== *)
theory Kernel_Main_Correct
  imports Kernel_Main Vfs_Boot Syscall_Correct
begin

text \<open>
  The properties of the kernel as a whole: \<open>main\<close> initialises a system in which every
  packed file can be read under its path and every system call has its stub and its
  handler.
\<close>

section \<open>Paths in a started file system\<close>

lemma components_plain: "47 \<notin> set xs \<Longrightarrow> acc @ xs \<noteq> [] \<Longrightarrow> components acc xs = [acc @ xs]"
  by (induction xs arbitrary: acc) auto

lemma path_in_directory:
  assumes "vfs_root (fs s) \<noteq> 0" "47 \<notin> set dir" "name \<noteq> []" "47 \<notin> set name" "length dir < 256" "length name < 256" "dir \<noteq> []"
    "vfs_lookup (vfs_root (fs s)) dir s = Inr d" "d \<noteq> 0" "vfs_lookup d name s = Inr node"
  shows "fs_util_get_node_by_path (47 # dir @ 47 # name) s = Inr node"
proof -
  have dir: "components acc (dir @ 47 # name) = (acc @ dir) # components [] name" for acc
    using assms(2) by (induction dir arbitrary: acc) auto
  have "components [] (dir @ 47 # name) = [dir, name]" using dir [of "[]"] components_plain [OF assms(4), of "[]"] assms(3) by simp
  then show ?thesis
    using path_loop_walk [OF assms(1), of "[]" "dir @ 47 # name"] assms(1,5-10)
    by (simp add: fs_util_get_node_by_path_def VFS_FILE_NAME_MAX_LENGTH_def)
qed

lemma tree_names: "0 \<notin> set (chars_of ''initrd'')" "0 \<notin> set (chars_of ''dev'')" "chars_of ''initrd'' \<noteq> chars_of ''dev''"
  by (simp_all add: chars_simps)

lemma tree_lookup:
  assumes "vfs_tree s"
  shows "vfs_lookup (vfs_root (fs s)) (chars_of ''initrd'') s = Inr (initrd_root_node (fs s))"
    "vfs_lookup (vfs_root (fs s)) (chars_of ''dev'') s = Inr (dev_root_node (fs s))"
    "vfs_lookup (initrd_root_node (fs s)) name s = initrd_lookup (initrd_root_node (fs s)) name s"
    "vfs_lookup (dev_root_node (fs s)) name s = dev_lookup (dev_root_node (fs s)) name s"
  using assms tree_names
  by (simp_all add: vfs_tree_def vfs_lookup_def directory_node_def vfs_root_lookup_def device_directory_def)

lemma tree_path_initrd:
  assumes "vfs_tree s" "name \<noteq> []" "47 \<notin> set name" "length name < 256" "initrd_lookup (initrd_root_node (fs s)) name s = Inr node"
  shows "fs_util_get_node_by_path (chars_of ''/initrd/'' @ name) s = Inr node"
proof -
  have t: "vfs_root (fs s) \<noteq> 0" "initrd_root_node (fs s) \<noteq> 0" using assms(1) by (simp_all add: vfs_tree_def)
  have i: "47 \<notin> set (chars_of ''initrd'')" "length (chars_of ''initrd'') < 256" "chars_of ''initrd'' \<noteq> []" by (simp_all add: chars_simps)
  have "fs_util_get_node_by_path (47 # chars_of ''initrd'' @ 47 # name) s = Inr node"
    by (rule path_in_directory [OF t(1) i(1) assms(2,3) i(2) assms(4) i(3) tree_lookup(1) [OF assms(1)] t(2)])
      (simp add: tree_lookup(3) [OF assms(1)] assms(5))
  then show ?thesis by (simp add: chars_of_def)
qed

lemma tree_path_dev:
  assumes "vfs_tree s"
  shows "fs_util_get_node_by_path (chars_of ''/dev/screen'') s = Inr (screen_node (fs s))"
    "fs_util_get_node_by_path (chars_of ''/dev/keyboard'') s = Inr (keyboard_node (fs s))"
proof -
  have t: "vfs_root (fs s) \<noteq> 0" "dev_root_node (fs s) \<noteq> 0" using assms(1) by (simp_all add: vfs_tree_def)
  have i: "47 \<notin> set (chars_of ''dev'')" "length (chars_of ''dev'') < 256" "chars_of ''dev'' \<noteq> []" by (simp_all add: chars_simps)
  have p: "fs_util_get_node_by_path (47 # chars_of ''dev'' @ 47 # name) s = Inr node"
    if "name \<noteq> []" "47 \<notin> set name" "length name < 256" "dev_lookup (dev_root_node (fs s)) name s = Inr node" for name node
    by (rule path_in_directory [OF t(1) i(1) that(1,2) i(2) that(3) i(3) tree_lookup(2) [OF assms(1)] t(2)])
      (simp add: tree_lookup(4) [OF assms(1)] that(4))
  show "fs_util_get_node_by_path (chars_of ''/dev/screen'') s = Inr (screen_node (fs s))"
    using p [of "chars_of ''screen''"]
    by (simp add: chars_of_def dev_lookup_def SCREEN_FILE_NAME_def KEYBOARD_FILE_NAME_def)
  show "fs_util_get_node_by_path (chars_of ''/dev/keyboard'') s = Inr (keyboard_node (fs s))"
    using p [of "chars_of ''keyboard''"]
    by (simp add: chars_of_def dev_lookup_def SCREEN_FILE_NAME_def KEYBOARD_FILE_NAME_def)
qed

section \<open>The memory of a started kernel\<close>

lemma memset_outside:
  assumes "unat pa \<le> 655360" "x < unat pa"
  shows "memset pa v 8192 m (adr x) = m (adr x)"
proof -
  have e: "adr x - pa = adr (4294967296 + x - unat pa)"
  proof -
    have "adr (4294967296 + x - unat pa) + adr (unat pa) = adr (4294967296 + x)"
      using assms by (simp del: adr_unat)
    also have "\<dots> = adr x" by (simp add: adr_def)
    finally have "adr (4294967296 + x - unat pa) + pa = adr x" by simp
    then show ?thesis by (metis add_diff_cancel_right')
  qed
  have "unat (adr x - pa) = 4294967296 + x - unat pa" unfolding e using assms by simp
  then have "\<not> offset_of pa (adr x) < unat (8192 :: u32)" using assms by (simp add: offset_of_def)
  then show ?thesis unfolding memset_spec by simp
qed

lemma paging_init_memory: "paging_init behind m k = Inr (m', k') \<Longrightarrow> m' = memset (directory_addr (final_kernel_code_data_addr k)) 0 8192 m"
  by (auto simp: paging_init_steps)

lemma boot_memory:
  assumes "behind \<noteq> []" "unat (directory_addr (final_kernel_code_data_addr k0)) + 8192 \<le> 655360" "17 + c + d \<le> 768"
  shows "\<exists>m1 k1 h m k bs. paging_init behind m0 k0 = Inr (m1, k1) \<and>
     kalloc_init g kernel_pager 1 m1 k1 = Some (Inr (adr 5308428, h, m, k)) \<and>
     machine_ok bs {} c d 3275 \<lparr>heap = h, ram = m, kern = k\<rparr> \<and>
     (\<forall>x < unat (directory_addr (final_kernel_code_data_addr k0)). m (adr x) = m0 (adr x))"
proof -
  let ?pd = "directory_addr (final_kernel_code_data_addr k0)"
  obtain m1 k1 where 1: "paging_init behind m0 k0 = Inr (m1, k1)" "kernel_ready 1280 768 k1"
    using paging_init_ok [of behind k0 m0] assms(1,2) by (auto simp: word_nat)
  have e: "17 + c + (768 - 17 - c) = 768" using assms(3) by simp
  have r: "kernel_ready 1280 (17 + c) k1" by (rule kernel_ready_less [of _ _ "768 - 17 - c"]) (simp only: e 1(2))
  have "17 + c + d + nulls k1 \<le> free_frames k1" using 1(2) assms(3) by (simp add: kernel_ready_def)
  moreover have "mapped k1 x" if "1280 \<le> x \<and> x < 1280" for x using that by linarith
  ultimately have sp: "space_ready k1 {} d 1280 (16 + 1 + 0 + c) k1" using r by (auto simp: space_ready_def)
  obtain h m k bs where 2: "kalloc_init g kernel_pager (adr 1) m1 k1 = Some (Inr (adr 5308428, h, m, k))"
    "heap_ok h m 5308416 bs" "anchored 5308416 bs" "ext bs = 4096" "3275 \<le> avl_spare (Kalloc_Heap.avl h)"
    "space_ready k1 {} d 1297 c k" "outside 5242880 5312512 m1 m"
    using spaces.init_ok [OF sp, of g m1] by auto
  have "space_ready k {} d 1297 c k" using space_ready_less [of k1 "{}" d 1297 c 0 k] 2(6) by simp
  then have mo: "machine_ok bs {} c d 3275 \<lparr>heap = h, ram = m, kern = k\<rparr>" using 2(2-5) by (simp add: machine_ok_def)
  have pd: "unat ?pd \<le> 655360" using assms(2) by simp
  have "m (adr x) = m0 (adr x)" if "x < unat ?pd" for x
    using that pd outsideD [OF 2(7), of x] memset_outside [OF pd that, of 0 m0] paging_init_memory [OF 1(1)] by simp
  moreover have "kalloc_init g kernel_pager 1 m1 k1 = Some (Inr (adr 5308428, h, m, k))" using 2(1) by (simp add: adr_def)
  ultimately show ?thesis using 1(1) mo by blast
qed

section \<open>Starting the kernel\<close>

text \<open>The handlers that are registered before the first process is made.\<close>

definition started_handlers :: "trap list \<Rightarrow> trap list" where
  "started_handlers hs = hs[32 := Timer_interrupt_handler, 14 := Page_fault_handler, 33 := Keyboard_interrupt_handler, 128 := Syscall_handler]"

lemma setup_devices_ok:
  assumes "length (trap_handlers (rawos s)) = 256"
  shows "\<exists>s'. setup_devices l s = Inr s' \<and> mach (rawos s') = mach (rawos s) \<and> fs (os (rawos s')) = fs (os (rawos s)) \<and>
    trap_handlers (rawos s') = (trap_handlers (rawos s))[32 := Timer_interrupt_handler]"
  using assms by (simp add: setup_devices_def Let_def register_trap_def print_logo_def on_rawos_def to_ports_def)

lemma setup_interrupts_ok:
  assumes "length (trap_handlers (rawos s)) = 256"
  shows "\<exists>s'. setup_interrupts l s = Inr s' \<and> mach (rawos s') = mach (rawos s) \<and> fs (os (rawos s')) = fs (os (rawos s)) \<and>
    trap_handlers (rawos s') = (trap_handlers (rawos s))[33 := Keyboard_interrupt_handler] \<and> interrupts_enabled (rawos s')"
  using assms by (simp add: setup_interrupts_def Let_def register_trap_def on_rawos_def)

lemma setup_memory_ok:
  assumes "behind_frames l \<noteq> []" "unat (directory_addr (final_kernel_code_data_addr (knl r))) + 8192 \<le> 655360"
    "17 + c + d \<le> 768" "length (trap_handlers r) = 256"
  shows "\<exists>r' bs. setup_memory g l r = Some (Inr r') \<and> machine_ok bs {} c d 3275 (mach r') \<and> fs (os r') = fs (os r) \<and>
    trap_handlers r' = (trap_handlers r)[14 := Page_fault_handler] \<and>
    (\<forall>x < unat (directory_addr (final_kernel_code_data_addr (knl r))). ram (mach r') (adr x) = ram (mach r) (adr x))"
proof -
  obtain m1 k1 h m k bs where 1: "paging_init (behind_frames l) (ram (mach r)) (knl r) = Inr (m1, k1)"
    "kalloc_init g kernel_pager 1 m1 k1 = Some (Inr (adr 5308428, h, m, k))"
    "machine_ok bs {} c d 3275 \<lparr>heap = h, ram = m, kern = k\<rparr>"
    "\<forall>x < unat (directory_addr (final_kernel_code_data_addr (knl r))). m (adr x) = ram (mach r) (adr x)"
    using boot_memory [OF assms(1-3), of "ram (mach r)" g] by (elim exE conjE) (rule that; assumption)
  let ?r = "with_machine (r\<lparr>trap_handlers := (trap_handlers r)[14 := Page_fault_handler]\<rparr>) \<lparr>heap = h, ram = m, kern = k\<rparr>"
  have "setup_memory g l r = Some (Inr ?r)" using 1(1,2) assms(4) by (simp add: setup_memory_def register_trap_def)
  then show ?thesis using 1(3,4) by (intro exI [of _ ?r] exI [of _ bs]) simp
qed

lemma setup_system_ok:
  assumes m: "machine_ok bs S (c + p2 + p1 + 10) d (j + 8) (mach r)" "length (trap_handlers r) = 256"
    and p: "292 * length es + 20 \<le> p1 * 4096" "4 * length es + 20 \<le> p2 * 4096"
    and l: "loaded (ram (mach r)) A (image_of junk es)" "A + length (image_of junk es) \<le> heap_start"
    and es: "entries_ok es" and A: "initrd_data (fs (os r)) = adr A" and rn: "length (root_nodes (fs (os r))) = 2"
  shows "\<exists>r' b bs'. setup_system g l r = Some (Inr r') \<and> machine_ok bs' S c d j (mach r') \<and>
    serves A junk es b (os r') \<and> vfs_tree (os r') \<and> trap_handlers r' = (trap_handlers r)[128 := Syscall_handler] \<and>
    interrupts_enabled r' = interrupts_enabled r \<and>
    (\<forall>name ssi. syscall_stub_get (syscall_stubs r') name ssi =
       Some (Inr (if c_part name \<in> set syscall_names then (syscall_stub l (c_part name), 0) else (ssi, - 1))))"
proof -
  have m0: "machine_ok bs S ((c + p2 + p1 + 5) + 5) d (Suc (j + 7)) (mach r)" using m(1) by (simp add: ac_simps)
  have sz: "(16384 :: nat) + 20 \<le> 5 * 4096" "(16384 :: nat) < 4294967296" by simp_all
  obtain q n' m1 bs1 where 1: "m_alloc g (adr 16384) (mach r) = Some (Inr (adr q, m1))" "machine_ok bs1 S (c + p2 + p1 + 5) d (j + 7) m1"
    "(n', q) \<in> used_blocks heap_start bs1" "outside heap_start 1073741824 (ram (mach r)) (ram m1)"
    using machine_alloc_plain [OF m0 sz, of g] by (elim exE conjE) (rule that; assumption)
  have al: "m_alloc g 16384 (mach r) = Some (Inr (adr q, m1))" using 1(1) by (simp add: adr_def)
  have t: "128 < length (trap_handlers r)" using m(2) by simp
  obtain r1 where 2: "syscall_init g (grown_table l) (syscall_stub l) r = Some (Inr r1)"
    "trap_handlers r1 = (trap_handlers r)[128 := Syscall_handler]" "mach r1 = m1" "fs (os r1) = fs (os r)"
    "interrupts_enabled r1 = interrupts_enabled r"
    "\<forall>name ssi. syscall_stub_get (syscall_stubs r1) name ssi =
       Some (Inr (if c_part name \<in> set syscall_names then (syscall_stub l (c_part name), 0) else (ssi, - 1)))"
    using syscall_init_ok [OF al used_nonzero [OF 1(2,3)] t, of "grown_table l" "syscall_stub l"]
    by (elim exE conjE) (rule that; assumption)
  have m1: "machine_ok bs1 S (c + p2 + p1 + 5) d (j + 7) (machine (os r1))" using 1(2) 2(3) by simp
  have l1: "loaded (ram (machine (os r1))) A (image_of junk es)" using loaded_outside [OF l(1) 1(4) l(2)] 2(3) by simp
  have A1: "initrd_data (fs (os r1)) = adr A" "length (root_nodes (fs (os r1))) = 2" using A rn 2(4) by simp_all
  obtain s' b bs' where 3: "vfs_init g (os r1) = Some (Inr s')" "machine_ok bs' S c d j (machine s')" "serves A junk es b s'" "vfs_tree s'"
    using vfs_init_ok [OF m1 p l1 l(2) es A1, of g] by (elim exE conjE) (rule that; assumption)
  let ?r2 = "message (\<lambda>_. []) (''Starting processes and switching to user-mode...'' @ newline) []
      (message (\<lambda>_. []) (''Kernel initialization completed.'' @ newline) [] (with_os r1 s'))"
  have run: "setup_system g l r = Some (Inr ?r2)" using 2(1) 3(1) by (simp add: setup_system_def Let_def)
  have same: "mach ?r2 = machine s'" "fs (os ?r2) = fs s'" by simp_all
  have nd: "node_at (os ?r2) = node_at s'" by (simp add: node_at_def fun_eq_iff same)
  have "serves A junk es b (os ?r2)" using 3(3) unfolding serves_def nd same .
  moreover have "vfs_tree (os ?r2)" using 3(4) unfolding vfs_tree_def nd same .
  ultimately show ?thesis
    using run 3(2) 2(2,5,6) by (intro exI [of _ ?r2] exI [of _ b] exI [of _ bs']) simp
qed

text \<open>
  C1: the kernel starts.  From the state the boot loader leaves, with an image that the host
  program has packed in memory below the page directory, everything that \<open>main\<close> does
  before it makes the first process succeeds, without a second page table for the
  kernel.  Then the interrupts are enabled, the handlers of the timer, the page faults,
  the keyboard and the system calls are registered, every system call has its stub, the
  devices and every packed file are found under their paths, and reading a file gives
  its bytes.
\<close>

theorem kernel_boots:
  assumes w: "writer_main junk files args = Inr (0, Some img)" "\<forall>a \<in> set args. 0 \<notin> set a"
      "\<forall>a. case files a of None \<Rightarrow> True | Some c \<Rightarrow> length c < 4294967296" "distinct (map basename args)"
    and img: "initrd_data (fs (os (rawos s))) = adr A" "loaded (ram (mach (rawos s))) A img"
      "A + length img \<le> unat (directory_addr (final_kernel_code_data_addr (knl (rawos s))))"
    and mem: "behind_frames l \<noteq> []" "unat (directory_addr (final_kernel_code_data_addr (knl (rawos s)))) + 8192 \<le> 655360"
      "292 * length args + 20 \<le> p1 * 4096" "4 * length args + 20 \<le> p2 * 4096" "p1 + p2 \<le> 700"
    and tabs: "length (trap_handlers (rawos s)) = 256" "length (root_nodes (fs (os (rawos s)))) = 2"
  shows "\<exists>s'. kernel_setup g l s = Some (Inr s') \<and> interrupts_enabled (rawos s') \<and>
    trap_handlers (rawos s') = started_handlers (trap_handlers (rawos s)) \<and>
    (\<forall>name ssi. syscall_stub_get (syscall_stubs (rawos s')) name ssi =
       Some (Inr (if c_part name \<in> set syscall_names then (syscall_stub l (c_part name), 0) else (ssi, - 1)))) \<and>
    fs_util_get_node_by_path (chars_of ''/dev/screen'') (os (rawos s')) = Inr (screen_node (fs (os (rawos s')))) \<and>
    fs_util_get_node_by_path (chars_of ''/dev/keyboard'') (os (rawos s')) = Inr (keyboard_node (fs (os (rawos s')))) \<and>
    (\<forall>a \<in> set args. basename a \<noteq> [] \<and> 47 \<notin> set (basename a) \<longrightarrow>
       (\<exists>node. fs_util_get_node_by_path (chars_of ''/initrd/'' @ basename a) (os (rawos s')) = Inr node \<and>
          node \<noteq> 0 \<and> node_size (node_at (os (rawos s')) node) = of_nat (length (the (files a))) \<and>
          (\<forall>kerb ev off sz dst n. n = min sz (length (the (files a)) - off) \<and> off < 4294967296 \<and> sz < 4294967296 \<and>
               A + length img \<le> dst \<and> dst + n \<le> 0x40000000 \<longrightarrow>
             (\<exists>o1. vfs_read kerb ev node (adr off) (adr sz) (adr dst) (os (rawos s')) = Inr (adr n, o1) \<and>
                (\<forall>k < n. ram (machine o1) (adr (dst + k)) = the (files a) ! (off + k))))))"
proof -
  let ?es = "entries files args"
  let ?pd = "directory_addr (final_kernel_code_data_addr (knl (rawos s)))"
  note pe = packed_entries [OF w(1-3)]
  have len: "length ?es = length args" by (simp add: entries_def)
  obtain s1 where 1: "setup_devices l s = Inr s1" "mach (rawos s1) = mach (rawos s)" "fs (os (rawos s1)) = fs (os (rawos s))"
    "trap_handlers (rawos s1) = (trap_handlers (rawos s))[32 := Timer_interrupt_handler]"
    using setup_devices_ok [OF tabs(1), of l] by blast
  have m1: "unat (directory_addr (final_kernel_code_data_addr (knl (rawos s1)))) + 8192 \<le> 655360"
    "17 + (0 + p2 + p1 + 10) + 0 \<le> (768 :: nat)" "length (trap_handlers (rawos s1)) = 256"
    using mem(2,5) 1(2,4) tabs(1) by simp_all
  obtain r2 bs2 where 2: "setup_memory g l (rawos s1) = Some (Inr r2)" "machine_ok bs2 {} (0 + p2 + p1 + 10) 0 3275 (mach r2)"
    "fs (os r2) = fs (os (rawos s1))" "trap_handlers r2 = (trap_handlers (rawos s1))[14 := Page_fault_handler]"
    "\<forall>x < unat (directory_addr (final_kernel_code_data_addr (knl (rawos s1)))). ram (mach r2) (adr x) = ram (mach (rawos s1)) (adr x)"
    using setup_memory_ok [OF mem(1) m1, of g] by (elim exE conjE) (rule that; assumption)
  have t2: "length (trap_handlers (rawos (on_rawos s1 r2))) = 256" using 2(4) 1(4) tabs(1) by simp
  obtain s3 where 3: "setup_interrupts l (on_rawos s1 r2) = Inr s3" "mach (rawos s3) = mach r2" "fs (os (rawos s3)) = fs (os r2)"
    "trap_handlers (rawos s3) = (trap_handlers r2)[33 := Keyboard_interrupt_handler]" "interrupts_enabled (rawos s3)"
    using setup_interrupts_ok [OF t2, of l] unfolding on_rawos_simps by (elim exE conjE) (rule that; assumption)
  have m3: "machine_ok bs2 {} (0 + p2 + p1 + 10) 0 (3267 + 8) (mach (rawos s3))" "length (trap_handlers (rawos s3)) = 256"
    using 2(2) 3(2,4) t2 by simp_all
  have below: "A + length img \<le> heap_start" using img(3) mem(2) by linarith
  have "loaded (ram (mach (rawos s3))) A img"
    unfolding loaded_def
  proof (intro conjI allI impI)
    show "A + length img \<le> 4294967296" using below by simp
    fix k assume "k < length img"
    then show "ram (mach (rawos s3)) (adr (A + k)) = img ! k"
      using 2(5) 3(2) 1(2) img(3) loadedD [OF img(2), of k] by simp
  qed
  then have l3: "loaded (ram (mach (rawos s3))) A (image_of junk ?es)" "A + length (image_of junk ?es) \<le> heap_start"
    using below unfolding pe(1) .
  have A3: "initrd_data (fs (os (rawos s3))) = adr A" "length (root_nodes (fs (os (rawos s3)))) = 2"
    using img(1) tabs(2) 1(3) 2(3) 3(3) by simp_all
  obtain r4 b bs4 where 4: "setup_system g l (rawos s3) = Some (Inr r4)" "serves A junk ?es b (os r4)" "vfs_tree (os r4)"
    "trap_handlers r4 = (trap_handlers (rawos s3))[128 := Syscall_handler]" "interrupts_enabled r4 = interrupts_enabled (rawos s3)"
    "\<forall>name ssi. syscall_stub_get (syscall_stubs r4) name ssi =
       Some (Inr (if c_part name \<in> set syscall_names then (syscall_stub l (c_part name), 0) else (ssi, - 1)))"
    using setup_system_ok [OF m3 mem(3,4) [folded len] l3 pe(2) A3, of g l] by (elim exE conjE) (rule that; assumption)
  have run: "kernel_setup g l s = Some (Inr (on_rawos s3 r4))" using 1(1) 2(1) 3(1) 4(1) by (simp add: kernel_setup_def)
  have handlers: "trap_handlers r4 = started_handlers (trap_handlers (rawos s))"
    using 1(4) 2(4) 3(4) 4(4) by (simp add: started_handlers_def)
  have packed: "\<exists>node. fs_util_get_node_by_path (chars_of ''/initrd/'' @ basename a) (os r4) = Inr node \<and>
          node \<noteq> 0 \<and> node_size (node_at (os r4) node) = of_nat (length (the (files a))) \<and>
          (\<forall>kerb ev off sz dst n. n = min sz (length (the (files a)) - off) \<and> off < 4294967296 \<and> sz < 4294967296 \<and>
               A + length img \<le> dst \<and> dst + n \<le> 0x40000000 \<longrightarrow>
             (\<exists>o1. vfs_read kerb ev node (adr off) (adr sz) (adr dst) (os r4) = Inr (adr n, o1) \<and>
                (\<forall>k < n. ram (machine o1) (adr (dst + k)) = the (files a) ! (off + k))))"
    if a: "a \<in> set args" "basename a \<noteq> [] \<and> 47 \<notin> set (basename a)" for a
  proof -
    obtain node where 5: "initrd_lookup (initrd_root_node (fs (os r4))) (basename a) (os r4) = Inr node" "node \<noteq> 0"
      "read_fn (node_at (os r4) node) = Initrd_read" "node_size (node_at (os r4) node) = of_nat (length (the (files a)))"
      and r: "\<forall>off sz dst n. n = min sz (length (the (files a)) - off) \<and> off < 4294967296 \<and> sz < 4294967296 \<and>
            A + length (image_of junk ?es) \<le> dst \<and> dst + n \<le> 0x40000000 \<longrightarrow>
          (\<exists>s''. initrd_read node (adr off) (adr sz) (adr dst) (os r4) = Inr (adr n, s'') \<and>
             (\<forall>k < n. ram (machine s'') (adr (dst + k)) = the (files a) ! (off + k)))"
      using served_file [OF 4(2) a(1) w(4) pe(3) [OF a(1)]] by (elim exE conjE) (rule that; assumption)
    have "fs_util_get_node_by_path (chars_of ''/initrd/'' @ basename a) (os r4) = Inr node"
      using tree_path_initrd [OF 4(3) _ _ pe(4) [OF a(1)] 5(1)] a(2) by blast
    moreover have "vfs_read kerb ev node off sz dst (os r4) = initrd_read node off sz dst (os r4)" for kerb ev off sz dst
      using 5(2,3) by (simp add: vfs_read_def)
    ultimately show ?thesis using 5(2,4) r unfolding pe(1) by (intro exI [of _ node]) simp
  qed
  show ?thesis
    by (intro exI [of _ "on_rawos s3 r4"] conjI ballI impI; (unfold on_rawos_simps)?;
      (fact run | fact handlers | fact 4(6) | rule tree_path_dev [OF 4(3)] | rule packed; assumption)?)
      (simp_all add: 3(5) 4(5))
qed

definition sample_linked :: Linked where
  "sample_linked = \<lparr>gdt_entries_address = 0, tss_address = 0, interrupt_stub = \<lambda>_. 0,
     syscall_stub = \<lambda>n. \<lparr>syscall_stub_address = 0x1000, syscall_stub_size = of_nat (length n)\<rparr>,
     behind_frames = [0], grown_table = id\<rparr>"

definition sample_system :: System where
  "sample_system = \<lparr>rawos = sys_with \<lparr>heap = sample_heap, ram = sample_memory, kern = raw_kernel\<rparr>, gdt = gdt_init 0 0,
     hw = \<lparr>idt = \<lparr>descriptors = [], limit = 0, base = 0\<rparr>, idtr = 0, enabled = False, pic_ports = [], interrupt_handlers = []\<rparr>,
     ticks = 0\<rparr>"

theorem kernel_boots_witness:
  "\<exists>s' node o1. kernel_setup True sample_linked sample_system = Some (Inr s') \<and> interrupts_enabled (rawos s') \<and>
     trap_handlers (rawos s') ! 128 = Syscall_handler \<and>
     syscall_stub_get (syscall_stubs (rawos s')) FORK_SYSCALL_NAME \<lparr>syscall_stub_address = 0, syscall_stub_size = 0\<rparr> =
       Some (Inr (\<lparr>syscall_stub_address = 0x1000, syscall_stub_size = 4\<rparr>, 0)) \<and>
     fs_util_get_node_by_path (chars_of ''/initrd/a'') (os (rawos s')) = Inr node \<and>
     vfs_read 0 [] node (adr 1) (adr 10) (adr 1048576) (os (rawos s')) = Inr (adr 2, o1) \<and>
     ram (machine o1) (adr 1048576) = 2 \<and> ram (machine o1) (adr 1048577) = 3"
proof -
  let ?s = sample_system
  have f: "mach (rawos ?s) = \<lparr>heap = sample_heap, ram = sample_memory, kern = raw_kernel\<rparr>" "fs (os (rawos ?s)) = sample_fs"
    "trap_handlers (rawos ?s) = replicate 256 No_trap"
    by (simp_all add: sample_system_def sys_with_def os_with_def)
  have dir: "unat (directory_addr (final_kernel_code_data_addr (knl (rawos ?s)))) = 77824"
    by (simp add: f raw_kernel_def directory_addr_def)
  have ch: "\<forall>a \<in> set sample_args. 0 \<notin> set a" "distinct (map basename sample_args)"
    "\<forall>a. case sample_files a of None \<Rightarrow> True | Some c \<Rightarrow> length c < 4294967296"
    by (simp_all add: sample_args_def basename_def sample_files_def)
  have d: "initrd_data (fs (os (rawos ?s))) = adr 65536" by (simp add: f sample_fs_def adr_def)
  have "loaded sample_memory 65536 sample_image"
    unfolding loaded_def sample_image_length by (auto simp: sample_memory_def sample_image_length)
  then have l: "loaded (ram (mach (rawos ?s))) 65536 sample_image" by (simp add: f)
  have below: "65536 + length sample_image \<le> unat (directory_addr (final_kernel_code_data_addr (knl (rawos ?s))))"
    unfolding dir sample_image_length by simp
  have b: "behind_frames sample_linked \<noteq> []" by (simp add: sample_linked_def)
  have low: "unat (directory_addr (final_kernel_code_data_addr (knl (rawos ?s)))) + 8192 \<le> 655360" unfolding dir by simp
  have pg: "292 * length sample_args + 20 \<le> 1 * 4096" "4 * length sample_args + 20 \<le> 1 * 4096" "1 + 1 \<le> (700 :: nat)"
    by (simp_all add: sample_args_def)
  have tabs: "length (trap_handlers (rawos ?s)) = 256" "length (root_nodes (fs (os (rawos ?s)))) = 2"
    by (simp_all add: f sample_fs_def)
  obtain s' where 1: "kernel_setup True sample_linked ?s = Some (Inr s')" "interrupts_enabled (rawos s')"
    "trap_handlers (rawos s') = started_handlers (trap_handlers (rawos ?s))"
    "\<forall>name ssi. syscall_stub_get (syscall_stubs (rawos s')) name ssi =
       Some (Inr (if c_part name \<in> set syscall_names then (syscall_stub sample_linked (c_part name), 0) else (ssi, - 1)))"
    and rd: "\<forall>a \<in> set sample_args. basename a \<noteq> [] \<and> 47 \<notin> set (basename a) \<longrightarrow>
       (\<exists>node. fs_util_get_node_by_path (chars_of ''/initrd/'' @ basename a) (os (rawos s')) = Inr node \<and>
          node \<noteq> 0 \<and> node_size (node_at (os (rawos s')) node) = of_nat (length (the (sample_files a))) \<and>
          (\<forall>kerb ev off sz dst n. n = min sz (length (the (sample_files a)) - off) \<and> off < 4294967296 \<and> sz < 4294967296 \<and>
               65536 + length sample_image \<le> dst \<and> dst + n \<le> 0x40000000 \<longrightarrow>
             (\<exists>o1. vfs_read kerb ev node (adr off) (adr sz) (adr dst) (os (rawos s')) = Inr (adr n, o1) \<and>
                (\<forall>k < n. ram (machine o1) (adr (dst + k)) = the (sample_files a) ! (off + k)))))"
    using kernel_boots [OF sample_writer ch(1,3,2) d l below b low pg tabs, of True] by (elim exE conjE) (rule that; assumption)
  have a: "[97] \<in> set sample_args" "basename [97] = [97]" "the (sample_files [97]) = [1, 2, 3]"
    by (simp_all add: sample_args_def basename_def sample_files_def)
  have "[97] \<noteq> [] \<and> 47 \<notin> set [97 :: u8]" by simp
  with rd [rule_format, OF a(1)] obtain node where
    2: "fs_util_get_node_by_path (chars_of ''/initrd/'' @ [97]) (os (rawos s')) = Inr node" and
    r: "\<forall>kerb ev off sz dst n. n = min sz (length [1 :: u8, 2, 3] - off) \<and> off < 4294967296 \<and> sz < 4294967296 \<and>
               65536 + length sample_image \<le> dst \<and> dst + n \<le> 0x40000000 \<longrightarrow>
             (\<exists>o1. vfs_read kerb ev node (adr off) (adr sz) (adr dst) (os (rawos s')) = Inr (adr n, o1) \<and>
                (\<forall>k < n. ram (machine o1) (adr (dst + k)) = [1, 2, 3] ! (off + k)))"
    unfolding a(2,3) by blast
  have "\<exists>o1. vfs_read 0 [] node (adr 1) (adr 10) (adr 1048576) (os (rawos s')) = Inr (adr 2, o1) \<and>
      (\<forall>k < 2. ram (machine o1) (adr (1048576 + k)) = [1, 2, 3] ! (1 + k))"
    by (rule r [rule_format, of 2 10 1 1048576]) (simp add: sample_image_length)
  then obtain o1 where 3: "vfs_read 0 [] node (adr 1) (adr 10) (adr 1048576) (os (rawos s')) = Inr (adr 2, o1)"
    "\<forall>k < 2. ram (machine o1) (adr (1048576 + k)) = [1, 2, 3] ! (1 + k)" by blast
  have "ram (machine o1) (adr 1048576) = 2" "ram (machine o1) (adr 1048577) = 3"
    using 3(2) [rule_format, of 0] 3(2) [rule_format, of 1] by simp_all
  moreover have "chars_of ''/initrd/'' @ [97] = chars_of ''/initrd/a''" by (simp add: chars_of_def)
  moreover have "trap_handlers (rawos s') ! 128 = Syscall_handler" by (simp add: 1(3) started_handlers_def f)
  moreover have fork: "c_part FORK_SYSCALL_NAME = FORK_SYSCALL_NAME" "FORK_SYSCALL_NAME \<in> set syscall_names" "length FORK_SYSCALL_NAME = 4"
    by (simp_all add: FORK_SYSCALL_NAME_def chars_of_def syscall_names_def)
  have "syscall_stub_get (syscall_stubs (rawos s')) FORK_SYSCALL_NAME \<lparr>syscall_stub_address = 0, syscall_stub_size = 0\<rparr> =
       Some (Inr (\<lparr>syscall_stub_address = 0x1000, syscall_stub_size = 4\<rparr>, 0))"
    unfolding 1(4) [rule_format] fork(1) using fork(2,3) by (simp add: sample_linked_def)
  ultimately show ?thesis
    using 1(1,2) 2 3(1) by (intro exI [of _ s'] exI [of _ node] exI [of _ o1]) simp
qed

end
