(* ===== verification/Spec2Isabelle.thy ===== *)
theory Spec2Isabelle
  imports Bitmap Kalloc_Avl_Correct Hash_Map Printf Interrupt Keyboard Gdt Timer Paging_Init Vfs_Correct Process_Exit Kernel_Main_Correct
begin

text \<open>rawOS\<close>

end
